(* ===== verification/Prelude.thy ===== *)
theory Prelude
  imports Main "HOL-Library.Char_ord" "HOL-Library.List_Lexorder" "HOL-Library.Sublist"
    "HOL-Library.AList"
begin

text \<open>
  What every component of the development shares.

  \<^item> Bytes and text. A Rust \<open>Vec<u8>\<close>/\<open>&[u8]\<close> and a Rust \<open>String\<close>/\<open>&str\<close> are both lists of
    8-bit characters: a string is the list of its UTF-8 bytes, so \<open>len()\<close> is \<open>length\<close> and
    the order of keys is the byte order of the imported lexicographic order.
    The functions of the standard library the code calls on text (\<open>split\<close>,
    \<open>strip_prefix\<close>, \<open>strip_suffix\<close>, \<open>contains\<close>, \<open>trim\<close>, \<open>from_utf8\<close>) are written out here.
  \<^item> Errors are values: \<open>error\<close> is the boxed error of the crates, and an operation that can
    fail returns a sum with the error on the left.
  \<^item> Effects are state passing: an operation is a function from the world to a result and
    the next world. Every primitive that reaches the network or the disk consults a fault
    schedule first (\<open>io_step\<close>), so a theorem about an operation covers a failure of any of
    its primitives at any point.
\<close>

named_theorems io_simps \<open>unfolding of the effect combinators\<close>
named_theorems keeps_intros \<open>an operation keeps an invariant of the world, failing or not\<close>
named_theorems wire_simps \<open>facts on the wire format\<close>

type_synonym bytes = "char list"

section \<open>Text as Rust's standard library treats it\<close>

definition starts_with :: "string \<Rightarrow> string \<Rightarrow> bool" where
  "starts_with s p \<longleftrightarrow> prefix p s"

definition ends_with :: "string \<Rightarrow> string \<Rightarrow> bool" where
  "ends_with s p \<longleftrightarrow> suffix p s"

definition strip_prefix :: "string \<Rightarrow> string \<Rightarrow> string option" where
  "strip_prefix p s = (if prefix p s then Some (drop (length p) s) else None)"

definition strip_suffix :: "string \<Rightarrow> string \<Rightarrow> string option" where
  "strip_suffix p s =
     (if suffix p s then Some (take (length s - length p) s) else None)"

definition str_contains :: "string \<Rightarrow> string \<Rightarrow> bool" where
  "str_contains s p \<longleftrightarrow> sublist p s"

text \<open>\<open>str::split(c)\<close>: always at least one piece, and the pieces hold no \<open>c\<close>.\<close>

fun split_on :: "char \<Rightarrow> string \<Rightarrow> string list" where
  "split_on c [] = [[]]"
| "split_on c (x # xs) =
     (if x = c then [] # split_on c xs
      else (case split_on c xs of [] \<Rightarrow> [[x]] | p # ps \<Rightarrow> (x # p) # ps))"

fun join_with :: "char \<Rightarrow> string list \<Rightarrow> string" where
  "join_with c [] = []"
| "join_with c [p] = p"
| "join_with c (p # ps) = p @ c # join_with c ps"

text \<open>\<open>slice::chunks\<close>: pieces of \<open>n\<close>, the last one as short as it is; no piece of nothing.\<close>

fun chunks :: "nat \<Rightarrow> 'a list \<Rightarrow> 'a list list" where
  "chunks n xs = (if xs = [] \<or> n = 0 then [] else take n xs # chunks n (drop n xs))"

declare chunks.simps [simp del]

text \<open>
  \<open>char::is_whitespace\<close> is Unicode's \<open>White_Space\<close>; these are the UTF-8 encodings of its
  members, and \<open>trim\<close> removes any run of them from both ends.
\<close>

definition white_spaces :: "string list" where
  "white_spaces =
     [[CHR 0x09], [CHR 0x0A], [CHR 0x0B], [CHR 0x0C], [CHR 0x0D], [CHR 0x20],
      [CHR 0xC2, CHR 0x85], [CHR 0xC2, CHR 0xA0], [CHR 0xE1, CHR 0x9A, CHR 0x80],
      [CHR 0xE2, CHR 0x80, CHR 0x80], [CHR 0xE2, CHR 0x80, CHR 0x81], [CHR 0xE2, CHR 0x80, CHR 0x82],
      [CHR 0xE2, CHR 0x80, CHR 0x83], [CHR 0xE2, CHR 0x80, CHR 0x84], [CHR 0xE2, CHR 0x80, CHR 0x85],
      [CHR 0xE2, CHR 0x80, CHR 0x86], [CHR 0xE2, CHR 0x80, CHR 0x87], [CHR 0xE2, CHR 0x80, CHR 0x88],
      [CHR 0xE2, CHR 0x80, CHR 0x89], [CHR 0xE2, CHR 0x80, CHR 0x8A], [CHR 0xE2, CHR 0x80, CHR 0xA8],
      [CHR 0xE2, CHR 0x80, CHR 0xA9], [CHR 0xE2, CHR 0x80, CHR 0xAF], [CHR 0xE2, CHR 0x81, CHR 0x9F],
      [CHR 0xE3, CHR 0x80, CHR 0x80]]"

fun strip_first :: "string list \<Rightarrow> string \<Rightarrow> string option" where
  "strip_first [] s = None"
| "strip_first (w # ws) s = (case strip_prefix w s of Some r \<Rightarrow> Some r | None \<Rightarrow> strip_first ws s)"

fun trim_run :: "string list \<Rightarrow> nat \<Rightarrow> string \<Rightarrow> string" where
  "trim_run ws 0 s = s"
| "trim_run ws (Suc n) s = (case strip_first ws s of Some r \<Rightarrow> trim_run ws n r | None \<Rightarrow> s)"

definition trim_start :: "string \<Rightarrow> string" where
  "trim_start s = trim_run white_spaces (length s) s"

definition trim_end :: "string \<Rightarrow> string" where
  "trim_end s = rev (trim_run (map rev white_spaces) (length s) (rev s))"

definition trim :: "string \<Rightarrow> string" where
  "trim s = trim_end (trim_start s)"

text \<open>\<open>str::from_utf8\<close>: well-formed UTF-8, neither overlong forms nor surrogates.\<close>

definition byte_of :: "char \<Rightarrow> nat" where
  "byte_of c = of_char c"

definition in_range :: "nat \<Rightarrow> nat \<Rightarrow> char \<Rightarrow> bool" where
  "in_range lo hi c \<longleftrightarrow> lo \<le> byte_of c \<and> byte_of c \<le> hi"

abbreviation continuation :: "char \<Rightarrow> bool" where
  "continuation \<equiv> in_range 0x80 0xBF"

fun utf8_valid :: "bytes \<Rightarrow> bool" where
  "utf8_valid [] = True"
| "utf8_valid (a # xs) =
     (if byte_of a < 0x80 then utf8_valid xs
      else if in_range 0xC2 0xDF a then
        (case xs of b # ys \<Rightarrow> continuation b \<and> utf8_valid ys | [] \<Rightarrow> False)
      else if in_range 0xE0 0xEF a then
        (case xs of b # c # ys \<Rightarrow>
           in_range (if byte_of a = 0xE0 then 0xA0 else 0x80)
             (if byte_of a = 0xED then 0x9F else 0xBF) b
           \<and> continuation c \<and> utf8_valid ys
         | _ \<Rightarrow> False)
      else if in_range 0xF0 0xF4 a then
        (case xs of b # c # d # ys \<Rightarrow>
           in_range (if byte_of a = 0xF0 then 0x90 else 0x80)
             (if byte_of a = 0xF4 then 0x8F else 0xBF) b
           \<and> continuation c \<and> continuation d \<and> utf8_valid ys
         | _ \<Rightarrow> False)
      else False)"

text \<open>
  \<open>String::from_utf8_lossy\<close>: every maximal ill-formed piece becomes one U+FFFD.
  \<open>utf8_step\<close> looks at the front: whether a character stands there, and how many bytes it or
  the ill-formed piece takes.
\<close>

fun utf8_step :: "bytes \<Rightarrow> bool \<times> nat" where
  "utf8_step [] = (False, 0)"
| "utf8_step (a # xs) =
     (if byte_of a < 0x80 then (True, 1)
      else if in_range 0xC2 0xDF a then
        (case xs of [] \<Rightarrow> (False, 1) | b # _ \<Rightarrow> if continuation b then (True, 2) else (False, 1))
      else if in_range 0xE0 0xEF a then
        (case xs of [] \<Rightarrow> (False, 1)
         | b # ys \<Rightarrow>
             if \<not> in_range (if byte_of a = 0xE0 then 0xA0 else 0x80)
                  (if byte_of a = 0xED then 0x9F else 0xBF) b then (False, 1)
             else (case ys of [] \<Rightarrow> (False, 2)
                   | c # _ \<Rightarrow> if continuation c then (True, 3) else (False, 2)))
      else if in_range 0xF0 0xF4 a then
        (case xs of [] \<Rightarrow> (False, 1)
         | b # ys \<Rightarrow>
             if \<not> in_range (if byte_of a = 0xF0 then 0x90 else 0x80)
                  (if byte_of a = 0xF4 then 0x8F else 0xBF) b then (False, 1)
             else (case ys of [] \<Rightarrow> (False, 2)
                   | c # zs \<Rightarrow>
                       if \<not> continuation c then (False, 2)
                       else (case zs of [] \<Rightarrow> (False, 3)
                             | d # _ \<Rightarrow> if continuation d then (True, 4) else (False, 3))))
      else (False, 1))"

lemma utf8_step_pos: "0 < snd (utf8_step (a # xs))"
  by (auto split: list.splits if_splits)

function from_utf8_lossy :: "bytes \<Rightarrow> string" where
  "from_utf8_lossy [] = []"
| "from_utf8_lossy (a # xs) =
     (let st = utf8_step (a # xs)
      in (if fst st then take (snd st) (a # xs) else [CHR 0xEF, CHR 0xBF, CHR 0xBD])
         @ from_utf8_lossy (drop (snd st) (a # xs)))"
  by pat_completeness auto
termination
  by (relation "measure length") (use utf8_step_pos in \<open>simp_all del: utf8_step.simps\<close>)

declare from_utf8_lossy.simps [simp del]

text \<open>\<open>str::is_char_boundary\<close>: an end of the string or a byte that starts a character.\<close>

definition is_char_boundary :: "string \<Rightarrow> nat \<Rightarrow> bool" where
  "is_char_boundary s i \<longleftrightarrow>
     i = 0 \<or> i = length s \<or> (i < length s \<and> \<not> continuation (s ! i))"

text \<open>
  Numbers as text: \<open>from_str_radix\<close> of an unsigned type of the given bound (one leading \<open>+\<close> is
  accepted, both cases of a digit are), and the \<open>{:x}\<close> and \<open>{}\<close> formats.
\<close>

definition to_digit :: "nat \<Rightarrow> char \<Rightarrow> nat option" where
  "to_digit radix c =
     (let d = (if in_range 0x30 0x39 c then Some (byte_of c - 0x30)
               else if in_range 0x61 0x66 c then Some (byte_of c - 0x61 + 10)
               else if in_range 0x41 0x46 c then Some (byte_of c - 0x41 + 10) else None)
      in case d of None \<Rightarrow> None | Some n \<Rightarrow> if n < radix then Some n else None)"

fun digits_value :: "nat \<Rightarrow> nat \<Rightarrow> string \<Rightarrow> nat option" where
  "digits_value radix acc [] = Some acc"
| "digits_value radix acc (c # cs) =
     (case to_digit radix c of None \<Rightarrow> None | Some d \<Rightarrow> digits_value radix (acc * radix + d) cs)"

definition from_str_radix :: "nat \<Rightarrow> nat \<Rightarrow> string \<Rightarrow> nat option" where
  "from_str_radix bound radix s =
     (let digits = (if s \<noteq> [] \<and> hd s = CHR ''+'' \<and> tl s \<noteq> [] then tl s else s)
      in if digits = [] then None
         else case digits_value radix 0 digits of
           None \<Rightarrow> None | Some v \<Rightarrow> if v < bound then Some v else None)"

abbreviation u64_bound :: nat where "u64_bound \<equiv> 18446744073709551616"

abbreviation parse_u64 :: "string \<Rightarrow> nat option" where
  "parse_u64 \<equiv> from_str_radix u64_bound 10"

definition digit_char :: "nat \<Rightarrow> char" where
  "digit_char d = ''0123456789abcdef'' ! d"

fun to_radix :: "nat \<Rightarrow> nat \<Rightarrow> string" where
  "to_radix r n =
     (if n < r \<or> r < 2 then [digit_char n] else to_radix r (n div r) @ [digit_char (n mod r)])"

declare to_radix.simps [simp del]

abbreviation to_decimal :: "nat \<Rightarrow> string" where
  "to_decimal \<equiv> to_radix 10"

text \<open>The same for \<open>i64\<close>.\<close>

abbreviation i64_bound :: nat where "i64_bound \<equiv> 9223372036854775808"

definition show_int :: "int \<Rightarrow> string" where
  "show_int i = (if i < 0 then CHR ''-'' # to_decimal (nat (- i)) else to_decimal (nat i))"

definition parse_i64 :: "string \<Rightarrow> int option" where
  "parse_i64 s =
     (if s \<noteq> [] \<and> hd s = CHR ''-'' \<and> tl s \<noteq> []
      then (case digits_value 10 0 (tl s) of
              None \<Rightarrow> None | Some v \<Rightarrow> if v \<le> i64_bound then Some (- int v) else None)
      else map_option int (from_str_radix i64_bound 10 s))"

text \<open>\<open>str::split_once\<close>.\<close>

fun split_once :: "char \<Rightarrow> string \<Rightarrow> (string \<times> string) option" where
  "split_once c [] = None"
| "split_once c (x # xs) =
     (if x = c then Some ([], xs) else map_option (\<lambda>(a, b). (x # a, b)) (split_once c xs))"

definition pad_left :: "nat \<Rightarrow> string \<Rightarrow> string" where
  "pad_left w s = replicate (w - length s) (CHR ''0'') @ s"

lemma chunks_Nil [simp]: "chunks n [] = []"
  by (simp add: chunks.simps)

lemma concat_chunks: "0 < n \<Longrightarrow> concat (chunks n xs) = xs"
proof (induction n xs rule: chunks.induct)
  case (1 n xs)
  then show ?case by (cases "xs = []") (simp_all add: chunks.simps [of n xs])
qed

lemma chunks_length: "c \<in> set (chunks n xs) \<Longrightarrow> c \<noteq> [] \<and> length c \<le> n"
proof (induction n xs rule: chunks.induct)
  case (1 n xs)
  then show ?case by (auto simp: chunks.simps [of n xs] split: if_splits)
qed

lemma split_on_ne [simp]: "split_on c s \<noteq> []"
  by (cases s) (auto split: list.splits)

lemma split_on_no_sep: "p \<in> set (split_on c s) \<Longrightarrow> c \<notin> set p"
  by (induction c s arbitrary: p rule: split_on.induct) (fastforce split: list.splits if_splits)+

lemma join_with_Cons: "ps \<noteq> [] \<Longrightarrow> join_with c (p # ps) = p @ c # join_with c ps"
  by (cases ps) auto

lemma join_split_on: "join_with c (split_on c s) = s"
proof (induction s)
  case (Cons x xs)
  show ?case
  proof (cases "split_on c xs")
    case (Cons p ps)
    then show ?thesis
      using \<open>join_with c (split_on c xs) = xs\<close> by (cases ps) (auto simp: join_with_Cons)
  qed simp
qed simp

lemma split_on_id: "c \<notin> set s \<Longrightarrow> split_on c s = [s]"
  by (induction s) auto

lemma split_on_append: "c \<notin> set p \<Longrightarrow> split_on c (p @ c # s) = p # split_on c s"
  by (induction p) auto

lemma split_join:
  "ps \<noteq> [] \<Longrightarrow> (\<And>p. p \<in> set ps \<Longrightarrow> c \<notin> set p) \<Longrightarrow> split_on c (join_with c ps) = ps"
proof (induction ps)
  case (Cons p ps)
  then show ?case by (cases ps) (auto simp: split_on_id split_on_append)
qed simp

text \<open>The first occurrence of a separator splits a text in one way only.\<close>

lemma sep_inj:
  "c \<notin> set a \<Longrightarrow> c \<notin> set b \<Longrightarrow> a @ c # x = b @ c # y \<longleftrightarrow> a = b \<and> x = y"
proof (induction a arbitrary: b)
  case Nil
  then show ?case by (cases b) auto
next
  case (Cons d a)
  then show ?case by (cases b) auto
qed

lemma strip_prefix_append [simp]: "strip_prefix p (p @ s) = Some s"
  by (simp add: strip_prefix_def)

lemma strip_prefix_Some: "strip_prefix p s = Some r \<longleftrightarrow> s = p @ r"
  by (auto simp: strip_prefix_def prefix_def)

lemma strip_suffix_append [simp]: "strip_suffix p (s @ p) = Some s"
  by (simp add: strip_suffix_def suffix_def)

lemma strip_suffix_Some: "strip_suffix p s = Some r \<longleftrightarrow> s = r @ p"
  by (auto simp: strip_suffix_def suffix_def)

lemma starts_with_append [simp]: "starts_with (p @ s) p"
  by (simp add: starts_with_def)

lemma less16: "(d::nat) < 16 \<Longrightarrow> d = 0 \<or> d = 1 \<or> d = 2 \<or> d = 3 \<or> d = 4 \<or> d = 5 \<or> d = 6 \<or> d = 7
    \<or> d = 8 \<or> d = 9 \<or> d = 10 \<or> d = 11 \<or> d = 12 \<or> d = 13 \<or> d = 14 \<or> d = 15"
  by presburger

lemma to_digit_digit_char:
  assumes "d < r" and "r \<le> 16"
  shows "to_digit r (digit_char d) = Some d"
proof -
  have "d < 16" using assms by simp
  then show ?thesis using assms(1)
    by (elim less16 [THEN disjE, rule_format] disjE)
      (simp_all add: to_digit_def digit_char_def in_range_def byte_of_def)
qed

lemma digits_value_append:
  "digits_value r a (xs @ ys) =
     (case digits_value r a xs of None \<Rightarrow> None | Some b \<Rightarrow> digits_value r b ys)"
  by (induction r a xs rule: digits_value.induct) (auto split: option.splits)

lemma digits_value_to_radix:
  "2 \<le> r \<Longrightarrow> r \<le> 16 \<Longrightarrow> digits_value r 0 (to_radix r n) = Some n"
proof (induction r n rule: to_radix.induct)
  case (1 r n)
  show ?case
  proof (cases "n < r")
    case True
    with 1 show ?thesis
      by (simp add: to_radix.simps [of r n] to_digit_digit_char)
  next
    case False
    with 1 have "digits_value r 0 (to_radix r (n div r)) = Some (n div r)" by simp
    with False 1 show ?thesis
      by (simp add: to_radix.simps [of r n] digits_value_append to_digit_digit_char)
  qed
qed

lemma digits_value_zeros: "2 \<le> r \<Longrightarrow> digits_value r 0 (replicate n (CHR ''0'') @ s) = digits_value r 0 s"
  by (induction n) (auto simp: to_digit_def in_range_def byte_of_def)

lemma to_radix_ne [simp]: "to_radix r n \<noteq> []"
  by (subst to_radix.simps) simp

lemma digit_char_ascii:
  assumes "d < 16"
  shows "byte_of (digit_char d) < 0x80 \<and> digit_char d \<noteq> CHR ''+''"
  using less16 [OF assms] by (auto simp: digit_char_def byte_of_def)

lemma to_radix_ascii:
  "2 \<le> r \<Longrightarrow> r \<le> 16 \<Longrightarrow> c \<in> set (to_radix r n) \<Longrightarrow> byte_of c < 0x80 \<and> c \<noteq> CHR ''+''"
proof (induction r n rule: to_radix.induct)
  case (1 r n)
  show ?case
  proof (cases "n < r")
    case True
    with 1 digit_char_ascii [of n] show ?thesis by (simp add: to_radix.simps [of r n])
  next
    case False
    have "n mod r < 16" using 1 mod_less_divisor [of r n] by linarith
    with False 1 digit_char_ascii [of "n mod r"] show ?thesis
      by (auto simp: to_radix.simps [of r n])
  qed
qed

lemma to_radix_inj: "2 \<le> r \<Longrightarrow> r \<le> 16 \<Longrightarrow> to_radix r m = to_radix r n \<longleftrightarrow> m = n"
  by (metis digits_value_to_radix option.inject)

lemma digit_char_range: "d < 16 \<Longrightarrow> digit_char d \<in> set ''0123456789abcdef''"
  unfolding digit_char_def by (rule nth_mem) simp

lemma set_to_radix: "2 \<le> r \<Longrightarrow> r \<le> 16 \<Longrightarrow> set (to_radix r n) \<subseteq> set ''0123456789abcdef''"
proof (induction r n rule: to_radix.induct)
  case (1 r n)
  show ?case
  proof (cases "n < r")
    case True
    with 1 digit_char_range [of n] show ?thesis by (simp add: to_radix.simps [of r n])
  next
    case False
    have "n mod r < 16" using 1 mod_less_divisor [of r n] by linarith
    with False 1 digit_char_range [of "n mod r"] show ?thesis by (simp add: to_radix.simps [of r n])
  qed
qed

lemma length_to_radix: "2 \<le> r \<Longrightarrow> n < r ^ k \<Longrightarrow> 0 < k \<Longrightarrow> length (to_radix r n) \<le> k"
proof (induction r n arbitrary: k rule: to_radix.induct)
  case (1 r n)
  show ?case
  proof (cases "n < r")
    case True
    with 1 show ?thesis by (simp add: to_radix.simps [of r n])
  next
    case False
    then obtain j where k: "k = Suc j" and "0 < j"
    proof (cases k)
      case (Suc j)
      with 1(3) False have "j \<noteq> 0" by (cases j) auto
      with Suc that show ?thesis by simp
    qed (use 1(4) in simp)
    have "n div r < r ^ j"
      using 1(2,3) k by (simp add: less_mult_imp_div_less mult.commute)
    with 1 False k \<open>0 < j\<close> show ?thesis by (simp add: to_radix.simps [of r n])
  qed
qed

lemma utf8_valid_ascii: "(\<And>c. c \<in> set s \<Longrightarrow> byte_of c < 0x80) \<Longrightarrow> utf8_valid s"
  by (induction s) auto

lemma utf8_valid_ascii_append:
  "(\<And>c. c \<in> set s \<Longrightarrow> byte_of c < 0x80) \<Longrightarrow> utf8_valid (s @ t) = utf8_valid t"
  by (induction s) auto

lemma utf8_valid_step:
  assumes "utf8_valid (a # xs)"
  shows "fst (utf8_step (a # xs)) \<and> utf8_valid (drop (snd (utf8_step (a # xs))) (a # xs))"
proof -
  consider (one) "byte_of a < 0x80"
    | (two) "\<not> byte_of a < 0x80" "in_range 0xC2 0xDF a"
    | (three) "\<not> byte_of a < 0x80" "\<not> in_range 0xC2 0xDF a" "in_range 0xE0 0xEF a"
    | (four) "\<not> byte_of a < 0x80" "\<not> in_range 0xC2 0xDF a" "\<not> in_range 0xE0 0xEF a"
        "in_range 0xF0 0xF4 a"
    using assms by (auto split: if_splits)
  then show ?thesis
  proof cases
    case two
    with assms show ?thesis by (cases xs) simp_all
  next
    case three
    with assms show ?thesis by (cases xs; cases "tl xs") simp_all
  next
    case four
    with assms show ?thesis by (cases xs; cases "tl xs"; cases "tl (tl xs)") simp_all
  qed (use assms in simp)
qed

lemma from_utf8_lossy_valid: "utf8_valid s \<Longrightarrow> from_utf8_lossy s = s"
proof (induction s rule: from_utf8_lossy.induct)
  case (2 a xs)
  from utf8_valid_step [OF 2(2)] 2(1) [OF refl] show ?case
    by (simp add: from_utf8_lossy.simps Let_def del: utf8_step.simps utf8_valid.simps)
qed (simp add: from_utf8_lossy.simps)

lemma utf8_valid_append_ascii:
  "utf8_valid s \<Longrightarrow> (\<And>c. c \<in> set t \<Longrightarrow> byte_of c < 0x80) \<Longrightarrow> utf8_valid (s @ t)"
  by (induction s rule: utf8_valid.induct)
    (auto simp: utf8_valid_ascii split: if_splits list.splits)

lemma parse_decimal: "n < bound \<Longrightarrow> from_str_radix bound 10 (to_decimal n) = Some n"
proof -
  assume "n < bound"
  moreover have "hd (to_decimal n) \<noteq> CHR ''+''"
    using to_radix_ascii [of 10 "hd (to_decimal n)" n] by simp
  ultimately show ?thesis
    by (simp add: from_str_radix_def digits_value_to_radix)
qed

lemma hd_to_radix: "2 \<le> r \<Longrightarrow> r \<le> 16 \<Longrightarrow> hd (to_radix r n) \<in> set ''0123456789abcdef''"
  using set_to_radix [of r n] hd_in_set [OF to_radix_ne [of r n]] by blast

lemma parse_show_int:
  assumes "- int i64_bound \<le> i" and "i < int i64_bound"
  shows "parse_i64 (show_int i) = Some i"
proof (cases "i < 0")
  case True
  then have "digits_value 10 0 (to_decimal (nat (- i))) = Some (nat (- i))"
    by (simp add: digits_value_to_radix)
  with True assms show ?thesis by (simp add: parse_i64_def show_int_def)
next
  case False
  have "hd (to_decimal (nat i)) \<noteq> CHR ''-''" using hd_to_radix [of 10 "nat i"] by auto
  moreover have "from_str_radix i64_bound 10 (to_decimal (nat i)) = Some (nat i)"
    by (rule parse_decimal) (use False assms in simp)
  ultimately show ?thesis using False by (simp add: parse_i64_def show_int_def)
qed

lemma set_show_int: "set (show_int i) \<subseteq> insert (CHR ''-'') (set ''0123456789abcdef'')"
proof -
  define D where "D = set ''0123456789abcdef''"
  have "set (to_decimal n) \<subseteq> D" for n unfolding D_def by (rule set_to_radix) simp_all
  then show ?thesis unfolding D_def [symmetric] show_int_def by (simp add: insert_mono subset_insertI2)
qed

lemma split_once_append: "c \<notin> set a \<Longrightarrow> split_once c (a @ c # b) = Some (a, b)"
  by (induction a) auto

lemma split_once_None: "split_once c s = None \<longleftrightarrow> c \<notin> set s"
  by (induction s) auto

section \<open>Errors and effects\<close>

datatype io_kind = UnexpectedEof | OtherKind

record io_error =
  ekind :: io_kind
  emsg :: string

definition io_other :: "string \<Rightarrow> io_error" where
  "io_other m = \<lparr>ekind = OtherKind, emsg = m\<rparr>"

datatype error =
    Message string            \<comment> \<open>\<open>err("...")\<close>\<close>
  | Io io_error               \<comment> \<open>\<open>std::io::Error\<close>\<close>
  | Transaction string        \<comment> \<open>SlateDB's \<open>ErrorKind::Transaction\<close>\<close>
  | Fenced string             \<comment> \<open>another node has opened the database\<close>
  | MissingObject string      \<comment> \<open>gix: an object that is not in the object database\<close>
  | ClientPack string         \<comment> \<open>an error in the bytes the client sent\<close>
  | Unowned string            \<comment> \<open>a key the request was routed to no owner for\<close>

text \<open>\<open>Display\<close> of an error.\<close>

fun err_text :: "error \<Rightarrow> string" where
  "err_text (Message m) = m"
| "err_text (Io e) = emsg e"
| "err_text (Transaction m) = m"
| "err_text (Fenced m) = m"
| "err_text (MissingObject m) = m"
| "err_text (ClientPack m) = m"
| "err_text (Unowned m) = m"

definition is_fenced :: "error \<Rightarrow> bool" where
  "is_fenced e = (case e of Fenced _ \<Rightarrow> True | _ \<Rightarrow> False)"

type_synonym ('s, 'a) io = "'s \<Rightarrow> (error + 'a) \<times> 's"

definition returnE :: "'a \<Rightarrow> ('s, 'a) io" where
  "returnE x = (\<lambda>s. (Inr x, s))"

definition failE :: "error \<Rightarrow> ('s, 'a) io" where
  "failE e = (\<lambda>s. (Inl e, s))"

text \<open>\<open>?\<close>: an error ends the operation, and what it did to the world stays done.\<close>

definition bindE :: "('s, 'a) io \<Rightarrow> ('a \<Rightarrow> ('s, 'b) io) \<Rightarrow> ('s, 'b) io" where
  "bindE m f = (\<lambda>s. case m s of (Inl e, t) \<Rightarrow> (Inl e, t) | (Inr x, t) \<Rightarrow> f x t)"

text \<open>\<open>let _ = m.await\<close>: the result is dropped, an error included.\<close>

definition ignoreE :: "('s, 'a) io \<Rightarrow> ('s, unit) io" where
  "ignoreE m = (\<lambda>s. (Inr (), snd (m s)))"

text \<open>\<open>match m.await { Err(e) => h(e), ok => ok }\<close>.\<close>

definition handleE :: "('s, 'a) io \<Rightarrow> (error \<Rightarrow> ('s, 'a) io) \<Rightarrow> ('s, 'a) io" where
  "handleE m h = (\<lambda>s. case m s of (Inl e, t) \<Rightarrow> h e t | (Inr x, t) \<Rightarrow> (Inr x, t))"

text \<open>\<open>map_err(|e| err(format!("{p}{e}")))\<close>; and the result of an operation as a value.\<close>

definition wrapE :: "string \<Rightarrow> ('s, 'a) io \<Rightarrow> ('s, 'a) io" where
  "wrapE p m = handleE m (\<lambda>e. failE (Message (p @ err_text e)))"

definition tryE :: "('s, 'a) io \<Rightarrow> ('s, error + 'a) io" where
  "tryE m = (\<lambda>s. (Inr (fst (m s)), snd (m s)))"

fun mapE :: "'a list \<Rightarrow> ('a \<Rightarrow> ('s, 'b) io) \<Rightarrow> ('s, 'b list) io" where
  "mapE [] f = returnE []"
| "mapE (x # xs) f = bindE (f x) (\<lambda>y. bindE (mapE xs f) (\<lambda>ys. returnE (y # ys)))"

fun forE :: "'a list \<Rightarrow> ('a \<Rightarrow> ('s, unit) io) \<Rightarrow> ('s, unit) io" where
  "forE [] f = returnE ()"
| "forE (x # xs) f = bindE (f x) (\<lambda>_. forE xs f)"

definition getE :: "('s \<Rightarrow> 'a) \<Rightarrow> ('s, 'a) io" where
  "getE f = (\<lambda>s. (Inr (f s), s))"

definition putE :: "('s \<Rightarrow> 's) \<Rightarrow> ('s, unit) io" where
  "putE f = (\<lambda>s. (Inr (), f s))"

definition liftE :: "error + 'a \<Rightarrow> ('s, 'a) io" where
  "liftE r = (\<lambda>s. (r, s))"

text \<open>
  The fault schedule. The \<open>n\<close>-th primitive fails when \<open>faults n\<close> names an error; a write that
  reports a failure may still have taken effect (a lost acknowledgement), which \<open>landed\<close> says.
\<close>

record io_env =
  clock :: nat
  faults :: "nat \<Rightarrow> error option"
  landed :: "nat \<Rightarrow> bool"

definition io_step :: "('z io_env_scheme, unit) io" where
  "io_step = (\<lambda>s. ((case faults s (clock s) of None \<Rightarrow> Inr () | Some e \<Rightarrow> Inl e),
                   s\<lparr>clock := Suc (clock s)\<rparr>))"

definition io_read :: "('z io_env_scheme \<Rightarrow> 'a) \<Rightarrow> ('z io_env_scheme, 'a) io" where
  "io_read f = bindE io_step (\<lambda>_. getE f)"

definition io_write :: "('z io_env_scheme \<Rightarrow> 'z io_env_scheme) \<Rightarrow> ('z io_env_scheme, unit) io" where
  "io_write f =
     (\<lambda>s. let t = s\<lparr>clock := Suc (clock s)\<rparr>
          in case faults s (clock s) of
               None \<Rightarrow> (Inr (), f t)
             | Some e \<Rightarrow> (Inl e, if landed s (clock s) then f t else t))"

lemma returnE_apply [simp]: "returnE x s = (Inr x, s)"
  by (simp add: returnE_def)

lemma failE_apply [simp]: "failE e s = (Inl e, s)"
  by (simp add: failE_def)

lemma liftE_apply [simp]: "liftE r s = (r, s)"
  by (simp add: liftE_def)

lemma ignoreE_apply: "ignoreE m s = (Inr (), snd (m s))"
  by (simp add: ignoreE_def)

lemma bindE_Inr [simp]: "m s = (Inr x, t) \<Longrightarrow> bindE m f s = f x t"
  by (simp add: bindE_def)

lemma bindE_Inl [simp]: "m s = (Inl e, t) \<Longrightarrow> bindE m f s = (Inl e, t)"
  by (simp add: bindE_def)

lemma bindE_InrE:
  assumes "bindE m f s = (Inr y, u)"
  obtains x t where "m s = (Inr x, t)" and "f x t = (Inr y, u)"
  using assms by (auto simp: bindE_def split: prod.splits sum.splits)

lemma bindE_cases:
  obtains (err) e t where "m s = (Inl e, t)" "bindE m f s = (Inl e, t)"
  | (ok) x t where "m s = (Inr x, t)" "bindE m f s = f x t"
  by (cases "m s"; cases "fst (m s)") (auto simp: bindE_def)

section \<open>Invariants kept by effects\<close>

text \<open>
  \<open>keeps I m\<close>: running \<open>m\<close> in a world where \<open>I\<close> holds ends in one where it holds, on the
  error paths too. \<open>triple P m Q E\<close> says what holds after a success, with its result, and
  after a failure.
\<close>

definition keeps :: "('s \<Rightarrow> bool) \<Rightarrow> ('s, 'a) io \<Rightarrow> bool" where
  "keeps I m \<longleftrightarrow> (\<forall>s. I s \<longrightarrow> I (snd (m s)))"

definition triple :: "('s \<Rightarrow> bool) \<Rightarrow> ('s, 'a) io \<Rightarrow> ('a \<Rightarrow> 's \<Rightarrow> bool) \<Rightarrow> ('s \<Rightarrow> bool) \<Rightarrow> bool" where
  "triple P m Q E \<longleftrightarrow> (\<forall>s. P s \<longrightarrow> (case m s of (Inl e, t) \<Rightarrow> E t | (Inr x, t) \<Rightarrow> Q x t))"

lemma keepsD: "keeps I m \<Longrightarrow> I s \<Longrightarrow> I (snd (m s))"
  by (simp add: keeps_def)

lemma keepsI: "(\<And>s. I s \<Longrightarrow> I (snd (m s))) \<Longrightarrow> keeps I m"
  by (simp add: keeps_def)

lemma keeps_returnE [keeps_intros]: "keeps I (returnE x)"
  and keeps_failE [keeps_intros]: "keeps I (failE e)"
  and keeps_getE [keeps_intros]: "keeps I (getE f)"
  and keeps_liftE [keeps_intros]: "keeps I (liftE r)"
  by (auto simp: keeps_def returnE_def failE_def getE_def liftE_def)

lemma keeps_bindE [keeps_intros]:
  assumes "keeps I m" and "\<And>x. keeps I (f x)"
  shows "keeps I (bindE m f)"
proof (rule keepsI)
  fix s assume I: "I s"
  with assms(1) have I': "I (snd (m s))" by (rule keepsD)
  show "I (snd (bindE m f s))"
  proof (cases rule: bindE_cases [of m s f])
    case (err e t)
    with I' show ?thesis by simp
  next
    case (ok x t)
    with I' keepsD [OF assms(2)] show ?thesis by simp
  qed
qed

lemma keeps_ignoreE [keeps_intros]: "keeps I m \<Longrightarrow> keeps I (ignoreE m)"
  by (simp add: keeps_def ignoreE_def)

lemma keeps_forE [keeps_intros]: "(\<And>x. x \<in> set xs \<Longrightarrow> keeps I (f x)) \<Longrightarrow> keeps I (forE xs f)"
  by (induction xs) (auto intro: keeps_intros)

lemma keeps_if [keeps_intros]:
  "(b \<Longrightarrow> keeps I m) \<Longrightarrow> (\<not> b \<Longrightarrow> keeps I n) \<Longrightarrow> keeps I (if b then m else n)"
  by simp

lemma keeps_case_option [keeps_intros]:
  "(x = None \<Longrightarrow> keeps I a) \<Longrightarrow> (\<And>y. x = Some y \<Longrightarrow> keeps I (f y)) \<Longrightarrow> keeps I (case x of None \<Rightarrow> a | Some y \<Rightarrow> f y)"
  by (cases x) auto

lemma keeps_case_sum [keeps_intros]:
  "(\<And>y. x = Inl y \<Longrightarrow> keeps I (f y)) \<Longrightarrow> (\<And>y. x = Inr y \<Longrightarrow> keeps I (g y)) \<Longrightarrow> keeps I (case x of Inl y \<Rightarrow> f y | Inr y \<Rightarrow> g y)"
  by (cases x) auto

lemma keeps_case_prod [keeps_intros]: "(\<And>a b. x = (a, b) \<Longrightarrow> keeps I (f a b)) \<Longrightarrow> keeps I (case x of (a, b) \<Rightarrow> f a b)"
  by (cases x) auto

lemma keeps_putE: "(\<And>s. I s \<Longrightarrow> I (f s)) \<Longrightarrow> keeps I (putE f)"
  by (simp add: keeps_def putE_def)

text \<open>An invariant that does not look at the clock.\<close>

definition clock_free :: "('z io_env_scheme \<Rightarrow> bool) \<Rightarrow> bool" where
  "clock_free I \<longleftrightarrow> (\<forall>s n. I (s\<lparr>clock := n\<rparr>) = I s)"

lemma keeps_io_step: "clock_free I \<Longrightarrow> keeps I io_step"
  by (simp add: keeps_def io_step_def clock_free_def)

lemma keeps_io_read: "clock_free I \<Longrightarrow> keeps I (io_read f)"
  unfolding io_read_def by (intro keeps_intros keeps_io_step)

lemma keeps_io_write:
  assumes "clock_free I" and "\<And>s. I s \<Longrightarrow> I (f s)"
  shows "keeps I (io_write f)"
  using assms by (auto simp: keeps_def io_write_def clock_free_def Let_def split: option.splits)

lemma io_write_cases:
  obtains (fine) t where "io_write f s = (Inr (), f t)" "t = s\<lparr>clock := Suc (clock s)\<rparr>"
  | (lost) e t where "io_write f s = (Inl e, t)" "t = s\<lparr>clock := Suc (clock s)\<rparr>"
  | (late) e t where "io_write f s = (Inl e, f t)" "t = s\<lparr>clock := Suc (clock s)\<rparr>"
  by (cases "faults s (clock s)"; cases "landed s (clock s)")
    (auto simp: io_write_def Let_def)

lemma io_step_InrD: "io_step s = (Inr u, t) \<Longrightarrow> t = s\<lparr>clock := Suc (clock s)\<rparr>"
  by (auto simp: io_step_def split: option.splits)

lemma io_write_InrD: "io_write f s = (Inr u, t) \<Longrightarrow> t = f (s\<lparr>clock := Suc (clock s)\<rparr>)"
  by (auto simp: io_write_def Let_def split: option.splits)

lemma io_read_InrD:
  "io_read f s = (Inr x, t) \<Longrightarrow> t = s\<lparr>clock := Suc (clock s)\<rparr> \<and> x = f t"
  by (auto simp: io_read_def getE_def elim!: bindE_InrE dest: io_step_InrD)

text \<open>The rules of the triples: one per combinator, the loop with an invariant.\<close>

lemma tripleD:
  "triple P m Q E \<Longrightarrow> P s \<Longrightarrow> m s = (res, t) \<Longrightarrow> (case res of Inl e \<Rightarrow> E t | Inr x \<Rightarrow> Q x t)"
  by (fastforce simp: triple_def split: sum.splits)

lemma triple_returnE: "(\<And>s. P s \<Longrightarrow> Q x s) \<Longrightarrow> triple P (returnE x) Q E"
  by (simp add: triple_def)

lemma triple_failE: "(\<And>s. P s \<Longrightarrow> E s) \<Longrightarrow> triple P (failE e) Q E"
  by (simp add: triple_def)

lemma triple_bindE:
  assumes "triple P m R E" and "\<And>x. triple (R x) (f x) Q E"
  shows "triple P (bindE m f) Q E"
  using assms by (fastforce simp: triple_def bindE_def split: prod.splits sum.splits)

lemma triple_both: "triple P m (\<lambda>_. R) R \<longleftrightarrow> (\<forall>s. P s \<longrightarrow> R (snd (m s)))"
proof -
  have "(case r of (Inl e, t) \<Rightarrow> R t | (Inr x, t) \<Rightarrow> R t) = R (snd r)" for r :: "(error + 'b) \<times> 'a"
    by (cases r; cases "fst r") auto
  then show ?thesis by (simp add: triple_def)
qed

lemma triple_ignoreE: "triple P m (\<lambda>_. R) R \<Longrightarrow> triple P (ignoreE m) (\<lambda>_. R) E"
  unfolding triple_both by (simp add: triple_def ignoreE_def)

lemma triple_handleE:
  assumes "triple P m Q R" and "\<And>e. triple R (h e) Q E"
  shows "triple P (handleE m h) Q E"
  using assms by (fastforce simp: triple_def handleE_def split: prod.splits sum.splits)

lemma triple_keeps: "keeps I m \<longleftrightarrow> triple I m (\<lambda>_. I) I"
  by (simp add: triple_both keeps_def)

lemma triple_wrapE: "triple P m Q E \<Longrightarrow> triple P (wrapE p m) Q E"
  unfolding wrapE_def by (rule triple_handleE, assumption) (simp add: triple_def)

lemma keeps_handleE [keeps_intros]:
  "keeps I m \<Longrightarrow> (\<And>e. keeps I (h e)) \<Longrightarrow> keeps I (handleE m h)"
  unfolding triple_keeps by (rule triple_handleE)

lemma keeps_wrapE [keeps_intros]: "keeps I m \<Longrightarrow> keeps I (wrapE p m)"
  unfolding wrapE_def by (intro keeps_intros)

lemma keeps_tryE [keeps_intros]: "keeps I m \<Longrightarrow> keeps I (tryE m)"
  by (simp add: keeps_def tryE_def)

lemma keeps_mapE [keeps_intros]: "(\<And>x. x \<in> set xs \<Longrightarrow> keeps I (f x)) \<Longrightarrow> keeps I (mapE xs f)"
  by (induction xs) (auto intro: keeps_intros)

lemma triple_forE:
  "(\<And>x. x \<in> set xs \<Longrightarrow> triple I (f x) (\<lambda>_. I) E) \<Longrightarrow> triple I (forE xs f) (\<lambda>_. I) E"
  by (induction xs) (auto intro: triple_returnE triple_bindE)

text \<open>A loop that collects: each round adds its own fact to those of the rounds before.\<close>

lemma triple_forE_collect:
  assumes "\<And>x G. x \<in> set xs \<Longrightarrow> G\<^sub>0 \<subseteq> G \<Longrightarrow> triple (I G) (f x) (\<lambda>_. I (insert (h x) G)) E"
  shows "triple (I G\<^sub>0) (forE xs f) (\<lambda>_. I (G\<^sub>0 \<union> h ` set xs)) E"
  using assms
proof (induction xs arbitrary: G\<^sub>0)
  case (Cons x xs)
  have "triple (I (insert (h x) G\<^sub>0)) (forE xs f) (\<lambda>_. I (insert (h x) G\<^sub>0 \<union> h ` set xs)) E"
    by (rule Cons.IH) (use Cons.prems in auto)
  with Cons.prems [of x "G\<^sub>0"] show ?case
    by (auto intro: triple_bindE)
qed (simp add: triple_def)

lemma triple_putE: "(\<And>s. P s \<Longrightarrow> Q () (f s)) \<Longrightarrow> triple P (putE f) Q E"
  by (simp add: triple_def putE_def)

lemma triple_weaken:
  "triple P' m Q' E' \<Longrightarrow> (\<And>s. P s \<Longrightarrow> P' s) \<Longrightarrow> (\<And>x s. Q' x s \<Longrightarrow> Q x s) \<Longrightarrow> (\<And>s. E' s \<Longrightarrow> E s)
     \<Longrightarrow> triple P m Q E"
  by (fastforce simp: triple_def split: prod.splits sum.splits)

lemma triple_io_step: "clock_free P \<Longrightarrow> triple P io_step (\<lambda>_. P) P"
  using keeps_io_step by (simp add: triple_keeps)

lemma triple_io_read:
  "clock_free P \<Longrightarrow> (\<And>s. P s \<Longrightarrow> Q (f s) s) \<Longrightarrow> triple P (io_read f) Q P"
  by (auto simp: triple_def io_read_def io_step_def bindE_def getE_def clock_free_def
      split: option.splits)

lemma triple_io_write:
  "clock_free P \<Longrightarrow> (\<And>s. P s \<Longrightarrow> Q () (f s)) \<Longrightarrow> (\<And>s. P s \<Longrightarrow> E s \<and> E (f s))
     \<Longrightarrow> triple P (io_write f) Q E"
  by (auto simp: triple_def io_write_def clock_free_def Let_def split: option.splits)

section \<open>Framed encodings\<close>

text \<open>
  The interface of a self-delimiting encoding: what \<open>dec\<close> peels off the front of a stream is
  what \<open>enc\<close> put there, whatever follows. Streams of such frames are read back one by one,
  and two different lists of frames never share their bytes.
\<close>

fun decode_many :: "(bytes \<Rightarrow> ('a \<times> bytes) option) \<Rightarrow> nat \<Rightarrow> bytes \<Rightarrow> ('a list \<times> bytes) option" where
  "decode_many dec 0 b = Some ([], b)"
| "decode_many dec (Suc n) b =
     (case dec b of None \<Rightarrow> None
      | Some (x, b') \<Rightarrow> map_option (\<lambda>(xs, r). (x # xs, r)) (decode_many dec n b'))"

locale framed =
  fixes ok :: "'a \<Rightarrow> bool"
    and enc :: "'a \<Rightarrow> bytes"
    and dec :: "bytes \<Rightarrow> ('a \<times> bytes) option"
  assumes dec_enc: "ok x \<Longrightarrow> dec (enc x @ rest) = Some (x, rest)"
begin

lemma decode_frames:
  "(\<And>x. x \<in> set xs \<Longrightarrow> ok x) \<Longrightarrow>
   decode_many dec (length xs) (concat (map enc xs) @ rest) = Some (xs, rest)"
  by (induction xs) (auto simp: dec_enc)

lemma enc_prefix_free:
  "ok x \<Longrightarrow> ok y \<Longrightarrow> enc x @ r = enc y @ s \<Longrightarrow> x = y \<and> r = s"
  by (metis dec_enc option.inject prod.inject)

lemma frames_unique:
  "(\<And>x. x \<in> set xs \<Longrightarrow> ok x) \<Longrightarrow> (\<And>y. y \<in> set ys \<Longrightarrow> ok y) \<Longrightarrow> length xs = length ys \<Longrightarrow>
   concat (map enc xs) @ r = concat (map enc ys) @ s \<Longrightarrow> xs = ys \<and> r = s"
  by (metis decode_frames option.inject prod.inject)

end

end
