(* ===== verification/Pktline.thy ===== *)
theory Pktline
  imports Prelude
begin

text \<open>
  The pkt-line framing of \<open>crates/core/src/pktline.rs\<close>: four hexadecimal digits of length
  (themselves included), then the payload; \<open>0000\<close> is a flush and \<open>0001\<close> a delimiter.
  A reader is the bytes still to come and the error the transport ends with (none for a
  clean end); a writer is the bytes written so far.
  The lemmas show the round trips (one packet, a command list up to its flush, a side band,
  an \<open>ERR\<close> packet), the two caps of a command list, and that a command list cut anywhere
  before its flush is refused.
\<close>

section \<open>Readers, packets and their operations\<close>

record reader =
  rbuf :: bytes
  rend :: "io_error option"

datatype pkt = Data bytes | Flush | Delim

definition eof_error :: io_error where
  "eof_error = \<lparr>ekind = UnexpectedEof, emsg = ''failed to fill whole buffer''\<rparr>"

text \<open>\<open>Read::read_exact\<close>: what is there is consumed even when it is too little.\<close>

definition read_exact :: "nat \<Rightarrow> (reader, bytes) io" where
  "read_exact n r =
     (if n \<le> length (rbuf r) then (Inr (take n (rbuf r)), r\<lparr>rbuf := drop n (rbuf r)\<rparr>)
      else (Inl (Io (case rend r of None \<Rightarrow> eof_error | Some e \<Rightarrow> e)), r\<lparr>rbuf := []\<rparr>))"

definition bad_pkt_len :: error where
  "bad_pkt_len = Io (io_other ''bad pkt len'')"

definition is_eof :: "error \<Rightarrow> bool" where
  "is_eof e = (case e of Io i \<Rightarrow> ekind i = UnexpectedEof | _ \<Rightarrow> False)"

definition read_pkt :: "(reader, pkt option) io" where
  "read_pkt r =
     (case read_exact 4 r of
        (Inl e, r') \<Rightarrow> if is_eof e then (Inr None, r') else (Inl e, r')
      | (Inr len, r') \<Rightarrow>
          if \<not> utf8_valid len then (Inl bad_pkt_len, r')
          else (case from_str_radix u64_bound 16 len of
              None \<Rightarrow> (Inl bad_pkt_len, r')
            | Some n \<Rightarrow>
                if n = 0 then (Inr (Some Flush), r')
                else if n = 1 then (Inr (Some Delim), r')
                else if n = 2 \<or> n = 3 then (Inl bad_pkt_len, r')
                else bindE (read_exact (n - 4)) (\<lambda>d. returnE (Some (Data d))) r'))"

definition write_all :: "bytes \<Rightarrow> (bytes, unit) io" where
  "write_all d = putE (\<lambda>w. w @ d)"

definition hex4 :: "nat \<Rightarrow> string" where
  "hex4 n = pad_left 4 (to_radix 16 n)"

definition write_pkt :: "bytes \<Rightarrow> (bytes, unit) io" where
  "write_pkt data =
     (if length data + 4 > 0xffff then failE (Io (io_other ''pkt too long''))
      else bindE (write_all (hex4 (length data + 4))) (\<lambda>_. write_all data))"

definition write_text :: "string \<Rightarrow> (bytes, unit) io" where
  "write_text s = write_pkt (s @ [CHR 0x0A])"

definition write_flush :: "(bytes, unit) io" where
  "write_flush = write_all ''0000''"

definition write_delim :: "(bytes, unit) io" where
  "write_delim = write_all ''0001''"

definition MAX_BAND :: nat where
  "MAX_BAND = 65515"

definition write_band :: "char \<Rightarrow> bytes \<Rightarrow> (bytes, unit) io" where
  "write_band band data = forE (chunks MAX_BAND data) (\<lambda>chunk. write_pkt (band # chunk))"

text \<open>\<open>BandWriter::write\<close>: everything is taken, so \<open>write_all\<close> on it makes one call.\<close>

definition band_writer_write :: "char \<Rightarrow> bytes \<Rightarrow> (bytes, nat) io" where
  "band_writer_write band buf = bindE (write_band band buf) (\<lambda>_. returnE (length buf))"

definition MAX_LINES :: nat where
  "MAX_LINES = 100000"

definition MAX_BYTES :: nat where
  "MAX_BYTES = 32 * 1024 * 1024"

definition usize_max :: nat where
  "usize_max = u64_bound - 1"

definition strip_newline :: "bytes \<Rightarrow> bytes" where
  "strip_newline d = (if d \<noteq> [] \<and> last d = CHR 0x0A then butlast d else d)"

definition truncated_stream :: error where
  "truncated_stream = Io \<lparr>ekind = UnexpectedEof, emsg = ''truncated pkt-line stream (no flush)''\<rparr>"

lemma read_exact_ok:
  "n \<le> length (rbuf r) \<Longrightarrow> read_exact n r = (Inr (take n (rbuf r)), r\<lparr>rbuf := drop n (rbuf r)\<rparr>)"
  by (simp add: read_exact_def)

lemma read_exact_shorter:
  "read_exact n r = (x, r') \<Longrightarrow> length (rbuf r') \<le> length (rbuf r) \<and> rend r' = rend r"
  by (auto simp: read_exact_def split: if_splits)

lemma read_pkt_consumes:
  assumes "read_pkt r = (Inr (Some p), r')"
  shows "length (rbuf r') < length (rbuf r)"
proof (cases "4 \<le> length (rbuf r)")
  case True
  let ?r = "r\<lparr>rbuf := drop 4 (rbuf r)\<rparr>"
  have "length (rbuf r') \<le> length (rbuf ?r)"
    using assms True
    by (auto simp: read_pkt_def read_exact_ok elim!: bindE_InrE dest: read_exact_shorter
        split: if_splits option.splits)
  with True show ?thesis by simp
next
  case False
  with assms show ?thesis by (auto simp: read_pkt_def read_exact_def split: if_splits)
qed

function read_lines_loop :: "nat \<Rightarrow> bytes list \<Rightarrow> (reader, bytes list) io" where
  "read_lines_loop tot out r =
     (case read_pkt r of
        (Inl e, r') \<Rightarrow> (Inl e, r')
      | (Inr None, r') \<Rightarrow> (Inl truncated_stream, r')
      | (Inr (Some Flush), r') \<Rightarrow> (Inr out, r')
      | (Inr (Some Delim), r') \<Rightarrow> read_lines_loop tot out r'
      | (Inr (Some (Data d)), r') \<Rightarrow>
          (let d' = strip_newline d;
               tot' = min (tot + length d') usize_max
           in if tot' > MAX_BYTES
              then (Inl (Io (io_other ''pkt-line stream too large'')), r')
              else (let out' = out @ [d']
                    in if length out' > MAX_LINES
                       then (Inl (Io (io_other ''too many pkt-lines'')), r')
                       else read_lines_loop tot' out' r')))"
  by pat_completeness auto
termination
  by (relation "measure (\<lambda>(tot, out, r). length (rbuf r))")
    (auto dest!: read_pkt_consumes [OF sym])

declare read_lines_loop.simps [simp del]

definition read_lines_until_flush :: "(reader, bytes list) io" where
  "read_lines_until_flush = read_lines_loop 0 []"

definition MAX_MSG :: nat where
  "MAX_MSG = 0xffff - 4 - length (''ERR '' @ [CHR 0x0A])"

primrec floor_char_boundary :: "string \<Rightarrow> nat \<Rightarrow> nat" where
  "floor_char_boundary s 0 = 0"
| "floor_char_boundary s (Suc n) =
     (if is_char_boundary s (Suc n) then Suc n else floor_char_boundary s n)"

definition write_err :: "string \<Rightarrow> (bytes, unit) io" where
  "write_err msg =
     (let cut = floor_char_boundary msg (min (length msg) MAX_MSG);
          body = ''ERR '' @ take cut msg @ [CHR 0x0A]
      in write_all (hex4 (length body + 4) @ body))"

section \<open>The frame of one packet\<close>

lemma bindE_write_all [simp]: "bindE (write_all d) f w = f () (w @ d)"
  by (simp add: bindE_def write_all_def putE_def)

lemma write_all_apply [simp]: "write_all d w = (Inr (), w @ d)"
  by (simp add: write_all_def putE_def)

lemma hex4_length: "n \<le> 0xffff \<Longrightarrow> length (hex4 n) = 4"
  using length_to_radix [of 16 n 4] by (simp add: hex4_def pad_left_def)

lemma hex4_parse:
  assumes "n \<le> 0xffff"
  shows "from_str_radix u64_bound 16 (hex4 n) = Some n"
proof -
  have ne: "hex4 n \<noteq> []" using hex4_length [OF assms] by auto
  have "hd (hex4 n) \<noteq> CHR ''+''"
    using to_radix_ascii [of 16 "hd (to_radix 16 n)" n]
    by (cases "4 - length (to_radix 16 n)") (auto simp: hex4_def pad_left_def)
  then show ?thesis
    using ne assms by (simp add: from_str_radix_def hex4_def pad_left_def digits_value_zeros
        digits_value_to_radix)
qed

lemma hex4_utf8: "utf8_valid (hex4 n)"
proof (rule utf8_valid_ascii)
  fix c assume "c \<in> set (hex4 n)"
  then show "byte_of c < 0x80"
    using to_radix_ascii [of 16 c n] by (auto simp: hex4_def pad_left_def byte_of_def)
qed

lemma read_pkt_frame:
  assumes "4 \<le> n" and "n \<le> 0xffff" and "rbuf r = hex4 n @ d @ rest" and "length d = n - 4"
  shows "read_pkt r = (Inr (Some (Data d)), r\<lparr>rbuf := rest\<rparr>)"
  using assms hex4_length [OF assms(2)]
  by (simp add: read_pkt_def read_exact_ok hex4_utf8 hex4_parse)

lemma write_pkt_ok:
  "length d + 4 \<le> 0xffff \<Longrightarrow> write_pkt d w = (Inr (), w @ hex4 (length d + 4) @ d)"
  by (simp add: write_pkt_def)

lemma write_pkt_too_long:
  "length d + 4 > 0xffff \<Longrightarrow> write_pkt d w = (Inl (Io (io_other ''pkt too long'')), w)"
  by (simp add: write_pkt_def)

lemma from_hex_0000: "from_str_radix u64_bound 16 ''0000'' = Some 0"
  and from_hex_0001: "from_str_radix u64_bound 16 ''0001'' = Some 1"
  by (simp_all add: from_str_radix_def to_digit_def in_range_def byte_of_def)

lemma utf8_0000: "utf8_valid ''0000''" and utf8_0001: "utf8_valid ''0001''"
  by (simp_all add: byte_of_def)

lemma read_pkt_flush: "rbuf r = ''0000'' @ rest \<Longrightarrow> read_pkt r = (Inr (Some Flush), r\<lparr>rbuf := rest\<rparr>)"
  using from_hex_0000 utf8_0000 by (simp add: read_pkt_def read_exact_ok)

lemma read_pkt_delim: "rbuf r = ''0001'' @ rest \<Longrightarrow> read_pkt r = (Inr (Some Delim), r\<lparr>rbuf := rest\<rparr>)"
  using from_hex_0001 utf8_0001 by (simp add: read_pkt_def read_exact_ok)

text \<open>
  A packet as the writers above frame it, and the reader as a decoder: the interface of a
  framed encoding is discharged for the code's own reader and writers.
\<close>

fun enc_pkt :: "pkt \<Rightarrow> bytes" where
  "enc_pkt (Data d) = snd (write_pkt d [])"
| "enc_pkt Flush = snd (write_flush [])"
| "enc_pkt Delim = snd (write_delim [])"

fun fits :: "pkt \<Rightarrow> bool" where
  "fits (Data d) = (length d + 4 \<le> 0xffff)"
| "fits Flush = True"
| "fits Delim = True"

definition dec_pkt :: "bytes \<Rightarrow> (pkt \<times> bytes) option" where
  "dec_pkt b =
     (case read_pkt \<lparr>rbuf = b, rend = None\<rparr> of (Inr (Some p), r) \<Rightarrow> Some (p, rbuf r) | _ \<Rightarrow> None)"

lemma read_enc_pkt:
  "fits p \<Longrightarrow> rbuf r = enc_pkt p @ rest \<Longrightarrow> read_pkt r = (Inr (Some p), r\<lparr>rbuf := rest\<rparr>)"
proof (cases p)
  case (Data d)
  assume "fits p" "rbuf r = enc_pkt p @ rest"
  with Data show ?thesis
    using read_pkt_frame [of "length d + 4" r d rest] by (simp add: write_pkt_ok)
qed (auto simp: write_flush_def write_delim_def intro: read_pkt_flush read_pkt_delim)

interpretation pk: framed fits enc_pkt dec_pkt
  by unfold_locales (simp add: dec_pkt_def read_enc_pkt)

section \<open>Command lists\<close>

definition text_line :: "string \<Rightarrow> bytes" where
  "text_line s = hex4 (length s + 5) @ s @ [CHR 0x0A]"

lemma write_text_ok: "length s + 5 \<le> 0xffff \<Longrightarrow> write_text s w = (Inr (), w @ text_line s)"
proof -
  assume fit: "length s + 5 \<le> 0xffff"
  have "length (s @ [CHR 0x0A]) + 4 = length s + 5" by simp
  with fit write_pkt_ok [of "s @ [CHR 0x0A]" w] show ?thesis
    by (simp only: write_text_def text_line_def)
qed

lemma write_text_fails: "\<not> length s + 5 \<le> 0xffff \<Longrightarrow> fst (write_text s w) \<noteq> Inr ()"
  by (simp add: write_text_def write_pkt_def)

lemma write_texts:
  "forE ls write_text w = (Inr (), w') \<Longrightarrow>
   w' = w @ concat (map text_line ls) \<and> (\<forall>l\<in>set ls. length l + 5 \<le> 0xffff)"
proof (induction ls arbitrary: w)
  case (Cons l ls)
  then obtain t where 1: "write_text l w = (Inr (), t)" and 2: "forE ls write_text t = (Inr (), w')"
    by (auto elim: bindE_InrE)
  from 1 write_text_fails [of l w] have "length l + 5 \<le> 0xffff" by fastforce
  with 1 2 Cons.IH [of t] show ?case by (auto simp: write_text_ok)
qed simp

lemma write_texts_ok:
  "(\<And>l. l \<in> set ls \<Longrightarrow> length l + 5 \<le> 0xffff) \<Longrightarrow>
   forE ls write_text w = (Inr (), w @ concat (map text_line ls))"
  by (induction ls arbitrary: w) (auto simp: write_text_ok bindE_def)

lemma length_text_line: "length l + 5 \<le> 0xffff \<Longrightarrow> length (text_line l) = length l + 5"
  by (simp add: text_line_def hex4_length)

lemma read_text_line:
  "length l + 5 \<le> 0xffff \<Longrightarrow> rbuf r = text_line l @ rest \<Longrightarrow>
   read_pkt r = (Inr (Some (Data (l @ [CHR 0x0A]))), r\<lparr>rbuf := rest\<rparr>)"
  using read_pkt_frame [of "length l + 5" r "l @ [CHR 0x0A]" rest] by (simp add: text_line_def)

lemma strip_newline_snoc [simp]: "strip_newline (l @ [CHR 0x0A]) = l"
  by (simp add: strip_newline_def)

lemma read_lines_loop_error:
  "read_pkt r = (Inl e, r') \<Longrightarrow> read_lines_loop tot out r = (Inl e, r')"
  by (subst read_lines_loop.simps) simp

lemma read_lines_loop_eof:
  "read_pkt r = (Inr None, r') \<Longrightarrow> read_lines_loop tot out r = (Inl truncated_stream, r')"
  by (subst read_lines_loop.simps) simp

lemma read_lines_loop_flush:
  "read_pkt r = (Inr (Some Flush), r') \<Longrightarrow> read_lines_loop tot out r = (Inr out, r')"
  by (subst read_lines_loop.simps) simp

lemma read_lines_loop_delim:
  "read_pkt r = (Inr (Some Delim), r') \<Longrightarrow> read_lines_loop tot out r = read_lines_loop tot out r'"
  by (subst read_lines_loop.simps) simp

lemma read_lines_loop_data:
  "read_pkt r = (Inr (Some (Data d)), r') \<Longrightarrow>
   read_lines_loop tot out r =
     (if min (tot + length (strip_newline d)) usize_max > MAX_BYTES
      then (Inl (Io (io_other ''pkt-line stream too large'')), r')
      else if Suc (length out) > MAX_LINES
      then (Inl (Io (io_other ''too many pkt-lines'')), r')
      else read_lines_loop (min (tot + length (strip_newline d)) usize_max)
             (out @ [strip_newline d]) r')"
  by (subst read_lines_loop.simps) (simp add: Let_def)

lemmas read_lines_loop_steps =
  read_lines_loop_error read_lines_loop_eof read_lines_loop_flush read_lines_loop_delim
  read_lines_loop_data

lemma read_lines_loop_texts:
  assumes "\<And>l. l \<in> set ls \<Longrightarrow> length l + 5 \<le> 0xffff"
    and "tot + sum_list (map length ls) \<le> MAX_BYTES" and "length out + length ls \<le> MAX_LINES"
  shows "read_lines_loop tot out \<lparr>rbuf = concat (map text_line ls) @ ''0000'' @ rest, rend = e\<rparr> =
     (Inr (out @ ls), \<lparr>rbuf = rest, rend = e\<rparr>)"
  using assms
proof (induction ls arbitrary: tot out)
  case Nil
  then show ?case by (simp add: read_lines_loop_flush read_pkt_flush)
next
  case (Cons l ls)
  have "read_lines_loop (tot + length l) (out @ [l])
      \<lparr>rbuf = concat (map text_line ls) @ ''0000'' @ rest, rend = e\<rparr> =
     (Inr ((out @ [l]) @ ls), \<lparr>rbuf = rest, rend = e\<rparr>)"
    using Cons.prems by (intro Cons.IH) auto
  moreover have "tot + length l \<le> usize_max"
    using Cons.prems(2) by (simp add: MAX_BYTES_def usize_max_def)
  moreover have "read_pkt \<lparr>rbuf = concat (map text_line (l # ls)) @ ''0000'' @ rest, rend = e\<rparr> =
      (Inr (Some (Data (l @ [CHR 0x0A]))), \<lparr>rbuf = concat (map text_line ls) @ ''0000'' @ rest, rend = e\<rparr>)"
    using Cons.prems(1) read_text_line [of l] by simp
  ultimately show ?case
    using Cons.prems(2,3) by (simp add: read_lines_loop_data min_absorb1)
qed

lemma read_pkt_short:
  "length (rbuf r) < 4 \<Longrightarrow> read_pkt r = (if rend r \<noteq> None \<and> ekind (the (rend r)) \<noteq> UnexpectedEof
     then Inl (Io (the (rend r))) else Inr None, r\<lparr>rbuf := []\<rparr>)"
  by (auto simp: read_pkt_def read_exact_def is_eof_def eof_error_def split: option.splits)

lemma read_pkt_partial:
  assumes "length l + 5 \<le> 0xffff" and "4 \<le> n" and "n < length (text_line l)"
    and "rbuf r = take n (text_line l)"
  shows "\<exists>e. fst (read_pkt r) = Inl e"
proof -
  have "take n (text_line l) = hex4 (length l + 5) @ take (n - 4) (l @ [CHR 0x0A])"
    using assms(1,2) by (simp add: text_line_def hex4_length)
  moreover have "length (take (n - 4) (l @ [CHR 0x0A])) < length l + 1"
    using assms(1,2,3) by (simp add: length_text_line)
  ultimately show ?thesis
    using assms(1,4) hex4_length [of "length l + 5"]
    by (simp add: read_pkt_def read_exact_ok hex4_utf8 hex4_parse bindE_def read_exact_def)
qed

lemma read_lines_loop_truncated:
  assumes "\<And>l. l \<in> set ls \<Longrightarrow> length l + 5 \<le> 0xffff"
    and "n < length (concat (map text_line ls) @ ''0000'')"
  shows "\<exists>err. fst (read_lines_loop tot out
      \<lparr>rbuf = take n (concat (map text_line ls) @ ''0000''), rend = e\<rparr>) = Inl err"
  using assms
proof (induction ls arbitrary: tot out n)
  case Nil
  then have "length (take n ''0000'') < 4" by simp
  then show ?case by (subst read_lines_loop.simps) (simp add: read_pkt_short)
next
  case (Cons l ls)
  let ?rest = "concat (map text_line ls) @ ''0000''"
  have fit: "length l + 5 \<le> 0xffff" using Cons.prems(1) by simp
  consider (short) "n < 4" | (part) "4 \<le> n" "n < length (text_line l)" | (full) "length (text_line l) \<le> n"
    by linarith
  then show ?case
  proof cases
    case short
    then show ?thesis
      by (subst read_lines_loop.simps) (simp add: read_pkt_short)
  next
    case part
    let ?r = "\<lparr>rbuf = take n (text_line l), rend = e\<rparr>"
    obtain err r' where "read_pkt ?r = (Inl err, r')"
      using read_pkt_partial [OF fit part, of ?r] by (cases "read_pkt ?r") auto
    with part show ?thesis by (simp add: read_lines_loop_error)
  next
    case full
    let ?m = "n - length (text_line l)"
    let ?t = "min (tot + length l) usize_max"
    have "\<exists>err. fst (read_lines_loop ?t (out @ [l]) \<lparr>rbuf = take ?m ?rest, rend = e\<rparr>) = Inl err"
      using Cons.prems full by (intro Cons.IH) auto
    moreover have "read_pkt \<lparr>rbuf = take n (concat (map text_line (l # ls)) @ ''0000''), rend = e\<rparr> =
        (Inr (Some (Data (l @ [CHR 0x0A]))), \<lparr>rbuf = take ?m ?rest, rend = e\<rparr>)"
      using fit full read_text_line [of l] by simp
    ultimately show ?thesis by (simp add: read_lines_loop_data)
  qed
qed

lemma read_lines_loop_bounds:
  assumes "read_lines_loop tot out r = (Inr ls, r')"
    and "tot = sum_list (map length out)" and "tot \<le> MAX_BYTES" and "length out \<le> MAX_LINES"
  shows "length ls \<le> MAX_LINES \<and> sum_list (map length ls) \<le> MAX_BYTES"
  using assms
proof (induction "length (rbuf r)" arbitrary: tot out r rule: less_induct)
  case less
  have big: "usize_max > MAX_BYTES" by (simp add: usize_max_def MAX_BYTES_def)
  obtain x r1 where rp: "read_pkt r = (x, r1)" by (cases "read_pkt r")
  consider (err) e where "x = Inl e" | (eof) "x = Inr None" | (flush) "x = Inr (Some Flush)"
    | (delim) "x = Inr (Some Delim)" | (data) d where "x = Inr (Some (Data d))"
    by (metis pkt.exhaust option.exhaust sum.exhaust)
  then show ?case
  proof cases
    case delim
    with rp less.prems have "read_lines_loop tot out r1 = (Inr ls, r')"
      by (simp add: read_lines_loop_delim)
    with less.hyps [of r1 tot out] less.prems read_pkt_consumes [of r Delim r1] rp delim
    show ?thesis by blast
  next
    case (data d)
    let ?t = "tot + length (strip_newline d)"
    from data rp less.prems(1) big have "min ?t usize_max \<le> MAX_BYTES" "Suc (length out) \<le> MAX_LINES"
      by (auto simp: read_lines_loop_data split: if_splits)
    with big have fit: "?t \<le> MAX_BYTES" "Suc (length out) \<le> MAX_LINES" and m: "min ?t usize_max = ?t"
      by (auto simp: min_def split: if_splits)
    with rp data less.prems(1) have "read_lines_loop ?t (out @ [strip_newline d]) r1 = (Inr ls, r')"
      by (simp add: read_lines_loop_data)
    moreover have "length (rbuf r1) < length (rbuf r)"
      using rp data read_pkt_consumes by blast
    ultimately show ?thesis
      using less.hyps [of r1 ?t "out @ [strip_newline d]"] less.prems(2) fit by simp
  qed (use rp less.prems in \<open>simp_all add: read_lines_loop_steps\<close>)
qed

section \<open>Side bands and error packets\<close>

lemma forE_write_pkt:
  "(\<And>d. d \<in> set ds \<Longrightarrow> length d + 4 \<le> 0xffff) \<Longrightarrow>
   forE ds write_pkt w = (Inr (), w @ concat (map (enc_pkt \<circ> Data) ds))"
  by (induction ds arbitrary: w) (auto simp: write_pkt_ok bindE_def)

lemma forE_map: "forE (map g xs) f = forE xs (f \<circ> g)"
  by (induction xs) auto

lemma write_band_bytes:
  "write_band band data w =
     (Inr (), w @ concat (map enc_pkt (map (\<lambda>c. Data (band # c)) (chunks MAX_BAND data))))"
proof -
  let ?ds = "map ((#) band) (chunks MAX_BAND data)"
  have "length d + 4 \<le> 0xffff" if "d \<in> set ?ds" for d
    using that by (auto dest!: chunks_length simp: MAX_BAND_def)
  then have "forE ?ds write_pkt w = (Inr (), w @ concat (map (enc_pkt \<circ> Data) ?ds))"
    by (rule forE_write_pkt)
  then show ?thesis by (simp add: write_band_def forE_map comp_def del: enc_pkt.simps)
qed

lemma char_boundary_0 [simp]: "is_char_boundary s 0"
  by (simp add: is_char_boundary_def)

lemma utf8_head_not_continuation: "utf8_valid (a # s) \<Longrightarrow> \<not> continuation a"
  by (auto simp: in_range_def split: if_splits)

lemma char_boundary_append:
  assumes "utf8_valid t" and "length p \<le> n"
  shows "is_char_boundary (p @ t) n \<longleftrightarrow> is_char_boundary t (n - length p)"
proof (cases "n = length p")
  case True
  then show ?thesis
    using assms(1) utf8_head_not_continuation by (cases t) (auto simp: is_char_boundary_def)
next
  case False
  with assms(2) show ?thesis by (auto simp: is_char_boundary_def nth_append)
qed

text \<open>A valid string is empty or a character of one to four bytes and a valid string.\<close>

lemma utf8_uncons:
  assumes "utf8_valid s" and "s \<noteq> []"
  obtains p t where "s = p @ t" "utf8_valid t" "p \<noteq> []" "length p \<le> 4"
    "\<forall>c\<in>set (tl p). continuation c" "\<And>u. utf8_valid u \<Longrightarrow> utf8_valid (p @ u)"
proof (cases s)
  case (Cons a xs)
  note v = assms(1) [unfolded Cons]
  consider "byte_of a < 0x80" | "in_range 0xC2 0xDF a" | "in_range 0xE0 0xEF a" | "in_range 0xF0 0xF4 a"
    using v by (auto split: if_splits)
  then show thesis
  proof cases
    case 1
    show thesis by (rule that [of "[a]" xs]) (use 1 v Cons in auto)
  next
    case 2
    with v obtain b ys where "xs = b # ys" "continuation b" "utf8_valid ys"
      by (auto simp: in_range_def split: if_splits list.splits)
    with 2 Cons show thesis
      by (intro that [of "[a, b]" ys]) (auto simp: in_range_def)
  next
    case 3
    then obtain b c ys where xs: "xs = b # c # ys" and c: "continuation c" "utf8_valid ys"
        "in_range (if byte_of a = 0xE0 then 0xA0 else 0x80) (if byte_of a = 0xED then 0x9F else 0xBF) b"
      using v by (auto simp: in_range_def split: if_splits list.splits)
    have b: "continuation b" using c(3) by (auto simp: in_range_def split: if_splits)
    show thesis
      by (rule that [of "[a, b, c]" ys]) (use 3 Cons xs c b in \<open>auto simp: in_range_def\<close>)
  next
    case 4
    then obtain b c d ys where xs: "xs = b # c # d # ys" and c: "continuation c" "continuation d"
        "utf8_valid ys"
        "in_range (if byte_of a = 0xF0 then 0x90 else 0x80) (if byte_of a = 0xF4 then 0x8F else 0xBF) b"
      using v by (auto simp: in_range_def split: if_splits list.splits)
    have b: "continuation b" using c(4) by (auto simp: in_range_def split: if_splits)
    show thesis
      by (rule that [of "[a, b, c, d]" ys]) (use 4 Cons xs c b in \<open>auto simp: in_range_def\<close>)
  qed
qed (use assms in simp)

lemma boundary_in_head:
  assumes "p \<noteq> []" "\<forall>c\<in>set (tl p). continuation c" "is_char_boundary (p @ t) n" "n < length p"
  shows "n = 0"
proof (rule ccontr)
  assume "n \<noteq> 0"
  with assms have "(p @ t) ! n \<in> set (tl p)"
    by (cases p) (auto simp: nth_append nth_Cons split: nat.splits)
  with assms \<open>n \<noteq> 0\<close> show False by (auto simp: is_char_boundary_def)
qed

lemma utf8_take_boundary:
  "utf8_valid s \<Longrightarrow> is_char_boundary s n \<Longrightarrow> n \<le> length s \<Longrightarrow> utf8_valid (take n s)"
proof (induction "length s" arbitrary: s n rule: less_induct)
  case less
  show ?case
  proof (cases "s = []")
    case False
    with less.prems obtain p t where pt: "s = p @ t" "utf8_valid t" "p \<noteq> []" "length p \<le> 4"
      "\<forall>c\<in>set (tl p). continuation c" "\<And>u. utf8_valid u \<Longrightarrow> utf8_valid (p @ u)"
      by (metis utf8_uncons)
    show ?thesis
    proof (cases "n < length p")
      case True
      with boundary_in_head [OF pt(3,5)] less.prems pt show ?thesis by force
    next
      case False
      with less.prems pt have "is_char_boundary t (n - length p)" by (simp add: char_boundary_append)
      with less False pt have "utf8_valid (take (n - length p) t)" by simp
      with pt(1,6) False show ?thesis by simp
    qed
  qed simp
qed

lemma utf8_boundary_near:
  "utf8_valid s \<Longrightarrow> n \<le> length s \<Longrightarrow> \<exists>m\<le>n. n < m + 4 \<and> is_char_boundary s m"
proof (induction "length s" arbitrary: s n rule: less_induct)
  case less
  show ?case
  proof (cases "s = []")
    case False
    with less.prems obtain p t where pt: "s = p @ t" "utf8_valid t" "p \<noteq> []" "length p \<le> 4"
      by (metis utf8_uncons)
    show ?thesis
    proof (cases "n < length p")
      case True
      with pt show ?thesis by (intro exI [of _ 0]) auto
    next
      case False
      with less.prems pt have "length t < length s" "n - length p \<le> length t" by simp_all
      then obtain m where "m \<le> n - length p" "n - length p < m + 4" "is_char_boundary t m"
        using less.hyps [of t "n - length p"] pt(2) by auto
      with pt False show ?thesis
        by (intro exI [of _ "m + length p"]) (auto simp: char_boundary_append)
    qed
  qed (use less.prems in simp)
qed

lemma floor_char_boundary: "is_char_boundary s (floor_char_boundary s n)"
  and floor_char_boundary_le: "floor_char_boundary s n \<le> n"
  and floor_char_boundary_max: "m \<le> n \<Longrightarrow> is_char_boundary s m \<Longrightarrow> m \<le> floor_char_boundary s n"
  by (induction n) (auto simp: le_Suc_eq)

lemma MAX_MSG: "MAX_MSG = 65526"
  by (simp add: MAX_MSG_def)

section \<open>Properties\<close>

text \<open>
  A packet the writer accepted is read back whole, with nothing of what follows it
  consumed; the writer refuses exactly the payloads that do not fit the four digits.
\<close>

theorem pkt_roundtrip:
  "if length d + 4 \<le> 0xffff
   then \<exists>bs. write_pkt d w = (Inr (), w @ bs)
        \<and> (\<forall>rest e. read_pkt \<lparr>rbuf = bs @ rest, rend = e\<rparr> = (Inr (Some (Data d)), \<lparr>rbuf = rest, rend = e\<rparr>))
   else write_pkt d w = (Inl (Io (io_other ''pkt too long'')), w)"
  using read_enc_pkt [of "Data d"] by (auto simp: write_pkt_ok write_pkt_too_long)

text \<open>
  A command list written line by line and closed by a flush is read back as exactly
  those lines, and the bytes after the flush (the push options, the pack) are left for the
  next reader, as long as the list is within the two caps.
\<close>

theorem command_list_roundtrip:
  assumes "forE ls write_text [] = (Inr (), body)"
    and "length ls \<le> MAX_LINES" and "sum_list (map length ls) \<le> MAX_BYTES"
  shows "read_lines_until_flush \<lparr>rbuf = body @ snd (write_flush []) @ rest, rend = e\<rparr>
     = (Inr ls, \<lparr>rbuf = rest, rend = e\<rparr>)"
proof -
  from write_texts [OF assms(1)] have "body = concat (map text_line ls)"
    and "\<And>l. l \<in> set ls \<Longrightarrow> length l + 5 \<le> 0xffff" by auto
  with assms(2,3) read_lines_loop_texts [of ls 0 "[]" rest e] show ?thesis
    by (simp add: read_lines_until_flush_def write_flush_def)
qed

theorem command_list_roundtrip_witness:
  "read_lines_until_flush \<lparr>rbuf = concat (map text_line [''a b'', ''c'']) @ snd (write_flush []) @ ''PACK'', rend = None\<rparr>
     = (Inr [''a b'', ''c''], \<lparr>rbuf = ''PACK'', rend = None\<rparr>)"
proof -
  have "forE [''a b'', ''c''] write_text [] = (Inr (), [] @ concat (map text_line [''a b'', ''c'']))"
    by (rule write_texts_ok) auto
  then show ?thesis
    by (intro command_list_roundtrip) (simp_all add: MAX_LINES_def MAX_BYTES_def)
qed

text \<open>
  A command list cut anywhere before the end of its flush is refused: no prefix of it is
  ever taken for a complete list, whatever way the transport ended.
\<close>

theorem truncated_command_list_refused:
  assumes "forE ls write_text [] = (Inr (), body)" and "n < length (body @ snd (write_flush []))"
  shows "\<exists>err. fst (read_lines_until_flush \<lparr>rbuf = take n (body @ snd (write_flush [])), rend = e\<rparr>) = Inl err"
proof -
  from write_texts [OF assms(1)] have "body = concat (map text_line ls)"
    and "\<And>l. l \<in> set ls \<Longrightarrow> length l + 5 \<le> 0xffff" by auto
  with assms(2) read_lines_loop_truncated [of ls n 0 "[]" e] show ?thesis
    by (simp add: read_lines_until_flush_def write_flush_def)
qed

theorem truncated_command_list_refused_witness:
  "\<exists>err. fst (read_lines_until_flush
     \<lparr>rbuf = take 11 (concat (map text_line [''a'', ''b'']) @ snd (write_flush [])), rend = None\<rparr>) = Inl err"
proof -
  have "forE [''a'', ''b''] write_text [] = (Inr (), [] @ concat (map text_line [''a'', ''b'']))"
    by (rule write_texts_ok) auto
  then show ?thesis
    by (intro truncated_command_list_refused [of "[''a'', ''b'']"])
      (simp_all add: length_text_line write_flush_def)
qed

text \<open>
  However a client fills the stream, a list that is returned holds at most
  100,000 lines and 32 MiB: the two caps bound what one push keeps in memory.
\<close>

theorem command_list_bounded:
  assumes "read_lines_until_flush r = (Inr ls, r')"
  shows "length ls \<le> 100000 \<and> sum_list (map length ls) \<le> 33554432"
  using read_lines_loop_bounds [of 0 "[]" r ls r'] assms
  by (simp add: read_lines_until_flush_def MAX_LINES_def MAX_BYTES_def)

theorem command_list_bounded_witness:
  "length ([''a b'', ''c''] :: bytes list) \<le> 100000 \<and> sum_list (map length [''a b'', ''c'']) \<le> (33554432::nat)"
  by (rule command_list_bounded
      [of "\<lparr>rbuf = concat (map text_line [''a b'', ''c'']) @ ''0000'' @ [], rend = None\<rparr>" _ "\<lparr>rbuf = [], rend = None\<rparr>"])
    (subst read_lines_until_flush_def, subst read_lines_loop_texts,
      auto simp: MAX_LINES_def MAX_BYTES_def)

text \<open>
  A side band never fails, every packet of it carries the band byte and fits the 65520
  bytes of a side-band-64k frame, and the payloads read back in order are the data.
\<close>

theorem write_band_roundtrip:
  "\<exists>ds. write_band band data w = (Inr (), w @ concat (map (enc_pkt \<circ> Data) ds))
     \<and> (\<forall>d\<in>set ds. hd d = band \<and> 2 \<le> length d \<and> length d + 4 \<le> 65520)
     \<and> concat (map tl ds) = data
     \<and> (\<forall>rest. decode_many dec_pkt (length ds) (concat (map (enc_pkt \<circ> Data) ds) @ rest)
            = Some (map Data ds, rest))"
proof -
  let ?ds = "map ((#) band) (chunks MAX_BAND data)"
  have sz: "hd d = band \<and> 2 \<le> length d \<and> length d + 4 \<le> 65520" if "d \<in> set ?ds" for d
    using that chunks_length [of _ MAX_BAND data] by (fastforce simp: MAX_BAND_def Suc_le_eq)
  have "decode_many dec_pkt (length (map Data ?ds)) (concat (map enc_pkt (map Data ?ds)) @ rest)
      = Some (map Data ?ds, rest)" for rest
    by (rule pk.decode_frames) (use sz in force)
  moreover have "concat (map tl ?ds) = data"
    using concat_chunks [of MAX_BAND data] by (simp add: comp_def MAX_BAND_def)
  ultimately show ?thesis
    using sz write_band_bytes [of band data w]
    by (intro exI [of _ ?ds]) (simp add: comp_def del: enc_pkt.simps)
qed

theorem write_band_roundtrip_witness:
  "\<exists>ds. write_band (CHR 0x01) ''pack'' [] = (Inr (), [] @ concat (map (enc_pkt \<circ> Data) ds))
     \<and> concat (map tl ds) = ''pack''"
  using write_band_roundtrip [of "CHR 0x01" "''pack''" "[]"] by blast

text \<open>
  An \<open>ERR\<close> packet is always delivered: one packet, valid UTF-8, carrying the whole message
  when it fits and otherwise a prefix that gives up at most three bytes of the room.
\<close>

theorem write_err_delivers:
  assumes "utf8_valid msg"
  shows "\<exists>bs k. write_err msg w = (Inr (), w @ bs)
     \<and> (\<forall>rest e. read_pkt \<lparr>rbuf = bs @ rest, rend = e\<rparr> =
          (Inr (Some (Data (''ERR '' @ take k msg @ [CHR 0x0A]))), \<lparr>rbuf = rest, rend = e\<rparr>))
     \<and> utf8_valid (''ERR '' @ take k msg @ [CHR 0x0A])
     \<and> k \<le> length msg \<and> (length msg \<le> 65526 \<longrightarrow> k = length msg)
     \<and> (65526 < length msg \<longrightarrow> 65523 \<le> k \<and> k \<le> 65526)"
proof -
  let ?n = "min (length msg) MAX_MSG"
  let ?k = "floor_char_boundary msg ?n"
  let ?body = "''ERR '' @ take ?k msg @ [CHR 0x0A]"
  have k: "?k \<le> ?n" "is_char_boundary msg ?k"
    by (rule floor_char_boundary_le, rule floor_char_boundary)
  obtain m where "m \<le> ?n" "?n < m + 4" "is_char_boundary msg m"
    using utf8_boundary_near [OF assms, of ?n] by auto
  with floor_char_boundary_max [of m ?n msg] have near: "?n < ?k + 4" by linarith
  have whole: "length msg \<le> 65526 \<longrightarrow> ?k = length msg"
    using floor_char_boundary_max [of "length msg" ?n msg] k(1)
    by (auto simp: is_char_boundary_def MAX_MSG)
  have "utf8_valid (take ?k msg)" using assms k by (intro utf8_take_boundary) auto
  then have v: "utf8_valid ?body"
    using utf8_valid_append_ascii [of "take ?k msg" "[CHR 0x0A]"] by (simp add: byte_of_def)
  have len: "length ?body + 4 \<le> 0xffff" using k(1) by (simp add: MAX_MSG)
  have "read_pkt \<lparr>rbuf = (hex4 (length ?body + 4) @ ?body) @ rest, rend = e\<rparr> =
      (Inr (Some (Data ?body)), \<lparr>rbuf = rest, rend = e\<rparr>)" for rest e
    using len by (subst read_pkt_frame [of "length ?body + 4"]) simp_all
  moreover have "write_err msg w = (Inr (), w @ hex4 (length ?body + 4) @ ?body)"
    by (simp only: write_err_def Let_def write_all_apply)
  moreover have "?k \<le> length msg" "65526 < length msg \<longrightarrow> 65523 \<le> ?k \<and> ?k \<le> 65526"
    using near k(1) by (auto simp: MAX_MSG)
  ultimately show ?thesis using v whole
    by (intro exI [of _ "hex4 (length ?body + 4) @ ?body"] exI [of _ ?k]) blast
qed

theorem write_err_delivers_witness:
  "\<exists>bs k. write_err ''repository not found'' [] = (Inr (), [] @ bs)
     \<and> k \<le> length ''repository not found''
     \<and> (length ''repository not found'' \<le> 65526 \<longrightarrow> k = length ''repository not found'')"
  using write_err_delivers [of "''repository not found''" "[]"]
  by (auto simp: byte_of_def)

end
