(* ===== verification/Cache.thy ===== *)
theory Cache
  imports Prelude
begin

text \<open>
  The shared response cache of \<open>crates/storage/src/cache/mod.rs\<close>. Every entry's key carries the
  repository's generation; a purge increments the generation, so entries of older generations
  become unreachable at once. The cache is off, in this process, or a Redis that can fail or
  lose an acknowledgement at every command. The lemmas show that no operation ever writes an
  entry of a generation not yet reached, so that after a purge that reported success nothing
  cached before it is served again, not even by a read-through that was in flight.
\<close>

section \<open>State and operations\<close>

datatype cache_mode = Disabled | Memory | Redis

record cache_env = io_env +
  now :: nat
  cmode :: cache_mode
  centries :: "(string \<times> (bytes \<times> nat option)) list"

definition KEY_VERSION :: string where
  "KEY_VERSION = ''v1''"

definition cache_key :: "nat \<Rightarrow> string \<Rightarrow> string \<Rightarrow> string" where
  "cache_key g repo sfx =
     KEY_VERSION @ '':'' @ to_decimal g @ '':'' @ repo @ '':'' @ sfx"

definition gen_key :: "string \<Rightarrow> string" where
  "gen_key repo = ''gen:'' @ repo"

definition alive :: "nat \<Rightarrow> bytes \<times> nat option \<Rightarrow> bool" where
  "alive t e = (case snd e of None \<Rightarrow> True | Some x \<Rightarrow> t < x)"

definition clookup :: "'z cache_env_scheme \<Rightarrow> string \<Rightarrow> bytes option" where
  "clookup s k =
     (case map_of (centries s) k of
        None \<Rightarrow> None | Some e \<Rightarrow> if alive (now s) e then Some (fst e) else None)"

definition cset :: "string \<Rightarrow> bytes \<times> nat option \<Rightarrow> 'z cache_env_scheme \<Rightarrow> 'z cache_env_scheme" where
  "cset k e s = s\<lparr>centries := AList.update k e (centries s)\<rparr>"

definition cdel :: "string \<Rightarrow> 'z cache_env_scheme \<Rightarrow> 'z cache_env_scheme" where
  "cdel k s = s\<lparr>centries := AList.delete k (centries s)\<rparr>"

text \<open>\<open>mem_get\<close>: an expired entry is removed by the read that finds it.\<close>

definition mem_get :: "string \<Rightarrow> 'z cache_env_scheme \<Rightarrow> bytes option \<times> 'z cache_env_scheme" where
  "mem_get k s =
     (case map_of (centries s) k of
        Some e \<Rightarrow> if alive (now s) e then (Some (fst e), s) else (None, cdel k s)
      | None \<Rightarrow> (None, s))"

text \<open>A Redis command: \<open>None\<close> when it fails or times out.\<close>

definition redis_read :: "('z cache_env_scheme \<Rightarrow> 'a) \<Rightarrow> 'z cache_env_scheme \<Rightarrow> 'a option \<times> 'z cache_env_scheme" where
  "redis_read f s = (case io_read f s of (Inl e, t) \<Rightarrow> (None, t) | (Inr x, t) \<Rightarrow> (Some x, t))"

definition generation :: "string \<Rightarrow> 'z cache_env_scheme \<Rightarrow> nat option \<times> 'z cache_env_scheme" where
  "generation repo s =
     (case cmode s of
        Memory \<Rightarrow>
          (case mem_get (gen_key repo) s of
             (v, t) \<Rightarrow> (Some (case Option.bind v parse_u64 of Some n \<Rightarrow> n | None \<Rightarrow> 0), t))
      | Disabled \<Rightarrow> (None, s)
      | Redis \<Rightarrow>
          (case redis_read (\<lambda>t. clookup t (gen_key repo)) s of
             (None, t) \<Rightarrow> (None, t)
           | (Some None, t) \<Rightarrow> (Some 0, t)
           | (Some (Some v), t) \<Rightarrow> (parse_u64 v, t)))"

text \<open>\<open>get\<close>: in Redis one script reads the generation and the entry it names.\<close>

definition cache_get :: "string \<Rightarrow> string \<Rightarrow> 'z cache_env_scheme \<Rightarrow> bytes option \<times> 'z cache_env_scheme" where
  "cache_get repo sfx s =
     (case cmode s of
        Memory \<Rightarrow>
          (case generation repo s of
             (None, t) \<Rightarrow> (None, t)
           | (Some g, t) \<Rightarrow> mem_get (cache_key g repo sfx) t)
      | Disabled \<Rightarrow> (None, s)
      | Redis \<Rightarrow>
          (case redis_read (\<lambda>t.
               let g = (case clookup t (gen_key repo) of Some v \<Rightarrow> v | None \<Rightarrow> ''0'')
               in clookup t (KEY_VERSION @ '':'' @ g @ '':'' @ repo @ '':'' @ sfx)) s of
             (None, t) \<Rightarrow> (None, t)
           | (Some v, t) \<Rightarrow> (v, t)))"

definition SWEEP_AT :: nat where
  "SWEEP_AT = 1024"

definition put_key :: "string \<Rightarrow> bytes \<Rightarrow> nat \<Rightarrow> 'z cache_env_scheme \<Rightarrow> 'z cache_env_scheme" where
  "put_key k val ttl s =
     (case cmode s of
        Memory \<Rightarrow>
          (let swept = (if SWEEP_AT \<le> length (centries s)
                        then s\<lparr>centries := filter (\<lambda>(_, e). alive (now s) e) (centries s)\<rparr> else s)
           in cset k (val, Some (now s + ttl)) swept)
      | Disabled \<Rightarrow> s
      | Redis \<Rightarrow> snd (io_write (\<lambda>t. cset k (val, Some (now t + ttl)) t) s))"

definition cache_put :: "string \<Rightarrow> string \<Rightarrow> bytes \<Rightarrow> nat \<Rightarrow> 'z cache_env_scheme \<Rightarrow> 'z cache_env_scheme" where
  "cache_put repo sfx val ttl s =
     (case generation repo s of
        (None, t) \<Rightarrow> t
      | (Some g, t) \<Rightarrow> put_key (cache_key g repo sfx) val ttl t)"

definition put_at :: "nat \<Rightarrow> string \<Rightarrow> string \<Rightarrow> bytes \<Rightarrow> nat \<Rightarrow> 'z cache_env_scheme \<Rightarrow> 'z cache_env_scheme" where
  "put_at g repo sfx val ttl s = put_key (cache_key g repo sfx) val ttl s"

definition drop_refs :: "string \<Rightarrow> 'z cache_env_scheme \<Rightarrow> 'z cache_env_scheme" where
  "drop_refs repo s =
     (case generation repo s of
        (None, t) \<Rightarrow> t
      | (Some g, t) \<Rightarrow>
          (case cmode t of
             Memory \<Rightarrow> cdel (cache_key g repo ''refs'') t
           | Disabled \<Rightarrow> t
           | Redis \<Rightarrow> snd (io_write (cdel (cache_key g repo ''refs'')) t)))"

text \<open>\<open>INCR\<close>: a missing key counts as zero; the new value carries no expiry in Redis.\<close>

definition stored_gen :: "string \<Rightarrow> 'z cache_env_scheme \<Rightarrow> nat" where
  "stored_gen repo s =
     (case Option.bind (clookup s (gen_key repo)) parse_u64 of Some n \<Rightarrow> n | None \<Rightarrow> 0)"

text \<open>Redis counters are signed 64-bit: an increment past that is an error and changes nothing.\<close>

definition INCR_BOUND :: nat where
  "INCR_BOUND = 9223372036854775808"

definition ten_years :: nat where
  "ten_years = 10 * 365 * 24 * 3600"

definition bump_generation :: "string \<Rightarrow> ('z cache_env_scheme, unit) io" where
  "bump_generation repo s =
     (case cmode s of
        Memory \<Rightarrow>
          (case mem_get (gen_key repo) s of
             (v, t) \<Rightarrow>
               (let cur = (case Option.bind v parse_u64 of Some n \<Rightarrow> n | None \<Rightarrow> 0)
                in (Inr (), cset (gen_key repo) (to_decimal (cur + 1), Some (now t + ten_years)) t)))
      | Disabled \<Rightarrow> (Inr (), s)
      | Redis \<Rightarrow>
          (if stored_gen repo s + 1 < INCR_BOUND then
             (case io_write (\<lambda>t. cset (gen_key repo) (to_decimal (stored_gen repo t + 1), None) t) s of
                (Inl e, t) \<Rightarrow> (Inl (Message ''cache purge failed''), t)
              | (Inr u, t) \<Rightarrow> (Inr u, t))
           else (Inl (Message ''cache purge failed''), snd (io_step s))))"

text \<open>The operations of any number of clients, as one sequence against a shared Redis.\<close>

datatype cache_op =
    OTick nat
  | OPut string string bytes nat
  | OPutAt nat string string bytes nat
  | OGet string string
  | ODrop string
  | OBump string

fun run_cache_op :: "cache_op \<Rightarrow> 'z cache_env_scheme \<Rightarrow> 'z cache_env_scheme" where
  "run_cache_op (OTick d) s = s\<lparr>now := now s + d\<rparr>"
| "run_cache_op (OPut r x v ttl) s = cache_put r x v ttl s"
| "run_cache_op (OPutAt g r x v ttl) s = put_at g r x v ttl s"
| "run_cache_op (OGet r x) s = snd (cache_get r x s)"
| "run_cache_op (ODrop r) s = drop_refs r s"
| "run_cache_op (OBump r) s = snd (bump_generation r s)"

fun op_repo :: "cache_op \<Rightarrow> string" where
  "op_repo (OTick d) = []"
| "op_repo (OPut r x v ttl) = r"
| "op_repo (OPutAt g r x v ttl) = r"
| "op_repo (OGet r x) = r"
| "op_repo (ODrop r) = r"
| "op_repo (OBump r) = r"

section \<open>Keys\<close>

lemma colon_not_decimal: "CHR '':'' \<notin> set (to_decimal n)"
  using set_to_radix [of 10 n] by auto

lemma cache_key_inj:
  assumes "CHR '':'' \<notin> set r" and "CHR '':'' \<notin> set r'"
  shows "cache_key g r x = cache_key g' r' x' \<longleftrightarrow> g = g' \<and> r = r' \<and> x = x'"
  using assms sep_inj [OF colon_not_decimal colon_not_decimal] sep_inj [OF assms]
  by (auto simp: cache_key_def to_radix_inj)

lemma gen_key_inj [simp]: "gen_key r = gen_key r' \<longleftrightarrow> r = r'"
  by (simp add: gen_key_def)

lemma gen_key_cache_key [simp]: "gen_key r \<noteq> cache_key g r' x" "cache_key g r' x \<noteq> gen_key r"
  by (simp_all add: gen_key_def cache_key_def KEY_VERSION_def)

lemma map_of_cset: "map_of (centries (cset k e s)) = (map_of (centries s))(k \<mapsto> e)"
  by (simp add: cset_def update_conv')

lemma cset_frame [simp]: "cmode (cset k e s) = cmode s" "now (cset k e s) = now s"
  "cmode (cdel k s) = cmode s" "now (cdel k s) = now s"
  by (simp_all add: cset_def cdel_def)

lemma map_of_cdel: "map_of (centries (cdel k s)) = (map_of (centries s))(k := None)"
  by (simp add: cdel_def delete_conv')

section \<open>Generations bound the entries\<close>

text \<open>
  \<open>gen_is n\<close>: the counter of the repository reads \<open>n\<close> and never expires (absent for zero).
  \<open>gen_at_most\<close>: no entry of the repository belongs to a later generation.
\<close>

definition gen_is :: "string \<Rightarrow> nat \<Rightarrow> 'z cache_env_scheme \<Rightarrow> bool" where
  "gen_is repo n s \<longleftrightarrow> n < INCR_BOUND \<and>
     (map_of (centries s) (gen_key repo) = Some (to_decimal n, None)
      \<or> n = 0 \<and> map_of (centries s) (gen_key repo) = None)"

definition gen_at_most :: "string \<Rightarrow> nat \<Rightarrow> 'z cache_env_scheme \<Rightarrow> bool" where
  "gen_at_most repo n s \<longleftrightarrow> (\<forall>g x. map_of (centries s) (cache_key g repo x) \<noteq> None \<longrightarrow> g \<le> n)"

definition cache_inv :: "string \<Rightarrow> 'z cache_env_scheme \<Rightarrow> bool" where
  "cache_inv repo s \<longleftrightarrow> cmode s = Redis \<and> (\<exists>n. gen_is repo n s \<and> gen_at_most repo n s)"

definition purged :: "nat \<Rightarrow> string \<Rightarrow> 'z cache_env_scheme \<Rightarrow> bool" where
  "purged G repo s \<longleftrightarrow> cmode s = Redis \<and> (\<exists>n>G. gen_is repo n s) \<and> gen_at_most repo G s"

lemma gen_is_unique: "gen_is repo n s \<Longrightarrow> gen_is repo m s \<Longrightarrow> n = m"
  by (auto simp: gen_is_def to_radix_inj)

lemma gen_is_lookup:
  assumes "gen_is repo n s"
  shows "stored_gen repo s = n"
    and "(case clookup s (gen_key repo) of Some v \<Rightarrow> v | None \<Rightarrow> ''0'') = to_decimal n"
    and "clookup s (gen_key repo) = None \<Longrightarrow> n = 0"
    and "clookup s (gen_key repo) = Some v \<Longrightarrow> parse_u64 v = Some n"
proof -
  have z: "to_decimal 0 = ''0''" by (simp add: to_radix.simps digit_char_def)
  have "n < u64_bound" using assms by (simp add: gen_is_def INCR_BOUND_def)
  with parse_decimal have p: "parse_u64 (to_decimal n) = Some n" by blast
  show "stored_gen repo s = n"
    "(case clookup s (gen_key repo) of Some v \<Rightarrow> v | None \<Rightarrow> ''0'') = to_decimal n"
    "clookup s (gen_key repo) = None \<Longrightarrow> n = 0"
    "clookup s (gen_key repo) = Some v \<Longrightarrow> parse_u64 v = Some n"
    using assms p z by (auto simp: gen_is_def stored_gen_def clookup_def alive_def)
qed

lemma gen_frame [simp]:
  "gen_is repo n (s\<lparr>clock := c\<rparr>) = gen_is repo n s" "gen_is repo n (s\<lparr>now := d\<rparr>) = gen_is repo n s"
  "gen_at_most repo n (s\<lparr>clock := c\<rparr>) = gen_at_most repo n s"
  "gen_at_most repo n (s\<lparr>now := d\<rparr>) = gen_at_most repo n s"
  by (simp_all add: gen_is_def gen_at_most_def)

lemma gen_is_cset: "gen_is repo n s \<Longrightarrow> gen_is repo n (cset (cache_key g r x) e s)"
  by (simp add: gen_is_def map_of_cset)

lemma gen_is_cdel: "gen_is repo n s \<Longrightarrow> gen_is repo n (cdel (cache_key g r x) s)"
  by (simp add: gen_is_def map_of_cdel)

lemma gen_at_most_cset:
  "CHR '':'' \<notin> set repo \<Longrightarrow> CHR '':'' \<notin> set r \<Longrightarrow> gen_at_most repo n s \<Longrightarrow> (r = repo \<Longrightarrow> g \<le> n) \<Longrightarrow>
   gen_at_most repo n (cset (cache_key g r x) e s)"
  by (auto simp: gen_at_most_def map_of_cset cache_key_inj split: if_splits)

lemma gen_at_most_cdel: "gen_at_most repo n s \<Longrightarrow> gen_at_most repo n (cdel k s)"
  by (auto simp: gen_at_most_def map_of_cdel split: if_splits)

lemma gen_at_most_cset_gen: "gen_at_most repo n s \<Longrightarrow> gen_at_most repo n (cset (gen_key r) e s)"
  by (simp add: gen_at_most_def map_of_cset)

lemmas gen_kept = gen_is_cset gen_is_cdel gen_at_most_cset gen_at_most_cdel gen_at_most_cset_gen

lemma io_write_snd: "snd (io_write f s) = f (s\<lparr>clock := Suc (clock s)\<rparr>)
    \<or> snd (io_write f s) = s\<lparr>clock := Suc (clock s)\<rparr>"
  by (cases rule: io_write_cases [of f s]) auto

lemma clookup_clock [simp]: "clookup (s\<lparr>clock := c\<rparr>) k = clookup s k"
  by (simp add: clookup_def split: option.splits)

lemma cmode_io_write [simp]: "(\<And>t. cmode (f t) = cmode t) \<Longrightarrow> cmode (snd (io_write f s)) = cmode s"
  using io_write_snd [of f s] by auto

lemma cmode_put_key [simp]: "cmode (put_key k v ttl s) = cmode s"
  by (simp add: put_key_def Let_def split: cache_mode.splits)

lemma generation_redis:
  assumes "cmode s = Redis"
  shows "snd (generation repo s) = s\<lparr>clock := Suc (clock s)\<rparr>"
    and "gen_is repo n s \<Longrightarrow> fst (generation repo s) = None \<or> fst (generation repo s) = Some n"
proof -
  obtain r where r: "io_read (\<lambda>t. clookup t (gen_key repo)) s = (r, s\<lparr>clock := Suc (clock s)\<rparr>)"
    and rr: "\<And>x. r = Inr x \<Longrightarrow> x = clookup s (gen_key repo)"
    by (cases "faults s (clock s)")
      (auto simp: io_read_def io_step_def bindE_def getE_def)
  show "snd (generation repo s) = s\<lparr>clock := Suc (clock s)\<rparr>"
    using assms r by (auto simp: generation_def redis_read_def split: sum.splits option.splits)
  show "fst (generation repo s) = None \<or> fst (generation repo s) = Some n" if "gen_is repo n s"
    using assms r rr gen_is_lookup(3,4) [OF that]
    by (auto simp: generation_def redis_read_def split: sum.splits option.splits)
qed

lemma run_cache_op_redis:
  assumes "cmode s = Redis"
  shows "cmode (run_cache_op op s) = Redis"
proof (cases op)
  case (OPut r x v ttl)
  with assms generation_redis(1) [OF assms, of r] show ?thesis
    by (cases "generation r s") (simp add: cache_put_def split: option.splits)
next
  case (OPutAt g r x v ttl)
  with assms show ?thesis by (simp add: put_at_def)
next
  case (OGet r x)
  with assms show ?thesis
    by (auto simp: cache_get_def redis_read_def io_read_def io_step_def bindE_def getE_def
        split: option.splits)
next
  case (ODrop r)
  with assms generation_redis(1) [OF assms, of r] show ?thesis
    by (cases "generation r s") (simp add: drop_refs_def split: option.splits)
next
  case (OBump r)
  with assms show ?thesis
    by (auto simp: bump_generation_def io_step_def io_write_def Let_def split: option.splits)
qed (use assms in simp)

text \<open>
  What one operation may do to a repository's entries. \<open>G\<close> is a bound the entries respect;
  an operation keeps it when it writes no entry of this repository beyond it.
\<close>

definition writes_within :: "nat \<Rightarrow> string \<Rightarrow> 'z cache_env_scheme \<Rightarrow> cache_op \<Rightarrow> bool" where
  "writes_within G repo s op = (CHR '':'' \<notin> set (op_repo op) \<and>
     (case op of
        OPutAt g r x v ttl \<Rightarrow> r = repo \<longrightarrow> g \<le> G
      | OPut r x v ttl \<Rightarrow> r = repo \<longrightarrow> stored_gen repo s \<le> G
      | _ \<Rightarrow> True))"

lemma put_key_kept:
  assumes "cmode s = Redis" "CHR '':'' \<notin> set repo" "CHR '':'' \<notin> set r" "gen_is repo n s"
    "gen_at_most repo G s" "r = repo \<Longrightarrow> g \<le> G"
  shows "gen_is repo n (put_key (cache_key g r x) v ttl s) \<and>
    gen_at_most repo G (put_key (cache_key g r x) v ttl s)"
  using assms io_write_snd [of "\<lambda>t. cset (cache_key g r x) (v, Some (now t + ttl)) t" s]
  by (auto simp: put_key_def gen_kept)

lemma run_cache_op_kept:
  assumes "cmode s = Redis" "CHR '':'' \<notin> set repo" "gen_is repo n s" "gen_at_most repo G s"
    "writes_within G repo s op"
  shows "gen_at_most repo G (run_cache_op op s) \<and> (\<exists>m\<ge>n. gen_is repo m (run_cache_op op s))"
proof (cases op)
  case (OTick d)
  with assms show ?thesis by auto
next
  case (OPut r x v ttl)
  note g = generation_redis [OF assms(1), of r]
  have r: "CHR '':'' \<notin> set r" using assms(5) OPut by (simp add: writes_within_def)
  have le: "k \<le> G" if "fst (generation r s) = Some k" "r = repo" for k
    using that g(2) [of n] assms(3,5) OPut gen_is_lookup(1) [OF assms(3)]
    by (auto simp: writes_within_def)
  show ?thesis
  proof (cases "generation r s")
    case (Pair o1 t)
    then have t: "t = s\<lparr>clock := Suc (clock s)\<rparr>" using g(1) by simp
    show ?thesis
    proof (cases o1)
      case None
      with OPut Pair t assms show ?thesis by (auto simp: cache_put_def)
    next
      case (Some k)
      with le Pair t assms r have "gen_is repo n (put_key (cache_key k r x) v ttl t) \<and>
          gen_at_most repo G (put_key (cache_key k r x) v ttl t)"
        by (intro put_key_kept) auto
      with OPut Pair Some show ?thesis by (auto simp: cache_put_def)
    qed
  qed
next
  case (OPutAt g r x v ttl)
  with assms put_key_kept [OF assms(1,2) _ assms(3,4), of r g] show ?thesis
    by (auto simp: put_at_def writes_within_def)
next
  case (OGet r x)
  with assms show ?thesis
    by (auto simp: cache_get_def redis_read_def io_read_def io_step_def bindE_def getE_def
        split: option.splits)
next
  case (ODrop r)
  note g = generation_redis(1) [OF assms(1), of r]
  obtain o1 where "generation r s = (o1, s\<lparr>clock := Suc (clock s)\<rparr>)"
    using g by (cases "generation r s") simp
  with ODrop assms io_write_snd [of "cdel (cache_key (the o1) r ''refs'')" "s\<lparr>clock := Suc (clock s)\<rparr>"]
  show ?thesis by (cases o1) (auto simp: drop_refs_def gen_kept)
next
  case (OBump r)
  let ?f = "\<lambda>t. cset (gen_key r) (to_decimal (stored_gen r t + 1), None) t"
  have clk: "stored_gen r (s\<lparr>clock := c\<rparr>) = stored_gen r s" for c
    by (simp add: stored_gen_def)
  have "gen_at_most repo G (?f t) \<and> (\<exists>m\<ge>n. gen_is repo m (?f t))"
    if "t = s\<lparr>clock := Suc (clock s)\<rparr>" "stored_gen r s + 1 < INCR_BOUND" for t
  proof (cases "r = repo")
    case True
    have "gen_is repo (n + 1) (?f t)"
      using that True gen_is_lookup(1) [OF assms(3)] clk by (simp add: gen_is_def map_of_cset)
    moreover have "gen_at_most repo G (?f t)" using that assms by (simp add: gen_kept)
    ultimately show ?thesis by (meson le_add1)
  next
    case False
    with that assms show ?thesis by (auto simp: gen_is_def map_of_cset gen_kept)
  qed
  with OBump assms io_write_snd [of ?f s] show ?thesis
    by (auto simp: bump_generation_def io_step_def split: prod.splits sum.splits)
qed

lemma purged_run:
  assumes "CHR '':'' \<notin> set repo" "purged G repo s"
    "\<And>op. op \<in> set ops \<Longrightarrow> CHR '':'' \<notin> set (op_repo op)"
    "\<And>x v ttl. OPut repo x v ttl \<notin> set ops"
    "\<And>g x v ttl. OPutAt g repo x v ttl \<in> set ops \<Longrightarrow> g \<le> G"
  shows "purged G repo (fold run_cache_op ops s)"
  using assms(2-)
proof (induction ops arbitrary: s)
  case (Cons op ops)
  from Cons.prems(1) obtain n where n: "n > G" "gen_is repo n s" and b: "gen_at_most repo G s"
    and m: "cmode s = Redis" by (auto simp: purged_def)
  have at: "g \<le> G" if "op = OPutAt g repo x v ttl" for g x v ttl
    using Cons.prems(4) [of g x v ttl] that by simp
  have "CHR '':'' \<notin> set (op_repo op)" using Cons.prems(2) by simp
  then have "writes_within G repo s op"
    using at Cons.prems(3) by (cases op) (auto simp: writes_within_def)
  with run_cache_op_kept [OF m assms(1) n(2) b] run_cache_op_redis [OF m, of op] n(1)
  have "purged G repo (run_cache_op op s)" 
    unfolding purged_def by (meson less_le_trans)
  then have "purged G repo (fold run_cache_op ops (run_cache_op op s))"
    using Cons.prems(2-4) by (intro Cons.IH) (simp_all, meson)
  then show ?case by simp
qed simp

lemma purged_get:
  assumes "purged G repo s"
  shows "fst (cache_get repo x s) = None"
proof -
  obtain n where n: "n > G" "gen_is repo n s" and b: "gen_at_most repo G s" and m: "cmode s = Redis"
    using assms by (auto simp: purged_def)
  have "map_of (centries s) (cache_key n repo x) = None"
    using b n(1) unfolding gen_at_most_def by (meson not_le)
  then have "clookup s (cache_key n repo x) = None" by (simp add: clookup_def)
  then show ?thesis
    using m gen_is_lookup(2) [OF n(2)]
    by (auto simp: cache_get_def redis_read_def io_read_def io_step_def bindE_def getE_def
        cache_key_def Let_def split: option.splits)
qed

lemma bump_purges:
  assumes "cmode s = Redis" "gen_is repo n s" "gen_at_most repo n s"
    "bump_generation repo s = (Inr (), t)"
  shows "purged n repo t"
proof -
  have "stored_gen repo (s\<lparr>clock := Suc (clock s)\<rparr>) = n"
    using gen_is_lookup(1) [OF assms(2)] by (simp add: stored_gen_def)
  with assms gen_is_lookup(1) [OF assms(2)] show ?thesis
    by (auto simp: bump_generation_def purged_def gen_is_def map_of_cset gen_kept dest!: io_write_InrD
        split: prod.splits sum.splits if_splits)
qed

lemma cache_inv_step:
  assumes "cache_inv repo s" and "CHR '':'' \<notin> set repo" and "CHR '':'' \<notin> set (op_repo op)"
    and "\<And>g x v ttl. op = OPutAt g repo x v ttl \<Longrightarrow> g \<le> stored_gen repo s"
  shows "cache_inv repo (run_cache_op op s)"
proof -
  from assms(1) obtain n where m: "cmode s = Redis" and n: "gen_is repo n s" "gen_at_most repo n s"
    by (auto simp: cache_inv_def)
  have "writes_within n repo s op"
    using assms(3,4) gen_is_lookup(1) [OF n(1)] by (cases op) (auto simp: writes_within_def)
  from run_cache_op_kept [OF m assms(2) n this] obtain k where
    "gen_at_most repo n (run_cache_op op s)" "n \<le> k" "gen_is repo k (run_cache_op op s)" by blast
  moreover from this have "gen_at_most repo k (run_cache_op op s)"
    unfolding gen_at_most_def by (meson le_trans)
  ultimately show ?thesis
    using run_cache_op_redis [OF m, of op] unfolding cache_inv_def by blast
qed

section \<open>Properties\<close>


definition empty_cache :: "(nat \<Rightarrow> error option) \<Rightarrow> cache_env" where
  "empty_cache f = \<lparr>clock = 0, faults = f, landed = (\<lambda>_. True), now = 0, cmode = Redis, centries = []\<rparr>"

lemma empty_cache_inv: "cache_inv repo (empty_cache f)"
  by (auto simp: cache_inv_def empty_cache_def gen_is_def gen_at_most_def INCR_BOUND_def)


text \<open>
  C36. After a purge that reported success, nothing cached before it is ever served again: not
  at once, not after any further operations of other clients, and not through a read-through
  that read its generation before the purge and writes its answer after it.
\<close>

theorem purge_orphans_everything:
  assumes "cache_inv repo s" and "CHR '':'' \<notin> set repo"
    and "bump_generation repo s = (Inr (), t)"
    and "\<And>op. op \<in> set ops \<Longrightarrow> CHR '':'' \<notin> set (op_repo op)"
    and "\<And>y v ttl. OPut repo y v ttl \<notin> set ops"
    and "\<And>g y v ttl. OPutAt g repo y v ttl \<in> set ops \<Longrightarrow> g \<le> stored_gen repo s"
  shows "fst (cache_get repo x (fold run_cache_op ops t)) = None"
proof -
  from assms(1) obtain n where m: "cmode s = Redis" and n: "gen_is repo n s" "gen_at_most repo n s"
    by (auto simp: cache_inv_def)
  have "purged n repo (fold run_cache_op ops t)"
    using purged_run [OF assms(2) bump_purges [OF m n assms(3)] assms(4,5)] assms(6)
      gen_is_lookup(1) [OF n(1)] by blast
  then show ?thesis by (rule purged_get)
qed

theorem purge_orphans_everything_witness:
  "\<exists>s t :: cache_env. bump_generation ''alice/web'' s = (Inr (), t)
     \<and> fst (cache_get ''alice/web'' ''refs'' s) = Some ''old''
     \<and> fst (cache_get ''alice/web'' ''refs''
          (fold run_cache_op [OPutAt 0 ''alice/web'' ''refs'' ''late'' 5, OTick 1] t)) = None"
proof -
  let ?s = "run_cache_op (OPutAt 0 ''alice/web'' ''refs'' ''old'' 5) (empty_cache (\<lambda>_. None))"
  have i: "cache_inv ''alice/web'' ?s"
    by (rule cache_inv_step [OF empty_cache_inv]) auto
  obtain t where t: "bump_generation ''alice/web'' ?s = (Inr (), t)"
    by (auto simp: bump_generation_def put_at_def put_key_def empty_cache_def io_write_def Let_def
        cset_def stored_gen_def clookup_def gen_key_def cache_key_def KEY_VERSION_def INCR_BOUND_def)
  have "fst (cache_get ''alice/web'' ''refs'' ?s) = Some ''old''"
    by (simp add: cache_get_def redis_read_def io_read_def io_step_def bindE_def getE_def put_at_def
        put_key_def empty_cache_def io_write_def Let_def cset_def clookup_def gen_key_def
        cache_key_def KEY_VERSION_def alive_def to_radix.simps digit_char_def)
  with t purge_orphans_everything [OF i _ t, of "[OPutAt 0 ''alice/web'' ''refs'' ''late'' 5, OTick 1]" "''refs''"]
  show ?thesis by fastforce
qed

end
