(* ===== verification/Kv.thy ===== *)
theory Kv
  imports Prelude
begin

text \<open>
  The key-value database behind every repository. SlateDB is not part of this repository; what
  the crates rely on is its documented interface: a lookup sees the last write of its key, a
  write batch is applied whole and in order, and a prefix scan lists the live keys under a
  prefix in byte order. \<open>kv_store\<close> is that interface; it is discharged for the association
  lists the world of the later theories keeps its databases in.
\<close>

type_synonym kv = "(string \<times> bytes) list"

definition kv_get :: "kv \<Rightarrow> string \<Rightarrow> bytes option" where
  "kv_get db k = map_of db k"

definition kv_put :: "string \<Rightarrow> bytes \<Rightarrow> kv \<Rightarrow> kv" where
  "kv_put k v db = AList.update k v db"

definition kv_del :: "string \<Rightarrow> kv \<Rightarrow> kv" where
  "kv_del k db = AList.delete k db"

definition scan_prefix :: "string \<Rightarrow> kv \<Rightarrow> (string \<times> bytes) list" where
  "scan_prefix p db = sort_key fst (filter (\<lambda>(k, v). prefix p k) db)"

definition kv_ok :: "kv \<Rightarrow> bool" where
  "kv_ok db \<longleftrightarrow> distinct (map fst db)"

datatype batch_op = BPut string bytes | BDel string

fun batch_key :: "batch_op \<Rightarrow> string" where
  "batch_key (BPut k v) = k"
| "batch_key (BDel k) = k"

fun batch_value :: "batch_op \<Rightarrow> bytes option" where
  "batch_value (BPut k v) = Some v"
| "batch_value (BDel k) = None"

fun apply_op :: "batch_op \<Rightarrow> kv \<Rightarrow> kv" where
  "apply_op (BPut k v) db = kv_put k v db"
| "apply_op (BDel k) db = kv_del k db"

definition apply_batch :: "batch_op list \<Rightarrow> kv \<Rightarrow> kv" where
  "apply_batch ops db = fold apply_op ops db"

locale kv_store =
  fixes ok :: "'db \<Rightarrow> bool"
    and get :: "'db \<Rightarrow> string \<Rightarrow> bytes option"
    and put :: "string \<Rightarrow> bytes \<Rightarrow> 'db \<Rightarrow> 'db"
    and del :: "string \<Rightarrow> 'db \<Rightarrow> 'db"
    and scan :: "string \<Rightarrow> 'db \<Rightarrow> (string \<times> bytes) list"
  assumes ok_put: "ok db \<Longrightarrow> ok (put k v db)"
    and ok_del: "ok db \<Longrightarrow> ok (del k db)"
    and get_put: "get (put k v db) k' = (if k' = k then Some v else get db k')"
    and get_del: "ok db \<Longrightarrow> get (del k db) k' = (if k' = k then None else get db k')"
    and scan_mem: "ok db \<Longrightarrow> (k, v) \<in> set (scan p db) \<longleftrightarrow> get db k = Some v \<and> prefix p k"
    and scan_keys: "ok db \<Longrightarrow> sorted (map fst (scan p db)) \<and> distinct (map fst (scan p db))"
begin

fun run_op :: "batch_op \<Rightarrow> 'db \<Rightarrow> 'db" where
  "run_op (BPut k v) db = put k v db"
| "run_op (BDel k) db = del k db"

lemma ok_run_op: "ok db \<Longrightarrow> ok (run_op x db)"
  by (cases x) (auto simp: ok_put ok_del)

lemma ok_run: "ok db \<Longrightarrow> ok (fold run_op ops db)"
  by (induction ops arbitrary: db) (auto simp: ok_run_op)

lemma get_run_op:
  "ok db \<Longrightarrow> get (run_op x db) k = (if k = batch_key x then batch_value x else get db k)"
  by (cases x) (auto simp: get_put get_del)

text \<open>The last operation of a batch on a key decides it.\<close>

lemma get_run:
  "ok db \<Longrightarrow> get (fold run_op ops db) k =
     (case filter (\<lambda>x. batch_key x = k) ops of [] \<Rightarrow> get db k | xs \<Rightarrow> batch_value (last xs))"
  by (induction ops arbitrary: db) (auto simp: ok_run_op get_run_op split: list.splits)

lemma get_run_other:
  "ok db \<Longrightarrow> (\<And>x. x \<in> set ops \<Longrightarrow> batch_key x \<noteq> k) \<Longrightarrow> get (fold run_op ops db) k = get db k"
  by (induction ops arbitrary: db) (auto simp: ok_run_op get_run_op)

text \<open>A scan is determined by what the lookups under its prefix say.\<close>

lemma scan_set: "ok db \<Longrightarrow> set (scan p db) = {(k, v). get db k = Some v \<and> prefix p k}"
  using scan_mem by auto

lemma scan_cong:
  assumes "ok a" and "ok b" and "\<And>k. prefix p k \<Longrightarrow> get a k = get b k"
  shows "scan p a = scan p b"
proof (rule map_sorted_distinct_set_unique [of fst])
  have "set (scan p a) = set (scan p b)"
    using assms by (auto simp: scan_set)
  then show "set (scan p a) = set (scan p b)" .
  have "inj_on fst (set (scan p a))"
    using scan_keys [OF assms(1), of p] by (simp add: distinct_map)
  with \<open>set (scan p a) = set (scan p b)\<close> show "inj_on fst (set (scan p a) \<union> set (scan p b))" by simp
qed (use scan_keys assms in \<open>auto simp: distinct_map\<close>)

lemma scan_run_other:
  assumes "ok db" and "\<And>x. x \<in> set ops \<Longrightarrow> \<not> prefix p (batch_key x)"
  shows "scan p (fold run_op ops db) = scan p db"
  using assms by (intro scan_cong) (auto intro: ok_run get_run_other)

lemma map_of_scan: "ok db \<Longrightarrow> prefix p k \<Longrightarrow> map_of (scan p db) k = get db k"
  by (metis map_of_eq_Some_iff option.exhaust scan_keys scan_mem)

end

interpretation kvs: kv_store kv_ok kv_get kv_put kv_del scan_prefix
  rewrites "kv_store.run_op kv_put kv_del = apply_op"
proof -
  show kvs: "kv_store kv_ok kv_get kv_put kv_del scan_prefix"
  proof unfold_locales
    fix db k v k' p
    show "kv_ok db \<Longrightarrow> kv_ok (kv_put k v db)"
      by (simp add: kv_ok_def kv_put_def distinct_update)
    show "kv_ok db \<Longrightarrow> kv_ok (kv_del k db)"
      by (simp add: kv_ok_def kv_del_def distinct_delete)
    show "kv_get (kv_put k v db) k' = (if k' = k then Some v else kv_get db k')"
      by (simp add: kv_get_def kv_put_def update_conv')
    show "kv_ok db \<Longrightarrow> kv_get (kv_del k db) k' = (if k' = k then None else kv_get db k')"
      by (simp add: kv_get_def kv_del_def delete_conv')
    show "kv_ok db \<Longrightarrow> ((k, v) \<in> set (scan_prefix p db)) = (kv_get db k = Some v \<and> prefix p k)"
      by (auto simp: kv_ok_def kv_get_def scan_prefix_def)
    show "kv_ok db \<Longrightarrow> sorted (map fst (scan_prefix p db)) \<and> distinct (map fst (scan_prefix p db))"
      by (auto simp: kv_ok_def scan_prefix_def distinct_map inj_on_def)
  qed
  show "kv_store.run_op kv_put kv_del = apply_op"
  proof (intro ext)
    fix x db show "kv_store.run_op kv_put kv_del x db = apply_op x db"
      by (cases x) (simp_all add: kv_store.run_op.simps [OF kvs])
  qed
qed

lemmas kv_laws [simp] = kvs.ok_put kvs.ok_del kvs.get_put kvs.get_del

lemma kv_ok_batch [simp]: "kv_ok db \<Longrightarrow> kv_ok (apply_batch ops db)"
  by (simp add: apply_batch_def kvs.ok_run)

lemma kv_ok_Nil [simp]: "kv_ok []"
  by (simp add: kv_ok_def)

lemma kv_get_Nil [simp]: "kv_get [] k = None"
  by (simp add: kv_get_def)

end
