(* ===== verification/Oid.thy ===== *)
theory Oid
  imports Prelude "HOL-Library.Word" "HOL-Library.Product_Lexorder"
begin

text \<open>
  Object ids. The code uses \<open>gix_hash::ObjectId\<close> with SHA-1: twenty bytes, printed as forty
  lowercase hexadecimal digits and parsed from forty digits of either case. The twenty bytes
  are a 160-bit word, so the byte order of ids is the order of the words.
\<close>

type_synonym oid = "160 word"

definition to_hex :: "oid \<Rightarrow> string" where
  "to_hex o1 = pad_left 40 (to_radix 16 (unat o1))"

definition from_hex :: "bytes \<Rightarrow> oid option" where
  "from_hex b =
     (if length b \<noteq> 40 then None else map_option of_nat (digits_value 16 0 b))"

lemma unat_160: "unat (o1 :: oid) < 16 ^ 40"
proof -
  have "unat o1 < 2 ^ LENGTH(160)" by (rule unsigned_less)
  then show ?thesis by simp
qed

lemma length_to_hex [simp]: "length (to_hex o1) = 40"
  using length_to_radix [OF _ unat_160 [of o1]] by (simp add: to_hex_def pad_left_def)

lemma from_hex_to_hex [simp]: "from_hex (to_hex o1) = Some o1"
  by (simp add: from_hex_def)
    (simp add: to_hex_def pad_left_def digits_value_zeros digits_value_to_radix)

lemma to_hex_inj: "to_hex a = to_hex b \<longleftrightarrow> a = b"
  using from_hex_to_hex by (metis option.inject)

lemma to_hex_ascii: "c \<in> set (to_hex o1) \<Longrightarrow> byte_of c < 0x80"
  using to_radix_ascii [of 16 c "unat o1"] by (auto simp: to_hex_def pad_left_def byte_of_def)

lemma to_hex_digit: "c \<in> set (to_hex o1) \<Longrightarrow> to_digit 16 c \<noteq> None"
proof -
  have "to_digit 16 c \<noteq> None" if "digits_value 16 a s = Some v" "c \<in> set s" for a s v c
    using that by (induction "16::nat" a s rule: digits_value.induct) (auto split: option.splits)
  moreover have "digits_value 16 0 (to_hex o1) \<noteq> None"
    by (simp add: to_hex_def pad_left_def digits_value_zeros digits_value_to_radix)
  moreover assume "c \<in> set (to_hex o1)"
  ultimately show ?thesis by blast
qed

end
