(* ===== verification/Store.thy ===== *)
theory Store
  imports Cache Kv Oid
begin

text \<open>
  The storage layer of \<open>crates/storage/src/store.rs\<close>: which names a repository may have, the
  manifest cache, the pack files of a repository in the object store with their index in the
  repository's database, and the pruning of the local pack directory.
  The world of the storage operations extends the cache's: the object store, the databases
  (one per repository, named by \<open>owner/name\<close>), the local disk, and the key a request was
  routed to no owner for. Opening a database creates it when it is missing; every way an open
  can fail (the pool closed, the database fenced or being deleted) is a fault of its step.
\<close>

section \<open>Names\<close>

definition is_ascii_alphanumeric :: "char \<Rightarrow> bool" where
  "is_ascii_alphanumeric c \<longleftrightarrow>
     in_range 0x30 0x39 c \<or> in_range 0x41 0x5A c \<or> in_range 0x61 0x7A c"

definition valid_segment :: "string \<Rightarrow> bool" where
  "valid_segment s \<longleftrightarrow> s \<noteq> [] \<and> s \<noteq> ''.'' \<and> s \<noteq> ''..''
     \<and> list_all (\<lambda>c. is_ascii_alphanumeric c \<or> c = CHR ''.'' \<or> c = CHR ''_'' \<or> c = CHR ''-'') s"

definition ascii_lower :: "char \<Rightarrow> char" where
  "ascii_lower c = (if in_range 0x41 0x5A c then char_of (byte_of c + 0x20) else c)"

definition eq_ignore_ascii_case :: "string \<Rightarrow> string \<Rightarrow> bool" where
  "eq_ignore_ascii_case a b \<longleftrightarrow> map ascii_lower a = map ascii_lower b"

definition RESERVED_REPO_NAMES :: "string list" where
  "RESERVED_REPO_NAMES = [''activity'', ''repos'', ''settings'', ''registries'', ''workspaces'',
     ''environments'', ''snapshots'', ''ci'']"

definition reserved_repo_name :: "string \<Rightarrow> bool" where
  "reserved_repo_name name \<longleftrightarrow> list_ex (\<lambda>r. eq_ignore_ascii_case name r) RESERVED_REPO_NAMES"

definition RESERVED_OWNERS :: "string list" where
  "RESERVED_OWNERS = [''api'', ''v2'', ''img'', ''vol'', ''superadmin'']"

definition valid_owner :: "string \<Rightarrow> bool" where
  "valid_owner s \<longleftrightarrow> valid_segment s \<and> \<not> starts_with s ''.'' \<and> s \<notin> set RESERVED_OWNERS"

section \<open>The manifest cache\<close>

record manifest_cache =
  mmap :: "(string \<times> (bytes \<times> string)) list"
  morder :: "string list"
  mbytes :: nat

definition MANIFEST_MAX_BYTES :: nat where
  "MANIFEST_MAX_BYTES = 64 * 1024 * 1024"

definition mc_get :: "manifest_cache \<Rightarrow> string \<Rightarrow> (bytes \<times> string) option" where
  "mc_get c k = map_of (mmap c) k"

definition mc_remove :: "string \<Rightarrow> manifest_cache \<Rightarrow> manifest_cache" where
  "mc_remove k c =
     (case map_of (mmap c) k of
        None \<Rightarrow> c
      | Some old \<Rightarrow> c\<lparr>mmap := AList.delete k (mmap c), mbytes := mbytes c - length (fst old)\<rparr>)"

text \<open>The eviction loop ends with the order queue: it stops when that is empty.\<close>

function mc_evict :: "manifest_cache \<Rightarrow> manifest_cache" where
  "mc_evict c =
     (if mbytes c > MANIFEST_MAX_BYTES
      then (case morder c of [] \<Rightarrow> c | k # ks \<Rightarrow> mc_evict (mc_remove k (c\<lparr>morder := ks\<rparr>)))
      else c)"
  by pat_completeness auto
termination
  by (relation "measure (length \<circ> morder)") (auto simp: mc_remove_def split: option.splits)

declare mc_evict.simps [simp del]

definition mc_insert :: "string \<Rightarrow> bytes \<times> string \<Rightarrow> manifest_cache \<Rightarrow> manifest_cache" where
  "mc_insert k v c =
     (let c1 = c\<lparr>mbytes := mbytes c + length (fst v)\<rparr>;
          c2 = (case map_of (mmap c) k of
                  None \<Rightarrow> c1\<lparr>mmap := AList.update k v (mmap c)\<rparr>
                | Some old \<Rightarrow> c1\<lparr>mmap := AList.update k v (mmap c), mbytes := mbytes c1 - length (fst old)\<rparr>)
      in mc_evict (c2\<lparr>morder := morder c2 @ [k]\<rparr>))"

definition mc_retain :: "(string \<Rightarrow> bytes \<times> string \<Rightarrow> bool) \<Rightarrow> manifest_cache \<Rightarrow> manifest_cache" where
  "mc_retain f c =
     (let m = filter (\<lambda>(k, v). f k v) (mmap c)
      in c\<lparr>mmap := m, mbytes := sum_list (map (\<lambda>(k, v). length (fst v)) m)\<rparr>)"

section \<open>The world of the storage operations\<close>

record world = cache_env +
  os :: "(string \<times> bytes) list"
  dbs :: "(string \<times> kv) list"
  disk :: "(string \<times> bytes) list"
  dirs :: "string list"
  unowned :: "string option"
  handles :: "(string \<times> nat) list"
  synced :: "(string \<times> (nat \<times> (string \<times> nat) list)) list"
  reconciled :: "(string \<times> nat) list"
  manifests :: manifest_cache

text \<open>
  \<open>synced\<close> remembers the pack list last brought to disk with the database handle it was read
  under; \<open>handles\<close> numbers the handle each database is open under, so a database that was
  closed and opened again has another number.
\<close>

definition handle_of :: "'z world_scheme \<Rightarrow> string \<Rightarrow> nat" where
  "handle_of s h = (case map_of (handles s) h of None \<Rightarrow> 0 | Some n \<Rightarrow> n)"

definition the_db :: "'z world_scheme \<Rightarrow> string \<Rightarrow> kv" where
  "the_db s h = (case map_of (dbs s) h of None \<Rightarrow> [] | Some db \<Rightarrow> db)"

definition upd_db :: "string \<Rightarrow> (kv \<Rightarrow> kv) \<Rightarrow> 'z world_scheme \<Rightarrow> 'z world_scheme" where
  "upd_db h f s = s\<lparr>dbs := AList.update h (f (the_db s h)) (dbs s)\<rparr>"

definition repo_id :: "string \<Rightarrow> string \<Rightarrow> string" where
  "repo_id owner name = owner @ ''/'' @ name"

text \<open>\<open>db_for\<close>: opening creates; a key the request was routed to no owner for is refused.\<close>

definition db_for :: "string \<Rightarrow> string \<Rightarrow> ('z world_scheme, string) io" where
  "db_for owner name =
     (\<lambda>s. if unowned s = Some (repo_id owner name)
          then (Inl (Unowned (repo_id owner name)), s)
          else bindE (io_write (upd_db (repo_id owner name) id))
                 (\<lambda>_. returnE (repo_id owner name)) s)"

text \<open>
  The files of a database lie under its path, and a listing of that path also finds the files of a
  database whose path goes on below it.
\<close>

definition at_or_under :: "string \<Rightarrow> string \<Rightarrow> bool" where
  "at_or_under k p \<longleftrightarrow> k = p \<or> prefix (p @ ''/'') k"

definition repo_db_exists :: "string \<Rightarrow> string \<Rightarrow> ('z world_scheme, bool) io" where
  "repo_db_exists owner name =
     (\<lambda>s. if unowned s = Some (repo_id owner name) then (Inr False, s)
          else io_read (\<lambda>t. list_ex (\<lambda>(k, _). at_or_under k (repo_id owner name)) (dbs t)) s)"

definition db_get :: "string \<Rightarrow> string \<Rightarrow> ('z world_scheme, bytes option) io" where
  "db_get h k = io_read (\<lambda>s. kv_get (the_db s h) k)"

definition db_put :: "string \<Rightarrow> string \<Rightarrow> bytes \<Rightarrow> ('z world_scheme, unit) io" where
  "db_put h k v = io_write (upd_db h (kv_put k v))"

definition db_delete :: "string \<Rightarrow> string \<Rightarrow> ('z world_scheme, unit) io" where
  "db_delete h k = io_write (upd_db h (kv_del k))"

definition db_write :: "string \<Rightarrow> batch_op list \<Rightarrow> ('z world_scheme, unit) io" where
  "db_write h ops = io_write (upd_db h (apply_batch ops))"

definition db_scan :: "string \<Rightarrow> string \<Rightarrow> ('z world_scheme, (string \<times> bytes) list) io" where
  "db_scan h p = io_read (\<lambda>s. scan_prefix p (the_db s h))"

text \<open>The object store: whole-segment prefixes for a listing, and a copy inside the store.\<close>

definition os_put :: "string \<Rightarrow> bytes \<Rightarrow> ('z world_scheme, unit) io" where
  "os_put k v = io_write (\<lambda>s. s\<lparr>os := AList.update k v (os s)\<rparr>)"

definition os_delete :: "string \<Rightarrow> ('z world_scheme, unit) io" where
  "os_delete k = io_write (\<lambda>s. s\<lparr>os := AList.delete k (os s)\<rparr>)"

definition listing :: "string \<Rightarrow> 'z world_scheme \<Rightarrow> (string \<times> nat) list" where
  "listing p s = map (\<lambda>(k, v). (k, length v)) (sort_key fst (filter (\<lambda>(k, v). prefix (p @ ''/'') k) (os s)))"

definition os_list :: "string \<Rightarrow> ('z world_scheme, (string \<times> nat) list) io" where
  "os_list p = io_read (listing p)"

definition os_copy :: "string \<Rightarrow> string \<Rightarrow> ('z world_scheme, unit) io" where
  "os_copy from_path to =
     bindE (io_read (\<lambda>s. map_of (os s) from_path)) (\<lambda>v.
     case v of None \<Rightarrow> failE (Message ''not found'') | Some b \<Rightarrow> os_put to b)"

text \<open>\<open>Path::filename\<close> and \<open>extension\<close>: the last segment, and what follows its last dot.\<close>

definition filename :: "string \<Rightarrow> string" where
  "filename path = last (split_on (CHR ''/'') path)"

definition extension :: "string \<Rightarrow> string option" where
  "extension path =
     (let parts = split_on (CHR ''.'') (filename path)
      in if length parts \<le> 1 \<or> last parts = [] then None else Some (last parts))"

text \<open>\<open>std::path::Path::extension\<close>: a name whose only dot is its first character has none.\<close>

definition std_extension :: "string \<Rightarrow> string option" where
  "std_extension path =
     (let parts = split_on (CHR ''.'') (filename path)
      in if length parts \<le> 1 \<or> length parts = 2 \<and> hd parts = [] then None else Some (last parts))"

section \<open>Pack files\<close>

record repo =
  owner :: string
  name :: string
  objects_dir :: string
  pack_dir :: string

definition s3_prefix :: "repo \<Rightarrow> string" where
  "s3_prefix r = ''objects/'' @ owner r @ ''/'' @ name r @ ''/pack''"

definition pack_index_prefix :: "string \<Rightarrow> string \<Rightarrow> string" where
  "pack_index_prefix o1 n = ''pack/'' @ o1 @ ''/'' @ n @ ''/''"

definition forget_cached_packs :: "string \<Rightarrow> string \<Rightarrow> ('z world_scheme, unit) io" where
  "forget_cached_packs o1 n = putE (\<lambda>s. s\<lparr>synced := AList.delete (repo_id o1 n) (synced s)\<rparr>)"

definition record_pack :: "string \<Rightarrow> string \<Rightarrow> string \<Rightarrow> nat \<Rightarrow> ('z world_scheme, unit) io" where
  "record_pack o1 n fname sz =
     bindE (forget_cached_packs o1 n) (\<lambda>_.
     bindE (db_for o1 n) (\<lambda>h.
     db_put h (pack_index_prefix o1 n @ fname) (to_decimal sz)))"

definition forget_pack :: "string \<Rightarrow> string \<Rightarrow> string \<Rightarrow> ('z world_scheme, unit) io" where
  "forget_pack o1 n fname =
     bindE (forget_cached_packs o1 n) (\<lambda>_.
     bindE (db_for o1 n) (\<lambda>h.
     db_delete h (pack_index_prefix o1 n @ fname)))"

text \<open>One row whose size does not parse makes the whole index suspect: it reads as empty.\<close>

fun index_rows :: "nat \<Rightarrow> (string \<times> bytes) list \<Rightarrow> (string \<times> nat) list \<Rightarrow> (string \<times> nat) list" where
  "index_rows plen [] out = out"
| "index_rows plen ((k, v) # rows) out =
     (case parse_u64 (from_utf8_lossy v) of
        None \<Rightarrow> []
      | Some sz \<Rightarrow> index_rows plen rows (out @ [(from_utf8_lossy (drop plen k), sz)]))"

definition pack_index :: "string \<Rightarrow> string \<Rightarrow> ('z world_scheme, (string \<times> nat) list) io" where
  "pack_index o1 n =
     (let p = pack_index_prefix o1 n in
     bindE (db_for o1 n) (\<lambda>h.
     bindE (db_scan h p) (\<lambda>rows.
     let out = index_rows (length p) rows []
     in if out \<noteq> [] then returnE out
        else bindE (os_list (''objects/'' @ o1 @ ''/'' @ n @ ''/pack'')) (\<lambda>listing.
             let files = map (\<lambda>(loc, sz). (filename loc, sz)) listing
             in bindE (forE files (\<lambda>(f, sz). ignoreE (record_pack o1 n f sz))) (\<lambda>_.
                returnE files)))))"

definition copy_pack :: "repo \<Rightarrow> string \<times> nat \<Rightarrow> ('z world_scheme, unit) io" where
  "copy_pack to_repo = (\<lambda>(loc, sz).
     let fname = filename loc
     in bindE (os_copy loc (s3_prefix to_repo @ ''/'' @ fname)) (\<lambda>_.
        record_pack (owner to_repo) (name to_repo) fname sz))"

definition copy_packs :: "repo \<Rightarrow> repo \<Rightarrow> ('z world_scheme, nat) io" where
  "copy_packs from_repo to_repo =
     bindE (os_list (s3_prefix from_repo)) (\<lambda>metas.
     let packs = filter (\<lambda>(loc, _). extension loc \<noteq> Some ''idx'') metas;
         idxs = filter (\<lambda>(loc, _). \<not> extension loc \<noteq> Some ''idx'') metas
     in bindE (forE packs (copy_pack to_repo)) (\<lambda>_.
        bindE (forE idxs (copy_pack to_repo)) (\<lambda>_.
        returnE (length packs + length idxs))))"

definition delete_objects :: "string \<Rightarrow> string \<Rightarrow> string \<Rightarrow> ('z world_scheme, unit) io" where
  "delete_objects cache_dir o1 n =
     bindE (os_list (''objects/'' @ o1 @ ''/'' @ n @ ''/pack'')) (\<lambda>locs.
     bindE (forE locs (\<lambda>(loc, _).
       bindE (ignoreE (forget_pack o1 n (filename loc))) (\<lambda>_. os_delete loc))) (\<lambda>_.
     ignoreE (io_write (\<lambda>s.
       s\<lparr>disk := filter (\<lambda>(p, _). \<not> prefix (cache_dir @ ''/'' @ o1 @ ''/'' @ n @ ''/'') p) (disk s),
         dirs := filter (\<lambda>p. p \<noteq> cache_dir @ ''/'' @ o1 @ ''/'' @ n
           \<and> \<not> prefix (cache_dir @ ''/'' @ o1 @ ''/'' @ n @ ''/'') p) (dirs s)\<rparr>))))"

text \<open>\<open>Pool::delete\<close>: close this node's handle, then delete the files of the database.\<close>

definition delete_repo_db :: "string \<Rightarrow> string \<Rightarrow> ('z world_scheme, unit) io" where
  "delete_repo_db o1 n = io_write (\<lambda>s. s\<lparr>dbs := filter (\<lambda>(k, _). \<not> at_or_under k (repo_id o1 n)) (dbs s)\<rparr>)"

definition file_name :: "string \<Rightarrow> string option" where
  "file_name p = (let f = filename p in if f = [] \<or> f = ''.'' \<or> f = ''..'' then None else Some f)"

definition delete_pack_file :: "repo \<Rightarrow> string \<Rightarrow> ('z world_scheme, unit) io" where
  "delete_pack_file r p =
     (case file_name p of
        None \<Rightarrow> returnE ()
      | Some fname \<Rightarrow>
          bindE (ignoreE (os_delete (s3_prefix r @ ''/'' @ fname))) (\<lambda>_.
          bindE (ignoreE (forget_pack (owner r) (name r) fname)) (\<lambda>_.
          ignoreE (io_write (\<lambda>s. s\<lparr>disk := AList.delete p (disk s)\<rparr>)))))"

definition delete_pack_files :: "repo \<Rightarrow> string \<Rightarrow> string \<Rightarrow> ('z world_scheme, unit) io" where
  "delete_pack_files r pack idx = forE [idx, pack] (delete_pack_file r)"

definition PART_SIZE :: nat where
  "PART_SIZE = 5 * 1024 * 1024"

definition upload_pack_file :: "repo \<Rightarrow> string \<Rightarrow> ('z world_scheme, unit) io" where
  "upload_pack_file r p =
     (case file_name p of
        None \<Rightarrow> failE (Message ''bad pack path'')
      | Some fname \<Rightarrow>
          bindE (io_read (\<lambda>s. map_of (disk s) p)) (\<lambda>content.
          case content of
            None \<Rightarrow> failE (Io (io_other ''No such file or directory''))
          | Some body \<Rightarrow>
              bindE io_step (\<lambda>_.
              bindE (forE (chunks PART_SIZE body) (\<lambda>_. io_step)) (\<lambda>_.
              bindE (os_put (s3_prefix r @ ''/'' @ fname) body) (\<lambda>_.
              record_pack (owner r) (name r) fname (length body))))))"

definition upload_pack_files :: "repo \<Rightarrow> string \<Rightarrow> string \<Rightarrow> ('z world_scheme, unit) io" where
  "upload_pack_files r pack idx = forE [pack, idx] (upload_pack_file r)"

text \<open>
  \<open>fetch_pack_file\<close>: the download goes to a temporary name, piece by piece, is synced, and
  only then renamed. \<open>tmp\<close> is the name the process id and the sequence number give.
\<close>

definition COPY_BUF :: nat where
  "COPY_BUF = 8 * 1024"

definition write_file :: "string \<Rightarrow> bytes \<Rightarrow> ('z world_scheme, unit) io" where
  "write_file tmp body =
     bindE (io_write (\<lambda>s. s\<lparr>disk := AList.update tmp [] (disk s)\<rparr>)) (\<lambda>_.
     bindE (forE (chunks COPY_BUF body) (\<lambda>c.
       io_write (\<lambda>s. s\<lparr>disk := AList.map_entry tmp (\<lambda>b. b @ c) (disk s)\<rparr>))) (\<lambda>_.
     io_step))"

definition rename_file :: "string \<Rightarrow> string \<Rightarrow> ('z world_scheme, unit) io" where
  "rename_file from_path to_path =
     io_write (\<lambda>s. case map_of (disk s) from_path of
       None \<Rightarrow> s
     | Some b \<Rightarrow> s\<lparr>disk := AList.update to_path b (AList.delete from_path (disk s))\<rparr>)"

definition fetch_pack_file :: "(string \<Rightarrow> string) \<Rightarrow> repo \<Rightarrow> string \<Rightarrow> nat \<Rightarrow> ('z world_scheme, unit) io" where
  "fetch_pack_file tmp_name r fname sz =
     (let local = pack_dir r @ ''/'' @ fname;
          key = s3_prefix r @ ''/'' @ fname;
          tmp = pack_dir r @ ''/'' @ tmp_name fname in
     bindE (getE (\<lambda>s. case map_of (disk s) local of None \<Rightarrow> False | Some b \<Rightarrow> length b = sz)) (\<lambda>have.
     if have then returnE ()
     else bindE (io_read (\<lambda>s. map_of (os s) key)) (\<lambda>got.
          case got of
            None \<Rightarrow> failE (Message ''not found'')
          | Some body \<Rightarrow>
              bindE (handleE (write_file tmp body) (\<lambda>e.
                bindE (ignoreE (io_write (\<lambda>s. s\<lparr>disk := AList.delete tmp (disk s)\<rparr>))) (\<lambda>_.
                failE e))) (\<lambda>_.
              rename_file tmp local))))"

text \<open>When the marker of a repository is due a reconcile; the map is swept past 4096 entries.\<close>

definition RECONCILE_EVERY :: nat where
  "RECONCILE_EVERY = 600"

definition reconcile_due :: "string \<Rightarrow> nat \<Rightarrow> (string \<times> nat) list \<Rightarrow> bool \<times> (string \<times> nat) list" where
  "reconcile_due key t m =
     (if (case map_of m key of None \<Rightarrow> False | Some t0 \<Rightarrow> t - t0 < RECONCILE_EVERY) then (False, m)
      else let m1 = (if length m \<ge> 4096 then filter (\<lambda>(_, t0). t - t0 < RECONCILE_EVERY) m else m)
           in (True, AList.update key t m1))"

text \<open>One round of the health probe: the count of failures in a row, and what is published.\<close>

definition health_round :: "bool \<Rightarrow> 32 word \<times> bool \<Rightarrow> 32 word \<times> bool" where
  "health_round ok st = (let failures = (if ok then 0 else fst st + 1) in (failures, failures < 3))"

text \<open>
  \<open>prune_stale_packs\<close>, as the list of files it removes in order: from the age of its marker
  (none when there is none), the directory's entries with their ages (none when a time cannot
  be read) and the names the index knows. Ages are in seconds.
\<close>

definition STALE_AFTER :: nat where
  "STALE_AFTER = 3600"

definition is_pack_name :: "string \<Rightarrow> bool" where
  "is_pack_name n \<longleftrightarrow> starts_with n ''pack-'' \<and> (ends_with n ''.pack'' \<or> ends_with n ''.idx'')"

definition is_temp_name :: "string \<Rightarrow> bool" where
  "is_temp_name n \<longleftrightarrow> starts_with n ''.'' \<and> ends_with n ''.tmp''
     \<or> starts_with n ''incoming-'' \<and> ends_with n ''.pack''"

definition stale_files :: "(string \<times> nat option) list \<Rightarrow> string list \<Rightarrow> string list" where
  "stale_files entries indexed =
     map fst (filter (\<lambda>(n, age).
       (is_pack_name n \<or> is_temp_name n) \<and> n \<notin> set indexed
       \<and> (case age of None \<Rightarrow> False | Some a \<Rightarrow> a > STALE_AFTER)) entries)"

definition prune_stale_packs ::
    "nat option \<Rightarrow> (string \<times> nat option) list \<Rightarrow> string list \<Rightarrow> string list" where
  "prune_stale_packs marker entries indexed =
     (if (case marker of None \<Rightarrow> False | Some age \<Rightarrow> age < STALE_AFTER) then []
      else sort_key (\<lambda>n. std_extension n \<noteq> Some ''idx'') (stale_files entries indexed))"

section \<open>The manifest cache keeps its account\<close>

definition mc_ok :: "manifest_cache \<Rightarrow> bool" where
  "mc_ok c \<longleftrightarrow> distinct (map fst (mmap c)) \<and> set (map fst (mmap c)) \<subseteq> set (morder c)
     \<and> mbytes c = sum_list (map (\<lambda>(k, v). length (fst v)) (mmap c))"

lemma sum_delete:
  fixes f :: "'k \<times> 'v \<Rightarrow> nat"
  assumes "distinct (map fst m)" and "map_of m k = Some v"
  shows "sum_list (map f m) = f (k, v) + sum_list (map f (AList.delete k m))"
  using assms by (induction m) (auto simp: delete_simps intro: arg_cong [where f = sum_list])

lemma mc_remove_ok:
  assumes "distinct (map fst (mmap c))" and "mbytes c = sum_list (map (\<lambda>(k, v). length (fst v)) (mmap c))"
  shows "distinct (map fst (mmap (mc_remove k c)))"
    and "mbytes (mc_remove k c) = sum_list (map (\<lambda>(k, v). length (fst v)) (mmap (mc_remove k c)))"
    and "set (map fst (mmap (mc_remove k c))) = set (map fst (mmap c)) - {k}"
    and "morder (mc_remove k c) = morder c"
proof -
  note s = sum_delete [OF assms(1), of k _ "\<lambda>(k, v). length (fst v)"]
  show "distinct (map fst (mmap (mc_remove k c)))"
    "morder (mc_remove k c) = morder c"
    using assms by (auto simp: mc_remove_def distinct_delete split: option.splits)
  show "set (map fst (mmap (mc_remove k c))) = set (map fst (mmap c)) - {k}"
    by (auto simp: mc_remove_def AList.delete_eq map_of_eq_None_iff image_iff split: option.splits)
  show "mbytes (mc_remove k c) = sum_list (map (\<lambda>(k, v). length (fst v)) (mmap (mc_remove k c)))"
    using assms s by (auto simp: mc_remove_def split: option.splits)
qed

lemma mc_evict_ok:
  "mc_ok c \<Longrightarrow> mc_ok (mc_evict c) \<and> mbytes (mc_evict c) \<le> MANIFEST_MAX_BYTES
     \<and> set (mmap (mc_evict c)) \<subseteq> set (mmap c)"
proof (induction c rule: mc_evict.induct)
  case (1 c)
  show ?case
  proof (cases "mbytes c > MANIFEST_MAX_BYTES")
    case False
    with 1 show ?thesis by (simp add: mc_evict.simps [of c])
  next
    case True
    show ?thesis
    proof (cases "morder c")
      case Nil
      with 1(2) have "mmap c = []" by (cases "mmap c") (auto simp: mc_ok_def)
      with 1(2) True show ?thesis by (simp add: mc_ok_def)
    next
      case (Cons k ks)
      let ?d = "mc_remove k (c\<lparr>morder := ks\<rparr>)"
      have sub: "set (mmap ?d) \<subseteq> set (mmap c)"
        by (auto simp: mc_remove_def AList.delete_eq split: option.splits)
      have "mc_ok ?d"
        using 1(2) Cons mc_remove_ok [of "c\<lparr>morder := ks\<rparr>" k] by (auto simp: mc_ok_def)
      with 1(1) [OF True Cons] sub True Cons show ?thesis
        by (auto simp: mc_evict.simps [of c])
    qed
  qed
qed


lemma sum_update:
  fixes f :: "'k \<times> 'v \<Rightarrow> nat"
  assumes "distinct (map fst m)"
  shows "sum_list (map f (AList.update k v m)) + (case map_of m k of None \<Rightarrow> 0 | Some w \<Rightarrow> f (k, w))
       = sum_list (map f m) + f (k, v)"
  using assms by (induction m) (auto split: option.splits)

lemma mc_insert_split:
  assumes "mc_ok c"
  obtains d where "mc_insert k v c = mc_evict d" and "mc_ok d" and "mmap d = AList.update k v (mmap c)"
proof -
  let ?f = "\<lambda>(k, v :: bytes \<times> string). length (fst v)"
  define d where "d = \<lparr>mmap = AList.update k v (mmap c), morder = morder c @ [k],
    mbytes = mbytes c + length (fst v) - (case map_of (mmap c) k of None \<Rightarrow> 0 | Some w \<Rightarrow> length (fst w))\<rparr>"
  have "sum_list (map ?f (AList.update k v (mmap c)))
      = mbytes c + length (fst v) - (case map_of (mmap c) k of None \<Rightarrow> 0 | Some w \<Rightarrow> length (fst w))"
    using sum_update [of "mmap c" ?f k v] assms
    by (cases "map_of (mmap c) k") (simp_all add: mc_ok_def)
  with assms have "mc_ok d"
    by (auto simp: mc_ok_def d_def distinct_update dom_update)
  moreover have "mc_insert k v c = mc_evict d"
    by (cases c) (simp add: mc_insert_def d_def Let_def split: option.splits)
  ultimately show ?thesis using that by (simp add: d_def)
qed

lemma mc_evict_get:
  assumes "mc_ok c"
  shows "mc_get (mc_evict c) k \<in> {None, mc_get c k}"
proof (cases "mc_get (mc_evict c) k")
  case (Some v)
  then have "(k, v) \<in> set (mmap (mc_evict c))" by (simp add: mc_get_def map_of_SomeD)
  with mc_evict_ok [OF assms] have "(k, v) \<in> set (mmap c)" by blast
  with assms Some show ?thesis by (simp add: mc_ok_def mc_get_def)
qed simp

lemma mc_evict_fits: "mbytes c \<le> MANIFEST_MAX_BYTES \<Longrightarrow> mc_evict c = c"
  by (simp add: mc_evict.simps [of c])

lemma mc_retain_ok: "mc_ok c \<Longrightarrow> mc_ok (mc_retain f c)"
  by (auto simp: mc_ok_def mc_retain_def Let_def distinct_map inj_on_def)

text \<open>
  The manifest cache keeps its account: whatever is inserted, removed or swept, the byte
  count is the sum of what is held (so the subtractions never underflow), an insert leaves at
  most 64 MiB, and what a lookup returns after it is the value stored last or nothing; nothing
  at all is evicted while everything fits.
\<close>

theorem manifest_cache_accounts:
  assumes "mc_ok c"
  shows "mc_ok (mc_insert k v c) \<and> mc_ok (mc_remove k c) \<and> mc_ok (mc_retain f c)
    \<and> mbytes (mc_insert k v c) \<le> MANIFEST_MAX_BYTES
    \<and> mc_get (mc_insert k v c) k' \<in> {None, if k' = k then Some v else mc_get c k'}
    \<and> (mbytes c + length (fst v) \<le> MANIFEST_MAX_BYTES \<longrightarrow>
           mc_get (mc_insert k v c) k' = (if k' = k then Some v else mc_get c k'))
    \<and> mc_get (mc_remove k c) k' = (if k' = k then None else mc_get c k')"
proof -
  obtain d where d: "mc_insert k v c = mc_evict d" "mc_ok d" "mmap d = AList.update k v (mmap c)"
    using mc_insert_split [OF assms] .
  have g: "mc_get d k' = (if k' = k then Some v else mc_get c k')"
    by (simp add: mc_get_def d(3) update_conv')
  have "mc_ok (mc_insert k v c)" "mbytes (mc_insert k v c) \<le> MANIFEST_MAX_BYTES"
    using mc_evict_ok [OF d(2)] d(1) by simp_all
  moreover have "mc_get (mc_insert k v c) k' \<in> {None, if k' = k then Some v else mc_get c k'}"
    using mc_evict_get [OF d(2), of k'] unfolding d(1) g .
  moreover have "mc_ok (mc_remove k c)"
    using mc_remove_ok [of c k] assms by (auto simp: mc_ok_def)
  moreover have "mc_get (mc_remove k c) k' = (if k' = k then None else mc_get c k')"
    by (simp add: mc_get_def mc_remove_def delete_conv' split: option.splits)
  moreover have "mc_get (mc_insert k v c) k' = (if k' = k then Some v else mc_get c k')"
    if "mbytes c + length (fst v) \<le> MANIFEST_MAX_BYTES"
  proof -
    have "mbytes d \<le> MANIFEST_MAX_BYTES"
      using sum_update [of "mmap c" "\<lambda>(k, v). length (fst v)" k v] assms d(2,3) that
      by (simp add: mc_ok_def)
    then show ?thesis unfolding d(1) by (simp add: mc_evict_fits g)
  qed
  ultimately show ?thesis using mc_retain_ok [OF assms] by blast
qed

theorem manifest_cache_accounts_witness:
  "mc_ok (mc_insert ''k'' (''body'', ''type'') \<lparr>mmap = [], morder = [], mbytes = 0\<rparr>)
   \<and> mc_get (mc_insert ''k'' (''body'', ''type'') \<lparr>mmap = [], morder = [], mbytes = 0\<rparr>) ''k''
     = Some (''body'', ''type'')"
  using manifest_cache_accounts [of "\<lparr>mmap = [], morder = [], mbytes = 0\<rparr>" "''k''" "(''body'', ''type'')" "\<lambda>_ _. True" "''k''"]
  by (simp add: mc_ok_def MANIFEST_MAX_BYTES_def)

section \<open>The order of pack and index\<close>

text \<open>
  What every reader of the object store relies on: an index file there has its pack beside it,
  and a file the repository's pack index names is there to be fetched.
\<close>

definition present :: "string \<Rightarrow> 'z world_scheme \<Rightarrow> bool" where
  "present k s \<longleftrightarrow> map_of (os s) k \<noteq> None"

definition paired :: "'z world_scheme \<Rightarrow> bool" where
  "paired s \<longleftrightarrow> (\<forall>k. present (k @ ''.idx'') s \<longrightarrow> present (k @ ''.pack'') s)"

definition pack_row :: "repo \<Rightarrow> string \<Rightarrow> 'z world_scheme \<Rightarrow> bytes option" where
  "pack_row r f s = kv_get (the_db s (repo_id (owner r) (name r))) (pack_index_prefix (owner r) (name r) @ f)"

definition index_served :: "repo \<Rightarrow> 'z world_scheme \<Rightarrow> bool" where
  "index_served r s \<longleftrightarrow> (\<forall>f. pack_row r f s \<noteq> None \<longrightarrow> present (s3_prefix r @ ''/'' @ f) s)"

definition pack_safe :: "repo \<Rightarrow> 'z world_scheme \<Rightarrow> bool" where
  "pack_safe r s \<longleftrightarrow> paired s \<and> index_served r s"

lemma world_frames [simp]:
  "present k (s\<lparr>clock := n\<rparr>) = present k s"
  "pack_row r f (s\<lparr>clock := n\<rparr>) = pack_row r f s"
  "present k (s\<lparr>synced := y\<rparr>) = present k s"
  "pack_row r f (s\<lparr>synced := y\<rparr>) = pack_row r f s"
  "present k (s\<lparr>disk := d\<rparr>) = present k s"
  "pack_row r f (s\<lparr>disk := d\<rparr>) = pack_row r f s"
  "pack_row r f (s\<lparr>os := ob\<rparr>) = pack_row r f s"
  "present k (upd_db h g s) = present k s"
  "present k (s\<lparr>os := AList.update k' v (os s)\<rparr>) = (k = k' \<or> present k s)"
  "disk (upd_db h g s) = disk s"
  "os (upd_db h g s) = os s"
  "the_db (s\<lparr>clock := n\<rparr>) h = the_db s h"
  "the_db (s\<lparr>synced := y\<rparr>) h = the_db s h"
  "the_db (s\<lparr>disk := d\<rparr>) h = the_db s h"
  "the_db (s\<lparr>os := ob\<rparr>) h = the_db s h"
  by (auto simp: present_def pack_row_def the_db_def upd_db_def update_conv')

lemma the_db_upd [simp]: "the_db (upd_db h f s) h' = (if h' = h then f (the_db s h) else the_db s h')"
  by (simp add: the_db_def upd_db_def update_conv')

lemma pack_row_open [simp]: "pack_row r f (upd_db h id s) = pack_row r f s"
  by (simp add: pack_row_def)

lemma pack_safe_frames [simp]:
  "pack_safe r (s\<lparr>clock := n\<rparr>) = pack_safe r s"
  "pack_safe r (s\<lparr>synced := y\<rparr>) = pack_safe r s"
  "pack_safe r (s\<lparr>disk := d\<rparr>) = pack_safe r s"
  "pack_safe r (upd_db h id s) = pack_safe r s"
  by (simp_all add: pack_safe_def paired_def index_served_def)

lemma pack_safe_put:
  assumes "pack_safe r s" and "\<And>st. k = st @ ''.idx'' \<Longrightarrow> present (st @ ''.pack'') s"
  shows "pack_safe r (s\<lparr>os := AList.update k v (os s)\<rparr>)"
  using assms by (auto simp: pack_safe_def paired_def index_served_def)

text \<open>Recording a file that is there: the open of the database may fail, and the write.\<close>

definition recorded :: "repo \<Rightarrow> string \<Rightarrow> nat \<Rightarrow> 'z world_scheme \<Rightarrow> bool" where
  "recorded r f n s \<longleftrightarrow> pack_row r f s = Some (to_decimal n)"

lemma pack_row_put:
  "pack_row r f (upd_db (repo_id (owner r) (name r)) (kv_put (pack_index_prefix (owner r) (name r) @ g) v) s)
     = (if f = g then Some v else pack_row r f s)"
  by (simp add: pack_row_def)

lemma triple_record_pack:
  assumes "clock_free P" and "\<And>s y. P (s\<lparr>synced := y\<rparr>) = P s"
    and "\<And>s. P (upd_db (repo_id (owner r) (name r)) id s) = P s"
    and "\<And>s. P s \<Longrightarrow> P (upd_db (repo_id (owner r) (name r))
                   (kv_put (pack_index_prefix (owner r) (name r) @ f) (to_decimal n)) s)"
  shows "triple P (record_pack (owner r) (name r) f n) (\<lambda>_ s. P s \<and> recorded r f n s) P"
proof -
  have db: "triple P (db_for (owner r) (name r)) (\<lambda>h s. P s \<and> h = repo_id (owner r) (name r)) P"
    using assms(1,3)
    by (auto simp: triple_def db_for_def io_write_def clock_free_def bindE_def Let_def split: option.splits)
  have put: "triple (\<lambda>s. P s \<and> h = repo_id (owner r) (name r))
      (db_put h (pack_index_prefix (owner r) (name r) @ f) (to_decimal n)) (\<lambda>_ s. P s \<and> recorded r f n s) P" for h
    unfolding db_put_def using assms(1,4)
    by (intro triple_io_write) (auto simp: clock_free_def recorded_def pack_row_put)
  show ?thesis
    unfolding record_pack_def forget_cached_packs_def
    by (rule triple_bindE [where R = "\<lambda>_. P"], rule triple_putE, simp add: assms(2))
      (rule triple_bindE [OF db put])
qed

lemma suffix_after_slash:
  assumes "CHR ''/'' \<notin> set x" and "a @ CHR ''/'' # f = st @ x"
  obtains st' where "f = st' @ x" and "st = a @ CHR ''/'' # st'"
proof -
  from assms(2) consider us where "a = st @ us" "us @ CHR ''/'' # f = x"
    | us where "a @ us = st" "CHR ''/'' # f = us @ x"
    by (auto simp: append_eq_append_conv2)
  then show ?thesis
  proof cases
    case 1
    with assms(1) show ?thesis by (metis in_set_conv_decomp)
  next
    case 2
    show ?thesis
    proof (cases us)
      case Nil
      with 2 assms(1) show ?thesis by (metis append_Nil list.set_intros(1))
    next
      case (Cons c us')
      with 2 that show ?thesis by auto
    qed
  qed
qed

definition uploaded :: "repo \<Rightarrow> (string \<times> bytes) list \<Rightarrow> string \<Rightarrow> 'z world_scheme \<Rightarrow> bool" where
  "uploaded r D p s \<longleftrightarrow> (\<exists>f b. file_name p = Some f \<and> map_of D p = Some b
     \<and> map_of (os s) (s3_prefix r @ ''/'' @ f) = Some b \<and> recorded r f (length b) s)"

text \<open>Before a file is stored, with what is uploaded already; and once its object is there.\<close>

definition ready :: "repo \<Rightarrow> (string \<times> bytes) list \<Rightarrow> string set \<Rightarrow> string \<Rightarrow> 'z world_scheme \<Rightarrow> bool" where
  "ready r D Q f s \<longleftrightarrow> pack_safe r s \<and> disk s = D \<and> (\<forall>q\<in>Q. uploaded r D q s)
     \<and> (\<forall>st. f = st @ ''.idx'' \<longrightarrow> present (s3_prefix r @ ''/'' @ st @ ''.pack'') s)"

definition stored :: "repo \<Rightarrow> (string \<times> bytes) list \<Rightarrow> string set \<Rightarrow> string \<Rightarrow> bytes \<Rightarrow> 'z world_scheme \<Rightarrow> bool" where
  "stored r D Q f b s \<longleftrightarrow> pack_safe r s \<and> disk s = D \<and> (\<forall>q\<in>Q. uploaded r D q s)
     \<and> map_of (os s) (s3_prefix r @ ''/'' @ f) = Some b"

lemma stored_clock_free [simp]: "clock_free (ready r D Q f)" "clock_free (stored r D Q f b)"
  by (auto simp: clock_free_def uploaded_def recorded_def ready_def stored_def)

lemma uploaded_other:
  assumes "uploaded r D q s" and "file_name q \<noteq> Some f"
  shows "uploaded r D q (s\<lparr>os := AList.update (s3_prefix r @ ''/'' @ f) b (os s)\<rparr>)"
    and "uploaded r D q (upd_db (repo_id (owner r) (name r))
           (kv_put (pack_index_prefix (owner r) (name r) @ f) v) s)"
proof -
  from assms obtain g c where "file_name q = Some g" "map_of D q = Some c" "g \<noteq> f"
    "map_of (os s) (s3_prefix r @ ''/'' @ g) = Some c" "recorded r g (length c) s"
    by (auto simp: uploaded_def)
  then show "uploaded r D q (s\<lparr>os := AList.update (s3_prefix r @ ''/'' @ f) b (os s)\<rparr>)"
    "uploaded r D q (upd_db (repo_id (owner r) (name r))
       (kv_put (pack_index_prefix (owner r) (name r) @ f) v) s)"
    unfolding uploaded_def
    by (intro exI [of _ g] exI [of _ c]; simp add: recorded_def update_conv' pack_row_put)+
qed

lemma stored_put:
  assumes "ready r D Q f s" and "\<And>q. q \<in> Q \<Longrightarrow> file_name q \<noteq> Some f"
  shows "stored r D Q f b (s\<lparr>os := AList.update (s3_prefix r @ ''/'' @ f) b (os s)\<rparr>)"
proof -
  have "present (st @ ''.pack'') s" if "s3_prefix r @ ''/'' @ f = st @ ''.idx''" for st
  proof -
    from that have eq: "s3_prefix r @ CHR ''/'' # f = st @ ''.idx''" by simp
    obtain st' where "f = st' @ ''.idx''" "st = s3_prefix r @ CHR ''/'' # st'"
      by (rule suffix_after_slash [OF _ eq]) auto
    with assms(1) show ?thesis by (simp add: ready_def)
  qed
  with assms pack_safe_put [of r s "s3_prefix r @ ''/'' @ f" b]
    uploaded_other(1) [of r D _ s f b] show ?thesis
    by (auto simp: ready_def stored_def update_conv')
qed

lemma triple_stored_record:
  assumes Q: "\<And>q. q \<in> Q \<Longrightarrow> file_name q \<noteq> Some f"
  shows "triple (stored r D Q f b) (record_pack (owner r) (name r) f n)
           (\<lambda>_ s. stored r D Q f b s \<and> recorded r f n s) (stored r D Q f b)"
proof (rule triple_record_pack)
  fix s :: "'a world_scheme" assume t: "stored r D Q f b s"
  let ?g = "kv_put (pack_index_prefix (owner r) (name r) @ f) (to_decimal n)"
  from t have "pack_safe r (upd_db (repo_id (owner r) (name r)) ?g s)"
    by (auto simp: stored_def pack_safe_def paired_def index_served_def pack_row_put present_def)
  with t Q uploaded_other(2) [of r D _ s f "to_decimal n"]
  show "stored r D Q f b (upd_db (repo_id (owner r) (name r)) ?g s)"
    by (auto simp: stored_def)
qed (auto simp: stored_def uploaded_def recorded_def pack_row_def)

lemma triple_upload_body:
  assumes f: "file_name p = Some f" "map_of D p = Some b"
    and Q: "\<And>q. q \<in> Q \<Longrightarrow> file_name q \<noteq> Some f"
  shows "triple (ready r D Q f)
     (bindE io_step (\<lambda>_. bindE (forE (chunks PART_SIZE b) (\<lambda>_. io_step)) (\<lambda>_.
        bindE (os_put (s3_prefix r @ ''/'' @ f) b) (\<lambda>_. record_pack (owner r) (name r) f (length b)))))
     (\<lambda>_ s. pack_safe r s \<and> disk s = D \<and> (\<forall>q\<in>insert p Q. uploaded r D q s))
     (\<lambda>s. pack_safe r s \<and> disk s = D)" (is "triple ?P _ ?R ?E")
proof (intro triple_bindE)
  show "triple ?P io_step (\<lambda>_. ?P) ?E"
    by (rule triple_weaken [OF triple_io_step [of "ready r D Q f"]]) (auto simp: ready_def)
  show "triple ?P (forE (chunks PART_SIZE b) (\<lambda>_. io_step)) (\<lambda>_. ?P) ?E"
    by (rule triple_weaken [OF triple_forE [OF triple_io_step [of "ready r D Q f"]]])
      (auto simp: ready_def)
  show "triple ?P (os_put (s3_prefix r @ ''/'' @ f) b) (\<lambda>_. stored r D Q f b) ?E"
    unfolding os_put_def
    using stored_put [OF _ Q] by (intro triple_io_write) (auto simp: stored_def, auto simp: ready_def)
  show "triple (stored r D Q f b) (record_pack (owner r) (name r) f (length b)) ?R ?E"
    by (rule triple_weaken [OF triple_stored_record [OF Q]])
      (use f in \<open>auto simp: stored_def uploaded_def\<close>)
qed

lemma triple_upload_pack_file:
  assumes f: "file_name p = Some f" and Q: "\<And>q. q \<in> Q \<Longrightarrow> file_name q \<noteq> Some f"
  shows "triple (ready r D Q f) (upload_pack_file r p)
    (\<lambda>_ s. pack_safe r s \<and> disk s = D \<and> (\<forall>q\<in>insert p Q. uploaded r D q s))
    (\<lambda>s. pack_safe r s \<and> disk s = D)" (is "triple ?P _ ?R ?E")
  unfolding upload_pack_file_def f option.simps
proof (rule triple_bindE [where R = "\<lambda>c s. ?P s \<and> map_of D p = c"])
  show "triple ?P (io_read (\<lambda>s. map_of (disk s) p)) (\<lambda>c s. ?P s \<and> map_of D p = c) ?E"
    by (rule triple_weaken [OF triple_io_read [where P = ?P and Q = "\<lambda>c s. ?P s \<and> map_of D p = c"]])
      (auto simp: ready_def)
  fix c
  show "triple (\<lambda>s. ?P s \<and> map_of D p = c) (case c of None \<Rightarrow> failE (Io (io_other ''No such file or directory''))
      | Some body \<Rightarrow> bindE io_step (\<lambda>_. bindE (forE (chunks PART_SIZE body) (\<lambda>_. io_step)) (\<lambda>_.
      bindE (os_put (s3_prefix r @ ''/'' @ f) body) (\<lambda>_. record_pack (owner r) (name r) f (length body))))) ?R ?E"
  proof (cases c)
    case None
    then show ?thesis by (auto simp: ready_def intro: triple_failE)
  next
    case (Some b)
    show ?thesis
    proof (cases "map_of D p = Some b")
      case True
      from triple_upload_body [OF f True Q] True Some show ?thesis by simp
    qed (simp add: Some triple_def)
  qed
qed

lemma triple_upload_pack_files:
  assumes "file_name pack = Some (st @ ''.pack'')" and "file_name idx = Some (st @ ''.idx'')"
  shows "triple (\<lambda>u. pack_safe r u \<and> disk u = D) (upload_pack_files r pack idx)
    (\<lambda>_ u. pack_safe r u \<and> disk u = D \<and> uploaded r D pack u \<and> uploaded r D idx u)
    (\<lambda>u. pack_safe r u \<and> disk u = D)" (is "triple ?E _ ?Q _")
proof -
  let ?up = "\<lambda>Q u. pack_safe r u \<and> disk u = D \<and> (\<forall>q\<in>Q. uploaded r D q u)"
  have one: "triple (ready r D {} (st @ ''.pack'')) (upload_pack_file r pack) (\<lambda>_. ?up {pack}) ?E"
    using triple_upload_pack_file [OF assms(1), of "{}"] by simp
  have "triple (ready r D {pack} (st @ ''.idx'')) (upload_pack_file r idx) (\<lambda>_. ?up {idx, pack}) ?E"
    using triple_upload_pack_file [OF assms(2), of "{pack}"] assms(1) by simp
  then have two: "triple (?up {pack}) (upload_pack_file r idx) (\<lambda>_. ?up {idx, pack}) ?E"
    by (rule triple_weaken) (use assms(1) in \<open>auto simp: ready_def uploaded_def present_def\<close>)
  have "triple (ready r D {} (st @ ''.pack'')) (upload_pack_files r pack idx) (\<lambda>_. ?up {idx, pack}) ?E"
    unfolding upload_pack_files_def forE.simps
    by (rule triple_bindE [OF one], rule triple_bindE [OF two]) (rule triple_returnE, simp)
  moreover have "ready r D {} (st @ ''.pack'') u" if "?E u" for u
    using that by (auto simp: ready_def suffix_def dest: arg_cong [of _ _ rev])
  ultimately show ?thesis by (rule triple_weaken) auto
qed

text \<open>
  C18. Uploading a pack and its index is safe at every point it can stop: whichever primitive
  fails, and whether or not a failed write took effect, the object store never holds an index
  without its pack and the repository's pack index never names a file that is not there. When
  the upload reports success both objects hold the local files and both are recorded with
  their sizes.
\<close>

theorem upload_pack_files_ordered:
  assumes "file_name pack = Some (st @ ''.pack'')" and "file_name idx = Some (st @ ''.idx'')"
    and "pack_safe r s" and "upload_pack_files r pack idx s = (res, t)"
  shows "pack_safe r t \<and> disk t = disk s
    \<and> (res = Inr () \<longrightarrow> uploaded r (disk s) pack t \<and> uploaded r (disk s) idx t)"
  using tripleD [OF triple_upload_pack_files [OF assms(1,2), of r "disk s"] _ assms(4)] assms(3)
  by (auto split: sum.splits)

definition fresh_world :: "(string \<times> bytes) list \<Rightarrow> (string \<times> bytes) list \<Rightarrow> (nat \<Rightarrow> error option) \<Rightarrow> world" where
  "fresh_world objects files f = \<lparr>clock = 0, faults = f, landed = (\<lambda>_. True), now = 0, cmode = Redis,
     centries = [], os = objects, dbs = [], disk = files, dirs = [], unowned = None, handles = [], synced = [],
     reconciled = [], manifests = \<lparr>mmap = [], morder = [], mbytes = 0\<rparr>\<rparr>"

definition web_repo :: repo where
  "web_repo = \<lparr>owner = ''alice'', name = ''web'', objects_dir = ''/c'', pack_dir = ''/c/pack''\<rparr>"

lemma web_prefix: "s3_prefix web_repo = ''objects/alice/web/pack''"
  by (simp add: web_repo_def s3_prefix_def)

lemma fresh_world_safe: "pack_safe r (fresh_world [] files f)"
  by (simp add: pack_safe_def paired_def index_served_def present_def pack_row_def the_db_def
      fresh_world_def)

theorem upload_pack_files_ordered_witness:
  "pack_safe web_repo (snd (upload_pack_files web_repo ''/c/p.pack'' ''/c/p.idx''
     (fresh_world [] [(''/c/p.pack'', ''data''), (''/c/p.idx'', ''index'')]
        (\<lambda>n. if n = 8 then Some (Message ''timeout'') else None))))"
  by (rule upload_pack_files_ordered [of "''/c/p.pack''" "''p''" "''/c/p.idx''", OF _ _ fresh_world_safe
        prod.collapse [symmetric], THEN conjunct1])
    (simp_all add: file_name_def filename_def)

section \<open>Copying every pack of a repository\<close>

lemma split_on_append_sep: "split_on c (a @ c # b) = split_on c a @ split_on c b"
  by (induction a) (auto split: list.splits)

lemma split_on_append_last:
  "c \<notin> set x \<Longrightarrow> split_on c (a @ x) = butlast (split_on c a) @ [last (split_on c a) @ x]"
  by (induction a) (auto simp: split_on_id split: list.splits)

lemma filename_append: "CHR ''/'' \<notin> set x \<Longrightarrow> filename (k @ x) = filename k @ x"
  by (simp add: filename_def split_on_append_last)

lemma join_with_snoc: "ps \<noteq> [] \<Longrightarrow> join_with c (ps @ [p]) = join_with c ps @ c # p"
  by (induction ps rule: induct_list012) auto

lemma split_last_suffix: "suffix (last (split_on c s)) s"
proof (cases "butlast (split_on c s) = []")
  case True
  then have "split_on c s = [last (split_on c s)]"
    by (metis append_butlast_last_id append_Nil split_on_ne)
  then show ?thesis using join_split_on [of c s] by (metis join_with.simps(2) suffix_order.refl)
next
  case False
  have "s = join_with c (butlast (split_on c s) @ [last (split_on c s)])"
    by (simp add: join_split_on)
  with False show ?thesis by (metis join_with_snoc append_Cons append_assoc append_Nil suffixI)
qed

lemma extension_idx: "extension loc = Some ''idx'' \<longleftrightarrow> (\<exists>st. filename loc = st @ ''.idx'')"
proof
  assume e: "extension loc = Some ''idx''"
  let ?ps = "split_on (CHR ''.'') (filename loc)"
  from e have l: "last ?ps = ''idx''" "butlast ?ps \<noteq> []"
    by (auto simp: extension_def Let_def butlast_conv_take split: if_splits)
  have "filename loc = join_with (CHR ''.'') (butlast ?ps @ [last ?ps])"
    by (simp add: join_split_on)
  with l show "\<exists>st. filename loc = st @ ''.idx''"
    by (auto simp: join_with_snoc)
next
  assume "\<exists>st. filename loc = st @ ''.idx''"
  then obtain st where st: "filename loc = st @ CHR ''.'' # ''idx''" by auto
  have "split_on (CHR ''.'') (filename loc) = split_on (CHR ''.'') st @ [''idx'']"
    unfolding st split_on_append_sep by simp
  then show "extension loc = Some ''idx''"
    by (cases "split_on (CHR ''.'') st") (auto simp: extension_def Let_def)
qed

text \<open>What a listing holds, and the pack of a listed index beside it.\<close>

lemma listing_clock [simp]: "listing p (s\<lparr>clock := n\<rparr>) = listing p s"
  by (simp add: listing_def)

lemma listing_keys: "fst ` set (listing p s) = {k. present k s \<and> prefix (p @ ''/'') k}"
  by (force simp: listing_def present_def map_of_eq_None_iff image_iff)

lemma listed_pack:
  assumes "paired s" and "loc \<in> fst ` set (listing p s)" and "filename loc = st @ ''.idx''"
  obtains loc' where "loc' \<in> fst ` set (listing p s)" and "filename loc' = st @ ''.pack''"
proof -
  obtain a where "loc = a @ filename loc"
    using split_last_suffix [of "CHR ''/''" loc] unfolding filename_def suffix_def by blast
  then obtain k where k: "loc = k @ ''.idx''" using assms(3) by (metis append_assoc)
  have "prefix (p @ ''/'') k"
  proof (rule ccontr)
    assume "\<not> prefix (p @ ''/'') k"
    moreover have "prefix (p @ ''/'') (k @ ''.idx'')" using assms(2) k by (simp add: listing_keys)
    ultimately obtain us where "p @ ''/'' = k @ us" "prefix us ''.idx''" "us \<noteq> []"
      by (auto simp: prefix_append)
    then have "last us = CHR ''/''" by (metis last_appendR last_snoc)
    moreover have "last us \<in> set ''.idx''"
      using set_mono_prefix [OF \<open>prefix us _\<close>] last_in_set [OF \<open>us \<noteq> []\<close>] by (rule set_mp)
    ultimately show False by simp
  qed
  then have "k @ ''.pack'' \<in> fst ` set (listing p s)"
    using assms(1,2) k by (simp add: listing_keys paired_def)
  moreover have "filename (k @ ''.pack'') = st @ ''.pack''"
    using assms(3) k by (simp add: filename_append)
  ultimately show ?thesis using that by blast
qed

definition copied :: "repo \<Rightarrow> string set \<Rightarrow> 'z world_scheme \<Rightarrow> bool" where
  "copied r G s \<longleftrightarrow> pack_safe r s \<and> (\<forall>g\<in>G. present (s3_prefix r @ ''/'' @ g) s)"

lemma copied_clock_free [simp]: "clock_free (copied r G)"
  by (simp add: clock_free_def copied_def)

lemma triple_copied_record:
  assumes "f \<in> G"
  shows "triple (copied r G) (record_pack (owner r) (name r) f n) (\<lambda>_. copied r G) (copied r G)"
proof (rule triple_weaken [OF triple_record_pack])
  fix s :: "'a world_scheme" assume "copied r G s"
  with assms show "copied r G (upd_db (repo_id (owner r) (name r))
      (kv_put (pack_index_prefix (owner r) (name r) @ f) (to_decimal n)) s)"
    by (auto simp: copied_def pack_safe_def paired_def index_served_def pack_row_put)
next
  show "clock_free (copied r G)" by simp
qed (auto simp: copied_def)

lemma copied_put:
  assumes "copied r G s" and "\<And>st. f = st @ ''.idx'' \<Longrightarrow> st @ ''.pack'' \<in> G"
  shows "copied r (insert f G) (s\<lparr>os := AList.update (s3_prefix r @ ''/'' @ f) b (os s)\<rparr>)"
proof -
  have "present (st @ ''.pack'') s" if "s3_prefix r @ ''/'' @ f = st @ ''.idx''" for st
  proof -
    from that have eq: "s3_prefix r @ CHR ''/'' # f = st @ ''.idx''" by simp
    obtain st' where "f = st' @ ''.idx''" "st = s3_prefix r @ CHR ''/'' # st'"
      by (rule suffix_after_slash [OF _ eq]) auto
    with assms show ?thesis by (simp add: copied_def)
  qed
  with assms pack_safe_put [of r s "s3_prefix r @ ''/'' @ f" b] show ?thesis
    by (auto simp: copied_def)
qed

lemma triple_copy_pack:
  assumes "\<And>st. filename (fst m) = st @ ''.idx'' \<Longrightarrow> st @ ''.pack'' \<in> G"
  shows "triple (copied r G) (copy_pack r m) (\<lambda>_. copied r (insert (filename (fst m)) G)) (pack_safe r)"
    (is "triple ?P _ ?R ?E")
proof -
  obtain loc sz where m: "m = (loc, sz)" by fastforce
  have put: "triple ?P (os_put (s3_prefix r @ ''/'' @ filename loc) b) ?R ?E" for b
    unfolding os_put_def
    using copied_put [OF _ assms] m by (intro triple_io_write) (auto simp: copied_def)
  have "triple ?P (os_copy loc (s3_prefix r @ ''/'' @ filename loc)) ?R ?E"
    unfolding os_copy_def
  proof (rule triple_bindE)
    show "triple ?P (io_read (\<lambda>s. map_of (os s) loc)) (\<lambda>_. ?P) ?E"
      by (rule triple_weaken [OF triple_io_read [where P = ?P and Q = "\<lambda>_. ?P"]]) (auto simp: copied_def)
    show "triple ?P (case v of None \<Rightarrow> failE (Message ''not found'')
        | Some b \<Rightarrow> os_put (s3_prefix r @ ''/'' @ filename loc) b) ?R ?E" for v
      using put by (cases v) (auto simp: copied_def intro: triple_failE)
  qed
  moreover have "triple (copied r (insert (filename loc) G)) (record_pack (owner r) (name r) (filename loc) sz)
      (\<lambda>_. copied r (insert (filename loc) G)) ?E"
    by (rule triple_weaken [OF triple_copied_record [of "filename loc" "insert (filename loc) G"]])
      (auto simp: copied_def)
  ultimately show ?thesis
    by (simp add: copy_pack_def m Let_def triple_bindE)
qed

lemma copy_packs_outcome:
  assumes "pack_safe to_repo s" and "copy_packs from_repo to_repo s = (res, t)"
  shows "pack_safe to_repo t
    \<and> (\<forall>n. res = Inr n \<longrightarrow> n = length (listing (s3_prefix from_repo) s)
         \<and> (\<forall>loc \<in> fst ` set (listing (s3_prefix from_repo) s).
              present (s3_prefix to_repo @ ''/'' @ filename loc) t))"
proof -
  let ?ms = "listing (s3_prefix from_repo) s"
  let ?ps = "filter (\<lambda>(loc, _). extension loc \<noteq> Some ''idx'') ?ms"
  let ?is = "filter (\<lambda>(loc, _). \<not> extension loc \<noteq> Some ''idx'') ?ms"
  let ?h = "\<lambda>m. filename (fst m)"
  let ?rest = "bindE (forE ?ps (copy_pack to_repo)) (\<lambda>_. bindE (forE ?is (copy_pack to_repo)) (\<lambda>_.
        returnE (length ?ps + length ?is)))"
  have sib: "st @ ''.pack'' \<in> ?h ` set ?ps" if m: "m \<in> set ?is" "?h m = st @ ''.idx''" for m st
  proof -
    have "fst m \<in> fst ` set ?ms" using m(1) by auto
    then obtain loc' where l: "loc' \<in> fst ` set ?ms" "filename loc' = st @ ''.pack''"
      using listed_pack [of s "fst m" _ st] m(2) assms(1) by (auto simp: pack_safe_def)
    then have "extension loc' \<noteq> Some ''idx''"
      by (auto simp: extension_idx dest: arg_cong [of _ _ rev])
    with l show ?thesis by force
  qed
  have one: "triple (copied to_repo {}) (forE ?ps (copy_pack to_repo))
      (\<lambda>_. copied to_repo ({} \<union> ?h ` set ?ps)) (pack_safe to_repo)"
    by (rule triple_forE_collect, rule triple_copy_pack) (auto simp: extension_idx)
  have two: "triple (copied to_repo ({} \<union> ?h ` set ?ps)) (forE ?is (copy_pack to_repo))
      (\<lambda>_. copied to_repo (({} \<union> ?h ` set ?ps) \<union> ?h ` set ?is)) (pack_safe to_repo)"
    by (rule triple_forE_collect, rule triple_copy_pack) (use sib in blast)
  have len: "length ?ps + length ?is = length ?ms"
    using sum_length_filter_compl [of "\<lambda>(loc, _). extension loc \<noteq> Some ''idx''" ?ms]
    by (simp add: split_def)
  have all: "triple (copied to_repo {}) ?rest (\<lambda>n u. n = length ?ms \<and> copied to_repo (?h ` set ?ms) u) (pack_safe to_repo)"
    by (rule triple_bindE [OF one], rule triple_bindE [OF two], rule triple_returnE)
      (auto simp: copied_def len [simplified])
  have pre: "copied to_repo {} (s\<lparr>clock := Suc (clock s)\<rparr>)" using assms(1) by (simp add: copied_def)
  have run: "copy_packs from_repo to_repo s = (let u = s\<lparr>clock := Suc (clock s)\<rparr>
      in case faults s (clock s) of Some e \<Rightarrow> (Inl e, u) | None \<Rightarrow> ?rest u)"
    by (simp add: copy_packs_def os_list_def io_read_def io_step_def bindE_def getE_def Let_def
        split: option.splits)
  show ?thesis
  proof (cases "faults s (clock s)")
    case None
    then have "?rest (s\<lparr>clock := Suc (clock s)\<rparr>) = (res, t)" using run assms(2) by (simp add: Let_def)
    from tripleD [OF all pre this] show ?thesis by (cases res) (auto simp: copied_def)
  next
    case (Some e)
    with run assms show ?thesis by (auto simp: Let_def)
  qed
qed

text \<open>
  Copying a repository's packs for a fork is as safe: from a store where every index has
  its pack, a copy that stops at any point leaves every index with its pack in the whole store
  and no row of the target's pack index without its file; one that reports success has put
  every file of the source's listing under the target.
\<close>

theorem copy_packs_ordered:
  assumes "pack_safe to_repo s" and "copy_packs from_repo to_repo s = (res, t)"
  shows "pack_safe to_repo t
    \<and> (\<forall>n. res = Inr n \<longrightarrow> n = length (listing (s3_prefix from_repo) s)
         \<and> (\<forall>loc \<in> fst ` set (listing (s3_prefix from_repo) s).
              present (s3_prefix to_repo @ ''/'' @ filename loc) t))"
  by (rule copy_packs_outcome [OF assms])

theorem copy_packs_ordered_witness:
  "pack_safe web_repo (snd (copy_packs (web_repo\<lparr>name := ''old''\<rparr>) web_repo (fresh_world
     [(''objects/alice/old/pack/p.pack'', ''d''), (''objects/alice/old/pack/p.idx'', ''i'')] []
     (\<lambda>n. if n = 6 then Some (Message ''timeout'') else None))))"
proof -
  have "k = ''objects/alice/old/pack/p''" if "k @ ''.idx'' = ''objects/alice/old/pack/p'' @ ''.idx''" for k
    using that by (simp only: append_same_eq)
  then have "pack_safe web_repo (fresh_world
     [(''objects/alice/old/pack/p.pack'', ''d''), (''objects/alice/old/pack/p.idx'', ''i'')] []
     (\<lambda>n. if n = 6 then Some (Message ''timeout'') else None))"
    by (auto simp: pack_safe_def paired_def index_served_def present_def pack_row_def the_db_def
        fresh_world_def dest: arg_cong [of _ _ rev])
  then show ?thesis
    by (rule copy_packs_ordered [OF _ prod.collapse [symmetric], THEN conjunct1])
qed

section \<open>Taking a pack back\<close>

lemma io_write_fine:
  "faults s = (\<lambda>_. None) \<Longrightarrow> io_write f s = (Inr (), f (s\<lparr>clock := Suc (clock s)\<rparr>))"
  by (simp add: io_write_def)

lemma upd_db_fields [simp]:
  "faults (upd_db h g s) = faults s" "unowned (upd_db h g s) = unowned s" "clock (upd_db h g s) = clock s"
  by (simp_all add: upd_db_def)

lemma pack_row_del:
  "pack_row r f (upd_db (repo_id (owner r) (name r)) (kv_del (pack_index_prefix (owner r) (name r) @ g)) s)
     = (if f = g then None else pack_row r f s)"
  by (simp add: pack_row_def kv_get_def kv_del_def delete_conv')

text \<open>One round of the deletion when nothing fails.\<close>

definition without_file :: "repo \<Rightarrow> string \<Rightarrow> string \<Rightarrow> 'z world_scheme \<Rightarrow> 'z world_scheme \<Rightarrow> bool" where
  "without_file r p f s t \<longleftrightarrow> faults t = faults s \<and> unowned t = unowned s
     \<and> (\<forall>k. present k t \<longleftrightarrow> k \<noteq> s3_prefix r @ ''/'' @ f \<and> present k s)
     \<and> (\<forall>g. pack_row r g t = (if g = f then None else pack_row r g s))
     \<and> (\<forall>q. map_of (disk t) q = (if q = p then None else map_of (disk s) q))"

lemma delete_pack_file_fine:
  assumes "faults s = (\<lambda>_. None)" and "unowned s \<noteq> Some (repo_id (owner r) (name r))"
    and "file_name p = Some f"
  shows "\<exists>t. delete_pack_file r p s = (Inr (), t) \<and> without_file r p f s t"
  using assms
  by (simp add: delete_pack_file_def bindE_def ignoreE_def os_delete_def forget_pack_def
      forget_cached_packs_def putE_def db_for_def db_delete_def io_write_fine without_file_def
      pack_row_del delete_conv' present_def)

text \<open>
  When nothing fails, taking a rejected push's pack back removes both objects, both rows
  of the pack index and both local files, touches nothing else, and keeps every index with its
  pack.
\<close>

theorem delete_pack_files_clean:
  assumes "faults s = (\<lambda>_. None)" and "unowned s \<noteq> Some (repo_id (owner r) (name r))"
    and "file_name pack = Some (st @ ''.pack'')" and "file_name idx = Some (st @ ''.idx'')"
    and "pack_safe r s"
  shows "\<exists>t. delete_pack_files r pack idx s = (Inr (), t) \<and> pack_safe r t
    \<and> (\<forall>k. present k t \<longleftrightarrow> present k s \<and> k \<noteq> s3_prefix r @ ''/'' @ st @ ''.pack''
                                     \<and> k \<noteq> s3_prefix r @ ''/'' @ st @ ''.idx'')
    \<and> (\<forall>g. pack_row r g t = (if g \<in> {st @ ''.pack'', st @ ''.idx''} then None else pack_row r g s))
    \<and> (\<forall>q. map_of (disk t) q = (if q \<in> {pack, idx} then None else map_of (disk s) q))"
proof -
  obtain u where u: "delete_pack_file r idx s = (Inr (), u)" "without_file r idx (st @ ''.idx'') s u"
    using delete_pack_file_fine [OF assms(1,2,4)] by blast
  then have "faults u = (\<lambda>_. None)" "unowned u \<noteq> Some (repo_id (owner r) (name r))"
    using assms(1,2) by (simp_all add: without_file_def)
  then obtain t where t: "delete_pack_file r pack u = (Inr (), t)" "without_file r pack (st @ ''.pack'') u t"
    using delete_pack_file_fine [OF _ _ assms(3)] by blast
  have p: "present k t \<longleftrightarrow> present k s \<and> k \<noteq> s3_prefix r @ ''/'' @ st @ ''.pack''
      \<and> k \<noteq> s3_prefix r @ ''/'' @ st @ ''.idx''" for k
    using t(2) u(2) by (auto simp: without_file_def)
  have w: "pack_row r g t = (if g \<in> {st @ ''.pack'', st @ ''.idx''} then None else pack_row r g s)" for g
    using t(2) u(2) by (auto simp: without_file_def)
  have stem: "k = s3_prefix r @ ''/'' @ st" if "k @ ''.pack'' = s3_prefix r @ ''/'' @ st @ ''.pack''" for k
    using that by (metis append_assoc append_same_eq)
  have "pack_safe r t"
    using assms(5) stem unfolding pack_safe_def paired_def index_served_def p w
    by (auto split: if_splits dest: arg_cong [of _ _ rev])
  moreover have "delete_pack_files r pack idx s = (Inr (), t)"
    using u(1) t(1) by (simp add: delete_pack_files_def)
  ultimately show ?thesis
    using p w t(2) u(2) by (auto simp: without_file_def)
qed

theorem delete_pack_files_clean_witness:
  "\<exists>t. delete_pack_files web_repo ''/c/p.pack'' ''/c/p.idx'' (fresh_world [] [(''/c/p.pack'', ''d'')] (\<lambda>_. None))
     = (Inr (), t) \<and> map_of (disk t) ''/c/p.pack'' = None"
  using delete_pack_files_clean [of "fresh_world [] [(''/c/p.pack'', ''d'')] (\<lambda>_. None)" web_repo
      "''/c/p.pack''" "''p''" "''/c/p.idx''", OF _ _ _ _ fresh_world_safe]
  by (auto simp: fresh_world_def file_name_def filename_def)

lemma forget_pack_fields [simp]:
  "os (snd (forget_pack o1 n f s)) = os s" "faults (snd (forget_pack o1 n f s)) = faults s"
  "clock s \<le> clock (snd (forget_pack o1 n f s))"
  by (auto simp: forget_pack_def forget_cached_packs_def putE_def db_for_def db_delete_def bindE_def
      io_write_def Let_def split: option.splits)

lemma io_write_fields [simp]:
  "os (snd (io_write (\<lambda>s. s\<lparr>disk := d s\<rparr>) s)) = os s"
  "faults (snd (io_write (\<lambda>s. s\<lparr>disk := d s\<rparr>) s)) = faults s"
  "clock (snd (io_write (\<lambda>s. s\<lparr>disk := d s\<rparr>) s)) = Suc (clock s)"
  "faults (snd (os_delete k s)) = faults s" "clock (snd (os_delete k s)) = Suc (clock s)"
  by (auto simp: os_delete_def io_write_def Let_def split: option.splits)

lemma delete_pack_file_snd:
  "file_name p = Some f \<Longrightarrow> delete_pack_file r p s =
     (Inr (), snd (io_write (\<lambda>s. s\<lparr>disk := AList.delete p (disk s)\<rparr>)
        (snd (forget_pack (owner r) (name r) f (snd (os_delete (s3_prefix r @ ''/'' @ f) s))))))"
  by (simp add: delete_pack_file_def bindE_def ignoreE_def)

lemma delete_pack_file_os:
  assumes "file_name p = Some f"
  shows "os (snd (delete_pack_file r p s)) = os (snd (os_delete (s3_prefix r @ ''/'' @ f) s))"
    and "faults (snd (delete_pack_file r p s)) = faults s"
    and "clock s < clock (snd (delete_pack_file r p s))"
  using forget_pack_fields(3) [of "snd (os_delete (s3_prefix r @ ''/'' @ f) s)" "owner r" "name r" f]
  by (simp_all add: delete_pack_file_snd [OF assms])

definition orphan_world :: world where
  "orphan_world = (fresh_world [(''objects/alice/web/pack/p.pack'', ''d''), (''objects/alice/web/pack/p.idx'', ''i'')] []
     (\<lambda>n. if n = 0 then Some (Message ''timeout'') else None))\<lparr>landed := \<lambda>_. False\<rparr>"

lemma orphan_world_safe: "pack_safe web_repo orphan_world"
proof -
  have "k = ''objects/alice/web/pack/p''" if "k @ ''.idx'' = ''objects/alice/web/pack/p'' @ ''.idx''" for k
    using that by (simp only: append_same_eq)
  then show ?thesis
    by (auto simp: pack_safe_def paired_def index_served_def present_def pack_row_def the_db_def
        fresh_world_def orphan_world_def dest: arg_cong [of _ _ rev])
qed

text \<open>
  The deletion ignores the failure of each of its steps: when the delete of the index
  fails and that of the pack succeeds, it reports success and leaves an index whose pack is
  gone.
\<close>

theorem delete_pack_files_can_orphan:
  "\<exists>s :: world. pack_safe web_repo s
     \<and> fst (delete_pack_files web_repo ''/c/p.pack'' ''/c/p.idx'' s) = Inr ()
     \<and> \<not> paired (snd (delete_pack_files web_repo ''/c/p.pack'' ''/c/p.idx'' s))"
proof -
  let ?del = "delete_pack_files web_repo ''/c/p.pack'' ''/c/p.idx'' orphan_world"
  define u where "u = snd (delete_pack_file web_repo ''/c/p.idx'' orphan_world)"
  have f: "file_name ''/c/p.idx'' = Some ''p.idx''" "file_name ''/c/p.pack'' = Some ''p.pack''"
    by (simp_all add: file_name_def filename_def)
  have del: "?del = (Inr (), snd (delete_pack_file web_repo ''/c/p.pack'' u))"
    by (simp add: delete_pack_files_def bindE_def u_def delete_pack_file_snd [OF f(1)]
        delete_pack_file_snd [OF f(2)])
  have "os u = os orphan_world" "faults u (clock u) = None"
    using delete_pack_file_os [OF f(1), where r = web_repo and s = orphan_world]
    by (simp_all add: u_def os_delete_def io_write_def orphan_world_def fresh_world_def Let_def)
  then have "os (snd ?del) = AList.delete ''objects/alice/web/pack/p.pack'' (os orphan_world)"
    using delete_pack_file_os(1) [OF f(2), where r = web_repo and s = u]
    unfolding del by (simp add: os_delete_def io_write_def Let_def web_prefix)
  then have "present (''objects/alice/web/pack/p'' @ ''.idx'') (snd ?del)"
    "\<not> present (''objects/alice/web/pack/p'' @ ''.pack'') (snd ?del)"
    by (simp_all add: present_def delete_conv' orphan_world_def fresh_world_def)
  moreover have "fst ?del = Inr ()" using del by simp
  ultimately show ?thesis using orphan_world_safe unfolding paired_def by blast
qed

section \<open>Fetching a pack file\<close>

text \<open>The world while a download is under way: only the temporary file differs.\<close>

definition only_tmp :: "'z world_scheme \<Rightarrow> string \<Rightarrow> 'z world_scheme \<Rightarrow> bool" where
  "only_tmp s tmp t \<longleftrightarrow> os t = os s \<and> (\<forall>p. p \<noteq> tmp \<longrightarrow> map_of (disk t) p = map_of (disk s) p)"

lemma only_tmp_clock_free [simp]:
  "clock_free (only_tmp s tmp)" "clock_free (\<lambda>t. only_tmp s tmp t \<and> map_of (disk t) tmp = Some b)"
  by (simp_all add: clock_free_def only_tmp_def)

lemma triple_append_chunks:
  "triple (\<lambda>t. only_tmp s tmp t \<and> map_of (disk t) tmp = Some b)
     (forE cs (\<lambda>c. io_write (\<lambda>t. t\<lparr>disk := AList.map_entry tmp (\<lambda>b. b @ c) (disk t)\<rparr>)))
     (\<lambda>_ t. only_tmp s tmp t \<and> map_of (disk t) tmp = Some (b @ concat cs)) (only_tmp s tmp)"
proof (induction cs arbitrary: b)
  case Nil
  show ?case by (simp add: triple_def)
next
  case (Cons c cs)
  have "triple (\<lambda>t. only_tmp s tmp t \<and> map_of (disk t) tmp = Some b)
     (io_write (\<lambda>t. t\<lparr>disk := AList.map_entry tmp (\<lambda>b. b @ c) (disk t)\<rparr>))
     (\<lambda>_ t. only_tmp s tmp t \<and> map_of (disk t) tmp = Some (b @ c)) (only_tmp s tmp)"
    by (rule triple_io_write) (auto simp: clock_free_def only_tmp_def map_of_map_entry)
  from triple_bindE [OF this Cons.IH] show ?case by simp
qed

lemma triple_write_file:
  "triple (only_tmp s tmp) (write_file tmp body)
     (\<lambda>_ t. only_tmp s tmp t \<and> map_of (disk t) tmp = Some body) (only_tmp s tmp)"
proof -
  have "triple (only_tmp s tmp) (io_write (\<lambda>t. t\<lparr>disk := AList.update tmp [] (disk t)\<rparr>))
      (\<lambda>_ t. only_tmp s tmp t \<and> map_of (disk t) tmp = Some []) (only_tmp s tmp)"
    by (rule triple_io_write) (auto simp: only_tmp_def update_conv')
  moreover have "triple (\<lambda>t. only_tmp s tmp t \<and> map_of (disk t) tmp = Some body) io_step
      (\<lambda>_ t. only_tmp s tmp t \<and> map_of (disk t) tmp = Some body) (only_tmp s tmp)"
    by (rule triple_weaken [OF triple_io_step [OF only_tmp_clock_free(2)]]) auto
  ultimately show ?thesis
    using triple_append_chunks [of s tmp "[]" "chunks COPY_BUF body"]
    by (auto simp: write_file_def concat_chunks COPY_BUF_def intro!: triple_bindE)
qed

lemma triple_download:
  "triple (only_tmp s tmp)
     (handleE (write_file tmp body) (\<lambda>e.
        bindE (ignoreE (io_write (\<lambda>s. s\<lparr>disk := AList.delete tmp (disk s)\<rparr>))) (\<lambda>_. failE e)))
     (\<lambda>_ t. only_tmp s tmp t \<and> map_of (disk t) tmp = Some body) (only_tmp s tmp)"
proof (rule triple_handleE [OF triple_write_file])
  fix e
  have "triple (only_tmp s tmp) (ignoreE (io_write (\<lambda>s. s\<lparr>disk := AList.delete tmp (disk s)\<rparr>)))
      (\<lambda>_. only_tmp s tmp) (only_tmp s tmp)"
    by (rule triple_ignoreE, rule triple_io_write) (auto simp: only_tmp_def delete_conv')
  then show "triple (only_tmp s tmp)
      (bindE (ignoreE (io_write (\<lambda>s. s\<lparr>disk := AList.delete tmp (disk s)\<rparr>))) (\<lambda>_. failE e))
      (\<lambda>_ t. only_tmp s tmp t \<and> map_of (disk t) tmp = Some body) (only_tmp s tmp)"
    by (rule triple_bindE) (simp add: triple_failE)
qed

text \<open>The state a fetch can leave: a file of another name than these two is untouched.\<close>

definition fetch_left :: "'z world_scheme \<Rightarrow> string \<Rightarrow> string \<Rightarrow> string \<Rightarrow> 'z world_scheme \<Rightarrow> bool" where
  "fetch_left s key local tmp t \<longleftrightarrow> os t = os s
     \<and> (\<forall>p. p \<noteq> local \<longrightarrow> p \<noteq> tmp \<longrightarrow> map_of (disk t) p = map_of (disk s) p)
     \<and> map_of (disk t) local \<in> {map_of (disk s) local, map_of (os s) key}"

lemma triple_rename:
  assumes "map_of (os s) key = Some body" and "local \<noteq> tmp"
  shows "triple (\<lambda>t. only_tmp s tmp t \<and> map_of (disk t) tmp = Some body) (rename_file tmp local)
     (\<lambda>_ t. fetch_left s key local tmp t \<and> map_of (disk t) local = Some body) (fetch_left s key local tmp)"
  unfolding rename_file_def
  by (rule triple_io_write) (use assms in \<open>auto simp: clock_free_def only_tmp_def fetch_left_def update_conv' delete_conv'\<close>)

lemma fetch_outcome:
  assumes "tmp_name f \<noteq> f" and "fetch_pack_file tmp_name r f sz s = (res, t)"
  shows "fetch_left s (s3_prefix r @ ''/'' @ f) (pack_dir r @ ''/'' @ f) (pack_dir r @ ''/'' @ tmp_name f) t
    \<and> (res = Inr () \<longrightarrow> (\<exists>b. map_of (disk t) (pack_dir r @ ''/'' @ f) = Some b
         \<and> (length b = sz \<or> map_of (os s) (s3_prefix r @ ''/'' @ f) = Some b)))"
proof -
  let ?key = "s3_prefix r @ ''/'' @ f" and ?loc = "pack_dir r @ ''/'' @ f"
  let ?tmp = "pack_dir r @ ''/'' @ tmp_name f"
  let ?left = "fetch_left s ?key ?loc ?tmp"
  let ?done = "\<lambda>b t. ?left t \<and> map_of (disk t) ?loc = Some b"
  have tl: "?left u" if "only_tmp s ?tmp u" for u
    using that assms(1) by (auto simp: only_tmp_def fetch_left_def)
  have refl: "only_tmp s ?tmp (s\<lparr>clock := n\<rparr>)" for n by (simp add: only_tmp_def)
  have get: "triple (only_tmp s ?tmp)
      (bindE (handleE (write_file ?tmp b) (\<lambda>e.
         bindE (ignoreE (io_write (\<lambda>s. s\<lparr>disk := AList.delete ?tmp (disk s)\<rparr>))) (\<lambda>_. failE e)))
       (\<lambda>_. rename_file ?tmp ?loc)) (\<lambda>_. ?done b) ?left" if "map_of (os s) ?key = Some b" for b
    by (rule triple_bindE [OF triple_weaken [OF triple_download] triple_rename [OF that]])
      (use assms(1) tl in auto)
  consider (there) b where "map_of (disk s) ?loc = Some b" "length b = sz" "(res, t) = (Inr (), s)"
    | (fault) e where "res = Inl e" "t = s\<lparr>clock := Suc (clock s)\<rparr>"
    | (load) b where "map_of (os s) ?key = Some b"
        "bindE (handleE (write_file ?tmp b) (\<lambda>e.
           bindE (ignoreE (io_write (\<lambda>s. s\<lparr>disk := AList.delete ?tmp (disk s)\<rparr>))) (\<lambda>_. failE e)))
         (\<lambda>_. rename_file ?tmp ?loc) (s\<lparr>clock := Suc (clock s)\<rparr>) = (res, t)"
    using assms(2)
    by (cases "map_of (disk s) ?loc"; cases "faults s (clock s)"; cases "map_of (os s) ?key")
      (auto simp: fetch_pack_file_def io_read_def io_step_def bindE_def [of io_step] bindE_def [of "getE _"]
        getE_def bindE_def [of "\<lambda>s. (_ s, _ s)"] Let_def split: if_splits)
  then show ?thesis
  proof cases
    case (load b)
    from tripleD [OF get [OF load(1)] refl load(2)] load(1) show ?thesis by (cases res) auto
  qed (auto simp: fetch_left_def)
qed

text \<open>
  C31. A download never leaves a half-written pack under its own name: whatever fails, the
  file is what it was or the whole object, no other file but the temporary one changes, and
  after a success the file has the recorded size or is the object.
\<close>

theorem fetch_pack_file_atomic:
  assumes "tmp_name f \<noteq> f" and "fetch_pack_file tmp_name r f sz s = (res, t)"
  shows "fetch_left s (s3_prefix r @ ''/'' @ f) (pack_dir r @ ''/'' @ f) (pack_dir r @ ''/'' @ tmp_name f) t
    \<and> (res = Inr () \<longrightarrow> (\<exists>b. map_of (disk t) (pack_dir r @ ''/'' @ f) = Some b
         \<and> (length b = sz \<or> map_of (os s) (s3_prefix r @ ''/'' @ f) = Some b)))"
  by (rule fetch_outcome [OF assms])

theorem fetch_pack_file_atomic_witness:
  "map_of (disk (snd (fetch_pack_file (\<lambda>f. ''.'' @ f @ ''.7.0.tmp'') web_repo ''p.pack'' 4
     (fresh_world [(''objects/alice/web/pack/p.pack'', ''data'')] [] (\<lambda>n. if n = 2 then Some (Message ''reset'') else None)))))
     ''/c/pack/p.pack'' \<in> {None, Some ''data''}"
  using fetch_pack_file_atomic [of "\<lambda>f. ''.'' @ f @ ''.7.0.tmp''" "''p.pack''" web_repo 4
      "fresh_world [(''objects/alice/web/pack/p.pack'', ''data'')] []
         (\<lambda>n. if n = 2 then Some (Message ''reset'') else None)", OF _ prod.collapse [symmetric]]
  by (simp add: fetch_left_def web_prefix fresh_world_def) (simp add: web_repo_def)

section \<open>Pruning the local pack directory\<close>

lemma insort_key_true:
  "f x \<Longrightarrow> (\<And>a. a \<in> set as \<Longrightarrow> \<not> f a) \<Longrightarrow> (\<And>b. b \<in> set bs \<Longrightarrow> f b)
     \<Longrightarrow> insort_key f x (as @ bs) = as @ x # bs" for f :: "'a \<Rightarrow> bool"
proof (induction as)
  case Nil
  then show ?case by (cases bs) auto
qed auto

lemma insort_key_false: "\<not> f x \<Longrightarrow> insort_key f x xs = x # xs" for f :: "'a \<Rightarrow> bool"
  by (cases xs) auto

lemma sort_key_bool: "sort_key f xs = filter (\<lambda>x. \<not> f x) xs @ filter f xs" for f :: "'a \<Rightarrow> bool"
proof (induction xs)
  case (Cons x xs)
  have "f x \<Longrightarrow> insort_key f x (filter (\<lambda>x. \<not> f x) xs @ filter f xs)
      = filter (\<lambda>x. \<not> f x) xs @ x # filter f xs"
    by (rule insort_key_true) auto
  with Cons show ?case by (simp add: insort_key_false)
qed simp

lemma std_extension_suffix:
  assumes "CHR ''/'' \<notin> set st" and "st \<noteq> []"
  shows "std_extension (st @ ''.idx'') = Some ''idx''" and "std_extension (st @ ''.pack'') = Some ''pack''"
proof -
  have f: "filename (st @ x) = st @ x" if "CHR ''/'' \<notin> set x" for x
    using that assms(1) by (simp add: filename_def split_on_id)
  have e: "std_extension (st @ CHR ''.'' # x) = Some x"
    if "CHR ''/'' \<notin> set x" "CHR ''.'' \<notin> set x" for x
  proof -
    have "split_on (CHR ''.'') (st @ CHR ''.'' # x) = split_on (CHR ''.'') st @ [x]"
      using that by (simp add: split_on_append_sep split_on_id)
    moreover have "split_on (CHR ''.'') st \<noteq> [[]]"
      using assms(2) by (metis join_split_on join_with.simps(2))
    ultimately show ?thesis
      using that f [of "CHR ''.'' # x"]
      by (cases "split_on (CHR ''.'') st" rule: remdups_adj.cases) (auto simp: std_extension_def Let_def)
  qed
  show "std_extension (st @ ''.idx'') = Some ''idx''" "std_extension (st @ ''.pack'') = Some ''pack''"
    using e [of "''idx''"] e [of "''pack''"] by simp_all
qed



section \<open>Health and reconcile\<close>

lemma health_rounds:
  "fst (fold health_round rounds (0, True)) = of_nat (length (takeWhile Not (rev rounds)))"
  by (induction rounds rule: rev_induct) (auto simp: health_round_def Let_def)

text \<open>
  The published health is the hysteresis the probe documents: it is down exactly when the
  last three probes failed, so one success brings it back and one blip never takes it down.
\<close>

lemma health_hysteresis:
  assumes "length rounds < 2 ^ 32"
  shows "snd (fold health_round rounds (0, True)) \<longleftrightarrow> \<not> suffix [False, False, False] rounds"
proof (cases rounds rule: rev_cases)
  case (snoc xs x)
  let ?n = "length (takeWhile Not (rev rounds))"
  have n: "?n < 2 ^ 32"
    using assms length_takeWhile_le [of Not "rev rounds"] by simp
  have "snd (fold health_round rounds (0, True)) \<longleftrightarrow> (of_nat ?n :: 32 word) < 3"
    using health_rounds [of rounds] snoc by (simp add: health_round_def Let_def)
  also have "\<dots> \<longleftrightarrow> ?n < 3"
    using n by (simp add: word_less_nat_alt unat_of_nat)
  also have "\<dots> \<longleftrightarrow> \<not> prefix [False, False, False] (rev rounds)"
    by (cases "rev rounds"; cases "tl (rev rounds)"; cases "tl (tl (rev rounds))") auto
  finally show ?thesis by (simp add: suffix_to_prefix)
qed simp

lemma health_hysteresis_witness:
  "snd (fold health_round [True, False, False, True] (0, True))
   \<and> \<not> snd (fold health_round [True, False, False, False] (0, True))"
  using health_hysteresis [of "[True, False, False, True]"] health_hysteresis [of "[True, False, False, False]"]
  by (simp add: suffix_to_prefix)

lemma reconcile_kept:
  assumes "map_of m key = Some t" and "u < t + RECONCILE_EVERY"
  shows "map_of (snd (reconcile_due k u m)) key = Some t"
proof -
  have w: "u - t < RECONCILE_EVERY" using assms(2) by (simp add: RECONCILE_EVERY_def)
  then have "map_of (filter (\<lambda>(_, t0). u - t0 < RECONCILE_EVERY) m) key = Some t"
    using assms(1) by (induction m) auto
  with w assms(1) show ?thesis
    by (cases "k = key") (auto simp: reconcile_due_def Let_def update_conv')
qed

lemma reconcile_kept_all:
  "map_of m key = Some t \<Longrightarrow> (\<And>k u. (k, u) \<in> set calls \<Longrightarrow> u < t + RECONCILE_EVERY)
     \<Longrightarrow> map_of (fold (\<lambda>(k, u) m. snd (reconcile_due k u m)) calls m) key = Some t"
proof (induction calls arbitrary: m)
  case (Cons c calls)
  have "map_of (snd (reconcile_due (fst c) (snd c) m)) key = Some t"
    by (rule reconcile_kept [OF Cons.prems(1)]) (use Cons.prems(2) [of "fst c" "snd c"] in simp)
  moreover have "u < t + RECONCILE_EVERY" if "(k, u) \<in> set calls" for k u
    using Cons.prems(2) [of k u] that by simp
  ultimately show ?case using Cons.IH by (simp add: split_def)
qed simp

text \<open>
  A repository's marker is reconciled at most once in ten minutes, however many other
  repositories are opened meanwhile, the sweep of the bookkeeping map included.
\<close>

lemma reconcile_at_most_once:
  assumes "reconcile_due key t m = (True, m')"
    and "\<And>k u. (k, u) \<in> set calls \<Longrightarrow> u < t + RECONCILE_EVERY" and "u < t + RECONCILE_EVERY"
  shows "\<not> fst (reconcile_due key u (fold (\<lambda>(k, u) m. snd (reconcile_due k u m)) calls m'))"
proof -
  have "map_of m' key = Some t"
    using assms(1) by (auto simp: reconcile_due_def Let_def update_conv' split: if_splits option.splits)
  from reconcile_kept_all [OF this assms(2)]
  have "map_of (fold (\<lambda>(k, u) m. snd (reconcile_due k u m)) calls m') key = Some t" .
  with assms(3) show ?thesis by (simp add: reconcile_due_def RECONCILE_EVERY_def)
qed

lemma reconcile_at_most_once_witness:
  "\<not> fst (reconcile_due ''a/r'' 599 (snd (reconcile_due ''a/s'' 7 (snd (reconcile_due ''a/r'' 0 [])))))"
  using reconcile_at_most_once [of "''a/r''" 0 "[]" "[(''a/r'', 0)]" "[(''a/s'', 7)]" 599]
  by (auto simp: reconcile_due_def RECONCILE_EVERY_def)

section \<open>Locks by key\<close>

text \<open>
  \<open>Store::keyed_lock\<close>. A lock is a number; \<open>lheld\<close> lists the clones callers hold, each with the
  key it was asked for, so a lock nobody holds is one with no clone (a strong count of one).
  The table is swept of those past 512 entries.
\<close>

record lock_table =
  lmap :: "(string \<times> nat) list"
  lheld :: "(string \<times> nat) list"
  lnext :: nat

definition LOCK_SWEEP_AT :: nat where
  "LOCK_SWEEP_AT = 512"

definition keyed_lock :: "string \<Rightarrow> lock_table \<Rightarrow> nat \<times> lock_table" where
  "keyed_lock key t =
     (let m = (if LOCK_SWEEP_AT \<le> length (lmap t)
               then filter (\<lambda>(_, i). i \<in> snd ` set (lheld t)) (lmap t) else lmap t)
      in case map_of m key of
           Some i \<Rightarrow> (i, t\<lparr>lmap := m, lheld := (key, i) # lheld t\<rparr>)
         | None \<Rightarrow> (lnext t, t\<lparr>lmap := AList.update key (lnext t) m,
                              lheld := (key, lnext t) # lheld t, lnext := Suc (lnext t)\<rparr>))"

text \<open>The tables a process can come to: callers take locks and drop their clones, in any order.\<close>

inductive lock_reach :: "lock_table \<Rightarrow> bool" where
  start: "lock_reach \<lparr>lmap = [], lheld = [], lnext = 0\<rparr>"
| take: "lock_reach t \<Longrightarrow> lock_reach (snd (keyed_lock key t))"
| release: "lock_reach t \<Longrightarrow> lock_reach (t\<lparr>lheld := remove1 c (lheld t)\<rparr>)"

definition lock_inv :: "lock_table \<Rightarrow> bool" where
  "lock_inv t \<longleftrightarrow> distinct (map fst (lmap t)) \<and> distinct (map snd (lmap t))
     \<and> (\<forall>i \<in> snd ` set (lmap t). i < lnext t) \<and> set (lheld t) \<subseteq> set (lmap t)"

lemma lock_inv_take: 
  assumes "lock_inv t"
  shows "lock_inv (snd (keyed_lock key t))"
proof -
  define m where "m = (if LOCK_SWEEP_AT \<le> length (lmap t)
    then filter (\<lambda>(_, i). i \<in> snd ` set (lheld t)) (lmap t) else lmap t)"
  have sub: "set m \<subseteq> set (lmap t)" by (auto simp: m_def)
  have held: "set (lheld t) \<subseteq> set m" using assms by (force simp: m_def lock_inv_def)
  have d: "distinct (map fst m)" "distinct (map snd m)"
    using assms by (auto simp: m_def lock_inv_def distinct_map inj_on_def)
  show ?thesis
  proof (cases "map_of m key")
    case (Some i)
    then have "(key, i) \<in> set m" by (rule map_of_SomeD)
    with Some d sub held assms show ?thesis
      by (auto simp: keyed_lock_def m_def [symmetric] Let_def lock_inv_def)
  next
    case None
    then have "AList.update key (lnext t) m = m @ [(key, lnext t)]"
      by (induction m) (auto split: if_splits)
    moreover have "key \<notin> fst ` set m" using None by (simp add: map_of_eq_None_iff)
    moreover have "i < lnext t" if "(k, i) \<in> set m" for k i
      using that sub assms by (fastforce simp: lock_inv_def)
    moreover from this have "lnext t \<notin> snd ` set m" by fastforce
    ultimately show ?thesis
      using None d held by (auto simp: keyed_lock_def m_def [symmetric] Let_def lock_inv_def less_Suc_eq)
  qed
qed

lemma lock_inv_reach: "lock_reach t \<Longrightarrow> lock_inv t"
proof (induction rule: lock_reach.induct)
  case (release t c)
  then show ?case using set_remove1_subset [of c "lheld t"] by (auto simp: lock_inv_def)
qed (auto simp: lock_inv_take, simp add: lock_inv_def)

text \<open>
  Two callers that hold the lock of one key hold the same lock, and holders of different
  keys never share one, however often the table is swept in between.
\<close>

theorem keyed_locks_exclusive:
  assumes "lock_reach t" and "(key, i) \<in> set (lheld t)" and "(key', j) \<in> set (lheld t)"
  shows "key = key' \<longleftrightarrow> i = j"
proof -
  have inv: "inj_on fst (set (lmap t))" "inj_on snd (set (lmap t))" "set (lheld t) \<subseteq> set (lmap t)"
    using lock_inv_reach [OF assms(1)] by (auto simp: lock_inv_def distinct_map)
  then show ?thesis
    using inj_onD [OF inv(1), of "(key, i)" "(key', j)"] inj_onD [OF inv(2), of "(key, i)" "(key', j)"] assms(2,3)
    by auto
qed

theorem keyed_locks_exclusive_witness:
  "(''a'' = ''b'') = (fst (keyed_lock ''a'' \<lparr>lmap = [], lheld = [], lnext = 0\<rparr>)
     = fst (keyed_lock ''b'' (snd (keyed_lock ''a'' \<lparr>lmap = [], lheld = [], lnext = 0\<rparr>))))"
  by (rule keyed_locks_exclusive [OF lock_reach.take [OF lock_reach.take [OF lock_reach.start, of "''a''"], of "''b''"]])
    (simp_all add: keyed_lock_def LOCK_SWEEP_AT_def)

end
