(* ===== verification/Index.thy ===== *)
theory Index
  imports Store
begin

text \<open>
  The listing index of \<open>crates/storage/src/index.rs\<close>: one marker object per repository or image
  under \<open>index/{public|private}/{kind}/{owner}/{name}\<close>, its text format, the flip of a marker's
  visibility, and the listing. Also the repair of a marker (\<open>Store::reconcile_marker\<close>).
  The lemmas show that the format loses nothing, that a flip to private never leaves the public
  marker beside the new private one whatever fails, and that an anonymous listing never names
  anything that has a private marker.
\<close>

section \<open>Characters of a text\<close>

text \<open>\<open>str::chars\<close>, each character as its bytes, and \<open>char::is_control\<close>.\<close>

function str_chars :: "string \<Rightarrow> string list" where
  "str_chars [] = []"
| "str_chars (a # xs) =
     (let n = snd (utf8_step (a # xs)) in take n (a # xs) # str_chars (drop n (a # xs)))"
  by pat_completeness auto
termination
  by (relation "measure length") (use utf8_step_pos in \<open>simp_all del: utf8_step.simps\<close>)

declare str_chars.simps [simp del]

fun is_control :: "string \<Rightarrow> bool" where
  "is_control [c] \<longleftrightarrow> byte_of c < 0x20 \<or> byte_of c = 0x7F"
| "is_control [a, b] \<longleftrightarrow> byte_of a = 0xC2 \<and> in_range 0x80 0x9F b"
| "is_control _ \<longleftrightarrow> False"

definition without_controls :: "string \<Rightarrow> string" where
  "without_controls s = concat (filter (\<lambda>c. \<not> is_control c) (str_chars s))"

section \<open>Markers\<close>

datatype kind = Repo | Img

fun seg :: "kind \<Rightarrow> string" where
  "seg Repo = ''repo''"
| "seg Img = ''img''"

record marker =
  mname :: string
  mpublic :: bool
  created_by :: string
  created_ms :: int
  description :: string
  mcount :: nat
  updated_ms :: int

definition lock_key :: "kind \<Rightarrow> string \<Rightarrow> string \<Rightarrow> string" where
  "lock_key k o1 n = ''index/'' @ seg k @ ''/'' @ o1 @ ''/'' @ n"

definition marker_path :: "bool \<Rightarrow> kind \<Rightarrow> string \<Rightarrow> string \<Rightarrow> string" where
  "marker_path public k o1 n =
     ''index/'' @ (if public then ''public'' else ''private'') @ ''/'' @ seg k @ ''/'' @ o1 @ ''/'' @ n"

abbreviation nl :: char where "nl \<equiv> CHR 0x0A"

definition show_bool :: "bool \<Rightarrow> string" where
  "show_bool b = (if b then ''true'' else ''false'')"

definition body :: "marker \<Rightarrow> bytes" where
  "body m =
     ''v=1'' @ nl # ''public='' @ show_bool (mpublic m) @ nl # ''created_by='' @ created_by m
     @ nl # ''created_ms='' @ show_int (created_ms m) @ nl # ''manifests='' @ to_decimal (mcount m)
     @ nl # ''updated_ms='' @ show_int (updated_ms m) @ nl # ''description='' @ without_controls (description m)"

definition split_line :: "string \<Rightarrow> (string \<times> string) option" where
  "split_line s =
     (if s = [] then None
      else Some (case split_once nl s of
          Some (l, rest) \<Rightarrow> (case strip_suffix [CHR 0x0D] l of Some l' \<Rightarrow> (l', rest) | None \<Rightarrow> (l, rest))
        | None \<Rightarrow> (s, [])))"

lemma split_once_shorter: "split_once c s = Some (a, b) \<Longrightarrow> length b < length s"
  by (induction s arbitrary: a) (auto split: if_splits)

lemma split_line_shorter: "split_line s = Some (l, t) \<Longrightarrow> length t < length s"
  by (auto simp: split_line_def split: if_splits option.splits dest: split_once_shorter)

definition or_zero :: "'a :: zero option \<Rightarrow> 'a" where
  "or_zero x = (case x of None \<Rightarrow> 0 | Some v \<Rightarrow> v)"

text \<open>The fields read so far are those of the marker passed along.\<close>

definition set_field :: "string \<Rightarrow> string \<Rightarrow> marker \<Rightarrow> marker" where
  "set_field k v m =
     (if k = ''created_by'' then m\<lparr>created_by := v\<rparr>
      else if k = ''created_ms'' then m\<lparr>created_ms := or_zero (parse_i64 v)\<rparr>
      else if k = ''manifests'' then m\<lparr>mcount := or_zero (parse_u64 v)\<rparr>
      else if k = ''updated_ms'' then m\<lparr>updated_ms := or_zero (parse_i64 v)\<rparr>
      else m)"

function decode_loop :: "string \<Rightarrow> marker \<Rightarrow> marker" where
  "decode_loop rest m =
     (case split_line rest of
        None \<Rightarrow> m
      | Some (line, tail) \<Rightarrow>
          (case split_once (CHR ''='') line of
             None \<Rightarrow> decode_loop tail m
           | Some (k, v) \<Rightarrow>
               if k = ''description''
               then m\<lparr>description := if tail = [] then v else v @ nl # tail\<rparr>
               else decode_loop tail (set_field k v m)))"
  by pat_completeness auto
termination
  by (relation "measure (length \<circ> fst)") (auto dest: split_line_shorter)

declare decode_loop.simps [simp del]

definition decode :: "string \<Rightarrow> bool \<Rightarrow> bytes \<Rightarrow> error + marker" where
  "decode n public b =
     (if utf8_valid b
      then Inr (decode_loop b \<lparr>mname = n, mpublic = public, created_by = [], created_ms = 0,
                               description = [], mcount = 0, updated_ms = 0\<rparr>)
      else Inl (Message ''index marker: invalid utf-8''))"

section \<open>Writing and reading markers\<close>

text \<open>
  The object store's \<open>delete\<close> of a missing object and \<open>ignore_not_found\<close> come to the same: the
  delete of the model never reports a missing object.
\<close>

definition listing_key :: "kind \<Rightarrow> string \<Rightarrow> string" where
  "listing_key k o1 = ''index/'' @ seg k @ ''/'' @ o1"

definition LIST_TTL_SECS :: nat where
  "LIST_TTL_SECS = 5"

definition forget_listing :: "kind \<Rightarrow> string \<Rightarrow> ('z world_scheme, unit) io" where
  "forget_listing k o1 = bump_generation (listing_key k o1)"

definition write_marker :: "kind \<Rightarrow> string \<Rightarrow> marker \<Rightarrow> ('z world_scheme, unit) io" where
  "write_marker k o1 m =
     (let public_path = marker_path True k o1 (mname m);
          private_path = marker_path False k o1 (mname m)
      in bindE (if mpublic m
                then bindE (wrapE ''index: '' (os_delete private_path)) (\<lambda>_.
                     wrapE ''index: '' (os_put public_path (body m)))
                else bindE (wrapE ''index: '' (os_delete public_path)) (\<lambda>_.
                     wrapE ''index: '' (os_put private_path (body m)))) (\<lambda>_.
         forget_listing k o1))"

definition put_in_place :: "kind \<Rightarrow> string \<Rightarrow> marker \<Rightarrow> ('z world_scheme, unit) io" where
  "put_in_place k o1 m =
     bindE (wrapE ''index: '' (os_put (marker_path (mpublic m) k o1 (mname m)) (body m))) (\<lambda>_.
     forget_listing k o1)"

definition remove_marker :: "kind \<Rightarrow> string \<Rightarrow> string \<Rightarrow> ('z world_scheme, unit) io" where
  "remove_marker k o1 n =
     bindE (wrapE ''index: '' (os_delete (marker_path True k o1 n))) (\<lambda>_.
     bindE (wrapE ''index: '' (os_delete (marker_path False k o1 n))) (\<lambda>_.
     forget_listing k o1))"

text \<open>The body of an object can fail to arrive after its \<open>get\<close> was answered: a step of its own.\<close>

definition fetch_one :: "string \<Rightarrow> bool \<Rightarrow> ('z world_scheme, (error + marker) option) io" where
  "fetch_one p public =
     bindE (tryE (wrapE ''index: '' (io_read (\<lambda>s. map_of (os s) p)))) (\<lambda>r.
     case r of
       Inl e \<Rightarrow> returnE (Some (Inl e))
     | Inr None \<Rightarrow> returnE None
     | Inr (Some b) \<Rightarrow>
         bindE (tryE (wrapE ''index: '' io_step)) (\<lambda>u.
         case u of
           Inl e \<Rightarrow> returnE (Some (Inl e))
         | Inr _ \<Rightarrow> returnE (Some (decode (filename p) public b))))"

definition ok_of :: "error + 'a \<Rightarrow> 'a option" where
  "ok_of r = (case r of Inl _ \<Rightarrow> None | Inr x \<Rightarrow> Some x)"

definition read_marker :: "kind \<Rightarrow> string \<Rightarrow> string \<Rightarrow> ('z world_scheme, marker option) io" where
  "read_marker k o1 n =
     bindE (fetch_one (marker_path True k o1 n) True) (\<lambda>pu.
     bindE (fetch_one (marker_path False k o1 n) False) (\<lambda>pr.
     returnE (case pu of Some r \<Rightarrow> ok_of r | None \<Rightarrow> Option.bind pr ok_of)))"

text \<open>
  \<open>list_page\<close>. The cached page is JSON: \<open>to_json\<close> and \<open>from_json\<close> are serde's. A listing from an
  offset holds the keys after it; the names are capped.
\<close>

definition LIST_CAP :: nat where
  "LIST_CAP = 10000"

definition marker_prefix :: "bool \<Rightarrow> kind \<Rightarrow> string \<Rightarrow> string" where
  "marker_prefix public k o1 =
     ''index/'' @ (if public then ''public'' else ''private'') @ ''/'' @ seg k @ ''/'' @ o1"

definition list_names :: "string \<Rightarrow> string option \<Rightarrow> ('z world_scheme, string list) io" where
  "list_names p after =
     bindE (wrapE ''index: '' (os_list p)) (\<lambda>metas.
     returnE (take LIST_CAP (filter (\<lambda>loc. case after of None \<Rightarrow> True | Some a \<Rightarrow> p @ ''/'' @ a < loc)
       (map fst metas))))"

definition wanted_page ::
    "string list \<Rightarrow> string list \<Rightarrow> bool \<Rightarrow> string option \<Rightarrow> nat \<Rightarrow> (string \<times> bool) list" where
  "wanted_page public_names private_names include_private after n =
     (let stems = map filename private_names;
          wanted = map (\<lambda>p. (p, True)) (filter (\<lambda>p. filename p \<notin> set stems) public_names)
                   @ (if include_private then map (\<lambda>p. (p, False)) private_names else [])
      in take n (filter (\<lambda>(p, _). case after of None \<Rightarrow> True | Some a \<Rightarrow> a < filename p)
           (sort_key (\<lambda>(p, _). filename p) wanted)))"

fun collect_results :: "(error + 'a) list \<Rightarrow> error + 'a list" where
  "collect_results [] = Inr []"
| "collect_results (Inl e # rs) = Inl e"
| "collect_results (Inr x # rs) =
     (case collect_results rs of Inl e \<Rightarrow> Inl e | Inr xs \<Rightarrow> Inr (x # xs))"

definition page_suffix :: "bool \<Rightarrow> string option \<Rightarrow> nat \<Rightarrow> string" where
  "page_suffix include_private after n =
     ''list/'' @ show_bool include_private @ ''/'' @ (case after of None \<Rightarrow> [] | Some a \<Rightarrow> a)
     @ ''/'' @ to_decimal n"

definition read_page ::
    "kind \<Rightarrow> string \<Rightarrow> bool \<Rightarrow> string option \<Rightarrow> nat \<Rightarrow> ('z world_scheme, marker list) io" where
  "read_page k o1 include_private after n =
     bindE (list_names (marker_prefix True k o1) after) (\<lambda>public_names.
     bindE (list_names (marker_prefix False k o1) after) (\<lambda>private_names.
     bindE (mapE (wanted_page public_names private_names include_private after n)
        (\<lambda>(p, public). fetch_one p public)) (\<lambda>rs.
     bindE (liftE (collect_results (List.map_filter id rs))) (\<lambda>markers.
     returnE (sort_key mname markers)))))"

definition list_page ::
    "(marker list \<Rightarrow> bytes) \<Rightarrow> (bytes \<Rightarrow> marker list option) \<Rightarrow>
     kind \<Rightarrow> string \<Rightarrow> bool \<Rightarrow> string option \<Rightarrow> nat \<Rightarrow> ('z world_scheme, marker list) io" where
  "list_page to_json from_json k o1 include_private after n =
     (\<lambda>s. let ck = listing_key k o1; sfx = page_suffix include_private after n;
              (g, s1) = generation ck s;
              (hit, s2) = cache_get ck sfx s1
          in case Option.bind hit from_json of
               Some markers \<Rightarrow> (Inr markers, s2)
             | None \<Rightarrow>
                 bindE (read_page k o1 include_private after n) (\<lambda>markers.
                 bindE (putE (\<lambda>t. case g of None \<Rightarrow> t
                   | Some g \<Rightarrow> put_at g ck sfx (to_json markers) LIST_TTL_SECS t)) (\<lambda>_.
                 returnE markers)) s2)"

text \<open>\<open>usize::MAX\<close> on the 64-bit targets.\<close>

definition list_all_markers ::
    "(marker list \<Rightarrow> bytes) \<Rightarrow> (bytes \<Rightarrow> marker list option) \<Rightarrow>
     kind \<Rightarrow> string \<Rightarrow> bool \<Rightarrow> ('z world_scheme, marker list) io" where
  "list_all_markers to_json from_json k o1 include_private =
     list_page to_json from_json k o1 include_private None (u64_bound - 1)"

text \<open>\<open>Store::reconcile_marker\<close>, with the wall clock in milliseconds.\<close>

definition reconcile_marker ::
    "int \<Rightarrow> string \<Rightarrow> string \<Rightarrow> kind \<Rightarrow> bool \<Rightarrow> ('z world_scheme, bool) io" where
  "reconcile_marker now_ms o1 n k db_public =
     bindE (read_marker k o1 n) (\<lambda>existing.
     if (case existing of None \<Rightarrow> False | Some m \<Rightarrow> mpublic m = db_public) then returnE False
     else bindE (write_marker k o1
            \<lparr>mname = n, mpublic = db_public,
             created_by = (case existing of None \<Rightarrow> [] | Some m \<Rightarrow> created_by m),
             created_ms = (case existing of None \<Rightarrow> now_ms | Some m \<Rightarrow> created_ms m),
             description = (case existing of None \<Rightarrow> [] | Some m \<Rightarrow> description m),
             mcount = (case existing of None \<Rightarrow> 0 | Some m \<Rightarrow> mcount m),
             updated_ms = (case existing of None \<Rightarrow> 0 | Some m \<Rightarrow> updated_ms m)\<rparr>) (\<lambda>_.
          returnE True))"

section \<open>The text of a marker\<close>

lemma utf8_valid_append: "utf8_valid s \<Longrightarrow> utf8_valid t \<Longrightarrow> utf8_valid (s @ t)"
  by (induction s rule: utf8_valid.induct) (auto split: if_splits list.splits)

lemma utf8_valid_concat: "(\<And>c. c \<in> set cs \<Longrightarrow> utf8_valid c) \<Longrightarrow> utf8_valid (concat cs)"
  by (induction cs) (auto intro: utf8_valid_append)

text \<open>A character at the front of a well-formed text: one ASCII byte, or bytes past ASCII only.\<close>

lemma in_range_past: "in_range lo hi b \<Longrightarrow> 0x80 \<le> lo \<Longrightarrow> \<not> byte_of b < 0x80"
  by (simp add: in_range_def)

lemma utf8_char_cases:
  assumes "utf8_valid (a # xs)"
  obtains "byte_of a < 0x80" and "take (snd (utf8_step (a # xs))) (a # xs) = [a]"
  | "\<forall>b \<in> set (take (snd (utf8_step (a # xs))) (a # xs)). \<not> byte_of b < 0x80"
    and "utf8_valid (take (snd (utf8_step (a # xs))) (a # xs))"
proof -
  consider (one) "byte_of a < 0x80"
    | (two) "\<not> byte_of a < 0x80" "in_range 0xC2 0xDF a"
    | (three) "\<not> byte_of a < 0x80" "\<not> in_range 0xC2 0xDF a" "in_range 0xE0 0xEF a"
    | (four) "\<not> byte_of a < 0x80" "\<not> in_range 0xC2 0xDF a" "\<not> in_range 0xE0 0xEF a"
        "in_range 0xF0 0xF4 a"
    using assms by (auto split: if_splits)
  then show ?thesis
  proof cases
    case one
    then show ?thesis using that(1) by simp
  next
    case two
    with assms show ?thesis by (cases xs) (auto intro!: that(2) dest: in_range_past)
  next
    case three
    with assms obtain b c ys where "xs = b # c # ys" "continuation c"
      "in_range (if byte_of a = 0xE0 then 0xA0 else 0x80) (if byte_of a = 0xED then 0x9F else 0xBF) b"
      by (cases xs; cases "tl xs") simp_all
    moreover from this(3) have "\<not> byte_of b < 0x80" by (rule in_range_past) simp
    ultimately show ?thesis using three by (intro that(2)) (auto dest: in_range_past)
  next
    case four
    with assms obtain b c d ys where "xs = b # c # d # ys" "continuation c" "continuation d"
      "in_range (if byte_of a = 0xF0 then 0x90 else 0x80) (if byte_of a = 0xF4 then 0x8F else 0xBF) b"
      by (cases xs; cases "tl xs"; cases "tl (tl xs)") simp_all
    moreover from this(4) have "\<not> byte_of b < 0x80" by (rule in_range_past) simp
    ultimately show ?thesis using four by (intro that(2)) (auto dest: in_range_past)
  qed
qed

lemma utf8_char:
  assumes "utf8_valid (a # xs)"
  shows "utf8_valid (take (snd (utf8_step (a # xs))) (a # xs))"
    and "byte_of b < 0x80 \<Longrightarrow> b \<in> set (take (snd (utf8_step (a # xs))) (a # xs)) \<Longrightarrow>
           take (snd (utf8_step (a # xs))) (a # xs) = [b]"
  by (rule utf8_char_cases [OF assms]; simp del: utf8_step.simps)+

lemma str_chars_valid:
  "utf8_valid s \<Longrightarrow> ch \<in> set (str_chars s) \<Longrightarrow> utf8_valid ch"
proof (induction s rule: str_chars.induct)
  case (2 a xs)
  let ?n = "snd (utf8_step (a # xs))"
  from 2(3) consider "ch = take ?n (a # xs)" | "ch \<in> set (str_chars (drop ?n (a # xs)))"
    unfolding str_chars.simps(2) [of a xs] Let_def by auto
  then show ?case
  proof cases
    case 1
    with utf8_char(1) [OF 2(2)] show ?thesis by simp
  next
    case 2
    with "2.IH" [OF refl] utf8_valid_step [OF "2.prems"(1)] show ?thesis by blast
  qed
qed (simp add: str_chars.simps)

lemma str_chars_ascii:
  "utf8_valid s \<Longrightarrow> ch \<in> set (str_chars s) \<Longrightarrow> b \<in> set ch \<Longrightarrow> byte_of b < 0x80 \<Longrightarrow> ch = [b]"
proof (induction s rule: str_chars.induct)
  case (2 a xs)
  let ?n = "snd (utf8_step (a # xs))"
  from 2(3) consider "ch = take ?n (a # xs)" | "ch \<in> set (str_chars (drop ?n (a # xs)))"
    unfolding str_chars.simps(2) [of a xs] Let_def by auto
  then show ?case
  proof cases
    case 1
    with utf8_char(2) [OF 2(2)] "2.prems" show ?thesis by simp
  next
    case 2
    with "2.IH" [OF refl] utf8_valid_step [OF "2.prems"(1)] "2.prems" show ?thesis by blast
  qed
qed (simp add: str_chars.simps)

lemma without_controls_valid: "utf8_valid s \<Longrightarrow> utf8_valid (without_controls s)"
  unfolding without_controls_def by (rule utf8_valid_concat) (auto dest: str_chars_valid)

lemma without_controls_no_nl: "utf8_valid s \<Longrightarrow> nl \<notin> set (without_controls s)"
  by (auto simp: without_controls_def byte_of_def dest!: str_chars_ascii [where b = nl])

lemma split_line_append:
  "nl \<notin> set l \<Longrightarrow> \<not> suffix [CHR 0x0D] l \<Longrightarrow> split_line (l @ nl # rest) = Some (l, rest)"
  by (simp add: split_line_def split_once_append strip_suffix_def)

lemma decode_line:
  assumes "CHR ''='' \<notin> set k" and "nl \<notin> set k" and "nl \<notin> set v" and "\<not> suffix [CHR 0x0D] v"
    and "k \<noteq> ''description''"
  shows "decode_loop (k @ CHR ''='' # v @ nl # rest) m = decode_loop rest (set_field k v m)"
proof -
  have "\<not> suffix [CHR 0x0D] (k @ CHR ''='' # v)"
    using assms(4) by (cases v rule: rev_cases) (auto simp: suffix_def append_eq_append_conv2 Cons_eq_append_conv)
  with assms split_line_append [of "k @ CHR ''='' # v" rest] show ?thesis
    by (simp add: decode_loop.simps [of "k @ CHR ''='' # v @ nl # rest"] split_once_append)
qed

lemma decode_description:
  "nl \<notin> set d \<Longrightarrow> decode_loop (''description='' @ d) m = m\<lparr>description := d\<rparr>"
  using split_once_append [of "CHR ''=''" "''description''" d]
  by (simp add: decode_loop.simps [of "CHR ''d'' # _"] split_line_def split_once_None [THEN iffD2])

lemma digits_plain:
  "nl \<notin> set (show_int i)" "nl \<notin> set (to_decimal n)"
  "\<not> suffix [CHR 0x0D] (show_int i)" "\<not> suffix [CHR 0x0D] (to_decimal n)"
proof -
  have t: "set (to_decimal n) \<subseteq> set ''0123456789abcdef''" by (rule set_to_radix) simp_all
  have s: "c \<notin> set (show_int i) \<and> c \<notin> set (to_decimal n)" if "c \<notin> insert (CHR ''-'') (set ''0123456789abcdef'')" for c
    using set_show_int [of i] t that by blast
  have "nl \<notin> insert (CHR ''-'') (set ''0123456789abcdef'')" "CHR 0x0D \<notin> insert (CHR ''-'') (set ''0123456789abcdef'')"
    by simp_all
  from s [OF this(1)] s [OF this(2)]
  show "nl \<notin> set (show_int i)" "nl \<notin> set (to_decimal n)"
    "\<not> suffix [CHR 0x0D] (show_int i)" "\<not> suffix [CHR 0x0D] (to_decimal n)"
    by (auto simp: suffix_def)
qed

lemma digits_ascii: "c \<in> set (show_int i) \<Longrightarrow> byte_of c < 0x80" "c \<in> set (to_decimal n) \<Longrightarrow> byte_of c < 0x80"
proof -
  have d: "byte_of c < 0x80" if "c \<in> set (to_decimal k)" for k
    using to_radix_ascii [of 10 c k] that by simp
  then show "c \<in> set (to_decimal n) \<Longrightarrow> byte_of c < 0x80" .
  show "c \<in> set (show_int i) \<Longrightarrow> byte_of c < 0x80"
    using d by (auto simp: show_int_def byte_of_def split: if_splits)
qed

lemma body_valid:
  assumes "utf8_valid (created_by m)" and "utf8_valid (description m)"
  shows "utf8_valid (body m)"
proof -
  have lit: "utf8_valid ''v=1''" "utf8_valid ''public=''" "utf8_valid ''created_by=''" "utf8_valid ''created_ms=''"
    "utf8_valid ''manifests=''" "utf8_valid ''updated_ms=''" "utf8_valid ''description=''" "utf8_valid (show_bool b)"
    "byte_of nl < 0x80" for b
    by (simp_all add: byte_of_def show_bool_def)
  have num: "utf8_valid (show_int i)" "utf8_valid (to_decimal k)" for i k
    by (rule utf8_valid_ascii, erule digits_ascii)+
  have sep: "utf8_valid (nl # t)" if "utf8_valid t" for t using that lit(9) by simp
  show ?thesis
    unfolding body_def
    by (intro utf8_valid_append sep lit num assms(1) without_controls_valid assms(2))
qed

text \<open>
  A marker reads back as it was written: every field survives the text, the description
  without its control characters, and nothing a description holds can pass for another field.
  Its name and visibility come from the path it is read at.
\<close>

theorem marker_roundtrip:
  assumes "utf8_valid (created_by m)" and "utf8_valid (description m)"
    and "nl \<notin> set (created_by m)" and "\<not> suffix [CHR 0x0D] (created_by m)"
    and "- int i64_bound \<le> created_ms m" and "created_ms m < int i64_bound"
    and "- int i64_bound \<le> updated_ms m" and "updated_ms m < int i64_bound"
    and "mcount m < u64_bound"
  shows "decode n public (body m) =
    Inr (m\<lparr>mname := n, mpublic := public, description := without_controls (description m)\<rparr>)"
proof -
  have i: "parse_i64 (show_int (created_ms m)) = Some (created_ms m)"
    "parse_i64 (show_int (updated_ms m)) = Some (updated_ms m)"
    using assms(5-8) by (auto intro: parse_show_int)
  have u: "parse_u64 (to_decimal (mcount m)) = Some (mcount m)"
    using assms(9) by (rule parse_decimal)
  let ?d = "without_controls (description m)"
  have body: "body m = ''v'' @ CHR ''='' # ''1'' @ nl # ''public'' @ CHR ''='' # show_bool (mpublic m)
      @ nl # ''created_by'' @ CHR ''='' # created_by m @ nl # ''created_ms'' @ CHR ''='' # show_int (created_ms m)
      @ nl # ''manifests'' @ CHR ''='' # to_decimal (mcount m) @ nl # ''updated_ms'' @ CHR ''='' # show_int (updated_ms m)
      @ nl # ''description='' @ ?d"
    unfolding body_def by simp
  have plain: "nl \<notin> set (show_bool b)" "\<not> suffix [CHR 0x0D] (show_bool b)" "nl \<notin> set ''1''" "\<not> suffix [CHR 0x0D] ''1''" for b
    by (auto simp: show_bool_def suffix_to_prefix)
  have line: "decode_loop (k @ CHR ''='' # v @ nl # rest) x = decode_loop rest (set_field k v x)"
    if "k \<in> set [''v'', ''public'', ''created_by'', ''created_ms'', ''manifests'', ''updated_ms'']"
      "nl \<notin> set v" "\<not> suffix [CHR 0x0D] v" for k v rest x
    using that(1) by (intro decode_line that(2,3)) auto
  have names: "k \<in> set [''v'', ''public'', ''created_by'', ''created_ms'', ''manifests'', ''updated_ms'']"
    if "k = ''v'' \<or> k = ''public'' \<or> k = ''created_by'' \<or> k = ''created_ms'' \<or> k = ''manifests'' \<or> k = ''updated_ms''" for k
    using that by auto
  have "decode_loop (body m) x = set_field ''updated_ms'' (show_int (updated_ms m)) (set_field ''manifests'' (to_decimal (mcount m))
      (set_field ''created_ms'' (show_int (created_ms m)) (set_field ''created_by'' (created_by m)
      (set_field ''public'' (show_bool (mpublic m)) (set_field ''v'' ''1'' x)))))\<lparr>description := ?d\<rparr>" for x
    unfolding body
    by (simp only: line [OF names plain(3,4)] line [OF names plain(1,2)] line [OF names assms(3,4)]
        line [OF names digits_plain(1,3)] line [OF names digits_plain(2,4)]
        decode_description [OF without_controls_no_nl [OF assms(2)]] simp_thms)
  then have "decode_loop (body m) x = x\<lparr>created_by := created_by m, created_ms := created_ms m, mcount := mcount m,
      updated_ms := updated_ms m, description := ?d\<rparr>" for x
    by (simp add: set_field_def or_zero_def i u)
  with body_valid [OF assms(1,2)] show ?thesis by (simp add: decode_def)
qed

definition web_marker :: marker where
  "web_marker = \<lparr>mname = ''web'', mpublic = False, created_by = ''alice'', created_ms = -5,
     description = ''a='' @ nl # ''created_by=eve'', mcount = 3, updated_ms = 7\<rparr>"

theorem marker_roundtrip_witness:
  "decode ''web'' True (body web_marker) =
     Inr (web_marker\<lparr>mname := ''web'', mpublic := True, description := without_controls (description web_marker)\<rparr>)"
  by (rule marker_roundtrip) (simp_all add: web_marker_def byte_of_def suffix_to_prefix)

section \<open>The flip of a marker\<close>

lemma bump_os [simp]: "os (snd (bump_generation r s)) = os s"
  by (auto simp: bump_generation_def mem_get_def io_write_def io_step_def cset_def cdel_def Let_def
      split: cache_mode.splits option.splits prod.splits sum.splits)

text \<open>
  Where a flip can be: with neither path touched, with the other path cleared, or done; and
  nothing but the two paths is ever touched.
\<close>

definition others_kept :: "kind \<Rightarrow> string \<Rightarrow> string \<Rightarrow> 'z world_scheme \<Rightarrow> 'z world_scheme \<Rightarrow> bool" where
  "others_kept k o1 n s t \<longleftrightarrow> (\<forall>p. p \<noteq> marker_path True k o1 n \<longrightarrow> p \<noteq> marker_path False k o1 n
     \<longrightarrow> map_of (os t) p = map_of (os s) p)"

definition cleared :: "kind \<Rightarrow> string \<Rightarrow> marker \<Rightarrow> 'z world_scheme \<Rightarrow> 'z world_scheme \<Rightarrow> bool" where
  "cleared k o1 m s t \<longleftrightarrow> others_kept k o1 (mname m) s t
     \<and> map_of (os t) (marker_path (\<not> mpublic m) k o1 (mname m)) = None
     \<and> map_of (os t) (marker_path (mpublic m) k o1 (mname m))
         \<in> {map_of (os s) (marker_path (mpublic m) k o1 (mname m)), Some (body m)}"

definition flipped :: "kind \<Rightarrow> string \<Rightarrow> marker \<Rightarrow> 'z world_scheme \<Rightarrow> 'z world_scheme \<Rightarrow> bool" where
  "flipped k o1 m s t \<longleftrightarrow> others_kept k o1 (mname m) s t
     \<and> map_of (os t) (marker_path (\<not> mpublic m) k o1 (mname m)) = None
     \<and> map_of (os t) (marker_path (mpublic m) k o1 (mname m)) = Some (body m)"

lemma marker_path_neq [simp]: "marker_path b k o1 n \<noteq> marker_path (\<not> b) k o1 n"
  "marker_path (\<not> b) k o1 n \<noteq> marker_path b k o1 n"
  "marker_path True k o1 n \<noteq> marker_path False k o1 n" "marker_path False k o1 n \<noteq> marker_path True k o1 n"
  by (simp_all add: marker_path_def)

lemma write_marker_eq:
  "write_marker k o1 m =
     bindE (bindE (wrapE ''index: '' (os_delete (marker_path (\<not> mpublic m) k o1 (mname m)))) (\<lambda>_.
       wrapE ''index: '' (os_put (marker_path (mpublic m) k o1 (mname m)) (body m)))) (\<lambda>_.
     forget_listing k o1)"
  by (simp add: write_marker_def Let_def)

lemma triple_flip:
  "triple (\<lambda>t. os t = os s) (write_marker k o1 m) (\<lambda>_. flipped k o1 m s)
     (\<lambda>t. os t = os s \<or> cleared k o1 m s t)" (is "triple ?P _ ?Q ?E")
proof -
  have cut: "cleared k o1 m s t" if "flipped k o1 m s t" for t
    using that by (auto simp: cleared_def flipped_def)
  let ?R = "\<lambda>t. cleared k o1 m s t"
  have del: "triple ?P (os_delete (marker_path (\<not> mpublic m) k o1 (mname m))) (\<lambda>_. ?R) ?E"
    unfolding os_delete_def
    by (cases "mpublic m"; rule triple_io_write)
      (auto simp: clock_free_def cleared_def others_kept_def delete_conv')
  have put: "triple ?R (os_put (marker_path (mpublic m) k o1 (mname m)) (body m)) ?Q ?E"
    unfolding os_put_def
    by (cases "mpublic m"; rule triple_io_write)
      (auto simp: clock_free_def cleared_def flipped_def others_kept_def update_conv')
  have "flipped k o1 m s (snd (forget_listing k o1 t))" if "flipped k o1 m s t" for t
    using that by (simp add: forget_listing_def flipped_def others_kept_def)
  then have "triple (flipped k o1 m s) (forget_listing k o1) ?Q (flipped k o1 m s)"
    by (simp add: triple_both)
  then have bump: "triple (flipped k o1 m s) (forget_listing k o1) ?Q ?E"
    by (rule triple_weaken) (use cut in auto)
  show ?thesis
    unfolding write_marker_eq
    by (rule triple_bindE [OF triple_bindE [OF triple_wrapE [OF del] triple_wrapE [OF put]] bump])
qed

text \<open>
  C24. A flip fails closed: whatever step fails, the store is as before or the marker of the
  other visibility is gone before the new one appears, so a private marker written by a flip
  never stands beside the public one it replaces. After a success exactly the new marker is
  there. No other object is touched.
\<close>

theorem marker_flip_fails_closed:
  assumes "write_marker k o1 m s = (res, t)"
  shows "(os t = os s \<and> res \<noteq> Inr () \<or> cleared k o1 m s t) \<and> (res = Inr () \<longrightarrow> flipped k o1 m s t)"
  using tripleD [OF triple_flip refl assms] by (cases res) (auto simp: cleared_def flipped_def)

theorem marker_flip_fails_closed_witness:
  "map_of (os (snd (write_marker Repo ''alice'' web_marker (fresh_world
     [(''index/public/repo/alice/web'', ''old'')] [] (\<lambda>n. if n = 1 then Some (Message ''timeout'') else None)))))
     ''index/public/repo/alice/web'' = None"
proof -
  let ?s = "fresh_world [(''index/public/repo/alice/web'', ''old'')] [] (\<lambda>n. if n = 1 then Some (Message ''timeout'') else None)"
  obtain res t where w: "write_marker Repo ''alice'' web_marker ?s = (res, t)" by fastforce
  have "os t \<noteq> os ?s"
    using arg_cong [OF w, of "\<lambda>r. os (snd r)"]
    by (auto simp: write_marker_def web_marker_def marker_path_def fresh_world_def wrapE_def handleE_def
        os_delete_def os_put_def bindE_def io_write_def Let_def)
  with marker_flip_fails_closed [OF w] w show ?thesis
    by (auto simp: cleared_def web_marker_def marker_path_def)
qed

section \<open>Listing\<close>

lemma decode_loop_path: "mname (decode_loop b m) = mname m \<and> mpublic (decode_loop b m) = mpublic m"
proof (induction b m rule: decode_loop.induct)
  case (1 b m)
  have "mname (set_field k v m) = mname m \<and> mpublic (set_field k v m) = mpublic m" for k v
    by (simp add: set_field_def)
  with 1 show ?case
    by (auto simp: decode_loop.simps [of b m] split: option.splits)
qed

lemma fetch_one_path:
  "fetch_one p public s = (Inr (Some (Inr m)), t) \<Longrightarrow> mname m = filename p \<and> mpublic m = public"
  by (auto simp: fetch_one_def tryE_def bindE_def decode_def decode_loop_path
      split: sum.splits option.splits prod.splits if_splits)

lemma mapE_result:
  "mapE xs f s = (Inr ys, t) \<Longrightarrow> y \<in> set ys \<Longrightarrow> \<exists>x \<in> set xs. \<exists>u v. f x u = (Inr y, v)"
proof (induction xs arbitrary: s ys t)
  case (Cons x xs)
  from Cons.prems(1) obtain z u zs v where "f x s = (Inr z, u)" "mapE xs f u = (Inr zs, v)" "ys = z # zs"
    by (auto elim!: bindE_InrE)
  with Cons.prems(2) consider "y = z" | "y \<in> set zs" by auto
  then show ?case
  proof cases
    case 1
    with \<open>f x s = (Inr z, u)\<close> show ?thesis by auto
  next
    case 2
    from Cons.IH [OF \<open>mapE xs f u = (Inr zs, v)\<close> this] show ?thesis by auto
  qed
qed simp

lemma collect_results_mem: "collect_results rs = Inr xs \<Longrightarrow> x \<in> set xs \<Longrightarrow> Inr x \<in> set rs"
  by (induction rs arbitrary: xs rule: collect_results.induct) (auto split: sum.splits)

lemma list_names_result:
  assumes "list_names p after s = (Inr ns, t)"
  shows "os t = os s"
    and "ns = take LIST_CAP (filter (\<lambda>loc. case after of None \<Rightarrow> True | Some a \<Rightarrow> p @ ''/'' @ a < loc)
             (map fst (listing p s)))"
  using assms
  by (auto simp: list_names_def wrapE_def handleE_def os_list_def bindE_def io_read_def io_step_def getE_def
      split: option.splits)

text \<open>How many private markers a page has to look at.\<close>

definition private_count :: "kind \<Rightarrow> string \<Rightarrow> 'z world_scheme \<Rightarrow> nat" where
  "private_count k o1 s = length (listing (marker_prefix False k o1) s)"

lemma marker_path_prefix: "marker_path b k o1 n = marker_prefix b k o1 @ ''/'' @ n"
  by (simp add: marker_path_def marker_prefix_def)

lemma append_less [simp]: "p @ a < p @ b \<longleftrightarrow> a < b" for p :: string
  by (induction p) auto

lemma filename_marker_path: "CHR ''/'' \<notin> set n \<Longrightarrow> filename (marker_path b k o1 n) = n"
  by (simp add: marker_path_prefix filename_def split_on_append_sep split_on_id)

lemma private_listed:
  assumes "list_names (marker_prefix False k o1) after s = (Inr ns, t)"
    and "private_count k o1 s \<le> LIST_CAP" and "present (marker_path False k o1 n) s"
    and "case after of None \<Rightarrow> True | Some a \<Rightarrow> a < n"
  shows "marker_path False k o1 n \<in> set ns"
proof -
  let ?p = "marker_prefix False k o1"
  have "length (filter P (map fst (listing ?p s))) \<le> LIST_CAP" for P
    by (rule order_trans [OF length_filter_le]) (use assms(2) in \<open>simp add: private_count_def\<close>)
  then have "ns = filter (\<lambda>loc. case after of None \<Rightarrow> True | Some a \<Rightarrow> ?p @ ''/'' @ a < loc) (map fst (listing ?p s))"
    using list_names_result(2) [OF assms(1)] by simp
  moreover have "marker_path False k o1 n \<in> fst ` set (listing ?p s)"
    using assms(3) by (simp add: listing_keys marker_path_prefix)
  ultimately show ?thesis
    using assms(4) by (auto simp: marker_path_prefix append_less split: option.splits)
qed

text \<open>
  C37. A page read for a caller who may not see private names holds none: every marker of it
  is a public one, and no private marker of its name exists, the two markers of a crashed flip
  included, as long as the owner has no more private markers than the cap on a listing.
\<close>

theorem anonymous_listing_hides_private:
  fixes s :: "'z world_scheme"
  assumes "read_page k o1 False after n s = (Inr ms, t)" and "m \<in> set ms"
    and "private_count k o1 s \<le> LIST_CAP"
  shows "mpublic m \<and> \<not> present (marker_path False k o1 (mname m)) s"
proof -
  obtain pubs s1 privs s2 rs s3 where
    l: "list_names (marker_prefix True k o1) after s = (Inr pubs, s1)"
       "list_names (marker_prefix False k o1) after s1 = (Inr privs, s2)"
    and r: "mapE (wanted_page pubs privs False after n) (\<lambda>(p, public). fetch_one p public) s2 = (Inr rs, s3)"
       "collect_results (List.map_filter id rs) = Inr ms \<or> (\<exists>xs. collect_results (List.map_filter id rs) = Inr xs \<and> ms = sort_key mname xs)"
    using assms(1) unfolding read_page_def by (auto elim!: bindE_InrE)
  from r(2) assms(2) have "Inr m \<in> set (List.map_filter id rs)"
    by (auto dest: collect_results_mem)
  then have "Some (Inr m) \<in> set rs"
    by (auto simp: List.map_filter_def)
  from mapE_result [OF r(1) this] obtain p b and u v :: "'z world_scheme" where
    p: "(p, b) \<in> set (wanted_page pubs privs False after n)" "fetch_one p b u = (Inr (Some (Inr m)), v)"
    by auto
  note m = fetch_one_path [OF p(2)]
  from p(1) have w: "b" "filename p \<notin> filename ` set privs" "case after of None \<Rightarrow> True | Some a \<Rightarrow> a < filename p"
    by (auto simp: wanted_page_def Let_def dest!: in_set_takeD)
  have "marker_path False k o1 (mname m) \<notin> set privs" if "CHR ''/'' \<notin> set (mname m)"
    using w(2) m filename_marker_path [OF that] by (metis image_eqI)
  moreover have "CHR ''/'' \<notin> set (mname m)"
    using m split_on_no_sep [of "filename p" "CHR ''/''" p] by (simp add: filename_def)
  ultimately have no: "marker_path False k o1 (mname m) \<notin> set privs" by blast
  have os1: "os s1 = os s" using list_names_result(1) [OF l(1)] .
  then have "private_count k o1 s1 \<le> LIST_CAP" using assms(3) by (simp add: private_count_def listing_def)
  from private_listed [OF l(2) this, of "mname m"] no w(3) m
  have "\<not> present (marker_path False k o1 (mname m)) s1" by metis
  with os1 m w(1) show ?thesis by (simp add: present_def)
qed

definition flip_world :: world where
  "flip_world = fresh_world [(''index/public/repo/alice/web'', []), (''index/private/repo/alice/web'', []),
     (''index/public/repo/alice/site'', [])] [] (\<lambda>_. None)"

definition bare_marker :: "string \<Rightarrow> bool \<Rightarrow> marker" where
  "bare_marker n public = \<lparr>mname = n, mpublic = public, created_by = [], created_ms = 0, description = [],
     mcount = 0, updated_ms = 0\<rparr>"

lemma decode_bare: "decode n public [] = Inr (bare_marker n public)"
  by (simp add: decode_def decode_loop.simps split_line_def bare_marker_def)

lemma flip_world_listing:
  "listing (marker_prefix True Repo ''alice'') flip_world = [(''index/public/repo/alice/site'', 0), (''index/public/repo/alice/web'', 0)]"
  "listing (marker_prefix False Repo ''alice'') flip_world = [(''index/private/repo/alice/web'', 0)]"
  by (simp_all add: listing_def marker_prefix_def flip_world_def fresh_world_def)

theorem anonymous_listing_hides_private_witness:
  "\<exists>t. read_page Repo ''alice'' False None 10 flip_world = (Inr [bare_marker ''site'' True], t)
     \<and> \<not> present (marker_path False Repo ''alice'' ''site'') flip_world"
proof -
  have w: "wanted_page [''index/public/repo/alice/site'', ''index/public/repo/alice/web''] [''index/private/repo/alice/web''] False None 10
      = [(''index/public/repo/alice/site'', True)]"
    by (simp add: wanted_page_def filename_def)
  have n: "filename ''index/public/repo/alice/site'' = ''site''" by (simp add: filename_def)
  have f: "faults flip_world = (\<lambda>_. None)" "map_of (os flip_world) ''index/public/repo/alice/site'' = Some []"
    by (simp_all add: flip_world_def fresh_world_def)
  obtain t where r: "read_page Repo ''alice'' False None 10 flip_world = (Inr [bare_marker ''site'' True], t)"
    by (simp add: read_page_def list_names_def wrapE_def handleE_def os_list_def bindE_def io_read_def io_step_def
        getE_def f flip_world_listing LIST_CAP_def w fetch_one_def tryE_def decode_bare n List.map_filter_def)
  have "\<not> present (marker_path False Repo ''alice'' (mname (bare_marker ''site'' True))) flip_world"
    using anonymous_listing_hides_private [OF r, of "bare_marker ''site'' True"]
    by (simp add: private_count_def flip_world_listing LIST_CAP_def)
  with r show ?thesis by (simp add: bare_marker_def)
qed

text \<open>
  With both markers of a name present, a read by name answers with the public one, while
  a listing answers with the private one.
\<close>

theorem read_tie_is_public:
  "\<exists>m t. read_marker Repo ''alice'' ''web'' flip_world = (Inr (Some m), t) \<and> mpublic m
     \<and> present (marker_path False Repo ''alice'' ''web'') flip_world"
proof -
  have "map_of (os flip_world) (marker_path b Repo ''alice'' ''web'') = Some []" "faults flip_world = (\<lambda>_. None)" for b
    by (simp_all add: flip_world_def fresh_world_def marker_path_def)
  then show ?thesis
    by (simp add: read_marker_def fetch_one_def tryE_def wrapE_def handleE_def bindE_def io_read_def io_step_def getE_def
        decode_bare ok_of_def present_def bare_marker_def)
qed

end
