(* ===== verification/Refs.thy ===== *)
theory Refs
  imports Index Pktline
begin

text \<open>
  References and repository metadata: \<open>crates/storage/src/refmeta.rs\<close>, the protection rules and
  \<open>update_refs\<close> of \<open>crates/gitbase/src/refs.rs\<close>, \<open>crates/gitbase/src/merge_base.rs\<close>, and
  \<open>Store::open_repo\<close>, which needs them.
  Two pieces of other projects are parameters: the walk of a commit's history (gix), as the
  list of items its iterator yields, and the conflict check of a serializable transaction
  (SlateDB), together with what concurrent writers commit while the transaction is open.
\<close>

section \<open>Keys\<close>

record ref_update =
  uname :: string
  uold :: "oid option"
  unew :: "oid option"

definition ref_key_for :: "string \<Rightarrow> string \<Rightarrow> string \<Rightarrow> string" where
  "ref_key_for o1 n refname = ''ref/'' @ o1 @ ''/'' @ n @ ''/'' @ refname"

definition ref_prefix :: "repo \<Rightarrow> string" where
  "ref_prefix r = ''ref/'' @ owner r @ ''/'' @ name r @ ''/''"

definition ref_key :: "repo \<Rightarrow> string \<Rightarrow> string" where
  "ref_key r refname = ''ref/'' @ owner r @ ''/'' @ name r @ ''/'' @ refname"

definition repo_key :: "string \<Rightarrow> string \<Rightarrow> string" where
  "repo_key o1 n = ''repo/'' @ o1 @ ''/'' @ n"

definition parse_oid :: "bytes \<Rightarrow> error + oid" where
  "parse_oid b = (case from_hex b of Some i \<Rightarrow> Inr i | None \<Rightarrow> Inl (Message ''invalid object id''))"

definition PUBLIC_KEY :: string where "PUBLIC_KEY = ''meta/public''"
definition DESCRIPTION_KEY :: string where "DESCRIPTION_KEY = ''meta/description''"
definition CREATED_BY_KEY :: string where "CREATED_BY_KEY = ''meta/created_by''"
definition CREATED_AT_KEY :: string where "CREATED_AT_KEY = ''meta/created_at''"
definition PROTECT_PREFIX :: string where "PROTECT_PREFIX = ''meta/protect/''"

definition protect_key :: "string \<Rightarrow> string \<Rightarrow> string \<Rightarrow> string" where
  "protect_key o1 n pattern = PROTECT_PREFIX @ o1 @ ''/'' @ n @ ''/'' @ pattern"

definition protect_scan :: "string \<Rightarrow> string \<Rightarrow> string" where
  "protect_scan o1 n = PROTECT_PREFIX @ o1 @ ''/'' @ n @ ''/''"

section \<open>Protection rules\<close>

record protection =
  pattern :: string
  no_force :: bool
  no_delete :: bool

definition encode_protection :: "protection \<Rightarrow> bytes" where
  "encode_protection p = (if no_force p then ''f'' else []) @ (if no_delete p then ''d'' else [])"

definition decode_protection :: "string \<Rightarrow> bytes \<Rightarrow> protection" where
  "decode_protection pat v =
     \<lparr>pattern = pat, no_force = CHR ''f'' \<in> set v, no_delete = CHR ''d'' \<in> set v\<rparr>"

definition matches :: "protection \<Rightarrow> string \<Rightarrow> bool" where
  "matches p branch =
     (case strip_suffix ''*'' (pattern p) of
        Some pre \<Rightarrow> starts_with branch pre
      | None \<Rightarrow> pattern p = branch)"

definition check_pattern :: "string \<Rightarrow> error + unit" where
  "check_pattern pat =
     (if trim pat = [] then Inl (Message ''a branch pattern is required'')
      else if str_contains pat ''//'' \<or> starts_with pat ''/'' then Inl (Message ''that is not a branch pattern'')
      else let stem = (case strip_suffix ''*'' pat of Some x \<Rightarrow> x | None \<Rightarrow> pat)
           in if CHR ''*'' \<in> set stem
              then Inl (Message ''only a trailing * is supported in a branch pattern'')
              else Inr ())"

section \<open>Repositories and their metadata\<close>

definition repo_exists :: "string \<Rightarrow> string \<Rightarrow> ('z world_scheme, bool) io" where
  "repo_exists o1 n =
     bindE (repo_db_exists o1 n) (\<lambda>there.
     if \<not> there then returnE False
     else bindE (db_for o1 n) (\<lambda>h.
          bindE (db_get h (repo_key o1 n)) (\<lambda>v. returnE (v \<noteq> None))))"

definition repo_public :: "string \<Rightarrow> string \<Rightarrow> ('z world_scheme, bool) io" where
  "repo_public o1 n =
     bindE (repo_db_exists o1 n) (\<lambda>there.
     if \<not> there then returnE False
     else bindE (db_for o1 n) (\<lambda>h.
          bindE (tryE (db_get h (repo_key o1 n))) (\<lambda>ex.
          bindE (tryE (db_get h PUBLIC_KEY)) (\<lambda>pub.
          bindE (liftE ex) (\<lambda>e.
          if e = None then returnE False
          else bindE (liftE pub) (\<lambda>p. returnE (p = Some ''1''))))))) "

definition is_public :: "string \<Rightarrow> string \<Rightarrow> ('z world_scheme, bool) io" where
  "is_public o1 n =
     bindE (db_for o1 n) (\<lambda>h. bindE (db_get h PUBLIC_KEY) (\<lambda>v. returnE (v = Some ''1'')))"

definition create_repo :: "string \<Rightarrow> string \<Rightarrow> ('z world_scheme, unit) io" where
  "create_repo o1 n =
     (if \<not> valid_owner o1 \<or> \<not> valid_segment n then failE (Message ''invalid repo path'')
      else bindE (repo_exists o1 n) (\<lambda>ex.
           if ex then failE (Message ''repository already exists'')
           else bindE (db_for o1 n) (\<lambda>h. db_put h (repo_key o1 n) [])))"

definition get_ref :: "repo \<Rightarrow> string \<Rightarrow> ('z world_scheme, oid option) io" where
  "get_ref r refname =
     bindE (db_for (owner r) (name r)) (\<lambda>h.
     bindE (db_get h (ref_key r refname)) (\<lambda>v.
     case v of
       Some b \<Rightarrow> bindE (liftE (parse_oid b)) (\<lambda>i. returnE (Some i))
     | None \<Rightarrow> returnE None))"

fun ref_rows :: "nat \<Rightarrow> (string \<times> bytes) list \<Rightarrow> error + (string \<times> oid) list" where
  "ref_rows plen [] = Inr []"
| "ref_rows plen ((k, v) # rows) =
     (case parse_oid v of
        Inl e \<Rightarrow> Inl e
      | Inr i \<Rightarrow> (case ref_rows plen rows of
                    Inl e \<Rightarrow> Inl e
                  | Inr out \<Rightarrow> Inr ((from_utf8_lossy (drop plen k), i) # out)))"

definition list_refs :: "repo \<Rightarrow> ('z world_scheme, (string \<times> oid) list) io" where
  "list_refs r =
     bindE (db_for (owner r) (name r)) (\<lambda>h.
     bindE (db_scan h (ref_prefix r)) (\<lambda>rows.
     bindE (liftE (ref_rows (length (ref_prefix r)) rows)) (\<lambda>out. returnE (sort out))))"

text \<open>A fork has no local directories: the target's are empty paths.\<close>

definition fork :: "repo \<Rightarrow> string \<Rightarrow> string \<Rightarrow> ('z world_scheme, unit) io" where
  "fork src o1 n =
     (if \<not> valid_owner o1 \<or> \<not> valid_segment n then failE (Message ''invalid repo path'')
      else bindE (repo_exists o1 n) (\<lambda>ex.
           if ex then failE (Message ''repository already exists'')
           else bindE (list_refs src) (\<lambda>refs.
                bindE (copy_packs src \<lparr>owner = o1, name = n, objects_dir = [], pack_dir = []\<rparr>) (\<lambda>_.
                bindE (db_for o1 n) (\<lambda>h.
                db_write h (BPut (repo_key o1 n) []
                  # map (\<lambda>(rn, i). BPut (ref_key_for o1 n rn) (to_hex i)) refs))))))"

definition delete_repo :: "string \<Rightarrow> string \<Rightarrow> string \<Rightarrow> ('z world_scheme, unit) io" where
  "delete_repo cache_dir o1 n =
     bindE (repo_exists o1 n) (\<lambda>ex.
     if \<not> ex then failE (Message ''repository not found'')
     else bindE (db_for o1 n) (\<lambda>h.
          bindE (db_scan h (''ref/'' @ o1 @ ''/'' @ n @ ''/'')) (\<lambda>rows.
          bindE (db_write h (map (\<lambda>(k, _). BDel k) rows @ [BDel (repo_key o1 n)])) (\<lambda>_.
          bindE (delete_objects cache_dir o1 n) (\<lambda>_.
          bindE (delete_repo_db o1 n) (\<lambda>_.
          handleE (bump_generation (repo_id o1 n)) (\<lambda>e. failE (Message (err_text e @ '': '' @ o1 @ ''/'' @ n
            @ '' is deleted but its cached responses are still being served; retry with `admin purge-cache ''
            @ o1 @ ''/'' @ n @ ''`'')))))))))"

definition set_public :: "string \<Rightarrow> string \<Rightarrow> bool \<Rightarrow> ('z world_scheme, unit) io" where
  "set_public o1 n public =
     bindE (db_for o1 n) (\<lambda>h.
     bindE (db_put h PUBLIC_KEY (if public then ''1'' else ''0'')) (\<lambda>_.
     handleE (bump_generation (repo_id o1 n)) (\<lambda>e. failE (Message (err_text e @ '': '' @ o1 @ ''/'' @ n @ '' is now ''
       @ (if public then ''public'' else ''private'')
       @ '' in the database but its cached responses are unchanged; retry with `admin purge-cache '' @ o1 @ ''/'' @ n @ ''`'')))))"

record repo_meta_rec =
  rm_description :: string
  rm_created_by :: string
  rm_created_at_ms :: int
  rm_public :: bool

definition set_repo_meta :: "string \<Rightarrow> string \<Rightarrow> string \<Rightarrow> string \<Rightarrow> int \<Rightarrow> ('z world_scheme, unit) io" where
  "set_repo_meta o1 n descr by_user at =
     bindE (db_for o1 n) (\<lambda>h.
     db_write h [BPut DESCRIPTION_KEY descr, BPut CREATED_BY_KEY by_user, BPut CREATED_AT_KEY (show_int at)])"

definition meta_text :: "bytes option \<Rightarrow> string" where
  "meta_text v = (case v of None \<Rightarrow> [] | Some b \<Rightarrow> from_utf8_lossy b)"

definition repo_meta :: "string \<Rightarrow> string \<Rightarrow> ('z world_scheme, repo_meta_rec option) io" where
  "repo_meta o1 n =
     bindE (db_for o1 n) (\<lambda>h.
     bindE (db_get h CREATED_AT_KEY) (\<lambda>v.
     case v of
       None \<Rightarrow> returnE None
     | Some at \<Rightarrow>
         (case parse_i64 (from_utf8_lossy at) of
            None \<Rightarrow> failE (Message (o1 @ ''/'' @ n @ '': bad meta/created_at''))
          | Some ms \<Rightarrow>
              bindE (db_get h DESCRIPTION_KEY) (\<lambda>d.
              bindE (db_get h CREATED_BY_KEY) (\<lambda>b.
              bindE (db_get h PUBLIC_KEY) (\<lambda>p.
              returnE (Some \<lparr>rm_description = meta_text d, rm_created_by = meta_text b,
                rm_created_at_ms = ms, rm_public = (p = Some ''1'')\<rparr>)))))))"

definition set_repo_description :: "string \<Rightarrow> string \<Rightarrow> string \<Rightarrow> ('z world_scheme, unit) io" where
  "set_repo_description o1 n descr = bindE (db_for o1 n) (\<lambda>h. db_put h DESCRIPTION_KEY descr)"

definition protection_row :: "string \<Rightarrow> string \<times> bytes \<Rightarrow> protection option" where
  "protection_row p = (\<lambda>(k, v).
     if utf8_valid k then map_option (\<lambda>pat. decode_protection pat v) (strip_prefix p k) else None)"

definition protections :: "string \<Rightarrow> string \<Rightarrow> ('z world_scheme, protection list) io" where
  "protections o1 n =
     bindE (db_for o1 n) (\<lambda>h.
     bindE (db_scan h (protect_scan o1 n)) (\<lambda>rows.
     returnE (sort_key pattern (List.map_filter (protection_row (protect_scan o1 n)) rows))))"

definition set_protection :: "string \<Rightarrow> string \<Rightarrow> protection \<Rightarrow> ('z world_scheme, unit) io" where
  "set_protection o1 n p =
     bindE (liftE (check_pattern (pattern p))) (\<lambda>_.
     bindE (db_for o1 n) (\<lambda>h. db_put h (protect_key o1 n (pattern p)) (encode_protection p)))"

definition remove_protection :: "string \<Rightarrow> string \<Rightarrow> string \<Rightarrow> ('z world_scheme, unit) io" where
  "remove_protection o1 n pat =
     bindE (liftE (check_pattern pat)) (\<lambda>_.
     bindE (db_for o1 n) (\<lambda>h. db_delete h (protect_key o1 n pat)))"

section \<open>The reference transaction\<close>

text \<open>
  A transaction reads its own writes over the snapshot it began on. At its commit the database
  holds what concurrent writers made of it (\<open>env\<close>); \<open>ssi snapshot current reads writes\<close> is
  SlateDB's conflict check, naming the conflict it found. A transaction error reported by
  SlateDB means the transaction was not committed; any other failure of the commit may hide
  one that was.
\<close>

record txn =
  snapshot :: kv
  reads :: "string list"
  writes :: "batch_op list"

type_synonym conflict_check = "kv \<Rightarrow> kv \<Rightarrow> string list \<Rightarrow> batch_op list \<Rightarrow> string option"

definition txn_begin :: "string \<Rightarrow> ('z world_scheme, txn) io" where
  "txn_begin h = io_read (\<lambda>s. \<lparr>snapshot = the_db s h, reads = [], writes = []\<rparr>)"

definition txn_get :: "txn \<Rightarrow> string \<Rightarrow> ('z world_scheme, bytes option \<times> txn) io" where
  "txn_get x k =
     bindE io_step (\<lambda>_.
     returnE (kv_get (apply_batch (writes x) (snapshot x)) k,
              if k \<in> batch_key ` set (writes x) then x else x\<lparr>reads := reads x @ [k]\<rparr>))"

definition txn_commit ::
    "(kv \<Rightarrow> kv) \<Rightarrow> conflict_check \<Rightarrow> string \<Rightarrow> txn \<Rightarrow> ('z world_scheme, unit) io" where
  "txn_commit env ssi h x =
     (\<lambda>s. let t = upd_db h env (s\<lparr>clock := Suc (clock s)\<rparr>);
              verdict = ssi (snapshot x) (the_db t h) (reads x) (writes x);
              applied = (if verdict = None then upd_db h (apply_batch (writes x)) t else t)
          in case faults s (clock s) of
               None \<Rightarrow> ((case verdict of None \<Rightarrow> Inr () | Some m \<Rightarrow> Inl (Transaction m)), applied)
             | Some (Transaction m) \<Rightarrow> (Inl (Transaction m), t)
             | Some e \<Rightarrow> (Inl e, if landed s (clock s) then applied else t))"

definition ref_write :: "string \<Rightarrow> oid option \<Rightarrow> batch_op" where
  "ref_write k new = (case new of Some i \<Rightarrow> BPut k (to_hex i) | None \<Rightarrow> BDel k)"

text \<open>The loop over the updates with their verdicts: the results so far, and whether one was refused.\<close>

fun txn_loop ::
    "repo \<Rightarrow> (ref_update \<times> string option) list \<Rightarrow> txn \<Rightarrow> string option list \<Rightarrow> bool \<Rightarrow>
     ('z world_scheme, string option list \<times> bool \<times> txn) io" where
  "txn_loop r [] x results any_rejected = returnE (results, any_rejected, x)"
| "txn_loop r ((u, Some reason) # us) x results any_rejected =
     txn_loop r us x (results @ [Some reason]) True"
| "txn_loop r ((u, None) # us) x results any_rejected =
     bindE (txn_get x (ref_key r (uname u))) (\<lambda>(v, x).
     bindE (case v of Some b \<Rightarrow> bindE (liftE (parse_oid b)) (\<lambda>i. returnE (Some i)) | None \<Rightarrow> returnE None) (\<lambda>cur.
     if cur \<noteq> uold u then txn_loop r us x (results @ [Some ''fetch first'']) True
     else txn_loop r us (x\<lparr>writes := writes x @ [ref_write (ref_key r (uname u)) (unew u)]\<rparr>)
            (results @ [None]) any_rejected))"

definition update_refs_txn ::
    "(kv \<Rightarrow> kv) \<Rightarrow> conflict_check \<Rightarrow> repo \<Rightarrow> ref_update list \<Rightarrow> string option list \<Rightarrow>
     ('z world_scheme, string option list) io" where
  "update_refs_txn env ssi r updates verdicts =
     bindE (db_for (owner r) (name r)) (\<lambda>h.
     bindE (txn_begin h) (\<lambda>x.
     bindE (txn_loop r (zip updates verdicts) x [] False) (\<lambda>(results, any_rejected, x).
     if any_rejected then returnE results
     else bindE (tryE (txn_commit env ssi h x)) (\<lambda>c.
          case c of
            Inr _ \<Rightarrow> bindE (putE (drop_refs (repo_id (owner r) (name r)))) (\<lambda>_. returnE results)
          | Inl (Transaction m) \<Rightarrow> returnE (map (\<lambda>_. Some (''conflict: '' @ m)) updates)
          | Inl e \<Rightarrow> failE e))))"

section \<open>Protection verdicts and \<open>update_refs\<close>\<close>

text \<open>
  \<open>walk i\<close> is what \<open>gix_traverse::commit::Simple\<close> yields from the commit \<open>i\<close> in this object
  database, an error as \<open>None\<close>. \<open>quoted\<close> is the debug format of a string.
\<close>

type_synonym walk = "oid \<Rightarrow> oid option list"

definition branch_of :: "string \<Rightarrow> string option" where
  "branch_of refname = strip_prefix ''refs/heads/'' refname"

definition is_ancestor :: "walk \<Rightarrow> oid \<Rightarrow> oid \<Rightarrow> nat \<Rightarrow> bool" where
  "is_ancestor walk old new budget \<longleftrightarrow>
     old = new \<or> list_ex (\<lambda>info. info = Some old) (take budget (walk new))"

definition ANCESTRY_BUDGET :: nat where
  "ANCESTRY_BUDGET = 50000"

definition protection_verdict :: "protection list \<Rightarrow> walk option \<Rightarrow> ref_update \<Rightarrow> string option" where
  "protection_verdict rules odb u =
     Option.bind (branch_of (uname u)) (\<lambda>branch.
     Option.bind (List.find (\<lambda>p. matches p branch) rules) (\<lambda>rule.
     case (uold u, unew u) of
       (_, None) \<Rightarrow>
         if no_delete rule then Some (branch @ '' is protected: it cannot be deleted'') else None
     | (None, Some _) \<Rightarrow> None
     | (Some old, Some new) \<Rightarrow>
         if \<not> no_force rule then None
         else (case odb of
                 None \<Rightarrow> Some (branch @ '' is protected: its history could not be verified'')
               | Some walk \<Rightarrow>
                   if \<not> is_ancestor walk old new ANCESTRY_BUDGET
                   then Some (branch @ '' is protected: force pushes are not allowed'') else None)))"

definition valid_ref_name :: "string \<Rightarrow> bool" where
  "valid_ref_name n \<longleftrightarrow>
     starts_with n ''refs/'' \<and> length n \<le> 512 \<and> \<not> ends_with n ''/'' \<and> \<not> ends_with n ''.lock''
     \<and> \<not> min 3 (length (split_on (CHR ''/'') n)) < 3
     \<and> \<not> (str_contains n ''..'' \<or> str_contains n ''//'' \<or> str_contains n [CHR ''@'', CHR 0x7B] \<or> CHR 0x5C \<in> set n)
     \<and> \<not> list_ex (\<lambda>c. c = [] \<or> starts_with c ''.'' \<or> ends_with c ''.lock'') (split_on (CHR ''/'') n)
     \<and> list_all (\<lambda>b. byte_of b > 0x20 \<and> byte_of b \<noteq> 0x7f \<and> b \<notin> set ''~^:?*['') n"

definition update_refs ::
    "(kv \<Rightarrow> kv) \<Rightarrow> conflict_check \<Rightarrow> (string \<Rightarrow> string) \<Rightarrow> walk option \<Rightarrow> repo \<Rightarrow> ref_update list \<Rightarrow>
     ('z world_scheme, string option list) io" where
  "update_refs env ssi quoted odb r updates =
     bindE (protections (owner r) (name r)) (\<lambda>rules.
     let verdicts = (if rules = [] then map (\<lambda>_. None) updates
                     else map (protection_verdict rules odb) updates);
         verdicts = map (\<lambda>(v, u). if \<not> valid_ref_name (uname u)
           then Some (quoted (uname u) @ '' is not a valid ref name'') else v) (zip verdicts updates)
     in update_refs_txn env ssi r updates verdicts)"

section \<open>Merge base\<close>

datatype merge_base_result = Found oid | Unrelated | Exhausted

definition merge_base :: "walk \<Rightarrow> oid \<Rightarrow> oid \<Rightarrow> nat \<Rightarrow> merge_base_result" where
  "merge_base walk a b budget =
     (if a = b then Found a
      else let items_a = take budget (walk a);
               walked_a = length items_a;
               seen = set (List.map_filter id items_a)
           in if b \<in> seen then Found b
              else let items_b = take budget (walk b)
                   in case List.find (\<lambda>i. i \<in> seen) (List.map_filter id items_b) of
                        Some m \<Rightarrow> Found m
                      | None \<Rightarrow> if walked_a < budget \<and> length items_b < budget then Unrelated else Exhausted)"

section \<open>The transaction is one compare-and-swap of all its references\<close>

text \<open>
  The specification: references are a map, and a list of updates applies as a whole, each one
  against the value it expects with the ones before it done, or not at all.
\<close>

fun cas_all :: "ref_update list \<Rightarrow> (string \<rightharpoonup> oid) \<Rightarrow> (string \<rightharpoonup> oid) option" where
  "cas_all [] m = Some m"
| "cas_all (u # us) m = (if m (uname u) = uold u then cas_all us (m(uname u := unew u)) else None)"

definition refs_map :: "repo \<Rightarrow> kv \<Rightarrow> (string \<rightharpoonup> oid)" where
  "refs_map r db = (\<lambda>n. Option.bind (kv_get db (ref_key r n)) from_hex)"

text \<open>What SlateDB documents of a serializable transaction: it commits only if what it read still holds.\<close>

definition ssi_sound :: "conflict_check \<Rightarrow> bool" where
  "ssi_sound ssi \<longleftrightarrow> (\<forall>snap cur rs ws. ssi snap cur rs ws = None \<longrightarrow> (\<forall>k \<in> set rs. kv_get cur k = kv_get snap k))"

lemma ref_key_inj [simp]: "ref_key r a = ref_key r b \<longleftrightarrow> a = b"
  by (simp add: ref_key_def)

lemma batch_key_ref_write [simp]: "batch_key (ref_write k v) = k"
  by (simp add: ref_write_def split: option.splits)

lemma refs_map_write:
  assumes "kv_ok db"
  shows "refs_map r (apply_op (ref_write (ref_key r n) v) db) = (refs_map r db)(n := v)"
  using assms by (cases v) (auto simp: refs_map_def ref_write_def fun_eq_iff)

lemma apply_batch_snoc: "apply_batch (ws @ [w]) db = apply_op w (apply_batch ws db)"
  by (simp add: apply_batch_def)

lemma get_batch_agree:
  assumes "kv_ok a" and "kv_ok b" and "k \<in> batch_key ` set ws \<or> kv_get a k = kv_get b k"
  shows "kv_get (apply_batch ws a) k = kv_get (apply_batch ws b) k"
proof (cases "filter (\<lambda>x. batch_key x = k) ws")
  case Nil
  then have "k \<notin> batch_key ` set ws" by (auto simp: filter_empty_conv)
  with assms Nil show ?thesis by (simp add: apply_batch_def kvs.get_run)
next
  case (Cons x xs)
  with assms show ?thesis by (simp add: apply_batch_def kvs.get_run)
qed

lemma txn_get_result:
  assumes "txn_get x k s = (Inr (v, y), t)"
  shows "v = kv_get (apply_batch (writes x) (snapshot x)) k" and "t = s\<lparr>clock := Suc (clock s)\<rparr>"
    and "snapshot y = snapshot x" and "writes y = writes x" and "set (reads x) \<subseteq> set (reads y)"
    and "k \<in> batch_key ` set (writes x) \<or> k \<in> set (reads y)"
  using assms by (auto simp: txn_get_def bindE_def io_step_def split: option.splits if_splits)

text \<open>
  What a loop that ended says of any database \<open>B\<close> which agrees with the snapshot where the
  transaction read it: without a refusal the writes are the compare-and-swap of all updates.
\<close>

definition loop_spec ::
    "repo \<Rightarrow> (ref_update \<times> string option) list \<Rightarrow> txn \<Rightarrow> string option list \<Rightarrow> bool \<Rightarrow>
     string option list \<Rightarrow> bool \<Rightarrow> txn \<Rightarrow> bool" where
  "loop_spec r uvs x results rej res rej' y \<longleftrightarrow>
     snapshot y = snapshot x \<and> set (reads x) \<subseteq> set (reads y) \<and> length res = length results + length uvs
     \<and> (rej \<longrightarrow> rej')
     \<and> (\<not> rej' \<longrightarrow> res = results @ map (\<lambda>_. None) uvs \<and> list_all (\<lambda>uv. snd uv = None) uvs
          \<and> batch_key ` set (writes y) \<subseteq> batch_key ` set (writes x) \<union> (\<lambda>uv. ref_key r (uname (fst uv))) ` set uvs
          \<and> (\<forall>B. kv_ok B \<longrightarrow> kv_ok (snapshot x) \<longrightarrow> (\<forall>k \<in> set (reads y). kv_get B k = kv_get (snapshot x) k)
               \<longrightarrow> cas_all (map fst uvs) (refs_map r (apply_batch (writes x) B)) = Some (refs_map r (apply_batch (writes y) B))))
     \<and> (rej' \<longrightarrow> rej \<or> (\<exists>reason. Some reason \<in> set res))
     \<and> set results \<subseteq> set res"

lemma loop_spec_refused:
  "loop_spec r us x (results @ [Some m]) True res rej' y \<Longrightarrow> loop_spec r ((u, v) # us) x results rej res rej' y"
  by (auto simp: loop_spec_def)

lemma loop_spec_reads:
  assumes "loop_spec r uvs z results rej res rej' y" and "snapshot z = snapshot x" and "writes z = writes x"
    and "set (reads x) \<subseteq> set (reads z)"
  shows "loop_spec r uvs x results rej res rej' y"
  using assms(1,4) order_trans [OF assms(4)] unfolding loop_spec_def assms(2,3) by simp

lemma loop_spec_applied:
  assumes L: "loop_spec r us (x\<lparr>writes := writes x @ [ref_write (ref_key r (uname u)) (unew u)]\<rparr>)
      (results @ [None]) rej res rej' y"
    and cur: "Option.bind (kv_get (apply_batch (writes x) (snapshot x)) (ref_key r (uname u))) from_hex = uold u"
    and k: "ref_key r (uname u) \<in> batch_key ` set (writes x) \<or> ref_key r (uname u) \<in> set (reads x)"
  shows "loop_spec r ((u, None) # us) x results rej res rej' y"
proof -
  have "cas_all (u # map fst us) (refs_map r (apply_batch (writes x) B)) = Some (refs_map r (apply_batch (writes y) B))"
    if B: "kv_ok B" "kv_ok (snapshot x)" "\<forall>k \<in> set (reads y). kv_get B k = kv_get (snapshot x) k" and "\<not> rej'" for B
  proof -
    have "kv_get (apply_batch (writes x) B) (ref_key r (uname u)) = kv_get (apply_batch (writes x) (snapshot x)) (ref_key r (uname u))"
      using L k B by (intro get_batch_agree) (auto simp: loop_spec_def)
    then have "refs_map r (apply_batch (writes x) B) (uname u) = uold u"
      using cur by (simp add: refs_map_def)
    then show ?thesis
      using L B \<open>\<not> rej'\<close> by (auto simp: loop_spec_def apply_batch_snoc refs_map_write)
  qed
  with L show ?thesis by (auto simp: loop_spec_def)
qed

lemma txn_loop_spec:
  "txn_loop r uvs x results rej s = (Inr (res, rej', y), t) \<Longrightarrow>
     loop_spec r uvs x results rej res rej' y \<and> (\<exists>n. t = s\<lparr>clock := n\<rparr>)"
proof (induction r uvs x results rej arbitrary: s rule: txn_loop.induct)
  case (1 r x results rej)
  then have "t = s\<lparr>clock := clock s\<rparr>" by simp
  with 1 show ?case by (auto simp: loop_spec_def intro: exI [of _ "clock s"])
next
  case (2 r u reason us x results rej)
  then show ?case by (auto intro: loop_spec_refused)
next
  case (3 r u us x results rej)
  from 3(3) obtain v z s1 cur s2 where g: "txn_get x (ref_key r (uname u)) s = (Inr (v, z), s1)"
    and c: "(case v of Some b \<Rightarrow> bindE (liftE (parse_oid b)) (\<lambda>i. returnE (Some i)) | None \<Rightarrow> returnE None) s1 = (Inr cur, s2)"
    and l: "(if cur \<noteq> uold u then txn_loop r us z (results @ [Some ''fetch first'']) True
       else txn_loop r us (z\<lparr>writes := writes z @ [ref_write (ref_key r (uname u)) (unew u)]\<rparr>) (results @ [None]) rej) s2
         = (Inr (res, rej', y), t)"
    unfolding txn_loop.simps by (auto elim!: bindE_InrE)
  note gr = txn_get_result [OF g]
  have s2: "s2 = s1" and cur: "cur = Option.bind v from_hex"
    using c by (auto simp: bindE_def parse_oid_def split: option.splits sum.splits)
  show ?case
  proof (cases "cur = uold u")
    case False
    with l have "txn_loop r us z (results @ [Some ''fetch first'']) True s2 = (Inr (res, rej', y), t)" by simp
    from 3(1) [OF False this] have "loop_spec r ((u, None) # us) z results rej res rej' y" "\<exists>n. t = s2\<lparr>clock := n\<rparr>"
      by (auto intro: loop_spec_refused)
    with gr s2 show ?thesis by (auto intro: loop_spec_reads)
  next
    case True
    with l have "txn_loop r us (z\<lparr>writes := writes z @ [ref_write (ref_key r (uname u)) (unew u)]\<rparr>) (results @ [None]) rej s2
        = (Inr (res, rej', y), t)" by simp
    from 3(2) [OF _ this] True have "loop_spec r us (z\<lparr>writes := writes z @ [ref_write (ref_key r (uname u)) (unew u)]\<rparr>)
        (results @ [None]) rej res rej' y" "\<exists>n. t = s2\<lparr>clock := n\<rparr>" by auto
    moreover from this(1) have "loop_spec r ((u, None) # us) z results rej res rej' y"
      by (rule loop_spec_applied) (use gr cur True in auto)
    ultimately show ?thesis using gr s2 by (auto intro: loop_spec_reads)
  qed
qed

lemma dbs_drop_refs [simp]: "dbs (drop_refs k s) = dbs s"
  by (auto simp: drop_refs_def generation_def redis_read_def io_read_def io_step_def getE_def bindE_def mem_get_def
      cdel_def io_write_def Let_def split: cache_mode.splits option.splits prod.splits sum.splits)

lemma the_db_drop_refs [simp]: "the_db (drop_refs k s) h = the_db s h"
  by (simp add: the_db_def)

lemma db_for_result:
  "db_for o1 n s = (res, t) \<Longrightarrow> (\<forall>h. the_db t h = the_db s h) \<and> (\<forall>h. res = Inr h \<longrightarrow> h = repo_id o1 n)"
  by (auto simp: db_for_def bindE_def io_write_def Let_def split: if_splits option.splits)

text \<open>Every way a transaction can end, as facts on its database.\<close>

definition txn_outcome ::
    "repo \<Rightarrow> ref_update list \<Rightarrow> string option list \<Rightarrow> kv \<Rightarrow> kv \<Rightarrow> kv \<Rightarrow> error + string option list \<Rightarrow> bool" where
  "txn_outcome r updates verdicts before cur after res \<longleftrightarrow>
     (let applied = (cas_all updates (refs_map r cur) = Some (refs_map r after) \<and> list_all (\<lambda>v. v = None) verdicts
        \<and> (\<forall>k. k \<notin> ref_key r ` uname ` set updates \<longrightarrow> kv_get after k = kv_get cur k))
      in case res of
           Inl e \<Rightarrow> after \<in> {before, cur} \<or> applied
         | Inr results \<Rightarrow> length results = length updates
             \<and> (if list_all (\<lambda>v. v = None) results then applied else after \<in> {before, cur}))"

lemma txn_applied:
  assumes L: "loop_spec r (zip updates verdicts) x [] False res False y" and "writes x = []"
    and len: "length verdicts = length updates"
    and "kv_ok cur" "kv_ok (snapshot x)" "\<forall>k \<in> set (reads y). kv_get cur k = kv_get (snapshot x) k"
  shows "cas_all updates (refs_map r cur) = Some (refs_map r (apply_batch (writes y) cur))"
    and "list_all (\<lambda>v. v = None) verdicts"
    and "k \<notin> ref_key r ` uname ` set updates \<Longrightarrow> kv_get (apply_batch (writes y) cur) k = kv_get cur k"
proof -
  have m: "map fst (zip updates verdicts) = updates" "map snd (zip updates verdicts) = verdicts" using len by simp_all
  from L assms(2,4-6) m(1) show "cas_all updates (refs_map r cur) = Some (refs_map r (apply_batch (writes y) cur))"
    by (auto simp: loop_spec_def apply_batch_def)
  from L have "list_all (\<lambda>uv. snd uv = None) (zip updates verdicts)" by (simp add: loop_spec_def)
  then have "list_all (\<lambda>v. v = None) (map snd (zip updates verdicts))" by (simp add: list_all_iff)
  with m(2) show "list_all (\<lambda>v. v = None) verdicts" by simp
  assume k: "k \<notin> ref_key r ` uname ` set updates"
  have "(\<lambda>uv. ref_key r (uname (fst uv))) ` set (zip updates verdicts) = ref_key r ` uname ` fst ` set (zip updates verdicts)"
    by (simp add: image_image)
  also have "fst ` set (zip updates verdicts) = set updates" using m(1) by (metis set_map)
  finally have "batch_key ` set (writes y) \<subseteq> ref_key r ` uname ` set updates"
    using L assms(2) by (simp add: loop_spec_def)
  with k assms(4) show "kv_get (apply_batch (writes y) cur) k = kv_get cur k"
    unfolding apply_batch_def by (intro kvs.get_run_other) auto
qed

lemma txn_commit_result:
  assumes "txn_commit env ssi h x s = (res, t)"
  shows "the_db t h = env (the_db s h) \<and> (\<forall>u. res \<noteq> Inr u)
    \<or> the_db t h = apply_batch (writes x) (env (the_db s h)) \<and> (\<forall>m. res \<noteq> Inl (Transaction m))
      \<and> ssi (snapshot x) (env (the_db s h)) (reads x) (writes x) = None"
  using assms by (auto simp: txn_commit_def Let_def split: option.splits error.splits if_splits)

lemma keeps_txn_get: "clock_free I \<Longrightarrow> keeps I (txn_get x k)"
  unfolding txn_get_def by (intro keeps_intros keeps_io_step)

lemma keeps_txn_loop: "clock_free I \<Longrightarrow> keeps I (txn_loop r uvs x results rej)"
proof (induction r uvs x results rej rule: txn_loop.induct)
  case (3 r u us x results rej)
  have "keeps I (case v of Some b \<Rightarrow> bindE (liftE (parse_oid b)) (\<lambda>i. returnE (Some i)) | None \<Rightarrow> returnE None)" for v
    by (cases v) (simp_all add: keeps_intros)
  with 3 show ?case
    unfolding txn_loop.simps by (intro keeps_intros keeps_txn_get) (auto split: prod.splits intro!: keeps_intros)
qed (simp_all add: keeps_intros)

lemma the_db_clock_free: "clock_free (\<lambda>t. the_db t h = db)"
  by (simp add: clock_free_def)

lemma triple_txn_prefix:
  assumes "len = length updates" "length verdicts = len"
  shows "triple (\<lambda>t. the_db t h = db) (bindE (txn_begin h) (\<lambda>x. txn_loop r (zip updates verdicts) x [] False))
    (\<lambda>(results, rej, y) t. the_db t h = db
       \<and> loop_spec r (zip updates verdicts) \<lparr>snapshot = db, reads = [], writes = []\<rparr> [] False results rej y)
    (\<lambda>t. the_db t h = db)"
proof (rule triple_bindE [where R = "\<lambda>x t. the_db t h = db \<and> x = \<lparr>snapshot = db, reads = [], writes = []\<rparr>"])
  show "triple (\<lambda>t. the_db t h = db) (txn_begin h) (\<lambda>x t. the_db t h = db \<and> x = \<lparr>snapshot = db, reads = [], writes = []\<rparr>)
      (\<lambda>t. the_db t h = db)"
    unfolding txn_begin_def by (rule triple_io_read) (auto simp: the_db_clock_free)
  fix x
  show "triple (\<lambda>t. the_db t h = db \<and> x = \<lparr>snapshot = db, reads = [], writes = []\<rparr>) (txn_loop r (zip updates verdicts) x [] False)
      (\<lambda>(results, rej, y) t. the_db t h = db
         \<and> loop_spec r (zip updates verdicts) \<lparr>snapshot = db, reads = [], writes = []\<rparr> [] False results rej y) (\<lambda>t. the_db t h = db)"
    using keeps_txn_loop [OF the_db_clock_free, of h db r "zip updates verdicts" x "[]" False]
    by (fastforce simp: triple_def keeps_def dest: txn_loop_spec split: prod.splits sum.splits)
qed

lemma tripleI:
  assumes "\<And>s x t. P s \<Longrightarrow> m s = (Inr x, t) \<Longrightarrow> Q x t" and "\<And>s e t. P s \<Longrightarrow> m s = (Inl e, t) \<Longrightarrow> E t"
  shows "triple P m Q E"
  using assms by (auto simp: triple_def split: prod.splits sum.splits)

lemma triple_if:
  "(b \<Longrightarrow> triple P m Q E) \<Longrightarrow> (\<not> b \<Longrightarrow> triple P n Q E) \<Longrightarrow> triple P (if b then m else n) Q E"
  by simp

lemma bindE_assoc: "bindE (bindE m f) g = bindE m (\<lambda>x. bindE (f x) g)"
  by (auto simp: bindE_def fun_eq_iff split: prod.splits sum.splits)

text \<open>The end of the transaction, from what the loop left.\<close>

definition txn_finish ::
    "(kv \<Rightarrow> kv) \<Rightarrow> conflict_check \<Rightarrow> repo \<Rightarrow> ref_update list \<Rightarrow> string \<Rightarrow> string option list \<times> bool \<times> txn \<Rightarrow>
     ('z world_scheme, string option list) io" where
  "txn_finish env ssi r updates h = (\<lambda>(results, any_rejected, x).
     if any_rejected then returnE results
     else bindE (tryE (txn_commit env ssi h x)) (\<lambda>c.
          case c of
            Inr _ \<Rightarrow> bindE (putE (drop_refs (repo_id (owner r) (name r)))) (\<lambda>_. returnE results)
          | Inl (Transaction m) \<Rightarrow> returnE (map (\<lambda>_. Some (''conflict: '' @ m)) updates)
          | Inl e \<Rightarrow> failE e))"

lemma update_refs_txn_eq:
  "update_refs_txn env ssi r updates verdicts =
     bindE (db_for (owner r) (name r)) (\<lambda>h.
       bindE (bindE (txn_begin h) (\<lambda>x. txn_loop r (zip updates verdicts) x [] False)) (txn_finish env ssi r updates h))"
  by (simp add: update_refs_txn_def txn_finish_def bindE_assoc)

lemma txn_finish_outcome:
  assumes "ssi_sound ssi" and env: "kv_ok (env db)" and ok: "kv_ok db" and len: "length verdicts = length updates"
    and L: "loop_spec r (zip updates verdicts) \<lparr>snapshot = db, reads = [], writes = []\<rparr> [] False results rej y"
    and db: "the_db s h = db" and run: "txn_finish env ssi r updates h (results, rej, y) s = (res, t)"
  shows "txn_outcome r updates verdicts db (env db) (the_db t h) res"
proof (cases rej)
  case True
  then obtain m where "Some m \<in> set results" using L by (auto simp: loop_spec_def)
  with True L run db len show ?thesis
    by (auto simp: txn_outcome_def txn_finish_def list_all_iff loop_spec_def)
next
  case False
  obtain c u where c: "txn_commit env ssi h y s = (c, u)" by fastforce
  have snap: "snapshot y = db" using L by (simp add: loop_spec_def)
  have res: "results = map (\<lambda>_. None) (zip updates verdicts)" using L False by (simp add: loop_spec_def)
  have app: "cas_all updates (refs_map r (env db)) = Some (refs_map r (apply_batch (writes y) (env db)))
      \<and> list_all (\<lambda>v. v = None) verdicts
      \<and> (\<forall>k. k \<notin> ref_key r ` uname ` set updates \<longrightarrow> kv_get (apply_batch (writes y) (env db)) k = kv_get (env db) k)"
    if v: "ssi db (env db) (reads y) (writes y) = None"
  proof -
    have "\<forall>k \<in> set (reads y). kv_get (env db) k = kv_get db k"
      using assms(1) v unfolding ssi_sound_def by blast
    with txn_applied [of r updates verdicts "\<lparr>snapshot = db, reads = [], writes = []\<rparr>" results y "env db"]
      L False len env ok show ?thesis by simp
  qed
  have none: "cas_all updates m = Some m \<and> list_all (\<lambda>v. v = None) verdicts" if "updates = []" for m
    using that len by simp
  from txn_commit_result [OF c] show ?thesis
  proof (elim disjE conjE)
    assume "the_db u h = env (the_db s h)" "\<forall>x. c \<noteq> Inr x"
    then obtain e where "c = Inl e" by (cases c) auto
    with \<open>the_db u h = _\<close> c run False db none show ?thesis
      by (cases e) (auto simp: txn_outcome_def txn_finish_def tryE_def bindE_def Let_def list_all_iff)
  next
    assume u: "the_db u h = apply_batch (writes y) (env (the_db s h))" "\<forall>m. c \<noteq> Inl (Transaction m)"
      "ssi (snapshot y) (env (the_db s h)) (reads y) (writes y) = None"
    show ?thesis
    proof (cases c)
      case (Inl e)
      with u c run False db app snap show ?thesis
        by (cases e) (auto simp: txn_outcome_def txn_finish_def tryE_def bindE_def Let_def)
    next
      case (Inr x)
      with u c run False db app snap res len show ?thesis
        by (auto simp: txn_outcome_def txn_finish_def tryE_def bindE_def putE_def Let_def list_all_iff)
    qed
  qed
qed

lemma txn_outcome_error:
  "txn_outcome r us vs a b c (Inl e) \<Longrightarrow> txn_outcome r us vs a b c (Inl e')"
  by (simp add: txn_outcome_def)

lemma txn_outcome_same [simp]: "txn_outcome r us vs a b a (Inl e)"
  by (simp add: txn_outcome_def Let_def)

lemma triple_txn_finish:
  assumes "ssi_sound ssi" and "kv_ok (env db)" and "kv_ok db" and "length verdicts = length updates"
  shows "triple ((\<lambda>(results, rej, y) t. the_db t h = db
      \<and> loop_spec r (zip updates verdicts) \<lparr>snapshot = db, reads = [], writes = []\<rparr> [] False results rej y) z)
    (txn_finish env ssi r updates h z)
    (\<lambda>x t. txn_outcome r updates verdicts db (env db) (the_db t h) (Inr x))
    (\<lambda>t. \<forall>e. txn_outcome r updates verdicts db (env db) (the_db t h) (Inl e))"
proof -
  obtain results rej y where z: "z = (results, rej, y)" by (cases z)
  show ?thesis
    unfolding z
    by (rule tripleI; use txn_finish_outcome [where env = env and db = db, OF assms] txn_outcome_error in fastforce)
qed

lemma triple_update_refs_txn:
  assumes "ssi_sound ssi" and env: "\<And>db. kv_ok db \<Longrightarrow> kv_ok (env db)" and ok: "kv_ok db"
    and len: "length verdicts = length updates"
  shows "triple (\<lambda>t. the_db t (repo_id (owner r) (name r)) = db) (update_refs_txn env ssi r updates verdicts)
    (\<lambda>x t. txn_outcome r updates verdicts db (env db) (the_db t (repo_id (owner r) (name r))) (Inr x))
    (\<lambda>t. \<forall>e. txn_outcome r updates verdicts db (env db) (the_db t (repo_id (owner r) (name r))) (Inl e))"
    (is "triple ?P _ ?Q ?E")
  unfolding update_refs_txn_eq
proof (rule triple_bindE [where R = "\<lambda>h t. ?P t \<and> h = repo_id (owner r) (name r)"])
  show "triple ?P (db_for (owner r) (name r)) (\<lambda>h t. ?P t \<and> h = repo_id (owner r) (name r)) ?E"
    by (auto simp: triple_def dest: db_for_result split: prod.splits sum.splits)
  fix h
  let ?L = "\<lambda>(results, rej, y) t. the_db t h = db
    \<and> loop_spec r (zip updates verdicts) \<lparr>snapshot = db, reads = [], writes = []\<rparr> [] False results rej y"
  note fin = triple_txn_finish [where h = h and env = env and db = db and r = r, OF assms(1) env [OF ok] ok len]
  show "triple (\<lambda>t. ?P t \<and> h = repo_id (owner r) (name r))
      (bindE (bindE (txn_begin h) (\<lambda>x. txn_loop r (zip updates verdicts) x [] False)) (txn_finish env ssi r updates h)) ?Q ?E"
  proof (cases "h = repo_id (owner r) (name r)")
    case True
    have "triple (\<lambda>t. the_db t h = db) (bindE (txn_begin h) (\<lambda>x. txn_loop r (zip updates verdicts) x [] False)) ?L
        (\<lambda>t. \<forall>e. txn_outcome r updates verdicts db (env db) (the_db t h) (Inl e))"
      by (rule triple_weaken [OF triple_txn_prefix [OF refl len]]) auto
    from triple_bindE [OF this fin] True show ?thesis by simp
  qed (simp add: triple_def)
qed

text \<open>
  C4. A reference transaction is one atomic compare-and-swap at its commit: if it reports no
  refusal, every update matched the references as concurrent writers had left them and exactly
  those references changed; if it refuses any, or reports a conflict, it changed nothing; and
  if it fails the whole batch is applied or nothing is. This rests on the documented soundness
  of the serializable isolation level.
\<close>

theorem ref_update_linearizable:
  assumes "ssi_sound ssi" and env: "\<And>db. kv_ok db \<Longrightarrow> kv_ok (env db)"
    and ok: "kv_ok (the_db s (repo_id (owner r) (name r)))" and len: "length verdicts = length updates"
    and run: "update_refs_txn env ssi r updates verdicts s = (res, t)"
  shows "txn_outcome r updates verdicts (the_db s (repo_id (owner r) (name r)))
    (env (the_db s (repo_id (owner r) (name r)))) (the_db t (repo_id (owner r) (name r))) res"
proof -
  let ?h = "repo_id (owner r) (name r)"
  let ?db = "the_db s ?h"
  let ?out = "\<lambda>res t. txn_outcome r updates verdicts ?db (env ?db) (the_db t ?h) res"
  have "triple (\<lambda>t. the_db t ?h = ?db) (update_refs_txn env ssi r updates verdicts) (\<lambda>x. ?out (Inr x)) (\<lambda>t. \<forall>e. ?out (Inl e) t)"
    by (rule triple_update_refs_txn [OF assms(1) env ok len])
  from tripleD [OF this refl run] show ?thesis by (cases res) auto
qed

definition exact_ssi :: conflict_check where
  "exact_ssi snap cur rs ws = (if list_all (\<lambda>k. kv_get cur k = kv_get snap k) rs then None else Some ''read conflict'')"

lemma exact_ssi_sound: "ssi_sound exact_ssi"
  by (auto simp: ssi_sound_def exact_ssi_def list_all_iff split: if_splits)

theorem ref_update_linearizable_witness:
  "\<exists>t. update_refs_txn id exact_ssi web_repo [\<lparr>uname = ''refs/heads/main'', uold = None, unew = Some 7\<rparr>] [None]
       (fresh_world [] [] (\<lambda>_. None)) = (Inr [None], t)
     \<and> refs_map web_repo (the_db t ''alice/web'') ''refs/heads/main'' = Some 7"
proof -
  let ?s = "fresh_world [] [] (\<lambda>_. None)"
  let ?us = "[\<lparr>uname = ''refs/heads/main'', uold = None, unew = Some 7\<rparr>]"
  have f: "faults ?s = (\<lambda>_. None)" "unowned ?s = None" "the_db ?s h = []" "cmode ?s = Redis" for h
    by (simp_all add: fresh_world_def the_db_def)
  have r: "repo_id (owner web_repo) (name web_repo) = ''alice/web''"
    by (simp add: web_repo_def repo_id_def)
  obtain t where t: "update_refs_txn id exact_ssi web_repo ?us [None] ?s = (Inr [None], t)"
    by (simp add: update_refs_txn_def db_for_def io_write_def bindE_def txn_begin_def io_read_def io_step_def getE_def f
        txn_get_def tryE_def txn_commit_def exact_ssi_def Let_def putE_def apply_batch_def)
  have o: "kv_ok (the_db ?s (repo_id (owner web_repo) (name web_repo)))" by (simp add: f)
  have "cas_all ?us (refs_map web_repo []) = Some (refs_map web_repo (the_db t ''alice/web''))"
    using ref_update_linearizable [OF exact_ssi_sound _ o _ t] by (simp add: txn_outcome_def f r)
  then have "refs_map web_repo (the_db t ''alice/web'') = (refs_map web_repo [])(''refs/heads/main'' := Some 7)"
    by (simp split: if_splits)
  with t show ?thesis by simp
qed

section \<open>Protected branches\<close>

text \<open>The rules in force, as the database holds them.\<close>

definition rules_of :: "string \<Rightarrow> string \<Rightarrow> kv \<Rightarrow> protection list" where
  "rules_of o1 n db = sort_key pattern (List.map_filter (protection_row (protect_scan o1 n)) (scan_prefix (protect_scan o1 n) db))"

lemma protections_result:
  assumes "protections o1 n s = (Inr rules, t)"
  shows "rules = rules_of o1 n (the_db s (repo_id o1 n))" and "the_db t h = the_db s h"
proof -
  from assms obtain h0 s1 rows s2 where d: "db_for o1 n s = (Inr h0, s1)" and sc: "db_scan h0 (protect_scan o1 n) s1 = (Inr rows, s2)"
    and r: "rules = sort_key pattern (List.map_filter (protection_row (protect_scan o1 n)) rows)" "t = s2"
    unfolding protections_def by (auto elim!: bindE_InrE)
  from db_for_result [OF d] have "h0 = repo_id o1 n" "\<And>h. the_db s1 h = the_db s h" by auto
  moreover from sc have "s2 = s1\<lparr>clock := Suc (clock s1)\<rparr>" "rows = scan_prefix (protect_scan o1 n) (the_db s2 h0)"
    by (auto simp: db_scan_def dest: io_read_InrD)
  ultimately show "rules = rules_of o1 n (the_db s (repo_id o1 n))" "the_db t h = the_db s h"
    using r by (simp_all add: rules_of_def)
qed

lemma update_refs_txn_verdicts:
  assumes "update_refs_txn env ssi r updates verdicts s = (Inr results, t)" and "list_all (\<lambda>v. v = None) results"
    and "length verdicts = length updates"
  shows "list_all (\<lambda>v. v = None) verdicts"
proof -
  from assms(1) obtain h s1 x s2 res rej y s3 where
    l: "txn_loop r (zip updates verdicts) x [] False s2 = (Inr (res, rej, y), s3)"
    and f: "txn_finish env ssi r updates h (res, rej, y) s3 = (Inr results, t)"
    unfolding update_refs_txn_eq by (auto elim!: bindE_InrE)
  note L = txn_loop_spec [OF l, THEN conjunct1]
  show ?thesis
  proof (cases rej)
    case True
    with f have "results = res" by (simp add: txn_finish_def)
    with True L assms(2) show ?thesis by (auto simp: loop_spec_def list_all_iff)
  next
    case False
    with L have "list_all (\<lambda>uv. snd uv = None) (zip updates verdicts)" by (simp add: loop_spec_def)
    then have "list_all (\<lambda>v. v = None) (map snd (zip updates verdicts))" by (simp add: list_all_iff)
    with assms(3) show ?thesis by simp
  qed
qed

text \<open>Ancestry, and what the walk is documented to yield: commits reachable from where it starts.\<close>

definition descends :: "(oid \<Rightarrow> oid list) \<Rightarrow> oid \<Rightarrow> oid \<Rightarrow> bool" where
  "descends parents c a \<longleftrightarrow> (c, a) \<in> {(x, p). p \<in> set (parents x)}\<^sup>*"

definition walk_sound :: "(oid \<Rightarrow> oid list) \<Rightarrow> walk \<Rightarrow> bool" where
  "walk_sound parents walk \<longleftrightarrow> (\<forall>c a. Some a \<in> set (walk c) \<longrightarrow> descends parents c a)"

lemma is_ancestor_descends:
  "walk_sound parents walk \<Longrightarrow> is_ancestor walk old new n \<Longrightarrow> descends parents new old"
  by (auto simp: is_ancestor_def walk_sound_def descends_def list_ex_iff dest: in_set_takeD)

definition obeys :: "(oid \<Rightarrow> oid list) \<Rightarrow> protection list \<Rightarrow> ref_update \<Rightarrow> bool" where
  "obeys parents rules u \<longleftrightarrow>
     (\<forall>branch rule. branch_of (uname u) = Some branch \<longrightarrow> List.find (\<lambda>p. matches p branch) rules = Some rule \<longrightarrow>
        (no_delete rule \<longrightarrow> unew u \<noteq> None)
        \<and> (\<forall>old new. no_force rule \<longrightarrow> uold u = Some old \<longrightarrow> unew u = Some new \<longrightarrow> descends parents new old))"

lemma verdict_obeys:
  assumes "protection_verdict rules odb u = None" and "\<And>walk. odb = Some walk \<Longrightarrow> walk_sound parents walk"
  shows "obeys parents rules u"
  using assms unfolding obeys_def protection_verdict_def
  by (auto split: option.splits if_splits dest: is_ancestor_descends)

text \<open>
  C16. A batch of reference updates that goes through has only names git accepts, and for every
  branch the rule that governs it (the first that matches) is respected: no forbidden deletion,
  and where rewriting is forbidden the new commit descends from the old one, given that the
  history walk only yields ancestors.
\<close>

theorem update_refs_respects_protection:
  assumes "update_refs env ssi quoted odb r updates s = (Inr results, t)"
    and "list_all (\<lambda>v. v = None) results" and "u \<in> set updates"
    and "\<And>walk. odb = Some walk \<Longrightarrow> walk_sound parents walk"
  shows "valid_ref_name (uname u)
    \<and> obeys parents (rules_of (owner r) (name r) (the_db s (repo_id (owner r) (name r)))) u"
proof -
  let ?rules = "rules_of (owner r) (name r) (the_db s (repo_id (owner r) (name r)))"
  define vs where "vs = (if ?rules = [] then map (\<lambda>_. None) updates else map (protection_verdict ?rules odb) updates)"
  let ?ws = "map (\<lambda>(v, u). if \<not> valid_ref_name (uname u) then Some (quoted (uname u) @ '' is not a valid ref name'') else v) (zip vs updates)"
  have lv: "length vs = length updates" by (simp add: vs_def)
  from assms(1) obtain s1 where "update_refs_txn env ssi r updates ?ws s1 = (Inr results, t)"
    unfolding update_refs_def Let_def vs_def by (auto elim!: bindE_InrE dest!: protections_result(1))
  from update_refs_txn_verdicts [OF this assms(2)] lv have none: "list_all (\<lambda>v. v = None) ?ws" by simp
  from assms(3) obtain i where i: "i < length updates" "updates ! i = u" by (auto simp: in_set_conv_nth)
  from none have "\<forall>n < length ?ws. ?ws ! n = None" by (simp only: list_all_length)
  from this [rule_format, of i] i lv have v: "valid_ref_name (uname u)" "vs ! i = None"
    by (auto split: if_splits)
  have "obeys parents ?rules u"
  proof (cases "?rules = []")
    case False
    then show ?thesis using v(2) i assms(4) by (auto simp: vs_def intro: verdict_obeys)
  qed (simp add: obeys_def)
  with v(1) show ?thesis by blast
qed

theorem update_refs_respects_protection_witness:
  "\<exists>s t :: world. update_refs id exact_ssi id (Some (\<lambda>i. if i = 8 then [Some 8, Some 7] else [Some i])) web_repo
       [\<lparr>uname = ''refs/heads/main'', uold = Some 7, unew = Some 8\<rparr>] s = (Inr [None], t)
     \<and> rules_of ''alice'' ''web'' (the_db s ''alice/web'') \<noteq> []
     \<and> obeys (\<lambda>i. if i = 8 then [7] else []) (rules_of ''alice'' ''web'' (the_db s ''alice/web''))
         \<lparr>uname = ''refs/heads/main'', uold = Some 7, unew = Some 8\<rparr>"
proof -
  let ?walk = "\<lambda>i. if i = 8 then [Some 8, Some 7] else [Some i] :: oid option list"
  let ?u = "\<lparr>uname = ''refs/heads/main'', uold = Some 7, unew = Some 8\<rparr>"
  let ?db = "[(''meta/protect/alice/web/main'', ''fd''), (''ref/alice/web/refs/heads/main'', to_hex 7)]"
  define s where "s = (fresh_world [] [] (\<lambda>_. None))\<lparr>dbs := [(''alice/web'', ?db)]\<rparr>"
  have f: "faults s = (\<lambda>_. None)" "unowned s = None" "the_db s ''alice/web'' = ?db" "cmode s = Redis"
    by (simp_all add: s_def fresh_world_def the_db_def)
  have r: "repo_id (owner web_repo) (name web_repo) = ''alice/web''" "owner web_repo = ''alice''" "name web_repo = ''web''"
    "repo_id ''alice'' ''web'' = ''alice/web''" "ref_key web_repo ''refs/heads/main'' = ''ref/alice/web/refs/heads/main''"
    by (simp_all add: web_repo_def repo_id_def ref_key_def)
  have rules: "rules_of ''alice'' ''web'' ?db = [\<lparr>pattern = ''main'', no_force = True, no_delete = True\<rparr>]"
    by (simp add: rules_of_def scan_prefix_def protect_scan_def PROTECT_PREFIX_def protection_row_def List.map_filter_def
        strip_prefix_def decode_protection_def byte_of_def)
  have v: "valid_ref_name ''refs/heads/main''"
    by (simp add: valid_ref_name_def starts_with_def ends_with_def suffix_to_prefix str_contains_def sublist_code byte_of_def)
  have p: "protection_verdict [\<lparr>pattern = ''main'', no_force = True, no_delete = True\<rparr>] (Some ?walk) ?u = None"
    by (simp add: protection_verdict_def branch_of_def strip_prefix_def matches_def strip_suffix_def is_ancestor_def
        ANCESTRY_BUDGET_def suffix_to_prefix)
  obtain t where t: "update_refs id exact_ssi id (Some ?walk) web_repo [?u] s = (Inr [None], t)"
    by (simp add: update_refs_def protections_def db_for_def io_write_def db_scan_def bindE_def io_read_def io_step_def getE_def
        f r rules [unfolded rules_of_def] p v update_refs_txn_def txn_begin_def txn_get_def tryE_def txn_commit_def
        exact_ssi_def Let_def putE_def apply_batch_def kv_get_def parse_oid_def)
  have w: "walk_sound (\<lambda>i. if i = 8 then [7] else []) ?walk"
    by (auto simp: walk_sound_def descends_def split: if_splits)
  have "obeys (\<lambda>i. if i = 8 then [7] else []) (rules_of ''alice'' ''web'' ?db) ?u"
    using update_refs_respects_protection [OF t, of ?u "\<lambda>i. if i = 8 then [7] else []"] w
    by (simp add: r f)
  with t rules f(3) show ?thesis by (intro exI [of _ s] exI [of _ t]) simp
qed

section \<open>Probing a name\<close>

text \<open>The world but for the clock, and but for the re-opening of a database that exists.\<close>

definition same_data :: "'z world_scheme \<Rightarrow> 'z world_scheme \<Rightarrow> bool" where
  "same_data s t \<longleftrightarrow> os t = os s \<and> fst ` set (dbs t) = fst ` set (dbs s) \<and> (\<forall>h. the_db t h = the_db s h)"

lemma same_data_clock_free: "clock_free (\<lambda>t. same_data s t \<and> b)"
  by (simp add: clock_free_def same_data_def)

lemma same_data_clock [simp]: "same_data s (t\<lparr>clock := c\<rparr>) = same_data s t"
  by (simp add: same_data_def)

lemma same_data_open:
  "same_data s t \<Longrightarrow> h \<in> fst ` set (dbs t) \<Longrightarrow> same_data s (upd_db h id t)"
  by (auto simp: same_data_def upd_db_def dom_update the_db_def update_conv' split: option.splits)

text \<open>
  What a fleet's databases are called: a repository has an owner and a name, an image and a volume
  have a prefix that no owner of a repository may have, and then an owner and a name.
\<close>

definition db_names_ok :: "'z world_scheme \<Rightarrow> bool" where
  "db_names_ok s \<longleftrightarrow> list_all (\<lambda>(k, _). count_list k (CHR ''/'') = 1 \<or> prefix ''img/'' k \<or> prefix ''vol/'' k) (dbs s)"

lemma nothing_nested:
  assumes "db_names_ok s" and "CHR ''/'' \<notin> set o1" and "o1 \<notin> {''img'', ''vol''}"
    and "k \<in> fst ` set (dbs s)" and "at_or_under k (repo_id o1 n)"
  shows "k = repo_id o1 n"
proof (rule ccontr)
  assume "k \<noteq> repo_id o1 n"
  then have k: "prefix (o1 @ CHR ''/'' # n @ ''/'') k" using assms(5) by (simp add: at_or_under_def repo_id_def)
  then have "count_list k (CHR ''/'') \<noteq> 1" by (auto simp: prefix_def)
  then have "prefix ''img/'' k \<or> prefix ''vol/'' k" using assms(1,4) by (auto simp: db_names_ok_def list_all_iff)
  moreover have "o1 = q" if "prefix (q @ CHR ''/'' # r) k" "CHR ''/'' \<notin> set q" for q r
    using that k sep_inj [OF that(2) assms(2)] by (auto simp: prefix_def)
  from this [of "''img''" "[]"] this [of "''vol''" "[]"] have "prefix ''img/'' k \<or> prefix ''vol/'' k \<Longrightarrow> o1 \<in> {''img'', ''vol''}" by auto
  ultimately show False using assms(3) by blast
qed

lemma triple_probe:
  assumes "db_names_ok s" and "CHR ''/'' \<notin> set o1" and "o1 \<notin> {''img'', ''vol''}"
    and "\<And>h. triple (\<lambda>t. same_data s t \<and> h = repo_id o1 n) (f h) (\<lambda>_. same_data s) (same_data s)"
  shows "triple (same_data s) (bindE (repo_db_exists o1 n) (\<lambda>there. if \<not> there then returnE False else bindE (db_for o1 n) f))
    (\<lambda>_. same_data s) (same_data s)"
proof (rule triple_bindE [where R = "\<lambda>there t. same_data s t \<and> (there \<longrightarrow> repo_id o1 n \<in> fst ` set (dbs t))"])
  have "repo_id o1 n \<in> fst ` set (dbs t)"
    if "same_data s t" "list_ex (\<lambda>(k, _). at_or_under k (repo_id o1 n)) (dbs t)" for t :: "'a world_scheme"
  proof -
    from that(2) obtain k where "k \<in> fst ` set (dbs t)" "at_or_under k (repo_id o1 n)" by (fastforce simp: list_ex_iff)
    with that(1) show ?thesis using nothing_nested [OF assms(1-3)] unfolding same_data_def by metis
  qed
  then show "triple (same_data s) (repo_db_exists o1 n)
      (\<lambda>there t. same_data s t \<and> (there \<longrightarrow> repo_id o1 n \<in> fst ` set (dbs t))) (same_data s)"
    by (auto simp: triple_def repo_db_exists_def io_read_def io_step_def getE_def bindE_def split: option.splits)
  fix there
  have "triple (\<lambda>t. same_data s t \<and> repo_id o1 n \<in> fst ` set (dbs t)) (db_for o1 n)
      (\<lambda>h t. same_data s t \<and> h = repo_id o1 n) (same_data s)"
    by (auto simp: triple_def db_for_def io_write_def bindE_def Let_def split: option.splits
        intro!: same_data_open)
  then have "triple (\<lambda>t. same_data s t \<and> repo_id o1 n \<in> fst ` set (dbs t)) (bindE (db_for o1 n) f)
      (\<lambda>_. same_data s) (same_data s)"
    using assms(4) by (rule triple_bindE)
  then show "triple (\<lambda>t. same_data s t \<and> (there \<longrightarrow> repo_id o1 n \<in> fst ` set (dbs t)))
      (if \<not> there then returnE False else bindE (db_for o1 n) f) (\<lambda>_. same_data s) (same_data s)"
    by (cases there) (auto intro: triple_returnE)
qed

text \<open>
  Asking whether a repository exists, or exists and is public, changes nothing, for an owner
  other than the two prefixes of images and volumes: it creates no database for a name nobody has,
  on any path, failing or not.
\<close>

theorem probes_create_nothing:
  assumes "db_names_ok s" and "valid_owner o1"
  shows "same_data s (snd (repo_exists o1 n s)) \<and> same_data s (snd (repo_public o1 n s))"
proof -
  have o1: "CHR ''/'' \<notin> set o1" "o1 \<notin> {''img'', ''vol''}"
    using assms(2) by (auto simp: valid_owner_def valid_segment_def RESERVED_OWNERS_def list_all_iff is_ascii_alphanumeric_def
        in_range_def byte_of_def)
  have refl: "same_data s s" by (simp add: same_data_def)
  have get: "keeps (same_data s) (db_get h k)" for h k
    unfolding db_get_def using same_data_clock_free [of s True] by (simp add: keeps_io_read)
  have k: "keeps (same_data s) (bindE (db_get h (repo_key o1 n)) (\<lambda>v. returnE (v \<noteq> None)))" for h
    by (intro keeps_intros get)
  have p: "keeps (same_data s) (bindE (tryE (db_get h (repo_key o1 n))) (\<lambda>ex. bindE (tryE (db_get h PUBLIC_KEY)) (\<lambda>pub.
      bindE (liftE ex) (\<lambda>e. if e = None then returnE False else bindE (liftE pub) (\<lambda>p. returnE (p = Some ''1''))))))" for h
    by (intro keeps_intros get)
  have "triple (same_data s) (repo_exists o1 n) (\<lambda>_. same_data s) (same_data s)"
    unfolding repo_exists_def by (rule triple_probe [OF assms(1) o1], rule triple_weaken [OF k [unfolded triple_keeps]]) auto
  moreover have "triple (same_data s) (repo_public o1 n) (\<lambda>_. same_data s) (same_data s)"
    unfolding repo_public_def by (rule triple_probe [OF assms(1) o1], rule triple_weaken [OF p [unfolded triple_keeps]]) auto
  ultimately show ?thesis using refl by (simp add: triple_both)
qed

definition image_world :: world where
  "image_world = (fresh_world [] [] (\<lambda>_. None))\<lparr>dbs := [(''alice/web'', []), (''img/alice/web'', [])]\<rparr>"

theorem probes_create_nothing_witness:
  "same_data image_world (snd (repo_exists ''alice'' ''nope'' image_world))
    \<and> same_data image_world (snd (repo_public ''alice'' ''nope'' image_world))"
  by (rule probes_create_nothing)
    (simp_all add: image_world_def fresh_world_def db_names_ok_def valid_owner_def valid_segment_def starts_with_def RESERVED_OWNERS_def
      is_ascii_alphanumeric_def in_range_def byte_of_def)

text \<open>
  With the prefix of the images as owner the probe does create: the files of any image of alice lie
  under the path of the repository \<open>img/alice\<close>, so the probe takes the repository to exist and opens,
  that is creates, its database.
\<close>

lemma image_prefix_probe_creates:
  "fst (repo_public ''img'' ''alice'' image_world) = Inr False
    \<and> map_of (dbs image_world) ''img/alice'' = None \<and> map_of (dbs (snd (repo_public ''img'' ''alice'' image_world))) ''img/alice'' = Some []"
  by (simp add: repo_public_def repo_db_exists_def db_for_def db_get_def image_world_def fresh_world_def at_or_under_def repo_id_def
      io_read_def io_write_def io_step_def getE_def bindE_def tryE_def liftE_def returnE_def upd_db_def the_db_def update_conv'
      repo_key_def kv_get_def)

section \<open>Merge base\<close>

text \<open>A walk that met no error and was not cut has yielded every ancestor.\<close>

definition walk_complete :: "(oid \<Rightarrow> oid list) \<Rightarrow> walk \<Rightarrow> bool" where
  "walk_complete parents walk \<longleftrightarrow>
     (\<forall>c. None \<notin> set (walk c) \<longrightarrow> (\<forall>a. descends parents c a \<longrightarrow> Some a \<in> set (walk c)))"

lemma descends_refl [simp]: "descends parents c c"
  by (simp add: descends_def)

text \<open>
  C40. A merge base that is found is an ancestor of both commits; and when the answer is that
  the histories are unrelated, they share no commit, provided neither walk met an error.
\<close>

theorem merge_base_sound:
  assumes "walk_sound parents walk" and "walk_complete parents walk"
  shows "case merge_base walk a b budget of
      Found m \<Rightarrow> descends parents a m \<and> descends parents b m
    | Unrelated \<Rightarrow> None \<in> set (walk a) \<union> set (walk b)
        \<or> \<not> (\<exists>m. descends parents a m \<and> descends parents b m)
    | Exhausted \<Rightarrow> budget \<le> length (walk a) \<or> budget \<le> length (walk b)"
proof -
  have seen: "descends parents c m" if "m \<in> set (List.map_filter id (take budget (walk c)))" for c m
    using that assms(1) by (auto simp: walk_sound_def List.map_filter_def dest: in_set_takeD)
  have all: "m \<in> set (List.map_filter id (take budget (walk c)))"
    if "length (take budget (walk c)) < budget" "None \<notin> set (walk c)" "descends parents c m" for c m
  proof -
    have "Some m \<in> set (walk c)" using that assms(2) by (simp add: walk_complete_def)
    moreover have "take budget (walk c) = walk c" using that(1) by simp
    ultimately show ?thesis by (force simp: List.map_filter_def)
  qed
  define sa where "sa = set (List.map_filter id (take budget (walk a)))"
  define lb where "lb = List.map_filter id (take budget (walk b))"
  have run: "merge_base walk a b budget = (if a = b then Found a else if b \<in> sa then Found b
      else case List.find (\<lambda>i. i \<in> sa) lb of Some m \<Rightarrow> Found m
        | None \<Rightarrow> if length (take budget (walk a)) < budget \<and> length (take budget (walk b)) < budget then Unrelated else Exhausted)"
    unfolding merge_base_def Let_def sa_def lb_def by (rule refl)
  note s = seen [of _ a, folded sa_def] seen [of _ b, folded lb_def] all [of a, folded sa_def] all [of b, folded lb_def]
  show ?thesis
  proof (cases "List.find (\<lambda>i. i \<in> sa) lb")
    case None
    then have "\<forall>x \<in> set lb. x \<notin> sa" by (auto simp: find_None_iff)
    then have "None \<in> set (walk a) \<union> set (walk b) \<or> \<not> (\<exists>m. descends parents a m \<and> descends parents b m)"
      if "length (take budget (walk a)) < budget" "length (take budget (walk b)) < budget"
      using s(3) [OF that(1)] s(4) [OF that(2)] by blast
    with None s(1) show ?thesis unfolding run by auto
  next
    case (Some m)
    then have "m \<in> set lb" "m \<in> sa" by (auto simp: find_Some_iff)
    with Some s(1,2) show ?thesis unfolding run by auto
  qed
qed

theorem merge_base_sound_witness:
  "merge_base (\<lambda>i. if i = 2 \<or> i = 3 then [Some i, Some 1] else [Some i]) 2 3 100 = Found 1
   \<and> descends (\<lambda>i. if i = 2 \<or> i = 3 then [1] else []) 3 1"
proof -
  let ?walk = "\<lambda>i. if i = 2 \<or> i = 3 then [Some i, Some 1] else [Some i] :: oid option list"
  let ?par = "\<lambda>i. if i = 2 \<or> i = 3 then [1] else [] :: oid list"
  have d: "descends ?par c a \<longleftrightarrow> a = c \<or> (c = 2 \<or> c = 3) \<and> a = 1" for c a
  proof
    assume "descends ?par c a"
    then show "a = c \<or> (c = 2 \<or> c = 3) \<and> a = 1"
      unfolding descends_def by (induction rule: rtrancl_induct) (auto split: if_splits)
  qed (auto simp: descends_def)
  have "walk_sound ?par ?walk" "walk_complete ?par ?walk"
    by (auto simp: walk_sound_def walk_complete_def d split: if_splits)
  from merge_base_sound [OF this, of 2 3 100]
  show ?thesis by (simp add: merge_base_def Let_def List.map_filter_simps)
qed

text \<open>
  A walk that met an error reads as one that ran dry: two commits with a common ancestor
  are reported unrelated when the walk of one stops at an object it cannot read.
\<close>

theorem merge_base_error_reads_as_unrelated:
  "\<exists>walk parents. walk_sound parents walk \<and> walk_complete parents walk
     \<and> descends parents 2 1 \<and> descends parents 3 1 \<and> merge_base walk 2 3 100 = Unrelated"
proof -
  define parents :: "oid \<Rightarrow> oid list" where "parents i = (if i = 2 \<or> i = 3 then [1] else [])" for i
  define walk :: walk where "walk i = (if i = 2 then [Some 2, None] else if i = 3 then [Some 3, Some 1] else [Some i])" for i
  have d: "descends parents c a \<longleftrightarrow> a = c \<or> (c = 2 \<or> c = 3) \<and> a = 1" for c a
  proof
    assume "descends parents c a"
    then show "a = c \<or> (c = 2 \<or> c = 3) \<and> a = 1"
      unfolding descends_def by (induction rule: rtrancl_induct) (auto simp: parents_def split: if_splits)
  qed (auto simp: descends_def parents_def)
  have "walk_sound parents walk" "walk_complete parents walk"
    by (auto simp: walk_sound_def walk_complete_def d walk_def split: if_splits)
  moreover have "merge_base walk 2 3 100 = Unrelated"
    by (simp add: merge_base_def walk_def Let_def List.map_filter_simps)
  ultimately show ?thesis using d by blast
qed

section \<open>Forking and deleting\<close>

lemma triple_db_for:
  assumes "clock_free P" and "\<And>s. P s \<Longrightarrow> P (upd_db (repo_id o1 n) id s)"
  shows "triple P (db_for o1 n) (\<lambda>h s. P s \<and> h = repo_id o1 n) P"
  using assms
  by (auto simp: triple_def db_for_def io_write_def clock_free_def bindE_def Let_def split: option.splits)

text \<open>A row of a database that a pack listing never writes.\<close>

definition row_is :: "string \<Rightarrow> string \<Rightarrow> bytes option \<Rightarrow> 'z world_scheme \<Rightarrow> bool" where
  "row_is h k v s \<longleftrightarrow> kv_get (the_db s h) k = v"

lemma row_is_frames [simp]:
  "row_is h k v (s\<lparr>clock := c\<rparr>) = row_is h k v s" "row_is h k v (s\<lparr>os := x\<rparr>) = row_is h k v s"
  "row_is h k v (s\<lparr>synced := y\<rparr>) = row_is h k v s" "row_is h k v (upd_db g id s) = row_is h k v s"
  by (simp_all add: row_is_def)

lemma row_is_clock_free [simp]: "clock_free (row_is h k v)"
  by (simp add: clock_free_def)

lemma pack_key_other: "repo_key o1 n \<noteq> pack_index_prefix o2 n2 @ f" "ref_key_for o1 n x \<noteq> pack_index_prefix o2 n2 @ f"
  by (simp_all add: repo_key_def ref_key_for_def pack_index_prefix_def)

lemma keeps_record_pack:
  assumes "k \<noteq> pack_index_prefix o2 n2 @ f"
  shows "keeps (row_is h k v) (record_pack o2 n2 f sz)"
proof -
  have "triple (row_is h k v) (db_for o2 n2) (\<lambda>_. row_is h k v) (row_is h k v)"
    by (rule triple_weaken [OF triple_db_for]) auto
  then have "keeps (row_is h k v) (db_for o2 n2)" by (simp add: triple_keeps)
  moreover have "keeps (row_is h k v) (db_put g (pack_index_prefix o2 n2 @ f) w)" for g w
    unfolding db_put_def using assms by (intro keeps_io_write) (auto simp: row_is_def)
  ultimately show ?thesis
    unfolding record_pack_def forget_cached_packs_def by (intro keeps_intros keeps_putE) auto
qed

lemma keeps_copy_packs:
  assumes "\<And>f. k \<noteq> pack_index_prefix (owner r) (name r) @ f"
  shows "keeps (row_is h k v) (copy_packs src r)"
proof -
  have put: "keeps (row_is h k v) (os_put a b)" for a b
    unfolding os_put_def by (intro keeps_io_write) auto
  have "keeps (row_is h k v) (case w of None \<Rightarrow> failE (Message ''not found'') | Some b \<Rightarrow> os_put to b)" for w to
    by (cases w) (auto intro: keeps_intros put)
  then have "keeps (row_is h k v) (os_copy loc to)" for loc to
    unfolding os_copy_def by (intro keeps_bindE keeps_io_read) auto
  then have "keeps (row_is h k v) (copy_pack r m)" for m
    unfolding copy_pack_def
    by (cases m) (auto simp: Let_def intro!: keeps_bindE keeps_record_pack assms)
  then show ?thesis
    unfolding copy_packs_def os_list_def Let_def by (intro keeps_intros keeps_io_read) auto
qed

text \<open>A batch of writes with distinct keys.\<close>

lemma kv_get_puts_other:
  "k \<notin> fst ` set xs \<Longrightarrow> kv_get (apply_batch (map (\<lambda>(k, v). BPut k v) xs) db) k = kv_get db k"
  by (induction xs arbitrary: db) (auto simp: apply_batch_def)

lemma kv_get_puts:
  "distinct (map fst xs) \<Longrightarrow> (k, v) \<in> set xs \<Longrightarrow> kv_get (apply_batch (map (\<lambda>(k, v). BPut k v) xs) db) k = Some v"
proof (induction xs rule: rev_induct)
  case (snoc x xs)
  then show ?case by (cases x) (force simp: apply_batch_def)
qed simp

definition fork_target :: "string \<Rightarrow> string \<Rightarrow> repo" where
  "fork_target o1 n = \<lparr>owner = o1, name = n, objects_dir = [], pack_dir = []\<rparr>"

definition fork_rows :: "string \<Rightarrow> string \<Rightarrow> (string \<times> oid) list \<Rightarrow> (string \<times> bytes) list" where
  "fork_rows o1 n refs = (repo_key o1 n, []) # map (\<lambda>(rn, i). (ref_key_for o1 n rn, to_hex i)) refs"

text \<open>What a fork has at each stage: nothing yet, the source's files, or everything.\<close>

definition fork_start :: "repo \<Rightarrow> string \<Rightarrow> string \<Rightarrow> 'z world_scheme \<Rightarrow> 'z world_scheme \<Rightarrow> bool" where
  "fork_start src o1 n s t \<longleftrightarrow> pack_safe (fork_target o1 n) t \<and> row_is (repo_id o1 n) (repo_key o1 n) None t
     \<and> os t = os s \<and> the_db t (repo_id (owner src) (name src)) = the_db s (repo_id (owner src) (name src))"

definition fork_filed :: "repo \<Rightarrow> string \<Rightarrow> string \<Rightarrow> 'z world_scheme \<Rightarrow> 'z world_scheme \<Rightarrow> bool" where
  "fork_filed src o1 n s t \<longleftrightarrow> pack_safe (fork_target o1 n) t
     \<and> (\<forall>loc \<in> fst ` set (listing (s3_prefix src) s). present (s3_prefix (fork_target o1 n) @ ''/'' @ filename loc) t)"

definition fork_done :: "repo \<Rightarrow> string \<Rightarrow> string \<Rightarrow> (string \<times> oid) list \<Rightarrow> 'z world_scheme \<Rightarrow> 'z world_scheme \<Rightarrow> bool" where
  "fork_done src o1 n refs s t \<longleftrightarrow> fork_filed src o1 n s t \<and> row_is (repo_id o1 n) (repo_key o1 n) (Some []) t
     \<and> (\<forall>(rn, i) \<in> set refs. row_is (repo_id o1 n) (ref_key_for o1 n rn) (Some (to_hex i)) t)"

lemma fork_filed_frames [simp]:
  "fork_filed src o1 n s (t\<lparr>clock := c\<rparr>) = fork_filed src o1 n s t"
  "fork_filed src o1 n s (upd_db h id t) = fork_filed src o1 n s t"
  "fork_start src o1 n s (t\<lparr>clock := c\<rparr>) = fork_start src o1 n s t"
  "fork_start src o1 n s (upd_db h id t) = fork_start src o1 n s t"
  by (simp_all add: fork_filed_def fork_start_def)

lemma clock_free_fork [simp]:
  "clock_free (fork_start src o1 n s)" "clock_free (\<lambda>t. fork_filed src o1 n s t \<and> row_is h k v t)"
  by (simp_all add: clock_free_def)

lemma keeps_db_for:
  assumes "clock_free I" and "\<And>s. I s \<Longrightarrow> I (upd_db (repo_id o1 n) id s)"
  shows "keeps I (db_for o1 n)"
  unfolding triple_keeps by (rule triple_weaken [OF triple_db_for [OF assms]]) auto

lemma keeps_repo_exists:
  assumes "clock_free I" and "\<And>s. I s \<Longrightarrow> I (upd_db (repo_id o1 n) id s)"
  shows "keeps I (repo_exists o1 n)"
proof -
  have "keeps I (repo_db_exists o1 n)"
    using assms(1) by (auto simp: keeps_def repo_db_exists_def io_read_def io_step_def getE_def bindE_def clock_free_def
        split: option.splits)
  then show ?thesis
    unfolding repo_exists_def db_get_def using assms by (intro keeps_intros keeps_db_for keeps_io_read) auto
qed

lemma triple_list_refs:
  assumes "clock_free P" and "\<And>s. P s \<Longrightarrow> P (upd_db (repo_id (owner r) (name r)) id s)"
    and "\<And>s. P s \<Longrightarrow> the_db s (repo_id (owner r) (name r)) = db"
  shows "triple P (list_refs r)
    (\<lambda>refs s. P s \<and> (\<exists>rows. ref_rows (length (ref_prefix r)) (scan_prefix (ref_prefix r) db) = Inr rows \<and> refs = sort rows)) P"
  unfolding list_refs_def
proof (rule triple_bindE [OF triple_db_for [OF assms(1,2)]])
  fix h
  let ?R = "\<lambda>rows s. P s \<and> rows = scan_prefix (ref_prefix r) db"
  show "triple (\<lambda>s. P s \<and> h = repo_id (owner r) (name r)) (bindE (db_scan h (ref_prefix r)) (\<lambda>rows.
     bindE (liftE (ref_rows (length (ref_prefix r)) rows)) (\<lambda>out. returnE (sort out))))
    (\<lambda>refs s. P s \<and> (\<exists>rows. ref_rows (length (ref_prefix r)) (scan_prefix (ref_prefix r) db) = Inr rows \<and> refs = sort rows)) P"
  proof (rule triple_bindE [where R = ?R])
    show "triple (\<lambda>s. P s \<and> h = repo_id (owner r) (name r)) (db_scan h (ref_prefix r)) ?R P"
      unfolding db_scan_def using assms(1,3)
      by (intro triple_weaken [OF triple_io_read [where P = "\<lambda>s. P s \<and> h = repo_id (owner r) (name r)" and Q = ?R]])
        (auto simp: clock_free_def)
    fix rows
    show "triple (?R rows) (bindE (liftE (ref_rows (length (ref_prefix r)) rows)) (\<lambda>out. returnE (sort out)))
      (\<lambda>refs s. P s \<and> (\<exists>rows. ref_rows (length (ref_prefix r)) (scan_prefix (ref_prefix r) db) = Inr rows \<and> refs = sort rows)) P"
      by (auto simp: triple_def bindE_def split: sum.splits)
  qed
qed

lemma fork_rows_batch:
  "BPut (repo_key o1 n) [] # map (\<lambda>(rn, i). BPut (ref_key_for o1 n rn) (to_hex i)) refs
     = map (\<lambda>(k, v). BPut k v) (fork_rows o1 n refs)"
  by (simp add: fork_rows_def split_def)

lemma fork_rows_distinct: "distinct (map fst refs) \<Longrightarrow> distinct (map fst (fork_rows o1 n refs))"
  by (induction refs) (auto simp: fork_rows_def ref_key_for_def repo_key_def image_iff)

lemma fork_written:
  assumes "fork_filed src o1 n s t" and "distinct (map fst refs)"
  shows "fork_done src o1 n refs s (upd_db (repo_id o1 n)
    (apply_batch (BPut (repo_key o1 n) [] # map (\<lambda>(rn, i). BPut (ref_key_for o1 n rn) (to_hex i)) refs)) t)"
proof -
  let ?b = "apply_batch (map (\<lambda>(k, v). BPut k v) (fork_rows o1 n refs))"
  have no: "pack_index_prefix o1 n @ f \<notin> fst ` set (fork_rows o1 n refs)" for f
    by (auto simp: fork_rows_def ref_key_for_def repo_key_def pack_index_prefix_def)
  have "pack_row (fork_target o1 n) f (upd_db (repo_id o1 n) ?b t) = pack_row (fork_target o1 n) f t" for f
    using kv_get_puts_other [OF no] by (simp add: pack_row_def fork_target_def)
  then have "fork_filed src o1 n s (upd_db (repo_id o1 n) ?b t)"
    using assms(1) by (simp add: fork_filed_def pack_safe_def paired_def index_served_def)
  moreover have "kv_get (?b db) k = Some v" if "(k, v) \<in> set (fork_rows o1 n refs)" for k v db
    using kv_get_puts [OF fork_rows_distinct [OF assms(2)] that] .
  moreover have "(repo_key o1 n, []) \<in> set (fork_rows o1 n refs)"
    "\<And>rn i. (rn, i) \<in> set refs \<Longrightarrow> (ref_key_for o1 n rn, to_hex i) \<in> set (fork_rows o1 n refs)"
    by (auto simp: fork_rows_def)
  ultimately show ?thesis
    unfolding fork_rows_batch fork_done_def by (auto simp: row_is_def)
qed

lemma triple_fork_copy:
  "triple (fork_start src o1 n s) (copy_packs src (fork_target o1 n))
     (\<lambda>_ t. fork_filed src o1 n s t \<and> row_is (repo_id o1 n) (repo_key o1 n) None t)
     (\<lambda>t. pack_safe (fork_target o1 n) t \<and> row_is (repo_id o1 n) (repo_key o1 n) None t)"
proof (rule tripleI)
  have keep: "keeps (row_is (repo_id o1 n) (repo_key o1 n) None) (copy_packs src (fork_target o1 n))"
    by (rule keeps_copy_packs) (simp add: fork_target_def pack_key_other)
  fix u t assume st: "fork_start src o1 n s u"
  then have l: "listing (s3_prefix src) u = listing (s3_prefix src) s" and p: "pack_safe (fork_target o1 n) u"
    and r: "row_is (repo_id o1 n) (repo_key o1 n) None u"
    by (auto simp: fork_start_def listing_def)
  {
    fix x assume run: "copy_packs src (fork_target o1 n) u = (Inr x, t)"
    from copy_packs_outcome [OF p run] keepsD [OF keep r] run l
    show "fork_filed src o1 n s t \<and> row_is (repo_id o1 n) (repo_key o1 n) None t"
      by (auto simp: fork_filed_def)
  next
    fix e assume run: "copy_packs src (fork_target o1 n) u = (Inl e, t)"
    from copy_packs_outcome [OF p run] keepsD [OF keep r] run
    show "pack_safe (fork_target o1 n) t \<and> row_is (repo_id o1 n) (repo_key o1 n) None t" by auto
  }
qed

definition fork_end :: "repo \<Rightarrow> string \<Rightarrow> string \<Rightarrow> (string \<times> oid) list \<Rightarrow> 'z world_scheme \<Rightarrow> 'z world_scheme \<Rightarrow> bool" where
  "fork_end src o1 n refs s t \<longleftrightarrow> pack_safe (fork_target o1 n) t
     \<and> (row_is (repo_id o1 n) (repo_key o1 n) None t \<or> fork_done src o1 n refs s t)"

lemma fork_ends:
  "fork_start src o1 n s t \<Longrightarrow> fork_end src o1 n refs s t"
  "fork_filed src o1 n s t \<and> row_is (repo_id o1 n) (repo_key o1 n) None t \<Longrightarrow> fork_end src o1 n refs s t"
  "fork_done src o1 n refs s t \<Longrightarrow> fork_end src o1 n refs s t"
  by (simp_all add: fork_end_def fork_start_def fork_filed_def fork_done_def)

lemma fork_done_safe: "fork_done src o1 n refs s t \<Longrightarrow> pack_safe (fork_target o1 n) t"
  by (simp add: fork_done_def fork_filed_def)

lemma triple_fork_write:
  assumes "distinct (map fst refs)"
  shows "triple (\<lambda>t. (fork_filed src o1 n s t \<and> row_is (repo_id o1 n) (repo_key o1 n) None t) \<and> h = repo_id o1 n)
    (db_write h (BPut (repo_key o1 n) [] # map (\<lambda>(rn, i). BPut (ref_key_for o1 n rn) (to_hex i)) (sort refs)))
    (\<lambda>_. fork_done src o1 n refs s) (fork_end src o1 n refs s)"
proof -
  have "distinct (map fst (sort refs))" using assms by (simp add: distinct_map distinct_sort)
  then have w: "fork_done src o1 n refs s (upd_db (repo_id o1 n) (apply_batch (BPut (repo_key o1 n) []
      # map (\<lambda>(rn, i). BPut (ref_key_for o1 n rn) (to_hex i)) (sort refs))) t)" if "fork_filed src o1 n s t" for t :: "'a world_scheme"
    using fork_written [OF that] by (simp add: fork_done_def)
  show ?thesis
    unfolding db_write_def
    by (rule triple_io_write) (auto simp: clock_free_def intro: fork_ends w)
qed

lemma triple_fork:
  assumes refs: "ref_rows (length (ref_prefix src)) (scan_prefix (ref_prefix src) (the_db s (repo_id (owner src) (name src)))) = Inr refs"
    and "distinct (map fst refs)"
  shows "triple (fork_start src o1 n s) (fork src o1 n) (\<lambda>_. fork_done src o1 n refs s) (fork_end src o1 n refs s)"
proof -
  let ?P = "fork_start src o1 n s" and ?E = "fork_end src o1 n refs s"
  let ?F = "\<lambda>t. fork_filed src o1 n s t \<and> row_is (repo_id o1 n) (repo_key o1 n) None t"
  have ls: "triple ?P (list_refs src) (\<lambda>rs t. ?P t \<and> rs = sort refs) ?E"
    by (rule triple_weaken [OF triple_list_refs [where P = ?P and db = "the_db s (repo_id (owner src) (name src))"]])
      (auto simp: refs fork_start_def fork_end_def)
  have cp: "triple ?P (copy_packs src (fork_target o1 n)) (\<lambda>_. ?F) ?E"
    by (rule triple_weaken [OF triple_fork_copy]) (auto simp: fork_end_def)
  have op: "triple ?F (db_for o1 n) (\<lambda>h t. ?F t \<and> h = repo_id o1 n) ?E"
    by (rule triple_weaken [OF triple_db_for [where P = ?F]]) (auto intro: fork_ends)
  have rest: "triple (\<lambda>t. ?P t \<and> rs = sort refs) (bindE (copy_packs src (fork_target o1 n)) (\<lambda>_. bindE (db_for o1 n) (\<lambda>h.
      db_write h (BPut (repo_key o1 n) [] # map (\<lambda>(rn, i). BPut (ref_key_for o1 n rn) (to_hex i)) rs))))
      (\<lambda>_. fork_done src o1 n refs s) ?E" for rs
  proof (cases "rs = sort refs")
    case True
    have "triple ?P (bindE (copy_packs src (fork_target o1 n)) (\<lambda>_. bindE (db_for o1 n) (\<lambda>h.
      db_write h (BPut (repo_key o1 n) [] # map (\<lambda>(rn, i). BPut (ref_key_for o1 n rn) (to_hex i)) (sort refs)))))
      (\<lambda>_. fork_done src o1 n refs s) ?E"
      by (rule triple_bindE [OF cp], rule triple_bindE [OF op], rule triple_fork_write [OF assms(2)])
    with True show ?thesis by simp
  qed (simp add: triple_def)
  have "triple ?P (repo_exists o1 n) (\<lambda>_. ?P) ?P"
    unfolding triple_keeps [symmetric] by (rule keeps_repo_exists) simp_all
  then have ex: "triple ?P (repo_exists o1 n) (\<lambda>_. ?P) ?E" by (rule triple_weaken) (auto intro: fork_ends)
  have "triple ?P (if x then failE (Message ''repository already exists'') else bindE (list_refs src) (\<lambda>rs.
      bindE (copy_packs src (fork_target o1 n)) (\<lambda>_. bindE (db_for o1 n) (\<lambda>h.
      db_write h (BPut (repo_key o1 n) [] # map (\<lambda>(rn, i). BPut (ref_key_for o1 n rn) (to_hex i)) rs)))))
      (\<lambda>_. fork_done src o1 n refs s) ?E" for x
    using triple_bindE [OF ls rest] by (cases x) (auto intro: triple_failE fork_ends)
  from triple_bindE [OF ex this] show ?thesis
    unfolding fork_def fork_target_def [symmetric] by (auto intro: triple_failE fork_ends)
qed

text \<open>
  C22. A fork becomes visible only whole: wherever it stops, if the new repository's row is
  there then every pack file of the source is under the new repository and every reference of
  the source is among its references; and its pack index never names a missing file.
\<close>

theorem fork_publishes_whole:
  assumes run: "fork src o1 n s = (res, t)" and "pack_safe (fork_target o1 n) s"
    and "row_is (repo_id o1 n) (repo_key o1 n) None s"
    and refs: "ref_rows (length (ref_prefix src)) (scan_prefix (ref_prefix src) (the_db s (repo_id (owner src) (name src)))) = Inr refs"
    and "distinct (map fst refs)"
  shows "pack_safe (fork_target o1 n) t
    \<and> (fork_done src o1 n refs s t \<or> res \<noteq> Inr () \<and> row_is (repo_id o1 n) (repo_key o1 n) None t)"
proof -
  have "fork_start src o1 n s s" using assms(2,3) by (simp add: fork_start_def)
  from tripleD [OF triple_fork [OF refs assms(5)] this run]
  show ?thesis by (cases res) (auto simp: fork_end_def dest: fork_done_safe)
qed

definition fork_world :: world where
  "fork_world = (fresh_world [(''objects/alice/web/pack/p.pack'', ''d'')] []
     (\<lambda>k. if k = 7 then Some (Message ''timeout'') else None))
     \<lparr>dbs := [(''alice/web'', [(''ref/alice/web/refs/heads/main'', to_hex 7)])]\<rparr>"

theorem fork_publishes_whole_witness:
  "pack_safe (fork_target ''bob'' ''web'') (snd (fork web_repo ''bob'' ''web'' fork_world))"
proof (rule fork_publishes_whole [OF prod.collapse [symmetric], THEN conjunct1])
  show "pack_safe (fork_target ''bob'' ''web'') fork_world"
    by (auto simp: pack_safe_def paired_def index_served_def present_def pack_row_def the_db_def repo_id_def
        fork_target_def fork_world_def fresh_world_def dest: arg_cong [of _ _ rev])
  show "row_is (repo_id ''bob'' ''web'') (repo_key ''bob'' ''web'') None fork_world"
    by (simp add: row_is_def the_db_def fork_world_def repo_id_def)
  show "ref_rows (length (ref_prefix web_repo)) (scan_prefix (ref_prefix web_repo)
      (the_db fork_world (repo_id (owner web_repo) (name web_repo)))) = Inr [(''refs/heads/main'', 7)]"
    by (simp add: scan_prefix_def ref_prefix_def web_repo_def repo_id_def the_db_def fork_world_def parse_oid_def
        from_utf8_lossy_valid byte_of_def)
qed simp

text \<open>A repository that cannot be opened any more has no references left in its database.\<close>

definition gone :: "string \<Rightarrow> string \<Rightarrow> 'z world_scheme \<Rightarrow> bool" where
  "gone o1 n t \<longleftrightarrow> kv_ok (the_db t (repo_id o1 n)) \<and> row_is (repo_id o1 n) (repo_key o1 n) None t
     \<and> (\<forall>x. row_is (repo_id o1 n) (ref_key_for o1 n x) None t)"

definition whole :: "string \<Rightarrow> string \<Rightarrow> 'z world_scheme \<Rightarrow> bool" where
  "whole o1 n t \<longleftrightarrow> kv_ok (the_db t (repo_id o1 n))
     \<and> (row_is (repo_id o1 n) (repo_key o1 n) None t \<longrightarrow> gone o1 n t)"

lemma gone_frames [simp]:
  "gone o1 n (s\<lparr>clock := c\<rparr>) = gone o1 n s" "gone o1 n (s\<lparr>synced := y\<rparr>) = gone o1 n s"
  "gone o1 n (s\<lparr>os := x\<rparr>) = gone o1 n s" "gone o1 n (upd_db h id s) = gone o1 n s"
  "whole o1 n (s\<lparr>clock := c\<rparr>) = whole o1 n s" "whole o1 n (upd_db h id s) = whole o1 n s"
  "row_is h k v (s\<lparr>disk := d, dirs := e\<rparr>) = row_is h k v s"
  by (simp_all add: gone_def whole_def row_is_def the_db_def upd_db_def update_conv')

lemma gone_clock_free [simp]: "clock_free (gone o1 n)" "clock_free (whole o1 n)"
  by (simp_all add: clock_free_def)

lemma gone_whole: "gone o1 n t \<Longrightarrow> whole o1 n t"
  by (simp add: whole_def gone_def)

lemma kv_get_dels:
  "kv_ok db \<Longrightarrow> kv_get (apply_batch (map BDel ks) db) k = (if k \<in> set ks then None else kv_get db k)"
  by (induction ks arbitrary: db) (auto simp: apply_batch_def)

lemma gone_written:
  assumes "kv_ok (the_db t (repo_id o1 n))" and "the_db t (repo_id o1 n) = db"
  shows "gone o1 n (upd_db (repo_id o1 n) (apply_batch (map (\<lambda>(k, _). BDel k)
    (scan_prefix (''ref/'' @ o1 @ ''/'' @ n @ ''/'') db) @ [BDel (repo_key o1 n)])) t)"
proof -
  let ?rows = "scan_prefix (''ref/'' @ o1 @ ''/'' @ n @ ''/'') db"
  let ?ops = "map (\<lambda>(k, _). BDel k) ?rows @ [BDel (repo_key o1 n)]"
  have ops: "?ops = map BDel (map fst ?rows @ [repo_key o1 n])" by (simp add: split_def)
  have del: "kv_get (apply_batch ?ops db) k = (if k \<in> set (map fst ?rows @ [repo_key o1 n]) then None else kv_get db k)" for k
    unfolding ops by (rule kv_get_dels) (use assms in simp)
  have "kv_get (apply_batch ?ops db) (ref_key_for o1 n x) = None" for x
  proof (cases "kv_get db (ref_key_for o1 n x)")
    case (Some v)
    then have "(ref_key_for o1 n x, v) \<in> set (scan_prefix (''ref/'' @ o1 @ ''/'' @ n @ ''/'') db)"
      using assms by (simp add: kvs.scan_mem ref_key_for_def)
    then show ?thesis unfolding del by force
  next
    case None
    then show ?thesis unfolding del by simp
  qed
  moreover have "kv_get (apply_batch ?ops db) (repo_key o1 n) = None" unfolding del by simp
  ultimately show ?thesis using assms by (simp add: gone_def row_is_def)
qed

lemma gone_del: "gone o1 n t \<Longrightarrow> gone o1 n (upd_db h (kv_del k) t)"
  by (auto simp: gone_def row_is_def)

lemma keeps_gone_forget: "keeps (gone o1 n) (forget_pack o1 n f)"
proof -
  have "keeps (gone o1 n) (db_delete h k)" for h k
    unfolding db_delete_def by (intro keeps_io_write) (auto intro: gone_del)
  moreover have "keeps (gone o1 n) (db_for o1 n)" by (rule keeps_db_for) auto
  ultimately show ?thesis
    unfolding forget_pack_def forget_cached_packs_def by (intro keeps_intros keeps_putE) auto
qed

text \<open>The loop over a repository's objects: what it has removed stays removed, and nothing appears.\<close>

definition cleared_of :: "string \<Rightarrow> string \<Rightarrow> 'z world_scheme \<Rightarrow> string set \<Rightarrow> 'z world_scheme \<Rightarrow> bool" where
  "cleared_of o1 n u G t \<longleftrightarrow> gone o1 n t \<and> (\<forall>k. present k t \<longrightarrow> present k u) \<and> (\<forall>k \<in> G. \<not> present k t)"

lemma cleared_of_clock_free [simp]: "clock_free (cleared_of o1 n u G)"
  by (simp add: clock_free_def cleared_of_def)

lemma triple_delete_one:
  "triple (cleared_of o1 n u G) ((\<lambda>(loc, _). bindE (ignoreE (forget_pack o1 n (filename loc))) (\<lambda>_. os_delete loc)) m)
     (\<lambda>_. cleared_of o1 n u (insert (fst m) G)) (gone o1 n)"
proof -
  obtain loc sz where m: "m = (loc, sz)" by fastforce
  have f: "triple (cleared_of o1 n u G) (ignoreE (forget_pack o1 n (filename loc))) (\<lambda>_. cleared_of o1 n u G) (gone o1 n)"
  proof (rule triple_ignoreE)
    show "triple (cleared_of o1 n u G) (forget_pack o1 n (filename loc)) (\<lambda>_. cleared_of o1 n u G) (cleared_of o1 n u G)"
      using keepsD [OF keeps_gone_forget, of o1 n _ "filename loc"]
      by (auto simp: triple_both cleared_of_def present_def)
  qed
  have "triple (cleared_of o1 n u G) (os_delete loc) (\<lambda>_. cleared_of o1 n u (insert loc G)) (gone o1 n)"
    unfolding os_delete_def
    by (rule triple_io_write) (auto simp: cleared_of_def present_def delete_conv' split: if_splits)
  from triple_bindE [OF f this] show ?thesis by (simp add: m)
qed

lemma gone_disk:
  "gone o1 n (s\<lparr>disk := d, dirs := e\<rparr>) = gone o1 n s" "listing p (s\<lparr>disk := d, dirs := e\<rparr>) = listing p s"
  by (simp_all add: gone_def the_db_def listing_def)

lemma triple_delete_objects:
  "triple (gone o1 n) (delete_objects cache_dir o1 n)
     (\<lambda>_ t. gone o1 n t \<and> listing (''objects/'' @ o1 @ ''/'' @ n @ ''/pack'') t = []) (gone o1 n)"
  (is "triple ?P ?m ?Q ?P")
proof -
  let ?p = "''objects/'' @ o1 @ ''/'' @ n @ ''/pack''"
  let ?L = "\<lambda>locs t. \<exists>u. cleared_of o1 n u {} t \<and> locs = listing ?p u"
  let ?D = "\<lambda>locs t. \<exists>u. cleared_of o1 n u (fst ` set locs) t \<and> locs = listing ?p u"
  have ls: "triple ?P (os_list ?p) ?L ?P"
    unfolding os_list_def by (rule triple_io_read) (auto simp: cleared_of_def)
  have loop: "triple (?L locs) (forE locs (\<lambda>(loc, _). bindE (ignoreE (forget_pack o1 n (filename loc))) (\<lambda>_. os_delete loc)))
      (\<lambda>_. ?D locs) ?P" for locs
  proof -
    have "triple (cleared_of o1 n u {}) (forE locs (\<lambda>(loc, _). bindE (ignoreE (forget_pack o1 n (filename loc))) (\<lambda>_. os_delete loc)))
        (\<lambda>_. cleared_of o1 n u ({} \<union> fst ` set locs)) ?P" for u
      by (rule triple_forE_collect) (rule triple_delete_one)
    then show ?thesis by (fastforce simp: triple_def split: prod.splits sum.splits)
  qed
  have D: "?Q () t" if "?D locs t" for locs t
  proof -
    from that obtain u where u: "cleared_of o1 n u (fst ` set (listing ?p u)) t" by auto
    then have "fst ` set (listing ?p t) = {}"
      unfolding listing_keys by (auto simp: cleared_of_def)
    with u show ?thesis by (simp add: cleared_of_def)
  qed
  have dsk: "triple (?D locs) (ignoreE (io_write (\<lambda>s.
       s\<lparr>disk := filter (\<lambda>(p, _). \<not> prefix (cache_dir @ ''/'' @ o1 @ ''/'' @ n @ ''/'') p) (disk s),
         dirs := filter (\<lambda>p. p \<noteq> cache_dir @ ''/'' @ o1 @ ''/'' @ n
           \<and> \<not> prefix (cache_dir @ ''/'' @ o1 @ ''/'' @ n @ ''/'') p) (dirs s)\<rparr>))) ?Q ?P" for locs
  proof (rule triple_weaken [OF triple_ignoreE [where R = "?Q ()"]])
    show "triple (?Q ()) (io_write (\<lambda>s.
       s\<lparr>disk := filter (\<lambda>(p, _). \<not> prefix (cache_dir @ ''/'' @ o1 @ ''/'' @ n @ ''/'') p) (disk s),
         dirs := filter (\<lambda>p. p \<noteq> cache_dir @ ''/'' @ o1 @ ''/'' @ n
           \<and> \<not> prefix (cache_dir @ ''/'' @ o1 @ ''/'' @ n @ ''/'') p) (dirs s)\<rparr>)) (\<lambda>_. ?Q ()) (?Q ())"
      by (rule triple_io_write) (auto simp: clock_free_def gone_disk)
  qed (use D in auto)
  show ?thesis
    unfolding delete_objects_def
    by (rule triple_bindE [OF ls], rule triple_bindE [OF loop], rule dsk)
qed

lemma dbs_bump [simp]: "dbs (snd (bump_generation r s)) = dbs s"
  by (auto simp: bump_generation_def mem_get_def io_write_def io_step_def cset_def cdel_def Let_def
      split: cache_mode.splits option.splits prod.splits sum.splits)

definition deleted :: "string \<Rightarrow> string \<Rightarrow> 'z world_scheme \<Rightarrow> bool" where
  "deleted o1 n t \<longleftrightarrow> gone o1 n t \<and> map_of (dbs t) (repo_id o1 n) = None
     \<and> listing (''objects/'' @ o1 @ ''/'' @ n @ ''/pack'') t = []"

lemma triple_delete_db:
  "triple (\<lambda>t. gone o1 n t \<and> listing (''objects/'' @ o1 @ ''/'' @ n @ ''/pack'') t = []) (delete_repo_db o1 n)
     (\<lambda>_. deleted o1 n) (whole o1 n)"
proof -
  have away: "map_of (filter (\<lambda>(k, _). \<not> at_or_under k (repo_id o1 n)) m) (repo_id o1 n) = None" for m :: "(string \<times> kv) list"
    by (auto simp: map_of_eq_None_iff at_or_under_def)
  have "gone o1 n (t\<lparr>dbs := filter (\<lambda>(k, _). \<not> at_or_under k (repo_id o1 n)) (dbs t)\<rparr>)" for t :: "'a world_scheme"
    by (simp add: gone_def row_is_def the_db_def away)
  then show ?thesis
    unfolding delete_repo_db_def
    by (intro triple_io_write) (auto simp: clock_free_def deleted_def away listing_def intro: gone_whole)
qed

lemma triple_purge: "triple (deleted o1 n) (handleE (bump_generation r) (\<lambda>e. failE (h e))) (\<lambda>_. deleted o1 n) (whole o1 n)"
proof (rule triple_handleE)
  show "triple (deleted o1 n) (bump_generation r) (\<lambda>_. deleted o1 n) (deleted o1 n)"
    by (auto simp: triple_both deleted_def gone_def row_is_def the_db_def listing_def)
  show "triple (deleted o1 n) (failE (h e)) (\<lambda>_. deleted o1 n) (whole o1 n)" for e
    by (rule triple_failE) (simp add: deleted_def gone_whole)
qed

lemma whole_written:
  "whole o1 n t \<Longrightarrow> gone o1 n (upd_db (repo_id o1 n) (apply_batch (map (\<lambda>(k, _). BDel k)
    (scan_prefix (''ref/'' @ o1 @ ''/'' @ n @ ''/'') (the_db t (repo_id o1 n))) @ [BDel (repo_key o1 n)])) t)"
  by (rule gone_written) (auto simp: whole_def)

lemma triple_delete_rows:
  "triple (\<lambda>t. whole o1 n t \<and> h = repo_id o1 n) (bindE (db_scan h (''ref/'' @ o1 @ ''/'' @ n @ ''/'')) (\<lambda>rows.
     db_write h (map (\<lambda>(k, _). BDel k) rows @ [BDel (repo_key o1 n)]))) (\<lambda>_. gone o1 n) (whole o1 n)"
proof (cases "h = repo_id o1 n")
  case True
  let ?R = "\<lambda>rows t. whole o1 n t \<and> rows = scan_prefix (''ref/'' @ o1 @ ''/'' @ n @ ''/'') (the_db t h)"
  have sc: "triple (whole o1 n) (db_scan h (''ref/'' @ o1 @ ''/'' @ n @ ''/'')) ?R (whole o1 n)"
    unfolding db_scan_def by (rule triple_io_read) auto
  have wr: "triple (?R rows) (db_write h (map (\<lambda>(k, _). BDel k) rows @ [BDel (repo_key o1 n)])) (\<lambda>_. gone o1 n) (whole o1 n)" for rows
    unfolding db_write_def True
    by (intro triple_io_write) (auto simp: clock_free_def whole_written [simplified] gone_whole)
  from triple_bindE [OF sc wr] True show ?thesis by simp
qed (simp add: triple_def)

lemma triple_delete_repo:
  "triple (whole o1 n) (delete_repo cache_dir o1 n) (\<lambda>_ t. whole o1 n t \<and> map_of (dbs t) (repo_id o1 n) = None
     \<and> listing (''objects/'' @ o1 @ ''/'' @ n @ ''/pack'') t = []) (whole o1 n)"
proof -
  have ex: "triple (whole o1 n) (repo_exists o1 n) (\<lambda>_. whole o1 n) (whole o1 n)"
    unfolding triple_keeps [symmetric] by (rule keeps_repo_exists) simp_all
  have op: "triple (whole o1 n) (db_for o1 n) (\<lambda>h t. whole o1 n t \<and> h = repo_id o1 n) (whole o1 n)"
    by (rule triple_db_for) simp_all
  have objs: "triple (gone o1 n) (delete_objects cache_dir o1 n)
      (\<lambda>_ t. gone o1 n t \<and> listing (''objects/'' @ o1 @ ''/'' @ n @ ''/pack'') t = []) (whole o1 n)"
    by (rule triple_weaken [OF triple_delete_objects]) (auto intro: gone_whole)
  note tail = triple_bindE [OF objs triple_bindE [OF triple_delete_db triple_purge]]
  note rows = triple_bindE [OF triple_delete_rows tail, unfolded bindE_assoc]
  have "triple (whole o1 n) (delete_repo cache_dir o1 n) (\<lambda>_. deleted o1 n) (whole o1 n)"
    unfolding delete_repo_def
    by (rule triple_bindE [OF ex], rule triple_if, rule triple_failE, assumption, rule triple_bindE [OF op rows])
  then show ?thesis
    by (rule triple_weaken) (auto simp: deleted_def intro: gone_whole)
qed



section \<open>Setting and removing a rule\<close>

lemma decode_encode_protection [simp]: "decode_protection (pattern p) (encode_protection p) = p"
  by (cases p) (simp add: decode_protection_def encode_protection_def)

lemma pattern_decode [simp]: "pattern (decode_protection pat v) = pat"
  by (simp add: decode_protection_def)

lemma mem_rules_of:
  assumes "kv_ok db"
  shows "q \<in> set (rules_of o1 n db) \<longleftrightarrow>
    (\<exists>v. kv_get db (protect_key o1 n (pattern q)) = Some v \<and> utf8_valid (protect_key o1 n (pattern q))
       \<and> q = decode_protection (pattern q) v)"
proof -
  have key: "protect_key o1 n pat = protect_scan o1 n @ pat" for pat
    by (simp add: protect_key_def protect_scan_def)
  have row: "protection_row (protect_scan o1 n) (k, v) = Some q \<longleftrightarrow>
      utf8_valid k \<and> (\<exists>pat. k = protect_scan o1 n @ pat \<and> q = decode_protection pat v)" for k v
    by (auto simp: protection_row_def strip_prefix_Some)
  then have "protection_row (protect_scan o1 n) (k, v) = Some q \<Longrightarrow> prefix (protect_scan o1 n) k" for k v by auto
  then have "q \<in> set (rules_of o1 n db) \<longleftrightarrow> (\<exists>k v. kv_get db k = Some v \<and> protection_row (protect_scan o1 n) (k, v) = Some q)"
    using assms by (force simp: rules_of_def List.map_filter_def kvs.scan_mem)
  also have "\<dots> \<longleftrightarrow> (\<exists>pat v. kv_get db (protect_key o1 n pat) = Some v \<and> utf8_valid (protect_key o1 n pat) \<and> q = decode_protection pat v)"
    unfolding row key by blast
  finally show ?thesis by auto
qed

lemma protect_key_inj [simp]: "protect_key o1 n a = protect_key o1 n b \<longleftrightarrow> a = b"
  by (simp add: protect_key_def)

lemma db_change_result:
  assumes "bindE (db_for o1 n) (\<lambda>h. io_write (upd_db h f)) s = (Inr u, t)"
  shows "the_db t (repo_id o1 n) = f (the_db s (repo_id o1 n))"
proof -
  from assms obtain h s1 where d: "db_for o1 n s = (Inr h, s1)" and w: "io_write (upd_db h f) s1 = (Inr u, t)"
    by (auto elim!: bindE_InrE)
  from db_for_result [OF d] io_write_InrD [OF w] show ?thesis by auto
qed

text \<open>
  Setting a rule makes exactly that rule the one of its pattern, and removing one removes
  exactly it; every other rule of the repository stays as it was.
\<close>

theorem protection_rules_update:
  assumes "kv_ok (the_db s (repo_id o1 n))" and "utf8_valid (protect_key o1 n (pattern p))"
  shows "(set_protection o1 n p s = (Inr (), t) \<longrightarrow> set (rules_of o1 n (the_db t (repo_id o1 n)))
       = insert p {q \<in> set (rules_of o1 n (the_db s (repo_id o1 n))). pattern q \<noteq> pattern p})
    \<and> (remove_protection o1 n pat s = (Inr (), t) \<longrightarrow> set (rules_of o1 n (the_db t (repo_id o1 n)))
       = {q \<in> set (rules_of o1 n (the_db s (repo_id o1 n))). pattern q \<noteq> pat})"
proof -
  let ?db = "the_db s (repo_id o1 n)"
  have "set (rules_of o1 n (kv_put (protect_key o1 n (pattern p)) (encode_protection p) ?db))
      = insert p {q \<in> set (rules_of o1 n ?db). pattern q \<noteq> pattern p}" (is "?A = ?B")
  proof (rule set_eqI)
    fix x show "x \<in> ?A \<longleftrightarrow> x \<in> ?B"
      using assms by (cases "pattern x = pattern p") (auto simp: mem_rules_of)
  qed
  moreover have "set (rules_of o1 n (kv_del (protect_key o1 n pat) ?db)) = {q \<in> set (rules_of o1 n ?db). pattern q \<noteq> pat}"
    using assms by (auto simp: mem_rules_of split: if_splits)
  moreover have "the_db t (repo_id o1 n) = kv_put (protect_key o1 n (pattern p)) (encode_protection p) ?db"
    if "set_protection o1 n p s = (Inr (), t)"
    using that unfolding set_protection_def db_put_def by (elim bindE_InrE [of "liftE _"]) (simp, rule db_change_result)
  moreover have "the_db t (repo_id o1 n) = kv_del (protect_key o1 n pat) ?db"
    if "remove_protection o1 n pat s = (Inr (), t)"
    using that unfolding remove_protection_def db_delete_def by (elim bindE_InrE [of "liftE _"]) (simp, rule db_change_result)
  ultimately show ?thesis by simp
qed

theorem protection_rules_update_witness:
  "set (rules_of ''alice'' ''web'' (the_db (snd (set_protection ''alice'' ''web'' \<lparr>pattern = ''main'', no_force = True, no_delete = False\<rparr>
     (fresh_world [] [] (\<lambda>_. None)))) ''alice/web'')) = {\<lparr>pattern = ''main'', no_force = True, no_delete = False\<rparr>}"
proof -
  let ?p = "\<lparr>pattern = ''main'', no_force = True, no_delete = False\<rparr>"
  have f: "the_db (fresh_world [] [] (\<lambda>_. None)) h = []" "repo_id ''alice'' ''web'' = ''alice/web''" for h
    by (simp_all add: fresh_world_def the_db_def repo_id_def)
  have c: "check_pattern ''main'' = Inr ()"
    by (simp add: check_pattern_def trim_def trim_start_def trim_end_def white_spaces_def str_contains_def sublist_code
        starts_with_def strip_prefix_def strip_suffix_def suffix_to_prefix)
  have "set_protection ''alice'' ''web'' ?p (fresh_world [] [] (\<lambda>_. None))
      = (Inr (), snd (set_protection ''alice'' ''web'' ?p (fresh_world [] [] (\<lambda>_. None))))"
    by (simp add: set_protection_def c db_for_def db_put_def io_write_def bindE_def fresh_world_def Let_def)
  then show ?thesis
    using protection_rules_update [of "fresh_world [] [] (\<lambda>_. None)" "''alice''" "''web''" ?p]
    by (simp add: f protect_key_def PROTECT_PREFIX_def byte_of_def rules_of_def scan_prefix_def List.map_filter_simps)
qed

section \<open>Opening a repository\<close>

definition make_dir :: "string \<Rightarrow> ('z world_scheme, unit) io" where
  "make_dir d = io_write (\<lambda>s. s\<lparr>dirs := List.insert d (dirs s)\<rparr>)"

text \<open>
  Bringing the pack directory up to the index: the packs, then the indexes. The downloads of a
  batch run eight at a time in the code; they touch different files.
\<close>

definition sync_packs :: "(string \<Rightarrow> string) \<Rightarrow> repo \<Rightarrow> ('z world_scheme, (string \<times> nat) list) io" where
  "sync_packs tmp_name r =
     bindE (tryE (make_dir (pack_dir r))) (\<lambda>a.
     bindE (tryE (make_dir (objects_dir r @ ''/info''))) (\<lambda>b.
     bindE (liftE a) (\<lambda>_.
     bindE (liftE b) (\<lambda>_.
     bindE (pack_index (owner r) (name r)) (\<lambda>files.
     let packs = filter (\<lambda>(f, _). \<not> ends_with f ''.idx'') files;
         idxs = filter (\<lambda>(f, _). ends_with f ''.idx'') files
     in bindE (forE packs (\<lambda>(f, sz). fetch_pack_file tmp_name r f sz)) (\<lambda>_.
        bindE (forE idxs (\<lambda>(f, sz). fetch_pack_file tmp_name r f sz)) (\<lambda>_.
        returnE files)))))))"

text \<open>
  \<open>prune_stale_packs\<close> run on the pack directory: \<open>ages\<close> gives the age of a file, none when its
  time cannot be read. A file that cannot be removed is left.
\<close>

definition dir_entries :: "string \<Rightarrow> 'z world_scheme \<Rightarrow> string list" where
  "dir_entries d s = map (drop (Suc (length d))) (filter (\<lambda>p. prefix (d @ ''/'') p
     \<and> CHR ''/'' \<notin> set (drop (Suc (length d)) p)) (map fst (disk s)))"

definition prune_dir :: "(string \<Rightarrow> nat option) \<Rightarrow> repo \<Rightarrow> (string \<times> nat) list \<Rightarrow> ('z world_scheme, unit) io" where
  "prune_dir ages r files =
     (let marker = pack_dir r @ ''/.pruned'' in
     bindE (getE (\<lambda>s. if map_of (disk s) marker = None then None else ages ''.pruned'')) (\<lambda>age.
     if (case age of None \<Rightarrow> False | Some a \<Rightarrow> a < STALE_AFTER) then returnE ()
     else bindE (io_write (\<lambda>s. s\<lparr>disk := AList.update marker [] (disk s)\<rparr>)) (\<lambda>_.
          bindE (io_read (dir_entries (pack_dir r))) (\<lambda>names.
          forE (prune_stale_packs age (map (\<lambda>f. (f, ages f)) names) (map fst files)) (\<lambda>f.
            ignoreE (io_write (\<lambda>s. s\<lparr>disk := AList.delete (pack_dir r @ ''/'' @ f) (disk s)\<rparr>)))))))"

definition open_repo ::
    "string \<Rightarrow> (string \<Rightarrow> string) \<Rightarrow> (string \<Rightarrow> nat option) \<Rightarrow> int \<Rightarrow> string \<Rightarrow> string \<Rightarrow> ('z world_scheme, repo option) io" where
  "open_repo cache_dir tmp_name ages now_ms o1 n =
     (if \<not> valid_segment o1 \<or> \<not> valid_segment n then returnE None
      else bindE (repo_exists o1 n) (\<lambda>ex.
        if \<not> ex then returnE None
        else
          bindE (\<lambda>s. case reconcile_due (repo_id o1 n) (now s) (reconciled s) of
                   (due, m) \<Rightarrow> (Inr due, s\<lparr>reconciled := m\<rparr>)) (\<lambda>due.
          bindE (if due
                 then ignoreE (bindE (is_public o1 n) (\<lambda>p. reconcile_marker now_ms o1 n Repo p))
                 else returnE ()) (\<lambda>_.
          let objects = cache_dir @ ''/'' @ o1 @ ''/'' @ n @ ''/objects'';
              r = \<lparr>owner = o1, name = n, objects_dir = objects, pack_dir = objects @ ''/pack''\<rparr>
          in bindE (db_for o1 n) (\<lambda>h.
             bindE (getE (\<lambda>s. case map_of (synced s) (repo_id o1 n) of
                      Some (w, files) \<Rightarrow>
                        if w = handle_of s h \<and> pack_dir r \<in> set (dirs s) then Some files else None
                    | None \<Rightarrow> None)) (\<lambda>cached.
             bindE (case cached of
                      Some files \<Rightarrow> returnE files
                    | None \<Rightarrow> bindE (sync_packs tmp_name r) (\<lambda>files.
                        bindE (putE (\<lambda>s. s\<lparr>synced := AList.update (repo_id o1 n) (handle_of s h, files) (synced s)\<rparr>)) (\<lambda>_.
                        returnE files))) (\<lambda>files.
             bindE (ignoreE (prune_dir ages r files)) (\<lambda>_.
             returnE (Some r)))))))))"

text \<open>A file that is there for a reader: of the recorded size, or the whole object.\<close>

definition fetched :: "repo \<Rightarrow> (string \<times> bytes) list \<Rightarrow> string \<times> nat \<Rightarrow> 'z world_scheme \<Rightarrow> bool" where
  "fetched r objects fs t \<longleftrightarrow> (\<exists>b. map_of (disk t) (pack_dir r @ ''/'' @ fst fs) = Some b
     \<and> (length b = snd fs \<or> map_of objects (s3_prefix r @ ''/'' @ fst fs) = Some b))"

definition syncing :: "repo \<Rightarrow> (string \<times> bytes) list \<Rightarrow> (string \<times> nat) set \<Rightarrow> 'z world_scheme \<Rightarrow> bool" where
  "syncing r objects G t \<longleftrightarrow> os t = objects \<and> (\<forall>fs \<in> G. fetched r objects fs t)"

lemma triple_fetch:
  assumes "\<And>fs. fs \<in> insert m G \<Longrightarrow> fst fs \<noteq> tmp_name (fst m)" and "inj_on fst (insert m G)"
  shows "triple (syncing r objects G) ((\<lambda>(f, sz). fetch_pack_file tmp_name r f sz) m)
    (\<lambda>_. syncing r objects (insert m G)) (\<lambda>t. os t = objects)"
proof -
  obtain f sz where m: "m = (f, sz)" by fastforce
  have tmp: "tmp_name f \<noteq> f" using assms(1) [of m] m by auto
  have "os t = objects \<and> (res = Inr () \<longrightarrow> syncing r objects (insert m G) t)"
    if s: "syncing r objects G s" and run: "fetch_pack_file tmp_name r f sz s = (res, t)" for s t :: "'z world_scheme" and res
  proof -
    note o = fetch_outcome [OF tmp run]
    have os: "os t = objects" using o s by (simp add: fetch_left_def syncing_def)
    have "fetched r objects fs t" if "fs \<in> G" "fs \<noteq> m" for fs
    proof -
      have "fst fs \<noteq> f" using assms(2) that m by (auto simp: inj_on_def)
      moreover have "fst fs \<noteq> tmp_name f" using assms(1) [of fs] that m by simp
      ultimately have "map_of (disk t) (pack_dir r @ ''/'' @ fst fs) = map_of (disk s) (pack_dir r @ ''/'' @ fst fs)"
        using o by (simp add: fetch_left_def)
      with s that(1) show ?thesis by (simp add: syncing_def fetched_def)
    qed
    moreover have "fetched r objects m t" if "res = Inr ()"
      using o that s by (auto simp: fetched_def m syncing_def)
    ultimately show ?thesis using os by (auto simp: syncing_def)
  qed
  then show ?thesis unfolding m by (intro tripleI) auto
qed

lemma triple_fetch_all:
  assumes "inj_on fst F" and "\<And>f fs. fs \<in> F \<Longrightarrow> fst fs \<noteq> tmp_name f" and "set xs \<subseteq> F" and "G\<^sub>0 \<subseteq> F"
  shows "triple (syncing r objects G\<^sub>0) (forE xs (\<lambda>(f, sz). fetch_pack_file tmp_name r f sz))
    (\<lambda>_. syncing r objects (G\<^sub>0 \<union> set xs)) (\<lambda>t. os t = objects)"
proof -
  let ?I = "\<lambda>G t. G \<subseteq> F \<and> syncing r objects G t"
  have "triple (?I G\<^sub>0) (forE xs (\<lambda>(f, sz). fetch_pack_file tmp_name r f sz)) (\<lambda>_. ?I (G\<^sub>0 \<union> (\<lambda>m. m) ` set xs)) (\<lambda>t. os t = objects)"
  proof (rule triple_forE_collect)
    fix m G assume m: "m \<in> set xs"
    show "triple (?I G) ((\<lambda>(f, sz). fetch_pack_file tmp_name r f sz) m) (\<lambda>_. ?I (insert m G)) (\<lambda>t. os t = objects)"
    proof (cases "G \<subseteq> F")
      case True
      then have sub: "insert m G \<subseteq> F" using m assms(3) by auto
      have "triple (syncing r objects G) ((\<lambda>(f, sz). fetch_pack_file tmp_name r f sz) m)
          (\<lambda>_. syncing r objects (insert m G)) (\<lambda>t. os t = objects)"
      proof (rule triple_fetch)
        show "fst fs \<noteq> tmp_name (fst m)" if "fs \<in> insert m G" for fs
          using assms(2) [of fs] sub that by blast
        show "inj_on fst (insert m G)" by (rule inj_on_subset [OF assms(1) sub])
      qed
      with sub show ?thesis by simp
    qed (simp add: triple_def)
  qed
  then show ?thesis
    by (rule triple_weaken) (use assms(4) in auto)
qed

lemma os_record_pack [simp]: "os (snd (record_pack o1 n f sz s)) = os s"
  by (auto simp: record_pack_def forget_cached_packs_def putE_def db_for_def db_put_def bindE_def io_write_def Let_def
      split: option.splits)

lemma keeps_os_pack_index: "keeps (\<lambda>s. os s = objects) (pack_index o1 n)"
proof -
  have cf: "clock_free (\<lambda>s :: 'z world_scheme. os s = objects)" by (simp add: clock_free_def)
  have "keeps (\<lambda>s :: 'z world_scheme. os s = objects) (record_pack o1 n f sz)" for f sz by (simp add: keeps_def)
  then show ?thesis
    unfolding pack_index_def Let_def db_scan_def os_list_def
    by (intro keeps_intros keeps_io_read keeps_db_for cf) auto
qed


lemma make_dir_frame:
  "tryE (make_dir d) s = (res, t) \<Longrightarrow> os t = os s \<and> dbs t = dbs s \<and> disk t = disk s"
  by (auto simp: tryE_def make_dir_def io_write_def Let_def split: prod.splits option.splits if_splits)

lemma sync_packs_InrE:
  assumes "sync_packs tmp_name r s = (Inr files, t)"
  obtains u v w where "os u = os s" "dbs u = dbs s" "disk u = disk s" "pack_index (owner r) (name r) u = (Inr files, v)"
    "forE (filter (\<lambda>(f, _). \<not> ends_with f ''.idx'') files) (\<lambda>(f, sz). fetch_pack_file tmp_name r f sz) v = (Inr (), w)"
    "forE (filter (\<lambda>(f, _). ends_with f ''.idx'') files) (\<lambda>(f, sz). fetch_pack_file tmp_name r f sz) w = (Inr (), t)"
proof -
  obtain a s1 b s2 u where 1: "tryE (make_dir (pack_dir r)) s = (Inr a, s1)" "tryE (make_dir (objects_dir r @ ''/info'')) s1 = (Inr b, s2)"
    and u: "u = s2"
    and rest: "bindE (pack_index (owner r) (name r)) (\<lambda>files.
       let packs = filter (\<lambda>(f, _). \<not> ends_with f ''.idx'') files;
           idxs = filter (\<lambda>(f, _). ends_with f ''.idx'') files
       in bindE (forE packs (\<lambda>(f, sz). fetch_pack_file tmp_name r f sz)) (\<lambda>_.
          bindE (forE idxs (\<lambda>(f, sz). fetch_pack_file tmp_name r f sz)) (\<lambda>_.
          returnE files))) u = (Inr files, t)"
    using assms unfolding sync_packs_def liftE_def
    by (auto elim!: bindE_InrE simp: returnE_def failE_def split: sum.splits)
  from rest obtain fs v where v: "pack_index (owner r) (name r) u = (Inr fs, v)" and
    fetches: "bindE (forE (filter (\<lambda>(f, _). \<not> ends_with f ''.idx'') fs) (\<lambda>(f, sz). fetch_pack_file tmp_name r f sz)) (\<lambda>_.
       bindE (forE (filter (\<lambda>(f, _). ends_with f ''.idx'') fs) (\<lambda>(f, sz). fetch_pack_file tmp_name r f sz)) (\<lambda>_.
       returnE fs)) v = (Inr files, t)"
    unfolding Let_def by (rule bindE_InrE)
  then obtain w where "fs = files"
    "forE (filter (\<lambda>(f, _). \<not> ends_with f ''.idx'') fs) (\<lambda>(f, sz). fetch_pack_file tmp_name r f sz) v = (Inr (), w)"
    "forE (filter (\<lambda>(f, _). ends_with f ''.idx'') fs) (\<lambda>(f, sz). fetch_pack_file tmp_name r f sz) w = (Inr (), t)"
    by (auto elim!: bindE_InrE simp: returnE_def)
  with that [of u v w] v 1 u show thesis by (auto dest!: make_dir_frame)
qed

text \<open>
  C30. A repository opened for a reader has every pack file its index names. When bringing the
  directory up to date succeeds, the files it returns are the ones the pack index listed, and each
  of them is on disk, of the recorded size or equal to the stored object: no reader sees a listing
  it does not hold. Names are unique in the index, and no temporary name is the name of a listed
  file.
\<close>

theorem sync_packs_complete:
  fixes s :: "'z world_scheme"
  assumes run: "sync_packs tmp_name r s = (Inr files, t)" and "distinct (map fst files)"
    and tmp: "\<And>f fs. fs \<in> set files \<Longrightarrow> fst fs \<noteq> tmp_name f"
  shows "(\<forall>fs \<in> set files. fetched r (os s) fs t)
    \<and> (\<exists>u :: 'z world_scheme. os u = os s \<and> dbs u = dbs s \<and> fst (pack_index (owner r) (name r) u) = Inr files)"
proof -
  let ?F = "set files"
  let ?fetch = "\<lambda>(f, sz). fetch_pack_file tmp_name r f sz"
  have inj: "inj_on fst ?F" using assms(2) by (simp add: distinct_map)
  from run obtain u v w where u: "os u = os s" "dbs u = dbs s" "pack_index (owner r) (name r) u = (Inr files, v)"
    and packs: "forE (filter (\<lambda>(f, _). \<not> ends_with f ''.idx'') files) ?fetch v = (Inr (), w)"
    and idxs: "forE (filter (\<lambda>(f, _). ends_with f ''.idx'') files) ?fetch w = (Inr (), t)"
    by (rule sync_packs_InrE)
  have "os v = os s" using keeps_os_pack_index [of "os s" "owner r" "name r"] u by (auto simp: keeps_def)
  then have "syncing r (os s) {} v" by (simp add: syncing_def)
  with tripleD [OF triple_fetch_all [OF inj tmp] _ packs, of "{}" "os s"]
  have "syncing r (os s) (set (filter (\<lambda>(f, _). \<not> ends_with f ''.idx'') files)) w" by auto
  with tripleD [OF triple_fetch_all [OF inj tmp] _ idxs, of "set (filter (\<lambda>(f, _). \<not> ends_with f ''.idx'') files)" "os s"]
  have "syncing r (os s) (set (filter (\<lambda>(f, _). \<not> ends_with f ''.idx'') files) \<union> set (filter (\<lambda>(f, _). ends_with f ''.idx'') files)) t"
    by auto
  moreover have "set (filter (\<lambda>(f, _). \<not> ends_with f ''.idx'') files) \<union> set (filter (\<lambda>(f, _). ends_with f ''.idx'') files) = ?F"
    by auto
  ultimately have "syncing r (os s) ?F t" by metis
  then have "\<forall>fs \<in> ?F. fetched r (os s) fs t" by (simp add: syncing_def)
  moreover have "fst (pack_index (owner r) (name r) u) = Inr files" using u(3) by simp
  ultimately show ?thesis using u(1,2) by blast
qed

definition synced_world :: world where
  "synced_world = snd (sync_packs (\<lambda>f. ''.'' @ f @ ''.7.0.tmp'') web_repo
     (fresh_world [(''objects/alice/web/pack/p.pack'', ''data''), (''objects/alice/web/pack/p.idx'', ''ix'')] [] (\<lambda>_. None)))"

theorem sync_packs_complete_witness:
  "fetched web_repo [(''objects/alice/web/pack/p.pack'', ''data''), (''objects/alice/web/pack/p.idx'', ''ix'')] (''p.idx'', 2) synced_world
   \<and> fetched web_repo [(''objects/alice/web/pack/p.pack'', ''data''), (''objects/alice/web/pack/p.idx'', ''ix'')] (''p.pack'', 4) synced_world"
proof -
  have "sync_packs (\<lambda>f. ''.'' @ f @ ''.7.0.tmp'') web_repo
     (fresh_world [(''objects/alice/web/pack/p.pack'', ''data''), (''objects/alice/web/pack/p.idx'', ''ix'')] [] (\<lambda>_. None))
     = (Inr [(''p.idx'', 2), (''p.pack'', 4)], synced_world)"
    unfolding synced_world_def by (rule prod_eqI, simp_all only: fst_conv snd_conv) code_simp
  moreover have "fst fs \<noteq> ''.'' @ f @ ''.7.0.tmp''" if "fs \<in> set [(''p.idx'', 2), (''p.pack'', 4)]" for f and fs :: "string \<times> nat"
    using that by auto
  ultimately show ?thesis
    using sync_packs_complete [of "\<lambda>f. ''.'' @ f @ ''.7.0.tmp''" web_repo
      "fresh_world [(''objects/alice/web/pack/p.pack'', ''data''), (''objects/alice/web/pack/p.idx'', ''ix'')] [] (\<lambda>_. None)"
      "[(''p.idx'', 2), (''p.pack'', 4)]" synced_world]
    by (simp add: fresh_world_def)
qed

end
