(* ===== verification/Lease.thy ===== *)
theory Lease
  imports Kv
begin

text \<open>
  The leader lease and the election: \<open>crates/storage/src/ownership/lease.rs\<close> and the election of
  \<open>crates/app/src/election.rs\<close>. One object of the store says who leads. It is written with
  conditional puts only; every node runs the beat of \<open>election_tick\<close> and, on its way out,
  \<open>resign\<close>. Both are cut here into the pieces between two awaits, as functions of a program
  counter; \<open>fleet_step\<close> interleaves the pieces of all nodes in any order, with the clock, with
  restarts and with demotions by a fenced write, and any call to the store may fail, its effect
  landed or not.
  The version of an object is what the store calls its e-tag. The weakest promise a store gives
  is that equal tags mean equal contents, and the model takes the tag to be the contents: what
  holds here holds for stores with content hashes and for those with counters.
  The nodes share one clock that does not run backwards. An epoch counts takeovers and is
  taken not to reach \<open>2 ^ 64\<close>.
\<close>

section \<open>The lease\<close>

record lease =
  lnode :: string
  lepoch :: nat
  lexpires :: nat

record held =
  hlease :: lease
  hversion :: bytes

definition LEADER_TTL :: nat where "LEADER_TTL = 10000"
definition LEADER_RENEW :: nat where "LEADER_RENEW = 3000"

definition lease_expired :: "lease \<Rightarrow> nat \<Rightarrow> bool" where
  "lease_expired l now_ms \<longleftrightarrow> now_ms \<ge> lexpires l"

abbreviation newline :: char where "newline \<equiv> CHR 0x0A"

text \<open>The name of a node holds no newline: \<open>encode\<close> asserts it.\<close>

definition encode_lease :: "lease \<Rightarrow> bytes" where
  "encode_lease l = lnode l @ newline # to_decimal (lepoch l) @ newline # to_decimal (lexpires l)"

definition decode_lease :: "bytes \<Rightarrow> error + lease" where
  "decode_lease b =
     (if \<not> utf8_valid b then Inl (Message ''leader lease: invalid utf-8'')
      else case split_on newline b of
        [n, e, x] \<Rightarrow>
          (case parse_u64 e of
             None \<Rightarrow> Inl (Message ''leader lease: bad epoch'')
           | Some e \<Rightarrow>
               (case parse_u64 x of
                  None \<Rightarrow> Inl (Message ''leader lease: bad expires_ms'')
                | Some x \<Rightarrow> Inr \<lparr>lnode = n, lepoch = e, lexpires = x\<rparr>))
      | _ \<Rightarrow> Inl (Message ''leader lease: malformed''))"

section \<open>Nodes and the state they share\<close>

text \<open>
  The role of a node towards the ownership map. A writer holds the number of its handle: the
  database counts the writers that opened it, and only the last one may write.
\<close>

datatype role = Solo | Reader bool | Writer nat

record app =
  leader :: "string option"
  leader_epoch :: nat
  lease_seen_ms :: nat
  lease_expires_ms :: nat
  held_expires_ms :: nat
  retiring :: bool
  draining :: bool
  role :: role

record fleet = io_env +
  wall :: nat
  lobj :: "bytes option"
  omap :: kv
  owriter :: nat
  nodes :: "string \<Rightarrow> app"

definition upd_node :: "string \<Rightarrow> (app \<Rightarrow> app) \<Rightarrow> fleet \<Rightarrow> fleet" where
  "upd_node n f s = s\<lparr>nodes := (nodes s)(n := f (nodes s n))\<rparr>"

definition new_app :: app where
  "new_app = \<lparr>leader = None, leader_epoch = 0, lease_seen_ms = 0, lease_expires_ms = 0,
     held_expires_ms = 0, retiring = False, draining = False, role = Reader False\<rparr>"

section \<open>Reading and writing the lease\<close>

datatype put_mode = Create | Update bytes

definition mode_ok :: "put_mode \<Rightarrow> bytes option \<Rightarrow> bool" where
  "mode_ok mode cur = (case mode of Create \<Rightarrow> cur = None | Update v \<Rightarrow> cur = Some v)"

definition put_opts :: "put_mode \<Rightarrow> bytes \<Rightarrow> (fleet, bool) io" where
  "put_opts mode b =
     (\<lambda>s. let t = s\<lparr>clock := Suc (clock s)\<rparr>;
              ok = mode_ok mode (lobj s);
              written = (if ok then t\<lparr>lobj := Some b\<rparr> else t)
          in case faults s (clock s) of
               None \<Rightarrow> (Inr ok, written)
             | Some e \<Rightarrow> (Inl e, if landed s (clock s) then written else t))"

definition lease_read :: "(fleet, held option) io" where
  "lease_read =
     bindE (io_read lobj) (\<lambda>v.
     case v of
       None \<Rightarrow> returnE None
     | Some b \<Rightarrow> bindE (liftE (decode_lease b)) (\<lambda>l. returnE (Some \<lparr>hlease = l, hversion = b\<rparr>)))"

definition lease_put :: "lease \<Rightarrow> put_mode \<Rightarrow> (fleet, held option) io" where
  "lease_put l mode =
     (if newline \<in> set (lnode l) then failE (Message ''node name must not contain a newline'')
      else bindE (put_opts mode (encode_lease l)) (\<lambda>won.
           returnE (if won then Some \<lparr>hlease = l, hversion = encode_lease l\<rparr> else None)))"

definition lease_take :: "string \<Rightarrow> nat \<Rightarrow> held option \<Rightarrow> (fleet, held option) io" where
  "lease_take n now_ms current =
     (case current of
        None \<Rightarrow> lease_put \<lparr>lnode = n, lepoch = 1, lexpires = now_ms + LEADER_TTL\<rparr> Create
      | Some c \<Rightarrow>
          if \<not> lease_expired (hlease c) now_ms \<and> lnode (hlease c) \<noteq> n then returnE None
          else lease_put \<lparr>lnode = n, lepoch = lepoch (hlease c) + 1, lexpires = now_ms + LEADER_TTL\<rparr>
                 (Update (hversion c)))"

definition lease_renew :: "held \<Rightarrow> nat \<Rightarrow> (fleet, held option) io" where
  "lease_renew h now_ms = lease_put ((hlease h)\<lparr>lexpires := now_ms + LEADER_TTL\<rparr>) (Update (hversion h))"

definition lease_release :: "held \<Rightarrow> (fleet, held option) io" where
  "lease_release h = lease_put ((hlease h)\<lparr>lexpires := 0\<rparr>) (Update (hversion h))"

section \<open>Leading\<close>

definition is_leader :: "string \<Rightarrow> fleet \<Rightarrow> bool" where
  "is_leader n s \<longleftrightarrow> leader_epoch (nodes s n) \<noteq> 0"

definition leader_live :: "string \<Rightarrow> fleet \<Rightarrow> bool" where
  "leader_live n s \<longleftrightarrow> is_leader n s
     \<or> wall s - lease_seen_ms (nodes s n) < LEADER_TTL \<and> wall s < lease_expires_ms (nodes s n)"

definition leaderless_too_long :: "string \<Rightarrow> fleet \<Rightarrow> bool" where
  "leaderless_too_long n s \<longleftrightarrow> \<not> leader_live n s \<and> lease_expires_ms (nodes s n) \<noteq> 0
     \<and> wall s - lease_expires_ms (nodes s n) > 2 * LEADER_TTL"

definition note_live :: "string \<Rightarrow> lease \<Rightarrow> fleet \<Rightarrow> fleet" where
  "note_live n l s = upd_node n (\<lambda>x. x\<lparr>leader := Some (lnode l), lease_seen_ms := wall s, lease_expires_ms := lexpires l\<rparr>) s"

text \<open>\<open>OwnershipStore::promote\<close>: opening the map as writer fences whoever wrote it before.\<close>

definition map_promote :: "string \<Rightarrow> (fleet, unit) io" where
  "map_promote n =
     bindE (getE (\<lambda>s. role (nodes s n))) (\<lambda>r.
     case r of
       Solo \<Rightarrow> returnE ()
     | Writer _ \<Rightarrow> returnE ()
     | Reader _ \<Rightarrow>
         bindE (io_write (\<lambda>s. s\<lparr>owriter := Suc (owriter s)\<rparr>)) (\<lambda>_.
         putE (\<lambda>s. upd_node n (\<lambda>x. x\<lparr>role := Writer (owriter s)\<rparr>) s)))"

text \<open>An open that is dropped half way leaves no handle here, but may have fenced the old writer.\<close>

definition cancel_open :: "string \<Rightarrow> fleet \<Rightarrow> fleet" where
  "cancel_open n s = (case role (nodes s n) of
     Reader _ \<Rightarrow> if landed s (clock s) then s\<lparr>owriter := Suc (owriter s)\<rparr> else s
   | _ \<Rightarrow> s)"

definition map_demote :: "app \<Rightarrow> app" where
  "map_demote x = (case role x of Writer _ \<Rightarrow> x\<lparr>role := Reader False\<rparr> | _ \<Rightarrow> x)"

definition demote_locked :: "string \<Rightarrow> fleet \<Rightarrow> fleet" where
  "demote_locked n s =
     (if \<not> is_leader n s then s
      else upd_node n (\<lambda>x. map_demote (x\<lparr>leader_epoch := 0, held_expires_ms := 0, leader := None\<rparr>)) s)"

text \<open>The end of \<open>promote\<close>: the writer is open, the epoch is published.\<close>

definition publish :: "string \<Rightarrow> held \<Rightarrow> fleet \<Rightarrow> fleet" where
  "publish n cur s = note_live n (hlease cur) (upd_node n (\<lambda>x. x\<lparr>leader_epoch := lepoch (hlease cur),
     held_expires_ms := lexpires (hlease cur)\<rparr>) s)"

section \<open>One beat of the election, piece by piece\<close>

text \<open>
  The counter says what the beat does next; \<open>AtDemote\<close> waits for the leader lock. \<open>Opening\<close>
  and \<open>Opened\<close> hold it.
\<close>

datatype tick_pc =
    Idle
  | AtDemote tick_pc
  | AtRead nat
  | AtDecide nat "held option"
  | AtNote lease
  | AtPromote held
  | AtGiveBack held
  | Opening held
  | Opened held

definition election_decide :: "string \<Rightarrow> nat \<Rightarrow> held option \<Rightarrow> fleet \<Rightarrow> tick_pc \<times> fleet" where
  "election_decide n now_ms cur s =
     (case cur of
        Some c \<Rightarrow>
          if \<not> lease_expired (hlease c) now_ms \<and> lnode (hlease c) = n then
            (case lease_renew c now_ms s of
               (Inr (Some h), t) \<Rightarrow> (AtPromote h, t)
             | (Inr None, t) \<Rightarrow> (AtDemote Idle, t)
             | (Inl _, t) \<Rightarrow> (Idle, t))
          else if \<not> lease_expired (hlease c) now_ms then
            (if is_leader n s then AtDemote (AtNote (hlease c)) else AtNote (hlease c), s)
          else (case lease_take n now_ms cur s of
                  (Inr (Some h), t) \<Rightarrow> (AtPromote h, t)
                | (_, t) \<Rightarrow> (Idle, t))
      | None \<Rightarrow>
          (case lease_take n now_ms None s of
             (Inr (Some h), t) \<Rightarrow> (AtPromote h, t)
           | (_, t) \<Rightarrow> (Idle, t)))"

text \<open>
  While the map opens, either the open finishes (\<open>opened\<close>) or three seconds pass and the lease
  is renewed.
\<close>

definition promote_wait :: "string \<Rightarrow> bool \<Rightarrow> held \<Rightarrow> fleet \<Rightarrow> tick_pc \<times> fleet" where
  "promote_wait n opened cur s =
     (if opened then
        (case map_promote n s of
           (Inr _, t) \<Rightarrow> (Opened cur, t)
         | (Inl _, t) \<Rightarrow> (Idle, demote_locked n t))
      else (case lease_renew cur (wall s) s of
              (Inr (Some h), t) \<Rightarrow> (Opening h, t)
            | (_, t) \<Rightarrow> (Idle, demote_locked n (cancel_open n t))))"

fun tick_seg :: "string \<Rightarrow> bool \<Rightarrow> tick_pc \<Rightarrow> fleet \<Rightarrow> tick_pc \<times> fleet" where
  "tick_seg n opened Idle s =
     (if role (nodes s n) = Solo \<or> retiring (nodes s n) \<or> draining (nodes s n) then (Idle, s)
      else if is_leader n s \<and> wall s \<ge> held_expires_ms (nodes s n) then (AtDemote (AtRead (wall s)), s)
      else (AtRead (wall s), s))"
| "tick_seg n opened (AtDemote pc) s = (pc, demote_locked n s)"
| "tick_seg n opened (AtRead now_ms) s =
     (case lease_read s of (Inr cur, t) \<Rightarrow> (AtDecide now_ms cur, t) | (Inl _, t) \<Rightarrow> (Idle, t))"
| "tick_seg n opened (AtDecide now_ms cur) s = election_decide n now_ms cur s"
| "tick_seg n opened (AtNote l) s = (Idle, note_live n l s)"
| "tick_seg n opened (AtPromote h) s = (if retiring (nodes s n) then AtGiveBack h else Opening h, s)"
| "tick_seg n opened (AtGiveBack h) s = (Idle, snd (lease_release h s))"
| "tick_seg n opened (Opening cur) s = promote_wait n opened cur s"
| "tick_seg n opened (Opened cur) s = (Idle, publish n cur s)"

text \<open>The beat as a whole, on its own: the map takes \<open>waits\<close> renewals to open.\<close>

fun run_tick :: "nat \<Rightarrow> string \<Rightarrow> nat \<Rightarrow> tick_pc \<Rightarrow> fleet \<Rightarrow> tick_pc \<times> fleet" where
  "run_tick 0 n waits pc s = (pc, s)"
| "run_tick (Suc k) n waits pc s =
     (case tick_seg n (waits = 0) pc s of
        (pc', t) \<Rightarrow>
          if pc' = Idle then (Idle, t)
          else run_tick k n (case pc of Opening _ \<Rightarrow> waits - 1 | _ \<Rightarrow> waits) pc' t)"

definition election_tick :: "string \<Rightarrow> nat \<Rightarrow> fleet \<Rightarrow> tick_pc \<times> fleet" where
  "election_tick n waits s = run_tick (waits + 9) n waits Idle s"

section \<open>Resigning\<close>

datatype resign_pc = RIdle | RCheck | RRelease held | RDemote

fun resign_seg :: "string \<Rightarrow> resign_pc \<Rightarrow> fleet \<Rightarrow> resign_pc \<times> fleet" where
  "resign_seg n RIdle s = (RCheck, upd_node n (\<lambda>x. x\<lparr>retiring := True\<rparr>) s)"
| "resign_seg n RCheck s =
     (if is_leader n s \<and> role (nodes s n) \<noteq> Solo then
        (case lease_read s of
           (Inr (Some c), t) \<Rightarrow> (if lnode (hlease c) = n then RRelease c else RDemote, t)
         | (_, t) \<Rightarrow> (RDemote, t))
      else (RDemote, s))"
| "resign_seg n (RRelease c) s = (RDemote, snd (lease_release c s))"
| "resign_seg n RDemote s = (RIdle, demote_locked n s)"

section \<open>The fleet\<close>

fun holds_lock :: "tick_pc \<Rightarrow> bool" where
  "holds_lock (Opening h) = True"
| "holds_lock (Opened h) = True"
| "holds_lock _ = False"

record threads =
  ticks :: "string \<Rightarrow> tick_pc"
  resigns :: "string \<Rightarrow> resign_pc"

inductive fleet_step :: "fleet \<times> threads \<Rightarrow> fleet \<times> threads \<Rightarrow> bool" where
  tick: "tick_seg n opened (ticks p n) s = (pc, t) \<Longrightarrow>
    fleet_step (s, p) (t, p\<lparr>ticks := (ticks p)(n := pc)\<rparr>)"
| resign: "resigns p n = RDemote \<longrightarrow> \<not> holds_lock (ticks p n) \<Longrightarrow> resign_seg n (resigns p n) s = (rc, t) \<Longrightarrow>
    fleet_step (s, p) (t, p\<lparr>resigns := (resigns p)(n := rc)\<rparr>)"
| fenced: "\<not> holds_lock (ticks p n) \<Longrightarrow> fleet_step (s, p) (demote_locked n s, p)"
| drain: "fleet_step (s, p) (upd_node n (\<lambda>x. x\<lparr>draining := True\<rparr>) s, p)"
| restart: "fleet_step (s, p) (upd_node n (\<lambda>_. new_app) s,
    p\<lparr>ticks := (ticks p)(n := Idle), resigns := (resigns p)(n := RIdle)\<rparr>)"
| pass: "fleet_step (s, p) (s\<lparr>wall := wall s + d\<rparr>, p)"

definition fleet_start :: "fleet \<times> threads \<Rightarrow> bool" where
  "fleet_start = (\<lambda>(s, p). lobj s = None \<and> (\<forall>n. nodes s n = new_app)
     \<and> (\<forall>n. ticks p n = Idle) \<and> (\<forall>n. resigns p n = RIdle))"

inductive fleet_reach :: "fleet \<times> threads \<Rightarrow> bool" where
  start: "fleet_start x \<Longrightarrow> fleet_reach x"
| step: "fleet_reach x \<Longrightarrow> fleet_step x y \<Longrightarrow> fleet_reach y"

section \<open>The text of a lease\<close>

lemma newline_decimal [simp]: "newline \<notin> set (to_decimal k)"
  using set_to_radix [of 10 k] by auto

lemma split_encode_lease:
  "newline \<notin> set (lnode l) \<Longrightarrow>
   split_on newline (encode_lease l) = [lnode l, to_decimal (lepoch l), to_decimal (lexpires l)]"
  by (simp add: encode_lease_def split_on_append split_on_id)

lemma encode_lease_inj:
  assumes "newline \<notin> set (lnode l)" "newline \<notin> set (lnode l')" "encode_lease l = encode_lease l'"
  shows "l = l'"
proof -
  have "split_on newline (encode_lease l) = split_on newline (encode_lease l')" using assms(3) by simp
  then show ?thesis using assms(1,2) by (simp add: split_encode_lease to_radix_inj)
qed

lemma decode_encode_lease:
  assumes "newline \<notin> set (lnode l)" and "decode_lease (encode_lease l) = Inr l'"
  shows "l' = l"
proof -
  have val: "k' = k" if "parse_u64 (to_decimal k) = Some k'" for k k'
  proof -
    have "hd (to_decimal k) \<noteq> CHR ''+''" using to_radix_ascii [of 10 "hd (to_decimal k)" k] by simp
    then show ?thesis using that
      by (auto simp: from_str_radix_def digits_value_to_radix split: if_splits)
  qed
  from assms show ?thesis
    by (auto simp: decode_lease_def split_encode_lease dest!: val split: if_splits option.splits)
qed

section \<open>What the lease promises each node\<close>

text \<open>
  The object holds the lease \<open>l\<close>. A claim of node \<open>n\<close> to lead under epoch \<open>e\<close> until \<open>x\<close> is
  covered when \<open>x\<close> has passed or the object says at least as much. Its epoch is no later than
  the one of the object, and if it is that one the object names \<open>n\<close>.
\<close>

definition lease_at :: "fleet \<Rightarrow> lease \<Rightarrow> bool" where
  "lease_at s l \<longleftrightarrow> lobj s = Some (encode_lease l) \<and> newline \<notin> set (lnode l)"

definition stored_ok :: "fleet \<Rightarrow> bool" where
  "stored_ok s \<longleftrightarrow> lobj s = None \<or> (\<exists>l. lease_at s l \<and> lexpires l \<le> wall s + LEADER_TTL)"

definition covered :: "string \<Rightarrow> nat \<Rightarrow> nat \<Rightarrow> fleet \<Rightarrow> bool" where
  "covered n e x s \<longleftrightarrow> x \<le> wall s \<or> (\<exists>l. lease_at s l \<and> lnode l = n \<and> lepoch l = e \<and> x \<le> lexpires l)"

definition token_ok :: "string \<Rightarrow> nat \<Rightarrow> fleet \<Rightarrow> bool" where
  "token_ok n e s \<longleftrightarrow> (\<exists>l. lease_at s l \<and> e \<le> lepoch l \<and> (e = lepoch l \<longrightarrow> lnode l = n))"

definition held_ok :: "held \<Rightarrow> bool" where
  "held_ok h \<longleftrightarrow> hversion h = encode_lease (hlease h) \<and> newline \<notin> set (lnode (hlease h))"

text \<open>What is known at each point of the beat, and of a resignation.\<close>

fun pc_ok :: "string \<Rightarrow> tick_pc \<Rightarrow> fleet \<Rightarrow> bool" where
  "pc_ok n Idle s = True"
| "pc_ok n (AtDemote pc) s = pc_ok n pc s"
| "pc_ok n (AtRead now_ms) s \<longleftrightarrow> now_ms \<le> wall s
     \<and> (\<forall>l. lease_at s l \<and> lnode l = n \<longrightarrow> lexpires l \<le> now_ms + LEADER_TTL)"
| "pc_ok n (AtDecide now_ms cur) s \<longleftrightarrow> now_ms \<le> wall s
     \<and> (\<forall>c. cur = Some c \<longrightarrow> held_ok c \<and> (lnode (hlease c) = n \<longrightarrow> lexpires (hlease c) \<le> now_ms + LEADER_TTL))"
| "pc_ok n (AtNote l) s = True"
| "pc_ok n (AtPromote h) s \<longleftrightarrow> held_ok h \<and> lnode (hlease h) = n \<and> token_ok n (lepoch (hlease h)) s
     \<and> (retiring (nodes s n) \<or> covered n (lepoch (hlease h)) (lexpires (hlease h)) s)"
| "pc_ok n (AtGiveBack h) s \<longleftrightarrow> held_ok h \<and> lnode (hlease h) = n \<and> retiring (nodes s n)"
| "pc_ok n (Opening h) s \<longleftrightarrow> held_ok h \<and> lnode (hlease h) = n \<and> token_ok n (lepoch (hlease h)) s
     \<and> (retiring (nodes s n) \<or> covered n (lepoch (hlease h)) (lexpires (hlease h)) s)"
| "pc_ok n (Opened h) s \<longleftrightarrow> held_ok h \<and> lnode (hlease h) = n \<and> token_ok n (lepoch (hlease h)) s
     \<and> (retiring (nodes s n) \<or> covered n (lepoch (hlease h)) (lexpires (hlease h)) s)"

fun rc_ok :: "string \<Rightarrow> resign_pc \<Rightarrow> fleet \<Rightarrow> bool" where
  "rc_ok n RIdle s = True"
| "rc_ok n (RRelease c) s \<longleftrightarrow> retiring (nodes s n) \<and> held_ok c \<and> lnode (hlease c) = n"
| "rc_ok n _ s = retiring (nodes s n)"

fun pc_epochs :: "tick_pc \<Rightarrow> nat set" where
  "pc_epochs (AtPromote h) = {lepoch (hlease h)}"
| "pc_epochs (Opening h) = {lepoch (hlease h)}"
| "pc_epochs (Opened h) = {lepoch (hlease h)}"
| "pc_epochs (AtDemote pc) = pc_epochs pc"
| "pc_epochs _ = {}"

definition node_ok :: "string \<Rightarrow> fleet \<Rightarrow> bool" where
  "node_ok n s \<longleftrightarrow> (is_leader n s \<longrightarrow> token_ok n (leader_epoch (nodes s n)) s
     \<and> (retiring (nodes s n) \<or> covered n (leader_epoch (nodes s n)) (held_expires_ms (nodes s n)) s))"

definition epochs_of :: "string \<Rightarrow> fleet \<times> threads \<Rightarrow> nat set" where
  "epochs_of n = (\<lambda>(s, p). pc_epochs (ticks p n) \<union> (if is_leader n s then {leader_epoch (nodes s n)} else {}))"

definition fleet_inv :: "fleet \<times> threads \<Rightarrow> bool" where
  "fleet_inv = (\<lambda>(s, p). stored_ok s
     \<and> (\<forall>n. node_ok n s \<and> pc_ok n (ticks p n) s \<and> rc_ok n (resigns p n) s)
     \<and> (\<forall>n m e. e \<in> epochs_of n (s, p) \<longrightarrow> e \<in> epochs_of m (s, p) \<longrightarrow> n = m))"

section \<open>The invariant is kept\<close>

lemma lease_at_unique: "lease_at s l \<Longrightarrow> lease_at s l' \<Longrightarrow> l' = l"
  by (auto simp: lease_at_def dest: encode_lease_inj)

text \<open>Nothing but the object and the clock matters to the claims.\<close>

lemma claims_frame:
  assumes "lobj t = lobj s" "wall t = wall s"
  shows "lease_at t = lease_at s" "stored_ok t = stored_ok s" "covered n e x t = covered n e x s"
    "token_ok n e t = token_ok n e s"
  using assms by (auto simp: lease_at_def stored_ok_def covered_def token_ok_def fun_eq_iff)

lemma pc_ok_frame:
  assumes "lobj t = lobj s" "wall t = wall s" "retiring (nodes t n) = retiring (nodes s n)"
  shows "pc_ok n pc t = pc_ok n pc s"
  using assms by (induction pc) (simp_all add: claims_frame [OF assms(1,2)])

lemma pc_epochs_token: "pc_ok n pc s \<Longrightarrow> e \<in> pc_epochs pc \<Longrightarrow> token_ok n e s"
  by (induction pc) auto

lemma epochs_token:
  "node_ok n s \<Longrightarrow> pc_ok n (ticks p n) s \<Longrightarrow> e \<in> epochs_of n (s, p) \<Longrightarrow> token_ok n e s"
  by (auto simp: epochs_of_def node_ok_def pc_epochs_token split: if_splits)

text \<open>
  What one write to the object may do: take an absent or expired lease under a later epoch,
  extend the lease of the same holder, or give it up.
\<close>

definition takes :: "string \<Rightarrow> fleet \<Rightarrow> fleet \<Rightarrow> bool" where
  "takes n s t \<longleftrightarrow> (\<exists>l'. lease_at t l' \<and> lnode l' = n \<and> lexpires l' \<le> wall s + LEADER_TTL
     \<and> (\<forall>l. lease_at s l \<longrightarrow> lexpires l \<le> wall s \<and> lepoch l < lepoch l'))"

definition extends :: "string \<Rightarrow> fleet \<Rightarrow> fleet \<Rightarrow> bool" where
  "extends n s t \<longleftrightarrow> (\<exists>l x. lease_at s l \<and> lnode l = n \<and> lexpires l \<le> x \<and> x \<le> wall s + LEADER_TTL
     \<and> lease_at t (l\<lparr>lexpires := x\<rparr>))"

definition gives_up :: "string \<Rightarrow> fleet \<Rightarrow> fleet \<Rightarrow> bool" where
  "gives_up n s t \<longleftrightarrow> retiring (nodes s n) \<and> (\<exists>l. lease_at s l \<and> lnode l = n \<and> lease_at t (l\<lparr>lexpires := 0\<rparr>))"

definition lease_moves :: "string \<Rightarrow> fleet \<Rightarrow> fleet \<Rightarrow> bool" where
  "lease_moves n s t \<longleftrightarrow> nodes t = nodes s \<and> wall t = wall s
     \<and> (lobj t = lobj s \<or> takes n s t \<or> extends n s t \<or> gives_up n s t)"

lemma covered_moves:
  assumes "lease_moves n s t" "covered m e x s" "stored_ok s" "m = n \<Longrightarrow> \<not> retiring (nodes s n)"
  shows "covered m e x t"
proof (cases "x \<le> wall s")
  case True
  then show ?thesis using assms(1) by (simp add: covered_def lease_moves_def)
next
  case False
  then obtain l where l: "lease_at s l" "lnode l = m" "lepoch l = e" "x \<le> lexpires l"
    using assms(2) by (auto simp: covered_def)
  from assms(1) consider "lobj t = lobj s" "wall t = wall s" | "takes n s t" | "extends n s t" | "gives_up n s t"
    by (auto simp: lease_moves_def)
  then show ?thesis
  proof cases
    case 1
    then show ?thesis using assms(2) by (simp add: claims_frame [OF 1])
  next
    case 2
    then show ?thesis using l False by (fastforce simp: takes_def)
  next
    case 3
    then obtain l' x' where "lease_at s l'" "lnode l' = n" "lexpires l' \<le> x'" "lease_at t (l'\<lparr>lexpires := x'\<rparr>)"
      by (auto simp: extends_def)
    with l lease_at_unique [of s l l'] show ?thesis
      by (auto simp: covered_def intro!: exI [of _ "l'\<lparr>lexpires := x'\<rparr>"])
  next
    case 4
    then obtain l' where "lease_at s l'" "lnode l' = n" "retiring (nodes s n)" by (auto simp: gives_up_def)
    with lease_at_unique [OF l(1)] l(2) have "m = n" by blast
    with \<open>retiring (nodes s n)\<close> show ?thesis using assms(4) by simp
  qed
qed

lemma token_moves:
  assumes "lease_moves n s t" "token_ok m e s"
  shows "token_ok m e t"
proof -
  obtain l where l: "lease_at s l" "e \<le> lepoch l" "e = lepoch l \<longrightarrow> lnode l = m"
    using assms(2) by (auto simp: token_ok_def)
  from assms(1) consider "lobj t = lobj s" "wall t = wall s" | "takes n s t"
    | l' x where "lease_at s l'" "lease_at t (l'\<lparr>lexpires := x\<rparr>)"
    by (auto simp: lease_moves_def extends_def gives_up_def)
  then show ?thesis
  proof cases
    case 1
    then show ?thesis using assms(2) by (simp add: claims_frame [OF 1])
  next
    case 2
    then show ?thesis using l by (fastforce simp: takes_def token_ok_def)
  next
    case 3
    with l lease_at_unique [of s l l'] show ?thesis by (auto simp: token_ok_def intro!: exI [of _ "l'\<lparr>lexpires := x\<rparr>"])
  qed
qed

lemma stored_moves: "lease_moves n s t \<Longrightarrow> stored_ok s \<Longrightarrow> stored_ok t"
  by (auto simp: lease_moves_def takes_def extends_def gives_up_def stored_ok_def lease_at_def)

lemma pc_ok_moves:
  assumes "lease_moves n s t" "stored_ok s" "pc_ok m pc s" "m \<noteq> n \<or> lobj t = lobj s \<or> gives_up n s t"
  shows "pc_ok m pc t"
proof -
  have nw: "nodes t = nodes s" "wall t = wall s" using assms(1) by (auto simp: lease_moves_def)
  have exp: "lexpires l \<le> x" if "lease_at t l" "lnode l = m" "\<And>l. lease_at s l \<Longrightarrow> lnode l = m \<Longrightarrow> lexpires l \<le> x" for l x
  proof (cases "lobj t = lobj s")
    case True
    then show ?thesis using that by (simp add: claims_frame [OF True nw(2)])
  next
    case False
    with assms(1,4) consider "gives_up n s t" | "m \<noteq> n" "takes n s t \<or> extends n s t"
      by (auto simp: lease_moves_def)
    then show ?thesis
    proof cases
      case 1
      then obtain l' where "lease_at t (l'\<lparr>lexpires := 0\<rparr>)" by (auto simp: gives_up_def)
      from lease_at_unique [OF this that(1)] show ?thesis by simp
    next
      case 2
      then obtain l' where "lease_at t l'" "lnode l' = n" by (auto simp: takes_def extends_def)
      from lease_at_unique [OF this(1) that(1)] this(2) that(2) 2(1) show ?thesis by simp
    qed
  qed
  have cov: "retiring (nodes s k) \<or> covered k e x t" if "covered k e x s" for k e x
    using covered_moves [OF assms(1) that assms(2)] by auto
  show ?thesis using assms(3)
  proof (induction pc)
    case (AtRead k)
    then show ?case using exp [of _ "k + LEADER_TTL"] by (auto simp: nw)
  qed (auto simp: nw token_moves [OF assms(1)] dest: cov)
qed

lemma node_ok_moves: "lease_moves n s t \<Longrightarrow> stored_ok s \<Longrightarrow> node_ok m s \<Longrightarrow> node_ok m t"
  using covered_moves [of n s t m] token_moves [of n s t m]
  by (auto simp: node_ok_def is_leader_def lease_moves_def)

lemma inv_moves:
  assumes inv: "fleet_inv (s, p)" and mv: "lease_moves n s t"
    and other: "\<And>m. m \<noteq> n \<Longrightarrow> ticks q m = ticks p m \<and> resigns q m = resigns p m"
    and pc: "pc_ok n (ticks q n) t" and rc: "rc_ok n (resigns q n) t"
    and new: "\<And>e. e \<in> pc_epochs (ticks q n) \<Longrightarrow> e \<notin> pc_epochs (ticks p n) \<Longrightarrow> \<exists>l. lease_at t l \<and> lepoch l = e \<and> lnode l = n"
  shows "fleet_inv (t, q)"
proof -
  have s: "stored_ok s" and n_ok: "\<And>m. node_ok m s" and p_ok: "\<And>m. pc_ok m (ticks p m) s"
    and r_ok: "\<And>m. rc_ok m (resigns p m) s"
    and dis: "\<And>m k e. e \<in> epochs_of m (s, p) \<Longrightarrow> e \<in> epochs_of k (s, p) \<Longrightarrow> m = k"
    using inv by (auto simp: fleet_inv_def)
  have nd: "nodes t = nodes s" using mv by (simp add: lease_moves_def)
  have rcm: "rc_ok m c t = rc_ok m c s" for m c by (cases c) (auto simp: nd)
  have nok: "node_ok m t" for m by (rule node_ok_moves [OF mv s n_ok])
  have pok: "pc_ok m (ticks q m) t" for m
    using pc pc_ok_moves [OF mv s p_ok, of m] other [of m] by (cases "m = n") auto
  have rok: "rc_ok m (resigns q m) t" for m
    using rc r_ok [of m] other [of m] by (cases "m = n") (auto simp: rcm)
  have eps: "epochs_of m (t, q) \<subseteq> epochs_of m (s, p)" if "m \<noteq> n" for m
    using other [OF that] by (auto simp: epochs_of_def is_leader_def nd)
  have epn: "e \<in> epochs_of n (s, p) \<or> (\<exists>l. lease_at t l \<and> lepoch l = e \<and> lnode l = n)" if "e \<in> epochs_of n (t, q)" for e
    using that new by (auto simp: epochs_of_def is_leader_def nd)
  have tok: "token_ok m e t" if "e \<in> epochs_of m (t, q)" for m e
    by (rule epochs_token [OF nok pok that])
  have one: "m = n" if "e \<in> epochs_of n (t, q)" "e \<in> epochs_of m (t, q)" for m e
  proof (rule ccontr)
    assume "m \<noteq> n"
    then have "e \<in> epochs_of m (s, p)" using eps that(2) by blast
    with dis [of e m n] \<open>m \<noteq> n\<close> epn [OF that(1)] obtain l where "lease_at t l" "lepoch l = e" "lnode l = n" by auto
    with tok [OF that(2)] \<open>m \<noteq> n\<close> show False by (auto simp: token_ok_def dest: lease_at_unique)
  qed
  have "m = k" if "e \<in> epochs_of m (t, q)" "e \<in> epochs_of k (t, q)" for m k e
    using one [of e m] one [of e k] dis [of e m k] eps [of m] eps [of k] that by blast
  then show ?thesis using stored_moves [OF mv s] nok pok rok by (simp add: fleet_inv_def)
qed

text \<open>A step of one node that leaves the object alone.\<close>

lemma inv_local:
  assumes inv: "fleet_inv (s, p)" and same: "lobj t = lobj s" "wall t = wall s"
    and other: "\<And>m. m \<noteq> n \<Longrightarrow> nodes t m = nodes s m \<and> ticks q m = ticks p m \<and> resigns q m = resigns p m"
    and new: "node_ok n t" "pc_ok n (ticks q n) t" "rc_ok n (resigns q n) t" "epochs_of n (t, q) \<subseteq> epochs_of n (s, p)"
  shows "fleet_inv (t, q)"
proof -
  have nok: "node_ok m t" for m
  proof (cases "m = n")
    case False
    with inv other [of m] same show ?thesis
      by (auto simp: fleet_inv_def node_ok_def is_leader_def claims_frame [OF same])
  qed (use new in simp)
  have pok: "pc_ok m (ticks q m) t" for m
    using inv other [of m] new pc_ok_frame [OF same, of m] by (cases "m = n") (auto simp: fleet_inv_def)
  have rok: "rc_ok m (resigns q m) t" for m
  proof (cases "m = n")
    case False
    then have "rc_ok m (resigns p m) s" using inv by (simp add: fleet_inv_def)
    with other [OF False] show ?thesis by (cases "resigns p m") auto
  qed (use new in simp)
  have "epochs_of m (t, q) \<subseteq> epochs_of m (s, p)" for m
    using new(4) other [of m] by (cases "m = n") (auto simp: epochs_of_def is_leader_def)
  then have "m = k" if "e \<in> epochs_of m (t, q)" "e \<in> epochs_of k (t, q)" for m k e
    using that inv unfolding fleet_inv_def by blast
  with nok pok rok inv show ?thesis by (simp add: fleet_inv_def claims_frame [OF same])
qed

text \<open>What a conditional put did.\<close>

lemma lease_put_cases:
  assumes "lease_put l mode s = (res, t)"
  obtains (kept) "lobj t = lobj s" "nodes t = nodes s" "wall t = wall s" "\<And>h. res \<noteq> Inr (Some h)"
  | (wrote) "mode_ok mode (lobj s)" "lease_at t l" "nodes t = nodes s" "wall t = wall s"
      "\<And>h. res = Inr (Some h) \<Longrightarrow> hlease h = l \<and> held_ok h"
  using assms
  by (cases "newline \<in> set (lnode l)"; cases "faults s (clock s)"; cases "mode_ok mode (lobj s)"; cases "landed s (clock s)")
    (auto simp: lease_put_def put_opts_def bindE_def Let_def lease_at_def held_ok_def)

lemma update_at: "mode_ok (Update (hversion h)) (lobj s) \<Longrightarrow> held_ok h \<Longrightarrow> lease_at s (hlease h)"
  by (simp add: mode_ok_def held_ok_def lease_at_def)

lemma lease_renew_moves:
  assumes "lease_renew c now_ms s = (res, t)" "held_ok c" "lnode (hlease c) = n" "now_ms \<le> wall s"
    and "lease_at s (hlease c) \<Longrightarrow> lexpires (hlease c) \<le> now_ms + LEADER_TTL"
  shows "lease_moves n s t \<and> (\<forall>h. res = Inr (Some h) \<longrightarrow> held_ok h \<and> lnode (hlease h) = n
    \<and> lease_at t (hlease h) \<and> lepoch (hlease h) = lepoch (hlease c))"
  using assms(1) [unfolded lease_renew_def]
proof (cases rule: lease_put_cases)
  case wrote
  note at = update_at [OF wrote(1) assms(2)]
  have "lexpires (hlease c) \<le> now_ms + LEADER_TTL" by (rule assms(5) [OF at])
  then have "extends n s t"
    using at wrote(2) assms(3,4) unfolding extends_def by (intro exI [of _ "hlease c"] exI [of _ "now_ms + LEADER_TTL"]) simp
  moreover have "held_ok h \<and> lnode (hlease h) = n \<and> lease_at t (hlease h) \<and> lepoch (hlease h) = lepoch (hlease c)"
    if "res = Inr (Some h)" for h
    using wrote(5) [OF that] wrote(2) assms(3) by simp
  ultimately show ?thesis using wrote(3,4) by (simp add: lease_moves_def)
qed (auto simp: lease_moves_def)

lemma lease_take_moves:
  assumes "lease_take n now_ms cur s = (res, t)" "pc_ok n (AtDecide now_ms cur) s"
    and "\<And>c. cur = Some c \<Longrightarrow> lease_expired (hlease c) now_ms"
  shows "lease_moves n s t \<and> (\<forall>h. res = Inr (Some h) \<longrightarrow> held_ok h \<and> lnode (hlease h) = n \<and> lease_at t (hlease h))"
proof -
  define e where "e = (case cur of None \<Rightarrow> 1 | Some c \<Rightarrow> lepoch (hlease c) + 1)"
  define mode where "mode = (case cur of None \<Rightarrow> Create | Some c \<Rightarrow> Update (hversion c))"
  let ?l = "\<lparr>lnode = n, lepoch = e, lexpires = now_ms + LEADER_TTL\<rparr>"
  have put: "lease_put ?l mode s = (res, t)"
    using assms(1,3) by (cases cur) (auto simp: lease_take_def e_def mode_def lease_expired_def)
  have older: "lexpires l \<le> wall s \<and> lepoch l < e" if "mode_ok mode (lobj s)" "lease_at s l" for l
  proof (cases cur)
    case None
    then show ?thesis using that by (simp add: mode_def mode_ok_def lease_at_def)
  next
    case (Some c)
    have "lease_at s (hlease c)" using that(1) assms(2) by (simp add: Some mode_def update_at)
    then have "l = hlease c" using that(2) by (metis lease_at_unique)
    then show ?thesis using assms(2,3) by (auto simp: Some e_def lease_expired_def)
  qed
  show ?thesis
    using put
  proof (cases rule: lease_put_cases)
    case wrote
    have "takes n s t" unfolding takes_def
      by (intro exI [of _ ?l]) (use wrote(1,2) older assms(2) in auto)
    moreover have "held_ok h \<and> lnode (hlease h) = n \<and> lease_at t (hlease h)" if "res = Inr (Some h)" for h
      using wrote(5) [OF that] wrote(2) by simp
    ultimately show ?thesis using wrote(3,4) by (simp add: lease_moves_def)
  qed (simp add: lease_moves_def)
qed

lemma lease_release_moves:
  assumes "held_ok h" "lnode (hlease h) = n" "retiring (nodes s n)"
  defines "t \<equiv> snd (lease_release h s)"
  shows "lease_moves n s t \<and> (lobj t = lobj s \<or> gives_up n s t)"
proof -
  have "lease_put ((hlease h)\<lparr>lexpires := 0\<rparr>) (Update (hversion h)) s = (fst (lease_release h s), t)"
    by (simp add: t_def lease_release_def)
  then show ?thesis
  proof (cases rule: lease_put_cases)
    case wrote
    then have "gives_up n s t" using update_at [OF wrote(1) assms(1)] assms(2,3) by (auto simp: gives_up_def)
    then show ?thesis using wrote by (simp add: lease_moves_def)
  qed (simp add: lease_moves_def)
qed

lemma lease_read_result:
  assumes "lease_read s = (res, t)" "stored_ok s"
  shows "lobj t = lobj s" "nodes t = nodes s" "wall t = wall s"
    and "res = Inr (Some c) \<Longrightarrow> held_ok c \<and> lease_at s (hlease c)"
proof -
  show f: "lobj t = lobj s" "nodes t = nodes s" "wall t = wall s"
    using assms(1) by (auto simp: lease_read_def io_read_def io_step_def getE_def bindE_def liftE_def
        split: prod.splits option.splits sum.splits)
  assume res: "res = Inr (Some c)"
  obtain b where b: "lobj s = Some b" "decode_lease b = Inr (hlease c)" "hversion c = b"
    using assms(1) res by (auto simp: lease_read_def io_read_def io_step_def getE_def bindE_def liftE_def
        split: prod.splits option.splits sum.splits)
  then obtain l where "lease_at s l" using assms(2) by (auto simp: stored_ok_def)
  with b decode_encode_lease [of l "hlease c"] show "held_ok c \<and> lease_at s (hlease c)"
    by (auto simp: lease_at_def held_ok_def)
qed

lemma invD:
  assumes "fleet_inv (s, p)"
  shows "stored_ok s" "node_ok n s" "pc_ok n (ticks p n) s" "rc_ok n (resigns p n) s"
  using assms by (auto simp: fleet_inv_def)

lemma demote_frame [simp]:
  "lobj (demote_locked n s) = lobj s" "wall (demote_locked n s) = wall s"
  "m \<noteq> n \<Longrightarrow> nodes (demote_locked n s) m = nodes s m"
  "retiring (nodes (demote_locked n s) m) = retiring (nodes s m)"
  "\<not> is_leader n (demote_locked n s)"
  by (auto simp: demote_locked_def upd_node_def map_demote_def is_leader_def split: role.splits)

lemma rc_ok_frame: "rc_ok n c s \<Longrightarrow> retiring (nodes t n) = retiring (nodes s n) \<Longrightarrow> rc_ok n c t"
  by (cases c) auto

text \<open>The node stops leading, or moves on in its beat, with nothing written.\<close>

lemma inv_demote:
  assumes "fleet_inv (s, p)" "pc_ok n pc s" "pc_epochs pc \<subseteq> pc_epochs (ticks p n)"
  shows "fleet_inv (demote_locked n s, p\<lparr>ticks := (ticks p)(n := pc)\<rparr>)"
proof (rule inv_local [OF assms(1), where n = n])
  show "pc_ok n (ticks (p\<lparr>ticks := (ticks p)(n := pc)\<rparr>) n) (demote_locked n s)"
    using assms(2) pc_ok_frame [of "demote_locked n s" s n pc] by simp
  show "rc_ok n (resigns (p\<lparr>ticks := (ticks p)(n := pc)\<rparr>) n) (demote_locked n s)"
    using rc_ok_frame [OF invD(4) [OF assms(1), of n], of "demote_locked n s"] by simp
qed (use assms(3) in \<open>auto simp: node_ok_def epochs_of_def\<close>)

lemma inv_advance:
  assumes "fleet_inv (s, p)" "lobj t = lobj s" "wall t = wall s" "nodes t = nodes s"
    and "pc_ok n pc s" "pc_epochs pc \<subseteq> pc_epochs (ticks p n)"
  shows "fleet_inv (t, p\<lparr>ticks := (ticks p)(n := pc)\<rparr>)"
proof (rule inv_local [OF assms(1), where n = n])
  show "node_ok n t" using invD(2) [OF assms(1), of n] assms(4)
    by (simp add: node_ok_def is_leader_def claims_frame [OF assms(2,3)])
  show "pc_ok n (ticks (p\<lparr>ticks := (ticks p)(n := pc)\<rparr>) n) t"
    using assms(2-5) pc_ok_frame [of t s n pc] by simp
  show "rc_ok n (resigns (p\<lparr>ticks := (ticks p)(n := pc)\<rparr>) n) t"
    using rc_ok_frame [OF invD(4) [OF assms(1), of n], of t] assms(4) by simp
qed (use assms in \<open>auto simp: epochs_of_def is_leader_def\<close>)

text \<open>The beat has written the object: it goes on with the lease it now holds, or with none.\<close>

lemma won_ok:
  assumes "held_ok h" "lnode (hlease h) = n" "lease_at t (hlease h)"
  shows "pc_ok n (AtPromote h) t" "pc_ok n (Opening h) t"
  using assms by (auto simp: token_ok_def covered_def)

lemma inv_won:
  assumes inv: "fleet_inv (s, p)" and mv: "lease_moves n s t"
    and pc: "pc = Idle \<or> pc = AtDemote Idle \<or> (\<exists>h. (pc = AtPromote h \<or> pc = Opening h)
      \<and> held_ok h \<and> lnode (hlease h) = n \<and> lease_at t (hlease h))"
  shows "fleet_inv (t, p\<lparr>ticks := (ticks p)(n := pc)\<rparr>)"
proof (rule inv_moves [OF inv mv])
  show "pc_ok n (ticks (p\<lparr>ticks := (ticks p)(n := pc)\<rparr>) n) t"
    using pc by (auto simp del: pc_ok.simps(6,8) intro: won_ok)
  show "rc_ok n (resigns (p\<lparr>ticks := (ticks p)(n := pc)\<rparr>) n) t"
    using rc_ok_frame [OF invD(4) [OF inv, of n], of t] mv by (simp add: lease_moves_def)
qed (use pc in auto)

lemma inv_decide:
  assumes inv: "fleet_inv (s, p)" and pc: "ticks p n = AtDecide now_ms cur"
    and run: "election_decide n now_ms cur s = (pc', t)"
  shows "fleet_inv (t, p\<lparr>ticks := (ticks p)(n := pc')\<rparr>)"
proof -
  have ok: "pc_ok n (AtDecide now_ms cur) s" using invD(3) [OF inv, of n] pc by simp
  have stay: ?thesis if "t = s" "pc' = AtNote l \<or> pc' = AtDemote (AtNote l)" for l
    using that by (auto intro!: inv_advance [OF inv])
  have took: ?thesis if "\<And>c. cur = Some c \<Longrightarrow> lease_expired (hlease c) now_ms" "lease_take n now_ms cur s = (res, t)"
    "pc' = (case res of Inr (Some h) \<Rightarrow> AtPromote h | _ \<Rightarrow> Idle)" for res
    using lease_take_moves [OF that(2) ok that(1)] that(3)
    by (intro inv_won [OF inv]) (auto split: sum.splits option.splits)
  show ?thesis
  proof (cases cur)
    case None
    then show ?thesis using run by (intro took [of "fst (lease_take n now_ms cur s)"])
        (auto simp: election_decide_def split: prod.splits sum.splits option.splits)
  next
    case (Some c)
    consider "\<not> lease_expired (hlease c) now_ms" "lnode (hlease c) = n"
      | "\<not> lease_expired (hlease c) now_ms" "lnode (hlease c) \<noteq> n" | "lease_expired (hlease c) now_ms" by blast
    then show ?thesis
    proof cases
      case 1
      obtain res where r: "lease_renew c now_ms s = (res, t)"
        and pc': "pc' = (case res of Inr (Some h) \<Rightarrow> AtPromote h | Inr None \<Rightarrow> AtDemote Idle | Inl _ \<Rightarrow> Idle)"
        using run 1 Some by (auto simp: election_decide_def split: prod.splits sum.splits option.splits)
      have "lease_moves n s t \<and> (\<forall>h. res = Inr (Some h) \<longrightarrow> held_ok h \<and> lnode (hlease h) = n
          \<and> lease_at t (hlease h) \<and> lepoch (hlease h) = lepoch (hlease c))"
        by (rule lease_renew_moves [OF r]) (use ok 1 Some in auto)
      then show ?thesis using pc' by (intro inv_won [OF inv]) (auto split: sum.splits option.splits)
    next
      case 2
      then show ?thesis using run Some by (intro stay [of "hlease c"]) (auto simp: election_decide_def split: if_splits)
    next
      case 3
      then show ?thesis using run Some by (intro took [of "fst (lease_take n now_ms cur s)"])
        (auto simp: election_decide_def split: prod.splits sum.splits option.splits)
    qed
  qed
qed

lemma map_promote_frame:
  assumes "map_promote n s = (res, t)"
  shows "lobj t = lobj s" "wall t = wall s" "m \<noteq> n \<Longrightarrow> nodes t m = nodes s m"
    "retiring (nodes t m) = retiring (nodes s m)" "leader_epoch (nodes t m) = leader_epoch (nodes s m)"
    "held_expires_ms (nodes t m) = held_expires_ms (nodes s m)"
  using assms by (auto simp: map_promote_def getE_def putE_def bindE_def io_write_def upd_node_def Let_def
      split: role.splits option.splits if_splits)

lemma cancel_open_frame [simp]:
  "lobj (cancel_open n s) = lobj s" "wall (cancel_open n s) = wall s" "nodes (cancel_open n s) = nodes s"
  by (auto simp: cancel_open_def split: role.splits)

lemma inv_wait:
  assumes inv: "fleet_inv (s, p)" and pc: "ticks p n = Opening cur"
    and run: "promote_wait n opened cur s = (pc', t)"
  shows "fleet_inv (t, p\<lparr>ticks := (ticks p)(n := pc')\<rparr>)"
proof (cases opened)
  case True
  obtain res u where m: "map_promote n s = (res, u)" by fastforce
  note f = map_promote_frame [OF m]
  have ok: "fleet_inv (u, p\<lparr>ticks := (ticks p)(n := pc)\<rparr>)" if "pc = Opened cur \<or> pc = Idle" for pc
  proof (rule inv_local [OF inv f(1,2), where n = n])
    show "node_ok n u" using invD(2) [OF inv, of n]
      by (simp add: node_ok_def is_leader_def claims_frame [OF f(1,2)] f)
    show "pc_ok n (ticks (p\<lparr>ticks := (ticks p)(n := pc)\<rparr>) n) u"
      using invD(3) [OF inv, of n] that by (auto simp: pc claims_frame [OF f(1,2)] f)
    show "rc_ok n (resigns (p\<lparr>ticks := (ticks p)(n := pc)\<rparr>) n) u"
      using rc_ok_frame [OF invD(4) [OF inv, of n] f(4)] by simp
  qed (use that pc f in \<open>auto simp: epochs_of_def is_leader_def\<close>)
  show ?thesis
  proof (cases res)
    case (Inl e)
    then have "pc' = Idle" "t = demote_locked n u" using run True m by (auto simp: promote_wait_def)
    with inv_demote [OF ok [of Idle], of n Idle] show ?thesis by simp
  next
    case (Inr x)
    then show ?thesis using ok [of "Opened cur"] run True m by (simp add: promote_wait_def)
  qed
next
  case False
  obtain res u where r: "lease_renew cur (wall s) s = (res, u)" by fastforce
  have cur: "held_ok cur" "lnode (hlease cur) = n" using invD(3) [OF inv, of n] pc by auto
  have bound: "lexpires (hlease cur) \<le> wall s + LEADER_TTL" if at: "lease_at s (hlease cur)"
  proof -
    from invD(1) [OF inv] at obtain l where "lease_at s l" "lexpires l \<le> wall s + LEADER_TTL"
      by (auto simp: stored_ok_def lease_at_def)
    with lease_at_unique [OF at] show ?thesis by metis
  qed
  have mv: "lease_moves n s u \<and> (\<forall>h. res = Inr (Some h) \<longrightarrow> held_ok h \<and> lnode (hlease h) = n
      \<and> lease_at u (hlease h) \<and> lepoch (hlease h) = lepoch (hlease cur))"
    by (rule lease_renew_moves [OF r cur order_refl bound])
  show ?thesis
  proof (cases "\<exists>h. res = Inr (Some h)")
    case True
    then show ?thesis using run False r mv by (intro inv_won [OF inv]) (auto simp: promote_wait_def)
  next
    case lost: False
    then have t: "pc' = Idle" "t = demote_locked n (cancel_open n u)"
      using run False r by (auto simp: promote_wait_def split: sum.splits option.splits)
    have "fleet_inv (u, p\<lparr>ticks := (ticks p)(n := Idle)\<rparr>)" using mv by (intro inv_won [OF inv]) auto
    from inv_advance [OF this, of "cancel_open n u" n Idle]
    have "fleet_inv (cancel_open n u, p\<lparr>ticks := (ticks p)(n := Idle)\<rparr>)" by simp
    from inv_demote [OF this, of n Idle] t show ?thesis by simp
  qed
qed

lemma inv_publish:
  assumes inv: "fleet_inv (s, p)" and pc: "ticks p n = Opened cur"
  shows "fleet_inv (publish n cur s, p\<lparr>ticks := (ticks p)(n := Idle)\<rparr>)"
proof (rule inv_local [OF inv, where n = n])
  let ?t = "publish n cur s"
  show f: "lobj ?t = lobj s" "wall ?t = wall s" by (simp_all add: publish_def note_live_def upd_node_def)
  show "node_ok n ?t" using invD(3) [OF inv, of n]
    by (auto simp: pc node_ok_def claims_frame [OF f]) (simp_all add: publish_def note_live_def upd_node_def)
  show "rc_ok n (resigns (p\<lparr>ticks := (ticks p)(n := Idle)\<rparr>) n) ?t"
    using rc_ok_frame [OF invD(4) [OF inv, of n], of ?t] by (simp add: publish_def note_live_def upd_node_def)
qed (auto simp: publish_def note_live_def upd_node_def epochs_of_def is_leader_def pc)

lemma inv_note:
  assumes inv: "fleet_inv (s, p)"
  shows "fleet_inv (note_live n l s, p\<lparr>ticks := (ticks p)(n := Idle)\<rparr>)"
proof (rule inv_local [OF inv, where n = n])
  let ?t = "note_live n l s"
  show f: "lobj ?t = lobj s" "wall ?t = wall s" by (simp_all add: note_live_def upd_node_def)
  show "node_ok n ?t" using invD(2) [OF inv, of n]
    by (auto simp: node_ok_def is_leader_def claims_frame [OF f]) (simp_all add: note_live_def upd_node_def)
  show "rc_ok n (resigns (p\<lparr>ticks := (ticks p)(n := Idle)\<rparr>) n) ?t"
    using rc_ok_frame [OF invD(4) [OF inv, of n], of ?t] by (simp add: note_live_def upd_node_def)
qed (auto simp: note_live_def upd_node_def epochs_of_def is_leader_def)

lemma inv_tick:
  assumes inv: "fleet_inv (s, p)" and run: "tick_seg n opened (ticks p n) s = (pc, t)"
  shows "fleet_inv (t, p\<lparr>ticks := (ticks p)(n := pc)\<rparr>)"
proof -
  note ok = invD(3) [OF inv, of n]
  show ?thesis
  proof (cases "ticks p n")
    case Idle
    have "lexpires l \<le> wall s + LEADER_TTL" if "lease_at s l" for l
      using invD(1) [OF inv] that lease_at_unique [OF that] by (auto simp: stored_ok_def lease_at_def)
    then have "pc_ok n (AtRead (wall s)) s" by simp
    then show ?thesis using run Idle
      by (auto simp del: pc_ok.simps(3) split: if_splits intro!: inv_advance [OF inv])
  next
    case (AtDemote pc')
    then show ?thesis using run ok by (auto intro!: inv_demote [OF inv])
  next
    case (AtRead now_ms)
    obtain res where r: "lease_read s = (res, t)"
      and pc: "pc = (case res of Inr cur \<Rightarrow> AtDecide now_ms cur | Inl _ \<Rightarrow> Idle)"
      using run AtRead by (auto split: prod.splits sum.splits)
    note rd = lease_read_result [OF r invD(1) [OF inv]]
    have "pc_ok n pc s" using pc ok AtRead rd(4) by (cases res) (auto dest: rd(4))
    then show ?thesis using pc rd(1,2,3) by (intro inv_advance [OF inv]) (auto split: sum.splits)
  next
    case (AtDecide now_ms cur)
    then show ?thesis using run by (auto intro: inv_decide [OF inv])
  next
    case (AtNote l)
    then show ?thesis using run by (auto intro: inv_note [OF inv])
  next
    case (AtPromote h)
    then show ?thesis using run ok by (intro inv_advance [OF inv]) (auto split: if_splits)
  next
    case (AtGiveBack h)
    then have "lease_moves n s t" "pc = Idle" using run ok lease_release_moves [of h n s] by auto
    then show ?thesis by (intro inv_won [OF inv]) auto
  next
    case (Opening cur)
    then show ?thesis using run by (auto intro: inv_wait [OF inv])
  next
    case (Opened cur)
    then show ?thesis using run by (auto intro: inv_publish [OF inv])
  qed
qed

lemma inv_upd:
  assumes inv: "fleet_inv (s, p)"
    and f: "\<And>x. leader_epoch (f x) = leader_epoch x \<and> held_expires_ms (f x) = held_expires_ms x"
    and r: "retiring (nodes s n) \<Longrightarrow> retiring (f (nodes s n))"
    and rc: "rc = resigns p n \<or> rc_ok n rc (upd_node n f s)"
  shows "fleet_inv (upd_node n f s, p\<lparr>resigns := (resigns p)(n := rc)\<rparr>)"
proof (rule inv_local [OF inv, where n = n])
  let ?t = "upd_node n f s"
  show fr: "lobj ?t = lobj s" "wall ?t = wall s" by (simp_all add: upd_node_def)
  have ret: "retiring (nodes s n) \<Longrightarrow> retiring (nodes ?t n)" using r by (simp add: upd_node_def)
  show "node_ok n ?t" using invD(2) [OF inv, of n] ret f
    by (auto simp: node_ok_def is_leader_def claims_frame [OF fr]) (auto simp: upd_node_def)
  have "pc_ok n pc ?t" if "pc_ok n pc s" for pc
    using that ret by (induction pc) (auto simp: claims_frame [OF fr] fr)
  then show "pc_ok n (ticks (p\<lparr>resigns := (resigns p)(n := rc)\<rparr>) n) ?t" using invD(3) [OF inv, of n] by simp
  have "rc_ok n c ?t" if "rc_ok n c s" for c using that ret by (cases c) auto
  then show "rc_ok n (resigns (p\<lparr>resigns := (resigns p)(n := rc)\<rparr>) n) ?t" using rc invD(4) [OF inv, of n] by auto
qed (use f in \<open>auto simp: upd_node_def epochs_of_def is_leader_def\<close>)

lemma inv_resign:
  assumes inv: "fleet_inv (s, p)" and run: "resign_seg n (resigns p n) s = (rc, t)"
  shows "fleet_inv (t, p\<lparr>resigns := (resigns p)(n := rc)\<rparr>)"
proof -
  note ok = invD(4) [OF inv, of n]
  have quiet: ?thesis if "lease_moves n s t" "lobj t = lobj s \<or> gives_up n s t" "rc_ok n rc s"
  proof (rule inv_moves [OF inv that(1)])
    show "pc_ok n (ticks (p\<lparr>resigns := (resigns p)(n := rc)\<rparr>) n) t"
      using pc_ok_moves [OF that(1) invD(1) [OF inv] invD(3) [OF inv, of n]] that(2) by simp
    show "rc_ok n (resigns (p\<lparr>resigns := (resigns p)(n := rc)\<rparr>) n) t"
      using rc_ok_frame [OF that(3), of t] that(1) by (simp add: lease_moves_def)
  qed auto
  show ?thesis
  proof (cases "resigns p n")
    case RIdle
    have "fleet_inv (upd_node n (\<lambda>x. x\<lparr>retiring := True\<rparr>) s, p\<lparr>resigns := (resigns p)(n := RCheck)\<rparr>)"
      by (rule inv_upd [OF inv]) (auto simp: upd_node_def)
    then show ?thesis using run RIdle by auto
  next
    case RCheck
    have t: "rc_ok n rc s" "lobj t = lobj s" "nodes t = nodes s" "wall t = wall s"
    proof -
      obtain res u where r: "lease_read s = (res, u)" by fastforce
      note rd = lease_read_result [OF r invD(1) [OF inv]]
      show "rc_ok n rc s" "lobj t = lobj s" "nodes t = nodes s" "wall t = wall s"
        using run ok RCheck r rd by (auto split: if_splits sum.splits option.splits)
    qed
    then show ?thesis by (intro quiet) (auto simp: lease_moves_def)
  next
    case (RRelease c)
    then have "lease_moves n s t \<and> (lobj t = lobj s \<or> gives_up n s t)"
      using run ok lease_release_moves [of c n s] by auto
    then show ?thesis using run ok RRelease by (intro quiet) auto
  next
    case RDemote
    have "fleet_inv (demote_locked n s, p)"
      using inv_demote [OF inv invD(3) [OF inv, of n]] by (simp add: fun_upd_idem)
    from inv_upd [OF this, of id n RIdle] show ?thesis
      using run RDemote by (simp add: upd_node_def fun_upd_idem)
  qed
qed

lemma inv_pass: "fleet_inv (s, p) \<Longrightarrow> fleet_inv (s\<lparr>wall := wall s + d\<rparr>, p)"
proof -
  assume inv: "fleet_inv (s, p)"
  let ?t = "s\<lparr>wall := wall s + d\<rparr>"
  have at: "lease_at ?t l = lease_at s l" for l by (simp add: lease_at_def)
  have cov: "covered n e x s \<Longrightarrow> covered n e x ?t" for n e x by (auto simp: covered_def at)
  have tok: "token_ok n e ?t = token_ok n e s" for n e by (simp add: token_ok_def at)
  have pc: "pc_ok n pc s \<Longrightarrow> pc_ok n pc ?t" for n pc
    by (induction pc) (auto simp: at tok intro: cov)
  have rc: "rc_ok n c s \<Longrightarrow> rc_ok n c ?t" for n c by (cases c) auto
  have "epochs_of n (?t, p) = epochs_of n (s, p)" for n by (simp add: epochs_of_def is_leader_def)
  moreover have "stored_ok ?t" using invD(1) [OF inv] by (auto simp: stored_ok_def at)
  moreover have "node_ok n ?t" for n
    using invD(2) [OF inv, of n] cov [of n] by (auto simp: node_ok_def is_leader_def tok)
  ultimately show ?thesis using inv pc rc by (auto simp: fleet_inv_def)
qed

lemma inv_step: "fleet_inv x \<Longrightarrow> fleet_step x y \<Longrightarrow> fleet_inv y"
proof (erule fleet_step.cases)
  fix n opened s p pc t
  assume "fleet_inv x" "x = (s, p)" "y = (t, p\<lparr>ticks := (ticks p)(n := pc)\<rparr>)" "tick_seg n opened (ticks p n) s = (pc, t)"
  then show ?thesis by (auto intro: inv_tick)
next
  fix n s p rc t
  assume "fleet_inv x" "x = (s, p)" "y = (t, p\<lparr>resigns := (resigns p)(n := rc)\<rparr>)" "resign_seg n (resigns p n) s = (rc, t)"
  then show ?thesis by (auto intro: inv_resign)
next
  fix n s p
  assume "fleet_inv x" "x = (s, p)" "y = (demote_locked n s, p)"
  then show ?thesis using inv_demote [of s p n "ticks p n"] invD(3) [of s p n] by (simp add: fun_upd_idem)
next
  fix n s p
  assume "fleet_inv x" "x = (s, p)" "y = (upd_node n (\<lambda>x. x\<lparr>draining := True\<rparr>) s, p)"
  then show ?thesis using inv_upd [of s p "\<lambda>x. x\<lparr>draining := True\<rparr>" n "resigns p n"] by (simp add: fun_upd_idem)
next
  fix n s p
  assume inv: "fleet_inv x" "x = (s, p)" and y: "y = (upd_node n (\<lambda>_. new_app) s,
    p\<lparr>ticks := (ticks p)(n := Idle), resigns := (resigns p)(n := RIdle)\<rparr>)"
  have "fleet_inv (s, p)" using inv by simp
  then show ?thesis unfolding y
    by (rule inv_local [where n = n]) (auto simp: upd_node_def node_ok_def is_leader_def new_app_def epochs_of_def)
next
  fix s p d
  assume "fleet_inv x" "x = (s, p)" "y = (s\<lparr>wall := wall s + d\<rparr>, p)"
  then show ?thesis by (auto intro: inv_pass)
qed

lemma inv_reach: "fleet_reach x \<Longrightarrow> fleet_inv x"
proof (induction rule: fleet_reach.induct)
  case (start x)
  then show ?case
    by (auto simp: fleet_start_def fleet_inv_def stored_ok_def node_ok_def is_leader_def new_app_def epochs_of_def)
qed (rule inv_step)

section \<open>At most one leader\<close>


text \<open>A beat run without interruption is a run of the fleet.\<close>

lemma run_tick_reach:
  "fleet_reach (s, p) \<Longrightarrow> run_tick k n waits (ticks p n) s = (pc, t) \<Longrightarrow>
     fleet_reach (t, p\<lparr>ticks := (ticks p)(n := pc)\<rparr>)"
proof (induction k arbitrary: waits s p)
  case 0
  then show ?case by (simp add: fun_upd_idem)
next
  case (Suc k)
  obtain pc' u where seg: "tick_seg n (waits = 0) (ticks p n) s = (pc', u)" by fastforce
  have r: "fleet_reach (u, p\<lparr>ticks := (ticks p)(n := pc')\<rparr>)"
    by (rule fleet_reach.step [OF Suc.prems(1) fleet_step.tick [OF seg]])
  show ?case
  proof (cases "pc' = Idle")
    case True
    then have "pc = pc'" "t = u" using seg Suc.prems(2) by simp_all
    with r show ?thesis by metis
  next
    case False
    let ?q = "p\<lparr>ticks := (ticks p)(n := pc')\<rparr>"
    have "fleet_reach (t, ?q\<lparr>ticks := (ticks ?q)(n := pc)\<rparr>)"
      using seg Suc.prems(2) False by (intro Suc.IH [OF r, of "case ticks p n of Opening _ \<Rightarrow> waits - 1 | _ \<Rightarrow> waits"]) simp
    moreover have "?q\<lparr>ticks := (ticks ?q)(n := pc)\<rparr> = p\<lparr>ticks := (ticks p)(n := pc)\<rparr>" by simp
    ultimately show ?thesis by metis
  qed
qed

section \<open>A beat ends, and takes over a lease nobody renews\<close>

fun rest :: "nat \<Rightarrow> tick_pc \<Rightarrow> nat" where
  "rest waits Idle = 0"
| "rest waits (AtDemote pc) = Suc (rest waits pc)"
| "rest waits (AtRead now_ms) = waits + 5"
| "rest waits (AtDecide now_ms cur) = waits + 4"
| "rest waits (AtPromote h) = waits + 3"
| "rest waits (Opening h) = waits + 2"
| "rest waits _ = 1"

lemma tick_seg_rest:
  assumes "pc \<noteq> Idle" "tick_seg n (waits = 0) pc s = (pc', t)" "pc' \<noteq> Idle"
  shows "rest (case pc of Opening _ \<Rightarrow> waits - 1 | _ \<Rightarrow> waits) pc' < rest waits pc"
  using assms
  by (cases pc) (auto simp: election_decide_def promote_wait_def split: if_splits prod.splits sum.splits option.splits)

lemma run_tick_ends: "pc \<noteq> Idle \<Longrightarrow> rest waits pc \<le> k \<Longrightarrow> fst (run_tick k n waits pc s) = Idle"
proof (induction k arbitrary: waits pc s)
  case 0
  then show ?case by (cases pc) auto
next
  case (Suc k)
  obtain pc' u where seg: "tick_seg n (waits = 0) pc s = (pc', u)" by fastforce
  show ?case
  proof (cases "pc' = Idle")
    case False
    with tick_seg_rest [OF Suc.prems(1) seg] Suc.IH [OF False] Suc.prems(2) seg show ?thesis by simp
  qed (simp add: seg)
qed


text \<open>
  With a store that answers and a lease that is this node's, opening the map renews it as often
  as it takes and then publishes it.
\<close>

lemma opening_publishes:
  assumes "faults s = (\<lambda>_. None)" "lobj s = Some (hversion h)" "held_ok h" "lexpires (hlease h) = wall s + LEADER_TTL"
    and "role (nodes s n) = Reader b"
  shows "\<exists>t. run_tick (waits + 2 + k) n waits (Opening h) s = (Idle, t) \<and> wall t = wall s \<and> lobj t = lobj s
    \<and> leader_epoch (nodes t n) = lepoch (hlease h) \<and> held_expires_ms (nodes t n) = lexpires (hlease h)
    \<and> role (nodes t n) = Writer (owriter t) \<and> retiring (nodes t n) = retiring (nodes s n)"
  using assms
proof (induction waits arbitrary: s)
  case 0
  then show ?case
    by (simp add: promote_wait_def map_promote_def getE_def putE_def bindE_def io_write_def Let_def publish_def note_live_def
        upd_node_def)
next
  case (Suc w)
  have l: "(hlease h)\<lparr>lexpires := wall s + LEADER_TTL\<rparr> = hlease h"
    using Suc.prems(4) by simp
  have h: "\<lparr>hlease = hlease h, hversion = encode_lease (hlease h)\<rparr> = h" using Suc.prems(3) by (simp add: held_ok_def)
  let ?s = "s\<lparr>clock := Suc (clock s)\<rparr>"
  have same: "?s\<lparr>lobj := Some (hversion h)\<rparr> = ?s" using Suc.prems(2) by simp
  have r: "lease_renew h (wall s) s = (Inr (Some h), ?s)"
    using Suc.prems(1-3) h same
    by (simp add: lease_renew_def l lease_put_def put_opts_def bindE_def Let_def mode_ok_def held_ok_def)
  have "run_tick (Suc w + 2 + k) n (Suc w) (Opening h) s = run_tick (w + 2 + k) n w (Opening h) ?s"
    by (simp add: promote_wait_def r)
  with Suc.IH [of ?s] Suc.prems show ?case by simp
qed

lemma lease_read_calm:
  assumes "faults s = (\<lambda>_. None)"
  shows "lobj s = None \<Longrightarrow> lease_read s = (Inr None, s\<lparr>clock := Suc (clock s)\<rparr>)"
    and "lobj s = Some (encode_lease l) \<Longrightarrow> decode_lease (encode_lease l) = Inr l \<Longrightarrow>
      lease_read s = (Inr (Some \<lparr>hlease = l, hversion = encode_lease l\<rparr>), s\<lparr>clock := Suc (clock s)\<rparr>)"
  using assms by (simp_all add: lease_read_def io_read_def io_step_def getE_def bindE_def)

definition abandoned :: "fleet \<Rightarrow> nat \<Rightarrow> bool" where
  "abandoned s e \<longleftrightarrow> lobj s = None \<and> e = 0
     \<or> (\<exists>l. lobj s = Some (encode_lease l) \<and> decode_lease (encode_lease l) = Inr l \<and> lease_expired l (wall s) \<and> e = lepoch l)"

lemma abandoned_decide:
  assumes calm: "faults s = (\<lambda>_. None)" and gone: "abandoned s e" and nm: "newline \<notin> set n"
  defines "l' \<equiv> \<lparr>lnode = n, lepoch = e + 1, lexpires = wall s + LEADER_TTL\<rparr>"
  shows "\<exists>cur. lease_read s = (Inr cur, s\<lparr>clock := Suc (clock s)\<rparr>)
    \<and> election_decide n (wall s) cur (s\<lparr>clock := Suc (clock s)\<rparr>)
      = (AtPromote \<lparr>hlease = l', hversion = encode_lease l'\<rparr>, s\<lparr>clock := Suc (Suc (clock s)), lobj := Some (encode_lease l')\<rparr>)"
  using gone unfolding abandoned_def
proof (elim disjE exE conjE)
  assume "lobj s = None" "e = 0"
  then show ?thesis using calm nm
    by (intro exI [of _ None]) (simp add: lease_read_calm(1) election_decide_def lease_take_def lease_put_def put_opts_def
        bindE_def Let_def mode_ok_def l'_def)
next
  fix l assume l: "lobj s = Some (encode_lease l)" "decode_lease (encode_lease l) = Inr l" "lease_expired l (wall s)" "e = lepoch l"
  then show ?thesis using calm nm
    by (intro exI [of _ "Some \<lparr>hlease = l, hversion = encode_lease l\<rparr>"])
      (simp add: lease_read_calm(2) [where l = l] election_decide_def lease_take_def lease_put_def put_opts_def bindE_def
        Let_def mode_ok_def l'_def)
qed

lemma beat_takes_over:
  assumes calm: "faults s = (\<lambda>_. None)" and gone: "abandoned s e"
    and follower: "\<not> is_leader n s" "role (nodes s n) = Reader b" "\<not> retiring (nodes s n)" "\<not> draining (nodes s n)"
    and nm: "newline \<notin> set n"
  shows "\<exists>t. election_tick n waits s = (Idle, t) \<and> leader_epoch (nodes t n) = e + 1 \<and> wall t = wall s
    \<and> held_expires_ms (nodes t n) = wall s + LEADER_TTL \<and> role (nodes t n) = Writer (owriter t) \<and> \<not> retiring (nodes t n)"
proof -
  define h where "h = \<lparr>hlease = \<lparr>lnode = n, lepoch = e + 1, lexpires = wall s + LEADER_TTL\<rparr>,
    hversion = encode_lease \<lparr>lnode = n, lepoch = e + 1, lexpires = wall s + LEADER_TTL\<rparr>\<rparr>"
  define u where "u = s\<lparr>clock := Suc (Suc (clock s)), lobj := Some (hversion h)\<rparr>"
  obtain cur where cur: "lease_read s = (Inr cur, s\<lparr>clock := Suc (clock s)\<rparr>)"
    "election_decide n (wall s) cur (s\<lparr>clock := Suc (clock s)\<rparr>) = (AtPromote h, u)"
    using abandoned_decide [OF calm gone nm] by (auto simp: h_def u_def)
  have "run_tick (Suc (Suc (Suc (Suc k)))) n waits Idle s = run_tick k n waits (Opening h) u" for k
    using follower cur by (simp add: u_def)
  moreover have "waits + 9 = Suc (Suc (Suc (Suc (waits + 2 + 3))))" by simp
  ultimately have "election_tick n waits s = run_tick (waits + 2 + 3) n waits (Opening h) u"
    unfolding election_tick_def by metis
  moreover have "\<exists>t. run_tick (waits + 2 + 3) n waits (Opening h) u = (Idle, t) \<and> wall t = wall u \<and> lobj t = lobj u
    \<and> leader_epoch (nodes t n) = lepoch (hlease h) \<and> held_expires_ms (nodes t n) = lexpires (hlease h)
    \<and> role (nodes t n) = Writer (owriter t) \<and> retiring (nodes t n) = retiring (nodes u n)"
    by (rule opening_publishes) (use calm follower nm in \<open>auto simp: u_def h_def held_ok_def\<close>)
  ultimately show ?thesis using follower by (auto simp: u_def h_def)
qed

text \<open>
  C25. A lease nobody holds any more is taken over by the next beat of any follower, given that
  the store answers and nobody else is faster: the node leads under the next epoch, for a whole
  lease, and holds the writer of the map that no one has fenced.
\<close>

theorem abandoned_lease_taken_over:
  assumes "faults s = (\<lambda>_. None)" and "abandoned s e"
    and "\<not> is_leader n s" and "role (nodes s n) = Reader b" and "\<not> retiring (nodes s n)" and "\<not> draining (nodes s n)"
    and "newline \<notin> set n"
  shows "\<exists>t. election_tick n waits s = (Idle, t) \<and> leader_epoch (nodes t n) = e + 1 \<and> wall t = wall s
    \<and> held_expires_ms (nodes t n) = wall s + LEADER_TTL \<and> role (nodes t n) = Writer (owriter t) \<and> \<not> retiring (nodes t n)"
  by (rule beat_takes_over [OF assms])

definition quiet_fleet :: fleet where
  "quiet_fleet = \<lparr>clock = 0, faults = \<lambda>_. None, landed = \<lambda>_. True, wall = 5, lobj = None, omap = [], owriter = 0,
     nodes = \<lambda>_. new_app\<rparr>"

definition idle_threads :: threads where
  "idle_threads = \<lparr>ticks = \<lambda>_. Idle, resigns = \<lambda>_. RIdle\<rparr>"

definition led_fleet :: fleet where
  "led_fleet = snd (election_tick ''a'' 1 quiet_fleet)"

lemma quiet_follower:
  "faults quiet_fleet = (\<lambda>_. None)" "abandoned quiet_fleet 0" "\<not> is_leader n quiet_fleet"
  "role (nodes quiet_fleet n) = Reader False" "\<not> retiring (nodes quiet_fleet n)" "\<not> draining (nodes quiet_fleet n)"
  by (simp_all add: quiet_fleet_def abandoned_def is_leader_def new_app_def)

theorem abandoned_lease_taken_over_witness:
  "\<exists>t. election_tick ''a'' 3 quiet_fleet = (Idle, t) \<and> leader_epoch (nodes t ''a'') = 1 \<and> held_expires_ms (nodes t ''a'') = 10005"
  using abandoned_lease_taken_over [OF quiet_follower, of "''a''" 3] by (auto simp: LEADER_TTL_def quiet_fleet_def)

lemma led_fleet_eq:
  "election_tick ''a'' 1 quiet_fleet = (Idle, led_fleet)" "is_leader ''a'' led_fleet"
  "\<not> retiring (nodes led_fleet ''a'')" "wall led_fleet < held_expires_ms (nodes led_fleet ''a'')"
  using beat_takes_over [OF quiet_follower, of "''a''" 1]
  by (auto simp: led_fleet_def is_leader_def LEADER_TTL_def quiet_fleet_def)

lemma led_fleet_reach: "fleet_reach (led_fleet, idle_threads)"
proof -
  have "fleet_reach (quiet_fleet, idle_threads)"
    by (rule fleet_reach.start) (simp add: fleet_start_def quiet_fleet_def idle_threads_def)
  moreover have "run_tick 10 ''a'' 1 (ticks idle_threads ''a'') quiet_fleet = (Idle, led_fleet)"
    using led_fleet_eq(1) by (simp add: election_tick_def idle_threads_def)
  ultimately have "fleet_reach (led_fleet, idle_threads\<lparr>ticks := (ticks idle_threads)(''a'' := Idle)\<rparr>)"
    by (rule run_tick_reach)
  then show ?thesis by (simp add: idle_threads_def fun_upd_idem)
qed


end
