(* ===== verification/Ownership.thy ===== *)
theory Ownership
  imports Lease
begin

text \<open>
  Who owns a repository: \<open>crates/storage/src/ownership/mod.rs\<close> (the decisions and the map), the
  grants of \<open>crates/app/src/routing.rs\<close> made by the leader, and the line protocol of
  \<open>bins/server/src/router/route.rs\<close> by which the other nodes ask for them.
  The map is the database \<open>omap\<close> of the fleet. A writer that has been fenced, and a follower,
  read some other map (\<open>view\<close>); a write of a fenced writer fails. \<open>others\<close> is what the other
  nodes do to the fleet between the read and the write of a grant.
\<close>

section \<open>Entries\<close>

record entry =
  enode :: string
  eexpires :: nat

definition LEASE_TTL :: nat where "LEASE_TTL = 10000"
definition FORCE_MIN_AGE :: nat where "FORCE_MIN_AGE = 1000"
definition CLOCK_FLOOR_MS :: nat where "CLOCK_FLOOR_MS = 1767225600000"
definition STALLED :: string where "STALLED = ''ownership: map write stalled''"

definition decision_now_ms :: "nat \<Rightarrow> error + nat" where
  "decision_now_ms now_ms =
     (if now_ms < CLOCK_FLOOR_MS
      then Inl (Message (''ownership: this node's clock reads '' @ to_decimal now_ms @ '' ms, before ''
        @ to_decimal CLOCK_FLOOR_MS))
      else Inr now_ms)"

definition is_stalled :: "error \<Rightarrow> bool" where
  "is_stalled e = str_contains (err_text e) STALLED"

definition entry_expired :: "entry \<Rightarrow> nat \<Rightarrow> bool" where
  "entry_expired e now_ms \<longleftrightarrow> now_ms \<ge> eexpires e"

definition encode_entry :: "entry \<Rightarrow> bytes" where
  "encode_entry e = enode e @ newline # to_decimal (eexpires e)"

definition decode_entry :: "bytes \<Rightarrow> error + entry" where
  "decode_entry b =
     (if \<not> utf8_valid b then Inl (Message ''ownership entry: invalid utf-8'')
      else case split_once newline b of
        None \<Rightarrow> Inl (Message ''ownership entry: malformed'')
      | Some (n, x) \<Rightarrow>
          (case parse_u64 x of
             None \<Rightarrow> Inl (Message ''ownership entry: bad expires_ms'')
           | Some x \<Rightarrow> Inr \<lparr>enode = n, eexpires = x\<rparr>))"

definition own_key :: "string \<Rightarrow> string" where
  "own_key repo = ''own/'' @ repo"

section \<open>The decisions\<close>

datatype grant = Granted entry | HeldBy entry

definition decide_claim :: "entry option \<Rightarrow> string \<Rightarrow> nat \<Rightarrow> grant" where
  "decide_claim current asker now_ms =
     (case current of
        Some e \<Rightarrow>
          if \<not> entry_expired e now_ms \<and> enode e \<noteq> asker then HeldBy e
          else Granted \<lparr>enode = asker, eexpires = now_ms + LEASE_TTL\<rparr>
      | None \<Rightarrow> Granted \<lparr>enode = asker, eexpires = now_ms + LEASE_TTL\<rparr>)"

text \<open>The subtraction saturates at zero, as the one of the naturals does.\<close>

definition decide_force_claim :: "entry option \<Rightarrow> string \<Rightarrow> nat \<Rightarrow> grant" where
  "decide_force_claim current asker now_ms =
     (case current of
        Some e \<Rightarrow>
          if enode e \<noteq> asker \<and> \<not> entry_expired e now_ms \<and> now_ms < (eexpires e - LEASE_TTL) + FORCE_MIN_AGE
          then HeldBy e
          else Granted \<lparr>enode = asker, eexpires = now_ms + LEASE_TTL\<rparr>
      | None \<Rightarrow> Granted \<lparr>enode = asker, eexpires = now_ms + LEASE_TTL\<rparr>)"

definition decide_renew :: "entry option \<Rightarrow> string \<Rightarrow> nat \<Rightarrow> entry option" where
  "decide_renew current asker now_ms =
     (case current of
        Some e \<Rightarrow> if enode e \<noteq> asker then None else Some \<lparr>enode = asker, eexpires = now_ms + LEASE_TTL\<rparr>
      | None \<Rightarrow> Some \<lparr>enode = asker, eexpires = now_ms + LEASE_TTL\<rparr>)"

definition may_release :: "entry option \<Rightarrow> string \<Rightarrow> bool" where
  "may_release current asker = (case current of Some e \<Rightarrow> enode e = asker | None \<Rightarrow> False)"

section \<open>The map\<close>

definition map_read :: "kv \<Rightarrow> string \<Rightarrow> fleet \<Rightarrow> kv option" where
  "map_read view n s =
     (case role (nodes s n) of
        Writer h \<Rightarrow> Some (if h = owriter s then omap s else view)
      | Reader opened \<Rightarrow> if opened then Some view else None
      | Solo \<Rightarrow> None)"

definition own_get :: "kv \<Rightarrow> string \<Rightarrow> string \<Rightarrow> (fleet, entry option) io" where
  "own_get view n repo =
     bindE (getE (map_read view n)) (\<lambda>m.
     case m of
       None \<Rightarrow> returnE None
     | Some _ \<Rightarrow>
         bindE (io_read (\<lambda>s. Option.bind (map_read view n s) (\<lambda>db. kv_get db (own_key repo)))) (\<lambda>v.
         case v of
           None \<Rightarrow> returnE None
         | Some b \<Rightarrow> bindE (liftE (decode_entry b)) (\<lambda>e. returnE (Some e))))"

definition map_write :: "nat \<Rightarrow> batch_op list \<Rightarrow> (fleet, unit) io" where
  "map_write h ops =
     bindE (getE owriter) (\<lambda>w.
     if h \<noteq> w then bindE io_step (\<lambda>_. failE (Fenced ''the map has another writer''))
     else io_write (\<lambda>s. s\<lparr>omap := apply_batch ops (omap s)\<rparr>))"

definition own_put_many :: "string \<Rightarrow> (string \<times> entry) list \<Rightarrow> (fleet, unit) io" where
  "own_put_many n entries =
     bindE (getE (\<lambda>s. role (nodes s n))) (\<lambda>r.
     case r of
       Writer h \<Rightarrow>
         if entries = [] then returnE ()
         else if list_ex (\<lambda>(_, e). newline \<in> set (enode e)) entries
              then failE (Message ''node name must not contain a newline'')
         else map_write h (map (\<lambda>(repo, e). BPut (own_key repo) (encode_entry e)) entries)
     | Reader _ \<Rightarrow> failE (Message ''ownership: put on a follower'')
     | Solo \<Rightarrow> returnE ())"

definition own_put :: "string \<Rightarrow> string \<Rightarrow> entry \<Rightarrow> (fleet, unit) io" where
  "own_put n repo e =
     bindE (getE (\<lambda>s. role (nodes s n))) (\<lambda>r.
     case r of
       Writer h \<Rightarrow>
         if newline \<in> set (enode e) then failE (Message ''node name must not contain a newline'')
         else map_write h [BPut (own_key repo) (encode_entry e)]
     | Reader _ \<Rightarrow> failE (Message ''ownership: put on a follower'')
     | Solo \<Rightarrow> returnE ())"

definition own_delete :: "string \<Rightarrow> string \<Rightarrow> (fleet, unit) io" where
  "own_delete n repo =
     bindE (getE (\<lambda>s. role (nodes s n))) (\<lambda>r.
     case r of
       Writer h \<Rightarrow> map_write h [BDel (own_key repo)]
     | Reader _ \<Rightarrow> failE (Message ''ownership: delete on a follower'')
     | Solo \<Rightarrow> returnE ())"

fun decode_entries :: "(string \<times> bytes) list \<Rightarrow> error + (string \<times> entry) list" where
  "decode_entries [] = Inr []"
| "decode_entries ((k, v) # rows) =
     (if \<not> utf8_valid k then Inl (Message ''ownership key: invalid utf-8'')
      else case strip_prefix ''own/'' k of
        None \<Rightarrow> Inl (Message ''ownership key: missing own/ prefix'')
      | Some repo \<Rightarrow>
          (case decode_entry v of
             Inl e \<Rightarrow> Inl e
           | Inr e \<Rightarrow> (case decode_entries rows of Inl x \<Rightarrow> Inl x | Inr out \<Rightarrow> Inr ((repo, e) # out))))"

definition own_all :: "kv \<Rightarrow> string \<Rightarrow> (fleet, (string \<times> entry) list) io" where
  "own_all view n =
     bindE (getE (map_read view n)) (\<lambda>m.
     case m of
       None \<Rightarrow> returnE []
     | Some _ \<Rightarrow>
         bindE (io_read (\<lambda>s. case map_read view n s of Some db \<Rightarrow> scan_prefix ''own/'' db | None \<Rightarrow> [])) (\<lambda>rows.
         liftE (decode_entries rows)))"

section \<open>The grants\<close>

definition writing_epoch :: "string \<Rightarrow> (fleet, nat) io" where
  "writing_epoch n =
     bindE (getE (\<lambda>s. leader_epoch (nodes s n))) (\<lambda>e.
     if e = 0 then failE (Message ''not the leader'') else returnE e)"

definition still_leading :: "string \<Rightarrow> nat \<Rightarrow> (fleet, unit) io" where
  "still_leading n epoch =
     bindE (getE (\<lambda>s. leader_epoch (nodes s n))) (\<lambda>e.
     if e = epoch then returnE () else failE (Message ''no longer the leader''))"

definition fenced_check :: "string \<Rightarrow> (fleet, 'a) io \<Rightarrow> (fleet, 'a) io" where
  "fenced_check n m =
     handleE m (\<lambda>e.
       bindE (if is_fenced e \<or> is_stalled e then putE (demote_locked n) else returnE ()) (\<lambda>_. failE e))"

definition decision_clock :: "(fleet, nat) io" where
  "decision_clock = bindE (getE wall) (\<lambda>w. liftE (decision_now_ms w))"

definition grant_claim ::
    "(fleet \<Rightarrow> fleet) \<Rightarrow> kv \<Rightarrow> string \<Rightarrow> string \<Rightarrow> string \<Rightarrow> bool \<Rightarrow> (fleet, grant) io" where
  "grant_claim others view n repo asker force =
     bindE (writing_epoch n) (\<lambda>epoch.
     bindE decision_clock (\<lambda>now_ms.
     bindE (fenced_check n (own_get view n repo)) (\<lambda>cur.
     bindE (putE others) (\<lambda>_.
     let g = (if force then decide_force_claim cur asker now_ms else decide_claim cur asker now_ms)
     in case g of
          Granted e \<Rightarrow>
            bindE (fenced_check n (own_put n repo e)) (\<lambda>_.
            bindE (still_leading n epoch) (\<lambda>_. returnE g))
        | HeldBy _ \<Rightarrow> returnE g))))"

text \<open>Reading every entry to renew, in order: the ones renewed and the ones lost.\<close>

fun renew_reads ::
    "kv \<Rightarrow> string \<Rightarrow> string \<Rightarrow> nat \<Rightarrow> string list \<Rightarrow> (fleet, (string \<times> entry) list \<times> string list) io" where
  "renew_reads view n asker now_ms [] = returnE ([], [])"
| "renew_reads view n asker now_ms (repo # repos) =
     bindE (fenced_check n (own_get view n repo)) (\<lambda>cur.
     bindE (renew_reads view n asker now_ms repos) (\<lambda>(renewed, lost).
     returnE (case decide_renew cur asker now_ms of
                Some e \<Rightarrow> ((repo, e) # renewed, lost)
              | None \<Rightarrow> (renewed, repo # lost))))"

definition grant_renew ::
    "(fleet \<Rightarrow> fleet) \<Rightarrow> kv \<Rightarrow> string \<Rightarrow> string \<Rightarrow> string list \<Rightarrow> (fleet, string list) io" where
  "grant_renew others view n asker repos =
     bindE (writing_epoch n) (\<lambda>epoch.
     bindE decision_clock (\<lambda>now_ms.
     bindE (renew_reads view n asker now_ms repos) (\<lambda>(renewed, lost).
     bindE (putE others) (\<lambda>_.
     bindE (fenced_check n (own_put_many n renewed)) (\<lambda>_.
     bindE (still_leading n epoch) (\<lambda>_.
     returnE lost))))))"

definition grant_release :: "(fleet \<Rightarrow> fleet) \<Rightarrow> kv \<Rightarrow> string \<Rightarrow> string \<Rightarrow> string \<Rightarrow> (fleet, unit) io" where
  "grant_release others view n repo asker =
     bindE (writing_epoch n) (\<lambda>epoch.
     bindE (fenced_check n (own_get view n repo)) (\<lambda>cur.
     bindE (putE others) (\<lambda>_.
     if may_release cur asker
     then bindE (fenced_check n (own_delete n repo)) (\<lambda>_. still_leading n epoch)
     else returnE ())))"

text \<open>
  The sweep of the lapsed entries: \<open>late k\<close> says that its time was over when the \<open>k\<close>-th entry came
  up, which leaves that one to the next sweep.
\<close>

fun prune_entries :: "(nat \<Rightarrow> bool) \<Rightarrow> string \<Rightarrow> nat \<Rightarrow> nat \<Rightarrow> nat \<Rightarrow> (string \<times> entry) list \<Rightarrow> (fleet, unit) io" where
  "prune_entries late n epoch now_ms k [] = returnE ()"
| "prune_entries late n epoch now_ms k ((repo, e) # es) =
     (if \<not> entry_expired e now_ms \<or> late k then prune_entries late n epoch now_ms (Suc k) es
      else bindE (fenced_check n (own_delete n repo)) (\<lambda>_.
           bindE (still_leading n epoch) (\<lambda>_.
           prune_entries late n epoch now_ms (Suc k) es)))"

definition prune_once :: "(fleet \<Rightarrow> fleet) \<Rightarrow> kv \<Rightarrow> (nat \<Rightarrow> bool) \<Rightarrow> string \<Rightarrow> (fleet, unit) io" where
  "prune_once others view late n =
     bindE (writing_epoch n) (\<lambda>epoch.
     bindE decision_clock (\<lambda>now_ms.
     bindE (fenced_check n (own_all view n)) (\<lambda>entries.
     bindE (putE others) (\<lambda>_.
     prune_entries late n epoch now_ms 0 entries))))"

section \<open>A live owner keeps its repository\<close>

definition owner_at :: "kv \<Rightarrow> string \<Rightarrow> entry option" where
  "owner_at m repo = Option.bind (kv_get m (own_key repo)) (\<lambda>b. case decode_entry b of Inr e \<Rightarrow> Some e | Inl _ \<Rightarrow> None)"

text \<open>
  No change from \<open>m\<close> to \<open>m'\<close> touches an entry that is live and names somebody else than \<open>asker\<close>.
\<close>

definition respects_owners :: "nat \<Rightarrow> string \<Rightarrow> kv \<Rightarrow> kv \<Rightarrow> bool" where
  "respects_owners now_ms asker m m' \<longleftrightarrow> (\<forall>repo e. owner_at m repo = Some e \<and> \<not> entry_expired e now_ms \<and> enode e \<noteq> asker
     \<longrightarrow> kv_get m' (own_key repo) = kv_get m (own_key repo))"

text \<open>
  What the fence promises the writer \<open>n\<close> of the map while its grant is under way: handles are
  numbered in the order they open, and as long as no later one has opened, nobody else writes.
  The leader lock keeps the node's own role and epoch.
\<close>

definition fence_holds :: "string \<Rightarrow> (fleet \<Rightarrow> fleet) \<Rightarrow> bool" where
  "fence_holds n others \<longleftrightarrow> (\<forall>s. owriter s \<le> owriter (others s)
     \<and> role (nodes (others s) n) = role (nodes s n) \<and> leader_epoch (nodes (others s) n) = leader_epoch (nodes s n)
     \<and> (kv_ok (omap s) \<longrightarrow> kv_ok (omap (others s)))
     \<and> (role (nodes s n) = Writer (owriter s) \<and> owriter (others s) = owriter s \<longrightarrow> omap (others s) = omap s))"

lemma respects_refl [simp]: "respects_owners now_ms asker m m"
  by (simp add: respects_owners_def)

lemma own_key_inj [simp]: "own_key a = own_key b \<longleftrightarrow> a = b"
  by (simp add: own_key_def)

lemma own_get_result:
  assumes "own_get view n repo s = (res, t)"
  shows "\<exists>k. t = s\<lparr>clock := k\<rparr>"
    and "role (nodes s n) = Writer (owriter s) \<Longrightarrow> res = Inr cur \<Longrightarrow> cur = owner_at (omap s) repo"
proof -
  have clk: "s = s\<lparr>clock := clock s\<rparr>" by simp
  show "\<exists>k. t = s\<lparr>clock := k\<rparr>"
    using assms clk
    by (auto simp: own_get_def getE_def bindE_def io_read_def io_step_def intro: exI [of _ "clock t"]
        split: option.splits sum.splits if_splits)
  assume "role (nodes s n) = Writer (owriter s)" "res = Inr cur"
  then show "cur = owner_at (omap s) repo"
    using assms
    by (auto simp: own_get_def getE_def bindE_def io_read_def io_step_def map_read_def owner_at_def
        split: option.splits sum.splits)
qed

lemma fenced_check_omap [simp]: "omap (snd (fenced_check n m s)) = omap (snd (m s))"
  by (auto simp: fenced_check_def handleE_def bindE_def putE_def demote_locked_def upd_node_def map_demote_def
      split: sum.splits prod.splits)

lemma fenced_check_result: "fst (fenced_check n m s) = fst (m s)"
  by (auto simp: fenced_check_def handleE_def bindE_def putE_def split: sum.splits prod.splits)

lemma fenced_check_ok: "fenced_check n m s = (Inr x, t) \<longleftrightarrow> m s = (Inr x, t)"
  by (auto simp: fenced_check_def handleE_def bindE_def putE_def split: sum.splits prod.splits)

lemma still_leading_omap [simp]: "snd (still_leading n epoch s) = s"
  by (simp add: still_leading_def getE_def bindE_def)

lemma bindE_still: "snd (bindE (still_leading n epoch) (\<lambda>_. returnE x) s) = s"
  by (simp add: still_leading_def getE_def bindE_def)

lemma map_write_result:
  assumes "map_write h ops u = (res, t)"
  shows "nodes t = nodes u" "owriter t = owriter u" "wall t = wall u"
    and "omap t = omap u \<or> h = owriter u \<and> omap t = apply_batch ops (omap u)"
    and "res = Inr () \<Longrightarrow> h = owriter u \<and> omap t = apply_batch ops (omap u)"
  using assms
  by (auto simp: map_write_def getE_def bindE_def io_step_def io_write_def Let_def split: if_splits option.splits)

text \<open>The end of a grant: the write, checked for the fence, then the epoch once more.\<close>

lemma grant_tail:
  assumes "bindE (fenced_check n w) (\<lambda>_. bindE (still_leading n epoch) (\<lambda>_. returnE x)) u = (res, t)"
  shows "omap t = omap (snd (w u))" "res = Inr y \<Longrightarrow> fst (w u) = Inr () \<and> y = x"
proof -
  obtain r v where f: "fenced_check n w u = (r, v)" by fastforce
  have v: "omap v = omap (snd (w u))" "r = fst (w u)"
    using fenced_check_omap [of n w u] fenced_check_result [of n w u] f by auto
  show "omap t = omap (snd (w u))"
    using assms f v(1) by (cases r) (auto simp: bindE_def still_leading_def getE_def split: if_splits)
  show "fst (w u) = Inr () \<and> y = x" if "res = Inr y"
  proof -
    have "r = Inr () \<and> y = x"
      using assms f that by (cases r) (auto simp: bindE_def still_leading_def getE_def split: if_splits)
    with v(2) show ?thesis by simp
  qed
qed

text \<open>
  Where a grant stands when it comes to write: the reads have changed nothing, the others have had
  their turn, and if this node is still the writer the map is the one it read.
\<close>

lemma fence_at_write:
  assumes "fence_holds n others" "role (nodes s n) = Writer h" "h \<le> owriter s" and u_def: "u = others (s\<lparr>clock := k\<rparr>)"
  shows "role (nodes u n) = Writer h" "h = owriter u \<Longrightarrow> omap u = omap s \<and> h = owriter s"
proof -
  note f = assms(1) [unfolded fence_holds_def, rule_format, of "s\<lparr>clock := k\<rparr>", folded u_def]
  show "role (nodes u n) = Writer h" using f assms(2) by simp
  show "omap u = omap s \<and> h = owriter s" if "h = owriter u"
    using f that assms(2,3) by simp
qed

lemma own_put_result:
  assumes "own_put n repo e u = (res, t)" "role (nodes u n) = Writer h"
  shows "omap t = omap u \<or> h = owriter u \<and> omap t = kv_put (own_key repo) (encode_entry e) (omap u)"
    and "res = Inr () \<Longrightarrow> h = owriter u \<and> omap t = kv_put (own_key repo) (encode_entry e) (omap u)"
  using assms map_write_result(4,5) [of h "[BPut (own_key repo) (encode_entry e)]" u res t]
  by (auto simp: own_put_def getE_def bindE_def apply_batch_def split: if_splits)

lemma respects_put:
  assumes "owner_at m repo = cur" "\<And>e. cur = Some e \<Longrightarrow> entry_expired e now_ms \<or> enode e = asker"
  shows "respects_owners now_ms asker m (kv_put (own_key repo) v m)"
  unfolding respects_owners_def
proof (intro allI impI)
  fix r e assume "owner_at m r = Some e \<and> \<not> entry_expired e now_ms \<and> enode e \<noteq> asker"
  then have "r \<noteq> repo" using assms by auto
  then show "kv_get (kv_put (own_key repo) v m) (own_key r) = kv_get m (own_key r)" by simp
qed

lemma decide_claim_granted:
  "decide_claim cur asker now_ms = Granted e \<Longrightarrow> e = \<lparr>enode = asker, eexpires = now_ms + LEASE_TTL\<rparr>
     \<and> (\<forall>c. cur = Some c \<longrightarrow> entry_expired c now_ms \<or> enode c = asker)"
  by (auto simp: decide_claim_def split: option.splits if_splits)

lemma decide_force_granted:
  "decide_force_claim cur asker now_ms = Granted e \<Longrightarrow> e = \<lparr>enode = asker, eexpires = now_ms + LEASE_TTL\<rparr>
     \<and> (\<forall>c. cur = Some c \<longrightarrow> entry_expired c now_ms \<or> enode c = asker \<or> eexpires c - LEASE_TTL + FORCE_MIN_AGE \<le> now_ms)"
  by (auto simp: decide_force_claim_def split: option.splits if_splits)

text \<open>How every grant begins: it refuses, or goes on under the epoch and the clock it read.\<close>

lemma bindE_putE [simp]: "bindE (putE f) g s = g () (f s)"
  by (simp add: bindE_def putE_def)

lemma granting:
  assumes "bindE (writing_epoch n) (\<lambda>epoch. bindE decision_clock (f epoch)) s = (res, t)"
  obtains (refused) "t = s" "\<And>x. res \<noteq> Inr x" | (go) "f (leader_epoch (nodes s n)) (wall s) s = (res, t)"
  using assms
  by (cases "leader_epoch (nodes s n) = 0"; cases "decision_now_ms (wall s)")
    (auto simp: writing_epoch_def decision_clock_def decision_now_ms_def getE_def bindE_def split: if_splits)

lemma reading:
  assumes "bindE (fenced_check n (own_get view n repo)) f s = (res, t)"
  obtains (failed) "omap t = omap s" "\<And>x. res \<noteq> Inr x"
  | (go) cur k where "f cur (s\<lparr>clock := k\<rparr>) = (res, t)" "role (nodes s n) = Writer (owriter s) \<Longrightarrow> cur = owner_at (omap s) repo"
proof -
  obtain r v where g: "own_get view n repo s = (r, v)" by fastforce
  obtain k where v: "v = s\<lparr>clock := k\<rparr>" using own_get_result(1) [OF g] by auto
  obtain w where w: "fenced_check n (own_get view n repo) s = (r, w)" "omap w = omap s"
    using fenced_check_omap [of n "own_get view n repo" s] fenced_check_result [of n "own_get view n repo" s] g v
    by (cases "fenced_check n (own_get view n repo) s") auto
  show thesis
  proof (cases r)
    case (Inl x)
    then show thesis using failed assms w by (auto simp: bindE_def)
  next
    case (Inr cur)
    then have "w = v" using w g fenced_check_ok [of n "own_get view n repo" s cur w] by auto
    then show thesis using go [of cur k] assms w v Inr own_get_result(2) [OF g] by (auto simp: bindE_def)
  qed
qed

text \<open>What \<open>grant_claim\<close> does, on every path.\<close>

definition claim_decision :: "bool \<Rightarrow> entry option \<Rightarrow> string \<Rightarrow> nat \<Rightarrow> grant" where
  "claim_decision force cur asker now_ms =
     (if force then decide_force_claim cur asker now_ms else decide_claim cur asker now_ms)"

definition claim_write :: "string \<Rightarrow> string \<Rightarrow> nat \<Rightarrow> grant \<Rightarrow> (fleet, grant) io" where
  "claim_write n repo epoch g = (case g of
     Granted e \<Rightarrow> bindE (fenced_check n (own_put n repo e)) (\<lambda>_. bindE (still_leading n epoch) (\<lambda>_. returnE (Granted e)))
   | HeldBy e \<Rightarrow> returnE (HeldBy e))"

lemma grant_claim_eq:
  "grant_claim others view n repo asker force =
     bindE (writing_epoch n) (\<lambda>epoch. bindE decision_clock (\<lambda>now_ms.
       bindE (fenced_check n (own_get view n repo)) (\<lambda>cur.
       bindE (putE others) (\<lambda>_. claim_write n repo epoch (claim_decision force cur asker now_ms)))))"
proof -
  have "(let g = claim_decision force cur asker now_ms in case g of
      Granted e \<Rightarrow> bindE (fenced_check n (own_put n repo e)) (\<lambda>_. bindE (still_leading n epoch) (\<lambda>_. returnE g))
    | HeldBy _ \<Rightarrow> returnE g) = claim_write n repo epoch (claim_decision force cur asker now_ms)" for cur now_ms epoch
    by (simp add: claim_write_def split: grant.split)
  then show ?thesis by (simp add: grant_claim_def claim_decision_def)
qed

lemma claim_write_result:
  assumes "claim_write n repo epoch g u = (res, t)" "role (nodes u n) = Writer h"
  obtains (kept) "omap t = omap u" "\<And>e. res \<noteq> Inr (Granted e)"
  | (written) e where "g = Granted e" "h = owriter u" "omap t = kv_put (own_key repo) (encode_entry e) (omap u)"
      "\<And>g'. res = Inr g' \<Longrightarrow> g' = g"
proof (cases g)
  case (HeldBy e)
  then show thesis using kept assms(1) by (auto simp: claim_write_def)
next
  case (Granted e)
  then have tail: "bindE (fenced_check n (own_put n repo e)) (\<lambda>_. bindE (still_leading n epoch) (\<lambda>_. returnE (Granted e))) u = (res, t)"
    using assms(1) by (simp add: claim_write_def)
  obtain pr w where p: "own_put n repo e u = (pr, w)" by fastforce
  note put = own_put_result [OF p assms(2)] and g = grant_tail [OF tail, unfolded p snd_conv fst_conv]
  show thesis
  proof (cases "omap w = omap u \<and> pr \<noteq> Inr ()")
    case True
    then show thesis using kept g by auto
  next
    case False
    then show thesis using written Granted put g by auto
  qed
qed

lemma grant_claim_outcome:
  assumes fence: "fence_holds n others" and role: "role (nodes s n) = Writer h" "h \<le> owriter s"
    and run: "grant_claim others view n repo asker force s = (res, t)"
  obtains (early) "omap t = omap s" "\<And>g. res \<noteq> Inr g"
  | (kept) k where "omap t = omap (others (s\<lparr>clock := k\<rparr>))" "\<And>e. res \<noteq> Inr (Granted e)"
  | (written) k e where "omap (others (s\<lparr>clock := k\<rparr>)) = omap s"
      "claim_decision force (owner_at (omap s) repo) asker (wall s) = Granted e"
      "omap t = kv_put (own_key repo) (encode_entry e) (omap s)" "\<And>g. res = Inr g \<Longrightarrow> g = Granted e"
  using run [unfolded grant_claim_eq]
proof (cases rule: granting)
  case refused
  then show thesis using early by auto
next
  case go
  then show thesis
  proof (cases rule: reading)
    case failed
    then show thesis using early by auto
  next
    case (go cur k)
    let ?u = "others (s\<lparr>clock := k\<rparr>)"
    note at = fence_at_write [OF fence role refl, of k]
    have "claim_write n repo (leader_epoch (nodes s n)) (claim_decision force cur asker (wall s)) ?u = (res, t)"
      using go(1) by simp
    from this at(1) show thesis
    proof (cases rule: claim_write_result)
      case kept
      then show thesis using that(2) by blast
    next
      case (written e)
      with at(2) go(2) role(1) have "omap ?u = omap s" "cur = owner_at (omap s) repo" by auto
      with written show thesis using that(3) [of k e] by auto
    qed
  qed
qed

text \<open>A batch of puts and deletes on entries that are nobody else's, or have lapsed.\<close>

lemma respects_batch:
  assumes "kv_ok m" "\<And>x. x \<in> set ops \<Longrightarrow> \<exists>repo. batch_key x = own_key repo
    \<and> (\<forall>e. owner_at m repo = Some e \<longrightarrow> entry_expired e now_ms \<or> enode e = asker)"
  shows "respects_owners now_ms asker m (apply_batch ops m)"
  unfolding respects_owners_def apply_batch_def
proof (intro allI impI)
  fix repo e assume live: "owner_at m repo = Some e \<and> \<not> entry_expired e now_ms \<and> enode e \<noteq> asker"
  have "batch_key x \<noteq> own_key repo" if x: "x \<in> set ops" for x
  proof
    assume "batch_key x = own_key repo"
    with assms(2) [OF x] live show False by auto
  qed
  with assms(1) show "kv_get (fold apply_op ops m) (own_key repo) = kv_get m (own_key repo)"
    by (rule kvs.get_run_other)
qed

definition renew_split :: "kv \<Rightarrow> string \<Rightarrow> nat \<Rightarrow> string list \<Rightarrow> (string \<times> entry) list \<Rightarrow> string list \<Rightarrow> bool" where
  "renew_split m asker now_ms repos renewed lost \<longleftrightarrow> fst ` set renewed \<union> set lost = set repos
     \<and> (\<forall>(r, e) \<in> set renewed. e = \<lparr>enode = asker, eexpires = now_ms + LEASE_TTL\<rparr>
          \<and> (\<forall>c. owner_at m r = Some c \<longrightarrow> enode c = asker))
     \<and> (\<forall>r \<in> set lost. \<exists>c. owner_at m r = Some c \<and> enode c \<noteq> asker)"

lemma renew_split_Cons:
  assumes "renew_split m asker now_ms repos rn ls"
    and "decide_renew (owner_at m repo) asker now_ms = d"
  shows "case d of Some e \<Rightarrow> renew_split m asker now_ms (repo # repos) ((repo, e) # rn) ls
    | None \<Rightarrow> renew_split m asker now_ms (repo # repos) rn (repo # ls)"
  using assms by (cases "owner_at m repo") (auto simp: renew_split_def decide_renew_def)

lemma renew_reads_result:
  assumes "renew_reads view n asker now_ms repos s = (res, t)"
  shows "omap t = omap s \<and> (\<forall>renewed lost. res = Inr (renewed, lost) \<longrightarrow> (\<exists>k. t = s\<lparr>clock := k\<rparr>)
    \<and> (role (nodes s n) = Writer (owriter s) \<longrightarrow> renew_split (omap s) asker now_ms repos renewed lost))"
  using assms
proof (induction repos arbitrary: s t res)
  case Nil
  then show ?case by (auto simp: renew_split_def intro: exI [of _ "clock s"])
next
  case (Cons repo repos)
  from Cons.prems [unfolded renew_reads.simps] show ?case
  proof (cases rule: reading)
    case failed
    then show ?thesis by auto
  next
    case (go cur k)
    obtain r v where rec: "renew_reads view n asker now_ms repos (s\<lparr>clock := k\<rparr>) = (r, v)" by fastforce
    note ih = Cons.IH [OF rec, simplified]
    show ?thesis
    proof (cases r)
      case (Inl x)
      then show ?thesis using go(1) rec ih by (auto simp: bindE_def)
    next
      case (Inr out)
      obtain rn ls where out: "out = (rn, ls)" by fastforce
      have res: "res = Inr (case decide_renew cur asker now_ms of Some e \<Rightarrow> ((repo, e) # rn, ls) | None \<Rightarrow> (rn, repo # ls))" "t = v"
        using go(1) rec Inr out by (auto simp: bindE_def)
      show ?thesis using ih go(2) Inr out res renew_split_Cons [of "omap s" asker now_ms repos rn ls repo "decide_renew cur asker now_ms"]
        by (auto split: option.splits)
    qed
  qed
qed

lemma own_put_many_result:
  assumes "own_put_many n es u = (res, t)" "role (nodes u n) = Writer h"
  shows "omap t = omap u \<or> h = owriter u \<and> omap t = apply_batch (map (\<lambda>(repo, e). BPut (own_key repo) (encode_entry e)) es) (omap u)"
  using assms map_write_result(4) [of h "map (\<lambda>(repo, e). BPut (own_key repo) (encode_entry e)) es" u res t]
  by (auto simp: own_put_many_def getE_def bindE_def split: if_splits)

lemma own_delete_result:
  assumes "own_delete n repo u = (res, t)" "role (nodes u n) = Writer h"
  shows "omap t = omap u \<or> h = owriter u \<and> omap t = apply_batch [BDel (own_key repo)] (omap u)"
    and "nodes t = nodes u" "owriter t = owriter u"
  using assms map_write_result [of h "[BDel (own_key repo)]" u res t]
  by (auto simp: own_delete_def getE_def bindE_def split: if_splits)

lemma grant_renew_outcome:
  assumes fence: "fence_holds n others" and role: "role (nodes s n) = Writer h" "h \<le> owriter s" and ok: "kv_ok (omap s)"
    and run: "grant_renew others view n asker repos s = (res, t)"
  shows "omap t = omap s \<or> (\<exists>k. respects_owners (wall s) asker (omap (others (s\<lparr>clock := k\<rparr>))) (omap t))"
  using run [unfolded grant_renew_def]
proof (cases rule: granting)
  case refused
  then show ?thesis by simp
next
  case go
  obtain r v where rd: "renew_reads view n asker (wall s) repos s = (r, v)" by fastforce
  note rr = renew_reads_result [OF rd]
  show ?thesis
  proof (cases r)
    case (Inl x)
    then show ?thesis using go rd rr by (auto simp: bindE_def)
  next
    case (Inr out)
    obtain renewed lost where out: "out = (renewed, lost)" by fastforce
    then obtain k where v: "v = s\<lparr>clock := k\<rparr>" using rr Inr by auto
    let ?u = "others (s\<lparr>clock := k\<rparr>)"
    note at = fence_at_write [OF fence role refl, of k]
    have tail: "bindE (fenced_check n (own_put_many n renewed)) (\<lambda>_. bindE (still_leading n (leader_epoch (nodes s n))) (\<lambda>_. returnE lost)) ?u
        = (res, t)"
      using go rd Inr out v by (simp add: bindE_def [of "renew_reads view n asker (wall s) repos"])
    obtain pr w where p: "own_put_many n renewed ?u = (pr, w)" by fastforce
    have om: "omap t = omap w" using grant_tail(1) [OF tail] p by simp
    from own_put_many_result [OF p at(1)] show ?thesis
    proof (elim disjE conjE)
      assume "omap w = omap ?u"
      then show ?thesis using om by (auto intro!: exI [of _ k])
    next
      assume w: "h = owriter ?u" "omap w = apply_batch (map (\<lambda>(repo, e). BPut (own_key repo) (encode_entry e)) renewed) (omap ?u)"
      with at(2) have u: "omap ?u = omap s" "h = owriter s" by auto
      then have "renew_split (omap s) asker (wall s) repos renewed lost" using rr Inr out role(1) by auto
      then have "respects_owners (wall s) asker (omap s) (omap w)"
        unfolding w(2) u(1) by (intro respects_batch [OF ok]) (auto simp: renew_split_def)
      then show ?thesis using om u by (auto intro!: exI [of _ k])
    qed
  qed
qed

lemma leading:
  assumes "bindE (writing_epoch n) f s = (res, t)"
  obtains (refused) "t = s" "\<And>x. res \<noteq> Inr x" | (go) "f (leader_epoch (nodes s n)) s = (res, t)"
  using assms
  by (cases "leader_epoch (nodes s n) = 0") (auto simp: writing_epoch_def getE_def bindE_def split: if_splits)

lemma bindE_returnE: "bindE m returnE = m"
  by (auto simp: bindE_def fun_eq_iff split: prod.splits sum.splits)

lemma grant_release_outcome:
  assumes fence: "fence_holds n others" and role: "role (nodes s n) = Writer h" "h \<le> owriter s" and ok: "kv_ok (omap s)"
    and run: "grant_release others view n repo asker s = (res, t)"
  shows "omap t = omap s \<or> (\<exists>k. respects_owners now_ms asker (omap (others (s\<lparr>clock := k\<rparr>))) (omap t))"
  using run [unfolded grant_release_def]
proof (cases rule: leading)
  case refused
  then show ?thesis by simp
next
  case go
  then show ?thesis
  proof (cases rule: reading)
    case failed
    then show ?thesis by simp
  next
    case (go cur k)
    let ?u = "others (s\<lparr>clock := k\<rparr>)"
    note at = fence_at_write [OF fence role refl, of k]
    show ?thesis
    proof (cases "may_release cur asker")
      case False
      then have "t = ?u" using go(1) by simp
      then show ?thesis by (auto intro!: exI [of _ k])
    next
      case True
      then have tail: "bindE (fenced_check n (own_delete n repo)) (\<lambda>_. bindE (still_leading n (leader_epoch (nodes s n))) (\<lambda>_. returnE ())) ?u
          = (res, t)"
        using go(1) by (simp add: bindE_returnE)
      obtain dr w where d: "own_delete n repo ?u = (dr, w)" by fastforce
      have om: "omap t = omap w" using grant_tail(1) [OF tail] d by simp
      from own_delete_result(1) [OF d at(1)] show ?thesis
      proof (elim disjE conjE)
        assume "omap w = omap ?u"
        then show ?thesis using om by (auto intro!: exI [of _ k])
      next
        assume w: "h = owriter ?u" "omap w = apply_batch [BDel (own_key repo)] (omap ?u)"
        with at(2) have u: "omap ?u = omap s" "h = owriter s" by auto
        then have "cur = owner_at (omap s) repo" using go(2) role(1) by simp
        then have "respects_owners now_ms asker (omap s) (omap w)"
          using True unfolding w(2) u(1) by (intro respects_batch [OF ok]) (auto simp: may_release_def split: option.splits)
        then show ?thesis using om u by (auto intro!: exI [of _ k])
      qed
    qed
  qed
qed

text \<open>The sweep deletes lapsed entries only, and nothing at all when it has been fenced.\<close>

lemma prune_entries_result:
  assumes "prune_entries late n epoch now_ms i es u = (res, t)" "role (nodes u n) = Writer h"
  shows "\<exists>ops. omap t = apply_batch ops (omap u) \<and> (h \<noteq> owriter u \<longrightarrow> ops = [])
    \<and> (\<forall>x \<in> set ops. \<exists>repo e. x = BDel (own_key repo) \<and> (repo, e) \<in> set es \<and> entry_expired e now_ms)"
  using assms
proof (induction es arbitrary: i u)
  case Nil
  then show ?case by (auto simp: apply_batch_def intro: exI [of _ "[]"])
next
  case (Cons x es)
  obtain repo e where x: "x = (repo, e)" by fastforce
  show ?case
  proof (cases "\<not> entry_expired e now_ms \<or> late i")
    case True
    then show ?thesis using Cons.IH [of "Suc i" u] Cons.prems x by fastforce
  next
    case False
    obtain dr w where d: "own_delete n repo u = (dr, w)" by fastforce
    note del = own_delete_result [OF d Cons.prems(2)]
    obtain fr v where f: "fenced_check n (own_delete n repo) u = (fr, v)" by fastforce
    have v: "omap v = omap w" "fr = dr" "fr = Inr () \<Longrightarrow> v = w"
      using fenced_check_omap [of n "own_delete n repo" u] fenced_check_result [of n "own_delete n repo" u] f d
        fenced_check_ok [of n "own_delete n repo" u "()" v] by auto
    obtain op where op: "omap w = apply_batch op (omap u)" "h \<noteq> owriter u \<Longrightarrow> op = []" "set op \<subseteq> {BDel (own_key repo)}"
    proof (cases "omap w = omap u")
      case True
      then show thesis using that [of "[]"] by (simp add: apply_batch_def)
    next
      case False
      then show thesis using that [of "[BDel (own_key repo)]"] del(1) by auto
    qed
    show ?thesis
    proof (cases "fr = Inr () \<and> leader_epoch (nodes v n) = epoch")
      case True
      then have rec: "prune_entries late n epoch now_ms (Suc i) es w = (res, t)"
        using Cons.prems(1) x False f v by (simp add: bindE_def still_leading_def getE_def)
      from Cons.IH [OF this] del(2) Cons.prems(2) obtain ops where ops: "omap t = apply_batch ops (omap w)"
        "h \<noteq> owriter w \<longrightarrow> ops = []" "\<forall>x \<in> set ops. \<exists>repo e. x = BDel (own_key repo) \<and> (repo, e) \<in> set es \<and> entry_expired e now_ms"
        by auto
      have "omap t = apply_batch (op @ ops) (omap u)" using ops(1) op(1) by (simp add: apply_batch_def)
      then show ?thesis using ops op x False del(3) by (intro exI [of _ "op @ ops"]) fastforce
    next
      case stop: False
      then have "omap t = omap v"
        using Cons.prems(1) x False f by (cases fr) (auto simp: bindE_def still_leading_def getE_def split: if_splits)
      then show ?thesis using op x False v(1) by (intro exI [of _ op]) auto
    qed
  qed
qed

lemma decode_entries_rows:
  "decode_entries rows = Inr es \<Longrightarrow> (repo, e) \<in> set es \<Longrightarrow> \<exists>v. (own_key repo, v) \<in> set rows \<and> decode_entry v = Inr e"
proof (induction rows arbitrary: es)
  case (Cons row rows)
  obtain k v where row: "row = (k, v)" by fastforce
  from Cons.prems(1) obtain r e' out where r: "strip_prefix ''own/'' k = Some r" "decode_entry v = Inr e'"
    "decode_entries rows = Inr out" "es = (r, e') # out"
    by (auto simp: row split: if_splits option.splits sum.splits simp del: utf8_valid.simps)
  then have "k = own_key r" by (simp add: strip_prefix_Some own_key_def)
  with Cons.IH [OF r(3)] Cons.prems(2) r row show ?case by auto
qed simp

lemma own_all_result:
  assumes "own_all view n s = (res, t)"
  shows "\<exists>k. t = s\<lparr>clock := k\<rparr>"
    and "role (nodes s n) = Writer (owriter s) \<Longrightarrow> kv_ok (omap s) \<Longrightarrow> res = Inr es \<Longrightarrow> (repo, e) \<in> set es \<Longrightarrow>
      owner_at (omap s) repo = Some e"
proof -
  show "\<exists>k. t = s\<lparr>clock := k\<rparr>"
    using assms by (auto simp: own_all_def getE_def bindE_def io_read_def io_step_def intro: exI [of _ "clock t"]
        split: option.splits sum.splits if_splits)
  assume "role (nodes s n) = Writer (owriter s)" "kv_ok (omap s)" "res = Inr es" "(repo, e) \<in> set es"
  then obtain v where "(own_key repo, v) \<in> set (scan_prefix ''own/'' (omap s))" "decode_entry v = Inr e"
    using assms decode_entries_rows [of "scan_prefix ''own/'' (omap s)" es repo e]
    by (auto simp: own_all_def getE_def bindE_def io_read_def io_step_def map_read_def split: option.splits sum.splits)
  then show "owner_at (omap s) repo = Some e"
    using \<open>kv_ok (omap s)\<close> by (simp add: kvs.scan_mem owner_at_def)
qed

lemma prune_once_outcome:
  assumes fence: "fence_holds n others" and role: "role (nodes s n) = Writer h" "h \<le> owriter s" and ok: "kv_ok (omap s)"
    and run: "prune_once others view late n s = (res, t)"
  shows "omap t = omap s \<or> (\<exists>k. respects_owners (wall s) asker (omap (others (s\<lparr>clock := k\<rparr>))) (omap t))"
  using run [unfolded prune_once_def]
proof (cases rule: granting)
  case refused
  then show ?thesis by simp
next
  case go
  obtain r v where a: "own_all view n s = (r, v)" by fastforce
  then obtain k where v: "v = s\<lparr>clock := k\<rparr>" using own_all_result(1) by blast
  show ?thesis
  proof (cases r)
    case (Inl x)
    obtain w where "fenced_check n (own_all view n) s = (Inl x, w)" "omap w = omap s"
      using fenced_check_omap [of n "own_all view n" s] fenced_check_result [of n "own_all view n" s] a v Inl
      by (cases "fenced_check n (own_all view n) s") auto
    then show ?thesis using go by (auto simp: bindE_def)
  next
    case (Inr es)
    then have "fenced_check n (own_all view n) s = (Inr es, v)" using a by (simp add: fenced_check_ok)
    then have pr: "prune_entries late n (leader_epoch (nodes s n)) (wall s) 0 es (others (s\<lparr>clock := k\<rparr>)) = (res, t)"
      using go v by (simp add: bindE_def [of "fenced_check n (own_all view n)"])
    let ?u = "others (s\<lparr>clock := k\<rparr>)"
    note at = fence_at_write [OF fence role refl, of k]
    obtain ops where ops: "omap t = apply_batch ops (omap ?u)" "h \<noteq> owriter ?u \<longrightarrow> ops = []"
      "\<forall>x \<in> set ops. \<exists>repo e. x = BDel (own_key repo) \<and> (repo, e) \<in> set es \<and> entry_expired e (wall s)"
      using prune_entries_result [OF pr at(1)] by auto
    show ?thesis
    proof (cases "h = owriter ?u")
      case True
      with at(2) have u: "omap ?u = omap s" "h = owriter s" by auto
      have "respects_owners (wall s) asker (omap s) (omap t)" unfolding ops(1) u(1)
      proof (rule respects_batch [OF ok])
        fix x assume "x \<in> set ops"
        then obtain repo e where "x = BDel (own_key repo)" "(repo, e) \<in> set es" "entry_expired e (wall s)" using ops(3) by blast
        with own_all_result(2) [OF a _ ok Inr, of repo e] role(1) u(2)
        show "\<exists>repo. batch_key x = own_key repo \<and> (\<forall>e. owner_at (omap s) repo = Some e \<longrightarrow> entry_expired e (wall s) \<or> enode e = asker)"
          by (intro exI [of _ repo]) auto
      qed
      then show ?thesis using u by (auto intro!: exI [of _ k])
    next
      case False
      then have "omap t = omap ?u" using ops by (simp add: apply_batch_def)
      then show ?thesis by (auto intro!: exI [of _ k])
    qed
  qed
qed

text \<open>
  C2. A node that holds a live entry for a repository keeps it: neither a claim of another node,
  nor a renewal, a release or a sweep touches an entry that is live on the leader's clock and
  names somebody else than the asker, and a forced claim only one that is at least a second old.
  Each decision is taken on the very map it is written to, although other nodes may open the map
  and fence the leader in between; and when a claim is answered as granted the map names the
  asker.
\<close>

theorem live_owner_keeps_repository:
  assumes fence: "fence_holds n others" and role: "role (nodes s n) = Writer h" "h \<le> owriter s" and ok: "kv_ok (omap s)"
  shows "(grant_claim others view n repo asker False s = (res, t) \<longrightarrow>
        omap t = omap s \<or> (\<exists>k. respects_owners (wall s) asker (omap (others (s\<lparr>clock := k\<rparr>))) (omap t)))
    \<and> (grant_claim others view n repo asker True s = (res, t) \<longrightarrow>
        omap t = omap s \<or> (\<exists>k. respects_owners (wall s) asker (omap (others (s\<lparr>clock := k\<rparr>))) (omap t))
        \<or> (\<exists>e. owner_at (omap s) repo = Some e \<and> eexpires e - LEASE_TTL + FORCE_MIN_AGE \<le> wall s))
    \<and> (grant_renew others view n asker repos s = (res', t) \<longrightarrow>
        omap t = omap s \<or> (\<exists>k. respects_owners (wall s) asker (omap (others (s\<lparr>clock := k\<rparr>))) (omap t)))
    \<and> (grant_release others view n repo asker s = (res'', t) \<longrightarrow>
        omap t = omap s \<or> (\<exists>k. respects_owners (wall s) asker (omap (others (s\<lparr>clock := k\<rparr>))) (omap t)))
    \<and> (prune_once others view late n s = (res'', t) \<longrightarrow>
        omap t = omap s \<or> (\<exists>k. respects_owners (wall s) asker (omap (others (s\<lparr>clock := k\<rparr>))) (omap t)))
    \<and> (grant_claim others view n repo asker force s = (Inr (Granted e), t) \<longrightarrow>
        enode e = asker \<and> kv_get (omap t) (own_key repo) = Some (encode_entry e))"
proof -
  have claim: "omap t = omap s \<or> (\<exists>k. respects_owners (wall s) asker (omap (others (s\<lparr>clock := k\<rparr>))) (omap t))
      \<or> (force \<and> (\<exists>e. owner_at (omap s) repo = Some e \<and> eexpires e - LEASE_TTL + FORCE_MIN_AGE \<le> wall s))"
    if "grant_claim others view n repo asker force s = (res, t)" for force
    using fence role that
  proof (cases rule: grant_claim_outcome)
    case (kept k)
    then show ?thesis by (auto intro!: exI [of _ k])
  next
    case (written k e)
    then show ?thesis
      using respects_put [OF refl, of "omap s" repo "wall s" asker "encode_entry e"]
      by (cases force) (fastforce simp: claim_decision_def dest!: decide_claim_granted decide_force_granted intro!: exI [of _ k])+
  qed auto
  have "enode e = asker \<and> kv_get (omap t) (own_key repo) = Some (encode_entry e)"
    if "grant_claim others view n repo asker force s = (Inr (Granted e), t)"
    using fence role that
  proof (cases rule: grant_claim_outcome)
    case (written k e')
    then show ?thesis
      by (auto simp: claim_decision_def split: if_splits dest!: decide_claim_granted decide_force_granted)
  qed auto
  with claim [of False] claim [of True] grant_renew_outcome [OF assms] grant_release_outcome [OF assms] prune_once_outcome [OF assms]
  show ?thesis by blast
qed

lemma decode_encode_entry:
  assumes "newline \<notin> set (enode e)" "utf8_valid (enode e)" "eexpires e < u64_bound"
  shows "decode_entry (encode_entry e) = Inr e"
proof -
  have "byte_of c < 0x80" if "c \<in> set (newline # to_decimal (eexpires e))" for c
    using that to_radix_ascii [of 10 c "eexpires e"] by (auto simp: byte_of_def)
  then have "utf8_valid (encode_entry e)"
    unfolding encode_entry_def using utf8_valid_append_ascii [OF assms(2), of "newline # to_decimal (eexpires e)"] by blast
  with assms show ?thesis
    by (simp add: decode_entry_def encode_entry_def split_once_append parse_decimal)
qed

definition busy_fleet :: fleet where
  "busy_fleet = quiet_fleet\<lparr>wall := CLOCK_FLOOR_MS, omap := [(own_key ''o/r'', encode_entry \<lparr>enode = ''c'', eexpires = CLOCK_FLOOR_MS + 5\<rparr>)],
     nodes := \<lambda>n. if n = ''a'' then new_app\<lparr>leader_epoch := 1, role := Writer 0\<rparr> else new_app\<rparr>"

theorem live_owner_keeps_repository_witness:
  "kv_get (omap (snd (grant_claim id [] ''a'' ''o/r'' ''b'' False busy_fleet))) (own_key ''o/r'')
     = Some (encode_entry \<lparr>enode = ''c'', eexpires = CLOCK_FLOOR_MS + 5\<rparr>)"
proof -
  let ?e = "\<lparr>enode = ''c'', eexpires = CLOCK_FLOOR_MS + 5\<rparr>"
  let ?t = "snd (grant_claim id [] ''a'' ''o/r'' ''b'' False busy_fleet)"
  have m: "omap busy_fleet = [(own_key ''o/r'', encode_entry ?e)]" "wall busy_fleet = CLOCK_FLOOR_MS" by (simp_all add: busy_fleet_def)
  have "decode_entry (encode_entry ?e) = Inr ?e"
    by (rule decode_encode_entry) (simp_all add: CLOCK_FLOOR_MS_def byte_of_def)
  then have own: "owner_at (omap busy_fleet) ''o/r'' = Some ?e" "\<not> entry_expired ?e (wall busy_fleet)"
    by (simp_all add: m owner_at_def kv_get_def entry_expired_def)
  have hyps: "fence_holds ''a'' id" "role (nodes busy_fleet ''a'') = Writer 0" "0 \<le> owriter busy_fleet" "kv_ok (omap busy_fleet)"
    by (simp_all add: fence_holds_def busy_fleet_def kv_ok_def)
  have "grant_claim id [] ''a'' ''o/r'' ''b'' False busy_fleet = (fst (grant_claim id [] ''a'' ''o/r'' ''b'' False busy_fleet), ?t)" by simp
  with live_owner_keeps_repository [OF hyps, of "[]" "''o/r''" "''b''"]
  have "omap ?t = omap busy_fleet \<or> (\<exists>k. respects_owners (wall busy_fleet) ''b'' (omap (busy_fleet\<lparr>clock := k\<rparr>)) (omap ?t))"
    by (metis id_apply)
  then have "kv_get (omap ?t) (own_key ''o/r'') = kv_get (omap busy_fleet) (own_key ''o/r'')"
    using own by (auto simp: respects_owners_def)
  then show ?thesis by (simp add: m kv_get_def)
qed

text \<open>
  A clock that reads zero: no lease looks expired, so that no claim would be granted over a live
  owner. (The comment on \<open>CLOCK_FLOOR_MS\<close> says the opposite.)
\<close>

lemma zero_clock_expires_nothing:
  "entry_expired e 0 \<longleftrightarrow> eexpires e = 0"
  "0 < eexpires c \<Longrightarrow> enode c \<noteq> asker \<Longrightarrow> decide_claim (Some c) asker 0 = HeldBy c"
  by (auto simp: entry_expired_def decide_claim_def)

end
