(* ===== verification/Paths.thy ===== *)
theory Paths
  imports Store
begin

text \<open>
  Which repository a request path names: the path functions of \<open>bins/server/src/router/route.rs\<close>,
  the image paths of \<open>crates/registry/src/lib.rs\<close>, the volume keys of
  \<open>crates/workspaces/src/registry.rs\<close> and the repository names of
  \<open>crates/git/src/protocol/mod.rs\<close>. A path that names the database of a repository, an image or a
  volume has to be routed to the node that owns it; \<open>target_of\<close> says, from the segments alone,
  which database the handler behind a path works on, and \<open>classify\<close> is shown to route exactly
  those paths, under a key that names exactly that database.
\<close>

section \<open>Repository names\<close>

abbreviation slash :: char where "slash \<equiv> CHR ''/''"

definition trim_slashes :: "string \<Rightarrow> string" where
  "trim_slashes p = dropWhile (\<lambda>c. c = slash) p"

definition parse_repo_pair :: "string \<Rightarrow> string \<Rightarrow> (string \<times> string) option" where
  "parse_repo_pair o1 n1 =
     (let n = (case strip_suffix ''.git'' n1 of Some n \<Rightarrow> n | None \<Rightarrow> n1)
      in if \<not> valid_segment o1 \<or> \<not> valid_segment n then None else Some (o1, n))"

definition parse_repo_path :: "string \<Rightarrow> (string \<times> string) option" where
  "parse_repo_path p =
     (case split_once slash (trim_slashes p) of
        None \<Rightarrow> None
      | Some (o1, n1) \<Rightarrow> parse_repo_pair o1 n1)"

section \<open>Images and volumes\<close>

definition IMAGE_TAILS :: "string list" where
  "IMAGE_TAILS = [''blobs'', ''manifests'', ''tags'', ''referrers'']"

definition LOCAL_V2 :: "string list" where
  "LOCAL_V2 = ['''', ''token'', ''_catalog'']"

definition is_v2_path :: "string \<Rightarrow> bool" where
  "is_v2_path path = (let p = trim_slashes path in p = ''v2'' \<or> starts_with p ''v2/'')"

definition image_route :: "string \<Rightarrow> (string \<times> string) option" where
  "image_route path =
     (case strip_prefix ''v2/'' (trim_slashes path) of
        None \<Rightarrow> None
      | Some rest \<Rightarrow>
          (case split_on slash rest of
             o1 # n1 # tail # _ \<Rightarrow>
               if tail \<notin> set IMAGE_TAILS then None
               else if valid_owner o1 \<and> valid_segment n1 then Some (o1, n1) else None
           | _ \<Rightarrow> None))"

definition image_routing_key :: "string \<Rightarrow> string \<Rightarrow> string" where
  "image_routing_key o1 n1 = ''img/'' @ o1 @ ''/'' @ n1"

definition image_pool_coords :: "string \<Rightarrow> string \<Rightarrow> string \<times> string" where
  "image_pool_coords o1 n1 = (''img'', o1 @ ''/'' @ n1)"

definition volume_routing_key :: "string \<Rightarrow> string \<Rightarrow> string" where
  "volume_routing_key o1 n1 = ''vol/'' @ o1 @ ''/'' @ n1"

definition volume_pool_coords :: "string \<Rightarrow> string \<Rightarrow> string \<times> string" where
  "volume_pool_coords o1 n1 = (''vol'', o1 @ ''/'' @ n1)"

section \<open>Git and browse routes\<close>

definition GIT_ROUTE_TAILS :: "string list" where
  "GIT_ROUTE_TAILS = [''info'', ''git-upload-pack'', ''git-receive-pack'']"

definition BROWSE_TAILS :: "string list" where
  "BROWSE_TAILS =
     [''refs'', ''tree'', ''blob'', ''log'', ''commit'', ''files'', ''lastmod'', ''compare'', ''signature'',
      ''visibility'', ''create'', ''description'', ''delete'', ''protect'', ''branchdelete'', ''merge'', ''patch'',
      ''images'', ''imagetags'', ''imagetagdelete'', ''imagedelete'', ''imagevisibility'', ''volumes'',
      ''volumehistory'', ''pulls'']"

definition api_prefixed :: "string \<Rightarrow> bool" where
  "api_prefixed path \<longleftrightarrow> trim_slashes path = ''api'' \<or> starts_with (trim_slashes path) ''api/''"

definition git_shape :: "string \<Rightarrow> bool" where
  "git_shape path =
     (if api_prefixed path then False
      else case split_on slash (trim_slashes path) of
        _ # _ # tail # _ \<Rightarrow> tail \<in> set GIT_ROUTE_TAILS
      | _ \<Rightarrow> False)"

definition api_route :: "string \<Rightarrow> (string \<times> string \<times> string) option" where
  "api_route path =
     (case strip_prefix ''api/'' (trim_slashes path) of
        None \<Rightarrow> None
      | Some rest \<Rightarrow>
          (case split_on slash rest of
             o1 # second # tail # _ \<Rightarrow> if tail \<in> set BROWSE_TAILS then Some (o1, second, tail) else None
           | [o1, second] \<Rightarrow> if second \<in> set BROWSE_TAILS then Some (o1, '''', '''') else None
           | _ \<Rightarrow> None))"

definition may_create :: "string \<Rightarrow> string \<Rightarrow> bool" where
  "may_create verb path \<longleftrightarrow>
     (case api_route (trim_slashes path) of Some (_, n1, tail) \<Rightarrow> n1 \<noteq> '''' \<and> tail = ''create'' | None \<Rightarrow> False)
     \<or> (image_route (trim_slashes path) \<noteq> None \<and> verb \<in> {''POST'', ''PUT'', ''PATCH''})"

definition repo_of :: "string \<Rightarrow> string option" where
  "repo_of path =
     (let path = trim_slashes path in
      if is_v2_path path then map_option (\<lambda>(o1, n1). image_routing_key o1 n1) (image_route path)
      else if api_prefixed path then
        (case api_route path of
           None \<Rightarrow> None
         | Some (o1, n1, tail) \<Rightarrow>
             if n1 = '''' then None
             else if tail \<in> {''imagetags'', ''imagetagdelete'', ''imagedelete'', ''imagevisibility''}
             then Some (image_routing_key o1 n1)
             else if tail = ''volumehistory'' then Some (volume_routing_key o1 n1)
             else map_option (\<lambda>(o1, n1). o1 @ ''/'' @ n1) (parse_repo_pair o1 n1))
      else (case split_on slash path of
              o1 # n1 # tail # _ \<Rightarrow>
                if tail \<notin> set GIT_ROUTE_TAILS then None
                else map_option (\<lambda>(o1, n1). o1 @ ''/'' @ n1) (parse_repo_pair o1 n1)
            | _ \<Rightarrow> None))"

definition is_git_route :: "string \<Rightarrow> bool" where
  "is_git_route path \<longleftrightarrow> git_shape path
     \<or> (case api_route path of Some (_, n1, _) \<Rightarrow> n1 \<noteq> '''' | None \<Rightarrow> False)
     \<or> image_route path \<noteq> None"

section \<open>What the path decides\<close>

datatype routing = RtLocal | RtNotFound | RtNoSuchImage | RtBadRepoPath | RtRepo string

text \<open>Rust's \<open>trim_start_matches\<close> of a string takes the string off as often as it is there.\<close>

function trim_all :: "string \<Rightarrow> string \<Rightarrow> string" where
  "trim_all p s =
     (if p = [] then s else case strip_prefix p s of None \<Rightarrow> s | Some r \<Rightarrow> trim_all p r)"
  by auto
termination
  by (relation "measure (\<lambda>(p, s). length s)") (auto simp: strip_prefix_Some)

declare trim_all.simps [simp del]

definition classify :: "string \<Rightarrow> bool \<Rightarrow> routing" where
  "classify path peer =
     (if \<not> peer \<and> api_prefixed path then RtNotFound
      else if trim_slashes path \<in> {''api/admin/settings'', ''api/admin/settings/revert''} then RtLocal
      else if api_prefixed path \<and> api_route path = None then RtNotFound
      else if is_v2_path path \<and> image_route path = None then
        (if trim_slashes (trim_all ''v2'' (trim_slashes path)) \<in> set LOCAL_V2 then RtLocal else RtNoSuchImage)
      else case repo_of path of
             Some r \<Rightarrow> RtRepo r
           | None \<Rightarrow> if is_git_route path then RtBadRepoPath else RtLocal)"

text \<open>The hop count of a forwarded request: no header is a fresh request, an unreadable one is exhausted.\<close>

definition MAX_HOPS :: nat where "MAX_HOPS = 2"

definition hops_of :: "string option \<Rightarrow> nat" where
  "hops_of header =
     (case header of
        None \<Rightarrow> 0
      | Some v \<Rightarrow> (case from_str_radix (2 ^ 32) 10 v of Some n \<Rightarrow> n | None \<Rightarrow> MAX_HOPS))"

section \<open>The database behind a path\<close>

datatype target = GitRepo string string | Image string string | Volume string string

definition bare_name :: "string \<Rightarrow> string" where
  "bare_name n = (case strip_suffix ''.git'' n of Some m \<Rightarrow> m | None \<Rightarrow> n)"

definition segs_target :: "string list \<Rightarrow> target option" where
  "segs_target segs =
     (case segs of
        a # o1 # n1 # rest \<Rightarrow>
          if a = ''v2'' then
            (case rest of t # _ \<Rightarrow> if t \<in> set IMAGE_TAILS then Some (Image o1 n1) else None | [] \<Rightarrow> None)
          else if a = ''api'' then
            (case rest of
               t # _ \<Rightarrow>
                 if t \<notin> set BROWSE_TAILS \<or> n1 = '''' then None
                 else if t \<in> {''imagetags'', ''imagetagdelete'', ''imagedelete'', ''imagevisibility''} then Some (Image o1 n1)
                 else if t = ''volumehistory'' then Some (Volume o1 n1)
                 else Some (GitRepo o1 (bare_name n1))
             | [] \<Rightarrow> None)
          else if n1 \<in> set GIT_ROUTE_TAILS then Some (GitRepo a (bare_name o1)) else None
      | _ \<Rightarrow> None)"

definition path_segs :: "string \<Rightarrow> string list" where
  "path_segs path = split_on slash (trim_slashes path)"

definition target_of :: "string \<Rightarrow> target option" where
  "target_of path = segs_target (path_segs path)"

fun target_key :: "target \<Rightarrow> string" where
  "target_key (GitRepo o1 n1) = o1 @ ''/'' @ n1"
| "target_key (Image o1 n1) = image_routing_key o1 n1"
| "target_key (Volume o1 n1) = volume_routing_key o1 n1"

fun target_coords :: "target \<Rightarrow> string \<times> string" where
  "target_coords (GitRepo o1 n1) = (o1, n1)"
| "target_coords (Image o1 n1) = image_pool_coords o1 n1"
| "target_coords (Volume o1 n1) = volume_pool_coords o1 n1"

fun target_ok :: "target \<Rightarrow> bool" where
  "target_ok (GitRepo o1 n1) = (valid_segment o1 \<and> valid_segment n1)"
| "target_ok (Image o1 n1) = (valid_owner o1 \<and> valid_segment n1)"
| "target_ok (Volume o1 n1) = True"

fun target_names :: "target \<Rightarrow> string list" where
  "target_names (GitRepo o1 n1) = [o1, n1]"
| "target_names (Image o1 n1) = [o1, n1]"
| "target_names (Volume o1 n1) = [o1, n1]"

section \<open>Every path function by segments\<close>

lemma trim_slashes_idem [simp]: "trim_slashes (trim_slashes p) = trim_slashes p"
  by (simp add: trim_slashes_def dropWhile_idem)

lemma path_segs_trim [simp]: "path_segs (trim_slashes p) = path_segs p"
  by (simp add: path_segs_def)

lemma strip_first_seg:
  assumes "slash \<notin> set a"
  shows "(case strip_prefix (a @ ''/'') p of None \<Rightarrow> None | Some r \<Rightarrow> f (split_on slash r))
    = (case split_on slash p of b # c # rest \<Rightarrow> if b = a then f (c # rest) else None | _ \<Rightarrow> None)"
proof (cases "strip_prefix (a @ ''/'') p")
  case None
  have "\<not> (\<exists>c rest. split_on slash p = a # c # rest)"
  proof
    assume "\<exists>c rest. split_on slash p = a # c # rest"
    then obtain c rest where "p = join_with slash (a # c # rest)" by (metis join_split_on)
    with None show False by (auto simp: strip_prefix_def join_with_Cons)
  qed
  with None show ?thesis by (auto split: list.splits)
next
  case (Some r)
  then have "p = a @ slash # r" by (simp add: strip_prefix_Some)
  then have "split_on slash p = a # split_on slash r" using assms by (simp add: split_on_append)
  moreover obtain c rest where "split_on slash r = c # rest" by (cases "split_on slash r") auto
  ultimately show ?thesis using Some by simp
qed

lemma first_seg:
  assumes "slash \<notin> set a"
  shows "p = a \<or> starts_with p (a @ ''/'') \<longleftrightarrow> hd (split_on slash p) = a"
proof
  assume "p = a \<or> starts_with p (a @ ''/'')"
  with assms show "hd (split_on slash p) = a"
    by (auto simp: split_on_id starts_with_def prefix_def split_on_append)
next
  assume "hd (split_on slash p) = a"
  then obtain rest where "split_on slash p = a # rest" by (cases "split_on slash p") auto
  then have "p = join_with slash (a # rest)" by (metis join_split_on)
  then show "p = a \<or> starts_with p (a @ ''/'')"
    by (cases rest) (auto simp: join_with_Cons starts_with_def)
qed

lemma api_prefixed_segs: "api_prefixed path \<longleftrightarrow> hd (path_segs path) = ''api''"
  using first_seg [of "''api''" "trim_slashes path"] by (simp add: api_prefixed_def path_segs_def)

lemma is_v2_path_segs: "is_v2_path path \<longleftrightarrow> hd (path_segs path) = ''v2''"
  using first_seg [of "''v2''" "trim_slashes path"] by (simp add: is_v2_path_def path_segs_def Let_def)

lemma image_route_segs:
  "image_route path = (case path_segs path of
     b # o1 # n1 # t # _ \<Rightarrow>
       if b = ''v2'' \<and> t \<in> set IMAGE_TAILS \<and> valid_owner o1 \<and> valid_segment n1 then Some (o1, n1) else None
   | _ \<Rightarrow> None)"
  using strip_first_seg [where a = "''v2''" and p = "trim_slashes path" and f = "\<lambda>segs. case segs of
      o1 # n1 # tail # _ \<Rightarrow> if tail \<notin> set IMAGE_TAILS then None
        else if valid_owner o1 \<and> valid_segment n1 then Some (o1, n1) else None
    | _ \<Rightarrow> None"]
  by (auto simp: image_route_def path_segs_def split: list.splits)

lemma api_route_segs:
  "api_route path = (case path_segs path of
     b # o1 # n1 # t # _ \<Rightarrow> if b = ''api'' \<and> t \<in> set BROWSE_TAILS then Some (o1, n1, t) else None
   | [b, o1, n1] \<Rightarrow> if b = ''api'' \<and> n1 \<in> set BROWSE_TAILS then Some (o1, '''', '''') else None
   | _ \<Rightarrow> None)"
  using strip_first_seg [where a = "''api''" and p = "trim_slashes path" and f = "\<lambda>segs. case segs of
      o1 # second # tail # _ \<Rightarrow> if tail \<in> set BROWSE_TAILS then Some (o1, second, tail) else None
    | [o1, second] \<Rightarrow> if second \<in> set BROWSE_TAILS then Some (o1, '''', '''') else None
    | _ \<Rightarrow> None"]
  by (auto simp: api_route_def path_segs_def split: list.splits)

lemma git_shape_segs:
  "git_shape path \<longleftrightarrow> (case path_segs path of a # _ # t # _ \<Rightarrow> a \<noteq> ''api'' \<and> t \<in> set GIT_ROUTE_TAILS | _ \<Rightarrow> False)"
  by (auto simp: git_shape_def api_prefixed_segs path_segs_def split: list.splits)

lemma parse_repo_pair_bare:
  "parse_repo_pair o1 n1 = (if valid_segment o1 \<and> valid_segment (bare_name n1) then Some (o1, bare_name n1) else None)"
  by (simp add: parse_repo_pair_def bare_name_def Let_def)

lemma seg_no_slash: "x \<in> set (path_segs p) \<Longrightarrow> slash \<notin> set x"
  by (simp add: path_segs_def split_on_no_sep)

lemma bare_name_no_slash: "slash \<notin> set n \<Longrightarrow> slash \<notin> set (bare_name n)"
  by (auto simp: bare_name_def strip_suffix_Some split: option.splits)

lemma segs_cases:
  obtains (one) a where "segs = [a]" | (two) a b where "segs = [a, b]" | (three) a b c where "segs = [a, b, c]"
  | (more) a b c d r where "segs = a # b # c # d # r" | (none) "segs = []"
  by (metis list.exhaust)

text \<open>The three shapes of a path that names a database.\<close>

lemma target_shapes:
  assumes "target_of p = Some t"
  obtains (v2) o1 n1 tl r where "path_segs p = ''v2'' # o1 # n1 # tl # r" "t = Image o1 n1" "tl \<in> set IMAGE_TAILS"
  | (api) o1 n1 tl r where "path_segs p = ''api'' # o1 # n1 # tl # r" "tl \<in> set BROWSE_TAILS" "n1 \<noteq> []"
      "t = (if tl \<in> {''imagetags'', ''imagetagdelete'', ''imagedelete'', ''imagevisibility''} then Image o1 n1
            else if tl = ''volumehistory'' then Volume o1 n1 else GitRepo o1 (bare_name n1))"
  | (git) o1 n1 tl r where "path_segs p = o1 # n1 # tl # r" "o1 \<notin> {''v2'', ''api''}" "tl \<in> set GIT_ROUTE_TAILS"
      "t = GitRepo o1 (bare_name n1)"
proof (cases "path_segs p" rule: segs_cases)
  case (three a b c)
  with assms git show ?thesis by (simp add: target_of_def segs_target_def split: if_splits)
next
  case (more a b c d r)
  with assms v2 api git show ?thesis by (simp add: target_of_def segs_target_def split: if_splits)
qed (use assms in \<open>simp_all add: target_of_def segs_target_def\<close>)

lemma target_no_slash:
  assumes "target_of p = Some t"
  shows "list_all (\<lambda>x. slash \<notin> set x) (target_names t)"
  using assms
proof (cases rule: target_shapes)
  case (v2 o1 n1 tl r)
  with seg_no_slash [of _ p] show ?thesis by simp
next
  case (api o1 n1 tl r)
  with seg_no_slash [of _ p] bare_name_no_slash [of n1] show ?thesis by simp
next
  case (git o1 n1 tl r)
  with seg_no_slash [of _ p] bare_name_no_slash [of n1] show ?thesis by simp
qed

fun key_segs :: "target \<Rightarrow> string list" where
  "key_segs (GitRepo o1 n1) = [o1, n1]"
| "key_segs (Image o1 n1) = [''img'', o1, n1]"
| "key_segs (Volume o1 n1) = [''vol'', o1, n1]"

lemma split_key: "list_all (\<lambda>x. slash \<notin> set x) (target_names t) \<Longrightarrow> split_on slash (target_key t) = key_segs t"
  using split_on_append [of slash] split_on_id [of slash]
  by (cases t) (auto simp: image_routing_key_def volume_routing_key_def)

lemma key_segs_inj: "key_segs t = key_segs t' \<Longrightarrow> t = t'"
  by (cases t; cases t') auto

lemma key_inj:
  assumes "target_of p = Some t" "target_of p' = Some t'" "target_key t = target_key t'"
  shows "t = t'"
  using split_key [OF target_no_slash [OF assms(1)]] split_key [OF target_no_slash [OF assms(2)]] assms(3)
  by (simp add: key_segs_inj)

lemma key_coords: "list_all (\<lambda>x. slash \<notin> set x) (target_names t) \<Longrightarrow> split_once slash (target_key t) = Some (target_coords t)"
  by (cases t) (auto simp: image_routing_key_def volume_routing_key_def image_pool_coords_def volume_pool_coords_def
      split_once_append)

lemma repo_of_target:
  assumes "target_of path = Some t"
  shows "repo_of path = (if hd (path_segs path) = ''api'' \<and> (\<forall>o1 n1. t \<noteq> GitRepo o1 n1) \<or> target_ok t then Some (target_key t) else None)"
  using assms
proof (cases rule: target_shapes)
  case (v2 o1 n1 tl r)
  then show ?thesis by (simp add: repo_of_def is_v2_path_segs image_route_segs)
next
  case (api o1 n1 tl r)
  then show ?thesis
    by (simp add: repo_of_def is_v2_path_segs api_prefixed_segs api_route_segs parse_repo_pair_bare)
next
  case (git o1 n1 tl r)
  then show ?thesis
    by (simp add: repo_of_def is_v2_path_segs api_prefixed_segs path_segs_def [symmetric] parse_repo_pair_bare)
qed

lemma repo_of_no_target:
  assumes "target_of path = None"
  shows "repo_of path = None"
proof (cases "path_segs path" rule: segs_cases)
  case (three a b c)
  with assms show ?thesis
    by (simp add: target_of_def segs_target_def repo_of_def is_v2_path_segs api_prefixed_segs image_route_segs api_route_segs
        path_segs_def [symmetric] split: if_splits)
next
  case (more a b c d r)
  with assms show ?thesis
    by (simp add: target_of_def segs_target_def repo_of_def is_v2_path_segs api_prefixed_segs image_route_segs api_route_segs
        path_segs_def [symmetric] split: if_splits) blast
qed (simp_all add: repo_of_def Let_def is_v2_path_segs api_prefixed_segs image_route_segs api_route_segs path_segs_def [symmetric])

lemma local_v2_tail:
  "slash \<notin> set (dropWhile (\<lambda>c. c = slash) r) \<Longrightarrow> set (split_on slash r) \<subseteq> {[], dropWhile (\<lambda>c. c = slash) r}"
  by (induction r) (auto simp: split_on_id split: list.splits)

lemma local_v2_target:
  assumes "hd (path_segs path) = ''v2''" and "trim_slashes (trim_all ''v2'' (trim_slashes path)) \<in> set LOCAL_V2"
  shows "target_of path = None"
proof (cases "path_segs path")
  case (Cons a rest)
  then show ?thesis
  proof (cases rest)
    case (Cons c rest')
    let ?r = "join_with slash rest"
    have p: "trim_slashes path = ''v2/'' @ ?r"
      using assms(1) \<open>path_segs path = a # rest\<close> Cons join_split_on [of slash "trim_slashes path"]
      by (simp add: path_segs_def join_with_Cons)
    have "trim_all ''v2'' (trim_slashes path) = slash # ?r"
      unfolding p by (simp add: trim_all.simps [of _ "CHR ''v'' # _"] trim_all.simps [of _ "CHR ''/'' # _"] strip_prefix_def)
    with assms(2) have "dropWhile (\<lambda>c. c = slash) ?r \<in> set LOCAL_V2" by (simp add: trim_slashes_def)
    moreover have "split_on slash ?r = rest"
      using seg_no_slash [of _ path] \<open>path_segs path = a # rest\<close> Cons by (intro split_join) auto
    moreover have "slash \<notin> set x \<and> x \<notin> set IMAGE_TAILS" if "x \<in> set LOCAL_V2" for x
      using that by (simp add: LOCAL_V2_def IMAGE_TAILS_def) (elim disjE; simp)
    ultimately have "x \<notin> set IMAGE_TAILS" if "x \<in> set rest" for x
      using that local_v2_tail [of ?r] by (fastforce simp: IMAGE_TAILS_def)
    then show ?thesis
      using \<open>path_segs path = a # rest\<close> assms(1)
      by (cases "path_segs path" rule: segs_cases) (auto simp: target_of_def segs_target_def)
  qed (simp add: target_of_def segs_target_def)
qed (simp add: target_of_def segs_target_def)

section \<open>Routing by path is sound and complete\<close>

lemma target_is_git_route:
  assumes "target_of path = Some t"
  shows "is_git_route path \<or> hd (path_segs path) = ''v2''"
  using assms
proof (cases rule: target_shapes)
  case (git o1 n1 tl r)
  then show ?thesis by (simp add: is_git_route_def git_shape_segs)
qed (simp_all add: is_git_route_def api_route_segs)

lemma settings_no_target:
  assumes "trim_slashes path \<in> {''api/admin/settings'', ''api/admin/settings/revert''}"
  shows "target_of path = None"
proof -
  have "path_segs path = [''api'', ''admin'', ''settings''] \<or> path_segs path = [''api'', ''admin'', ''settings'', ''revert'']"
    using assms by (auto simp: path_segs_def)
  moreover have "''revert'' \<notin> set BROWSE_TAILS" by (simp add: BROWSE_TAILS_def)
  ultimately show ?thesis by (auto simp: target_of_def segs_target_def)
qed

lemma classify_target:
  assumes "target_of path = Some t"
  shows "classify path peer =
    (if \<not> peer \<and> hd (path_segs path) = ''api'' then RtNotFound
     else if hd (path_segs path) = ''v2'' \<and> \<not> target_ok t then RtNoSuchImage
     else if hd (path_segs path) = ''api'' \<and> (\<forall>o1 n1. t \<noteq> GitRepo o1 n1) \<or> target_ok t then RtRepo (target_key t)
     else RtBadRepoPath)"
proof -
  have s: "trim_slashes path \<notin> {''api/admin/settings'', ''api/admin/settings/revert''}"
    using settings_no_target assms by auto
  have api: "api_route path \<noteq> None" if "hd (path_segs path) = ''api''"
    using assms that by (cases rule: target_shapes) (simp_all add: api_route_segs)
  have img: "image_route path = None \<longleftrightarrow> \<not> target_ok t" if "hd (path_segs path) = ''v2''"
    using assms that by (cases rule: target_shapes) (simp_all add: image_route_segs)
  have loc: "trim_slashes (trim_all ''v2'' (trim_slashes path)) \<notin> set LOCAL_V2" if "hd (path_segs path) = ''v2''"
    using local_v2_target [OF that] assms by auto
  note defs = api_prefixed_segs is_v2_path_segs repo_of_target [OF assms]
  consider "hd (path_segs path) = ''api''" | "hd (path_segs path) = ''v2''" | "hd (path_segs path) \<notin> {''api'', ''v2''}" by blast
  then show ?thesis
  proof cases
    case 1
    moreover from api [OF this] obtain x where "api_route path = Some x" by blast
    ultimately show ?thesis
      using target_is_git_route [OF assms] unfolding classify_def if_not_P [OF s] by (simp add: defs)
  next
    case 2
    with img [OF this] loc [OF this] show ?thesis unfolding classify_def if_not_P [OF s] by (simp add: defs)
  next
    case 3
    with target_is_git_route [OF assms] show ?thesis unfolding classify_def if_not_P [OF s] by (simp add: defs)
  qed
qed

lemma classify_no_target:
  assumes "target_of path = None"
  shows "classify path peer \<noteq> RtRepo k"
  using repo_of_no_target [OF assms] by (simp add: classify_def del: insert_iff)



text \<open>
  A git path may name an owner that no repository can have. Its key then lies in front of the keys
  of images: the key of \<open>/img/alice/info/refs\<close> is \<open>img/alice\<close>.
\<close>

lemma git_path_under_img: "repo_of ''/img/alice/info/refs'' = Some ''img/alice''"
  by code_simp

end
