(* ===== verification/Routing.thy ===== *)
theory Routing
  imports Ownership Paths
begin

text \<open>
  How a request finds the node that owns its repository: \<open>crates/app/src/routing.rs\<close>, the asking
  half of \<open>crates/app/src/election.rs\<close> (\<open>ask_leader_with\<close>, \<open>refresh_leader\<close>, the drain) and the line
  protocol and the recovery decision of \<open>bins/server/src/router/route.rs\<close>.
  \<open>send m what body\<close> is the POST of \<open>body\<close> to \<open>/own/what\<close> on node \<open>m\<close>: a status and a text, or the
  error of a node that cannot be reached. \<open>others\<close> and \<open>view\<close> are those of the ownership map. The
  state of a node the router needs beside the fleet is its record \<open>rnode\<close>; \<open>files\<close> are the paths of
  the object store.
\<close>

section \<open>The state of the routers\<close>

record rnode =
  healthy :: bool
  pool_closed :: bool
  slots :: "(string \<times> bool) list"
  recovery_asked :: "(string \<times> nat) list"
  missing_seen :: "(string \<times> nat) list"
  owner_asks :: nat
  waiting :: nat

record router =
  net :: fleet
  rnodes :: "string \<Rightarrow> rnode"
  files :: "string list"

definition on_net :: "(fleet, 'a) io \<Rightarrow> (router, 'a) io" where
  "on_net m = (\<lambda>s. case m (net s) of (r, t) \<Rightarrow> (r, s\<lparr>net := t\<rparr>))"

definition upd_rnode :: "string \<Rightarrow> (rnode \<Rightarrow> rnode) \<Rightarrow> router \<Rightarrow> router" where
  "upd_rnode n f s = s\<lparr>rnodes := (rnodes s)(n := f (rnodes s n))\<rparr>"

definition now_ms :: "router \<Rightarrow> nat" where
  "now_ms s = wall (net s)"

definition pause :: "nat \<Rightarrow> (router, unit) io" where
  "pause d = putE (\<lambda>s. s\<lparr>net := (net s)\<lparr>wall := wall (net s) + d\<rparr>\<rparr>)"

text \<open>The databases a node holds open, less those picked for closing; and whether one exists at all.\<close>

definition warm_repos :: "rnode \<Rightarrow> string list" where
  "warm_repos x = map fst (filter (\<lambda>(_, releasing). \<not> releasing) (slots x))"

definition pool_exists :: "string \<Rightarrow> string \<Rightarrow> string \<Rightarrow> (router, bool) io" where
  "pool_exists n o1 n1 =
     bindE (getE (\<lambda>s. o1 @ ''/'' @ n1 \<in> fst ` set (slots (rnodes s n)))) (\<lambda>held.
     if held then returnE True
     else bindE (on_net io_step) (\<lambda>_.
          getE (\<lambda>s. list_ex (\<lambda>p. prefix (''repo/'' @ o1 @ ''/'' @ n1 @ ''/'') p) (files s))))"

definition pool_evict :: "string \<Rightarrow> string \<Rightarrow> (router, unit) io" where
  "pool_evict n repo = putE (upd_rnode n (\<lambda>x. x\<lparr>slots := AList.delete repo (slots x)\<rparr>))"

section \<open>Asking the leader\<close>

datatype patience = PClaim | PRecover | PRelease | PNone

definition CLAIM_ATTEMPTS :: nat where "CLAIM_ATTEMPTS = 20"
definition CLAIM_BACKOFF :: nat where "CLAIM_BACKOFF = 1500"
definition RECOVER_ATTEMPTS :: nat where "RECOVER_ATTEMPTS = 2"
definition RECOVER_BACKOFF :: nat where "RECOVER_BACKOFF = 250"
definition RELEASE_ATTEMPTS :: nat where "RELEASE_ATTEMPTS = 4"
definition RELEASE_BACKOFF :: nat where "RELEASE_BACKOFF = 400"
definition MAX_WAITING_CLAIMS :: nat where "MAX_WAITING_CLAIMS = 64"
definition RECOVERY_ASK_EVERY :: nat where "RECOVERY_ASK_EVERY = 1000"
definition MISSING_ASK_EVERY :: nat where "MISSING_ASK_EVERY = 3000"
definition MISSING_CACHE_MAX :: nat where "MISSING_CACHE_MAX = 4096"

fun attempts :: "patience \<Rightarrow> nat" where
  "attempts PClaim = CLAIM_ATTEMPTS"
| "attempts PRecover = RECOVER_ATTEMPTS"
| "attempts PRelease = RELEASE_ATTEMPTS"
| "attempts PNone = 1"

fun backoff :: "patience \<Rightarrow> nat" where
  "backoff PClaim = CLAIM_BACKOFF"
| "backoff PRecover = RECOVER_BACKOFF"
| "backoff _ = RELEASE_BACKOFF"

definition default_patience :: "string \<Rightarrow> patience" where
  "default_patience what = (if what = ''claim'' then PClaim else if what = ''release'' then PRelease else PNone)"

text \<open>The answer of a node: a status and a text whose reading may break off.\<close>

type_synonym reply = "nat \<times> (error + string)"
type_synonym send = "string \<Rightarrow> string \<Rightarrow> string \<Rightarrow> (router, reply) io"

definition refresh_leader :: "string \<Rightarrow> (router, string option) io" where
  "refresh_leader n =
     bindE (getE (\<lambda>s. role (nodes (net s) n))) (\<lambda>r.
     if r = Solo then returnE None
     else bindE (tryE (on_net lease_read)) (\<lambda>cur.
     bindE (getE now_ms) (\<lambda>now.
     case cur of
       Inr (Some h) \<Rightarrow>
         if \<not> lease_expired (hlease h) now
         then bindE (on_net (putE (note_live n (hlease h)))) (\<lambda>_. returnE (Some (lnode (hlease h))))
         else bindE (on_net (putE (upd_node n (\<lambda>x. x\<lparr>leader := None\<rparr>)))) (\<lambda>_. returnE None)
     | Inr None \<Rightarrow> bindE (on_net (putE (upd_node n (\<lambda>x. x\<lparr>leader := None\<rparr>)))) (\<lambda>_. returnE None)
     | Inl _ \<Rightarrow> getE (\<lambda>s. leader (nodes (net s) n)))))"

text \<open>
  \<open>left\<close> attempts are left; \<open>first\<close> says that none was made yet, \<open>leader\<close> is the name the first one
  may take without reading the lease, \<open>err\<close> the error to report.
\<close>

fun ask_loop :: "send \<Rightarrow> string \<Rightarrow> string \<Rightarrow> string \<Rightarrow> nat \<Rightarrow> nat \<Rightarrow> bool \<Rightarrow> string option \<Rightarrow> error \<Rightarrow> (router, string) io" where
  "ask_loop send n what body bk 0 first ldr err = failE err"
| "ask_loop send n what body bk (Suc left) first ldr err =
     bindE (if first then returnE () else pause bk) (\<lambda>_.
     bindE (case ldr of Some m \<Rightarrow> returnE (Some m) | None \<Rightarrow> refresh_leader n) (\<lambda>name.
     case name of
       None \<Rightarrow> ask_loop send n what body bk left False None (Message ''no live leader'')
     | Some m \<Rightarrow>
         bindE (tryE (send m what body)) (\<lambda>res.
         case res of
           Inr (status, text) \<Rightarrow>
             if 200 \<le> status \<and> status < 300 then liftE text
             else if status = 421
             then ask_loop send n what body bk left False None (Message (''own/'' @ what @ '': '' @ m @ '' is not the leader''))
             else failE (Message (''own/'' @ what @ '': leader answered '' @ to_decimal status))
         | Inl e \<Rightarrow> ask_loop send n what body bk left False None e)))"

definition ask_leader_with :: "send \<Rightarrow> string \<Rightarrow> string \<Rightarrow> string \<Rightarrow> patience \<Rightarrow> (router, string) io" where
  "ask_leader_with send n what body p =
     (let ask = bindE (getE (\<lambda>s. leader (nodes (net s) n))) (\<lambda>ldr.
                ask_loop send n what body (backoff p) (attempts p) True ldr (Message ''the leader was unreachable''))
      in if p = PClaim then
           bindE (getE (\<lambda>s. waiting (rnodes s n))) (\<lambda>w.
           if MAX_WAITING_CLAIMS \<le> w then failE (Message ''too many claims already waiting on the leader; retry'')
           else bindE (putE (upd_rnode n (\<lambda>x. x\<lparr>waiting := waiting x + 1\<rparr>))) (\<lambda>_.
                bindE (tryE ask) (\<lambda>r.
                bindE (putE (upd_rnode n (\<lambda>x. x\<lparr>waiting := waiting x - 1\<rparr>))) (\<lambda>_. liftE r))))
         else ask)"

definition ask_leader :: "send \<Rightarrow> string \<Rightarrow> string \<Rightarrow> string \<Rightarrow> (router, string) io" where
  "ask_leader send n what body = ask_leader_with send n what body (default_patience what)"

text \<open>\<open>str::lines\<close>: a newline ends a line, with the carriage return before it; no empty line at the end.\<close>

definition chop_cr :: "string \<Rightarrow> string" where
  "chop_cr l = (case strip_suffix [CHR 0x0D] l of Some m \<Rightarrow> m | None \<Rightarrow> l)"

definition lines_of :: "string \<Rightarrow> string list" where
  "lines_of s = (let ps = split_on newline s in map chop_cr (butlast ps) @ (if last ps = [] then [] else [last ps]))"

definition line_at :: "string \<Rightarrow> nat \<Rightarrow> string" where
  "line_at s i = (let ls = lines_of s in if i < length ls then ls ! i else [])"

section \<open>Claims, renewals and releases\<close>

definition claim_body :: "string \<Rightarrow> string \<Rightarrow> bool \<Rightarrow> string" where
  "claim_body repo asker force = repo @ newline # asker @ (if force then newline # ''force'' else [])"

definition parse_grant :: "string \<Rightarrow> error + grant" where
  "parse_grant reply =
     (case parse_u64 (line_at reply 2) of
        None \<Rightarrow> Inl (Message (''claim reply: bad expiry '' @ line_at reply 2))
      | Some x \<Rightarrow>
          (let e = \<lparr>enode = line_at reply 1, eexpires = x\<rparr>
           in if line_at reply 0 = ''granted'' then Inr (Granted e)
              else if line_at reply 0 = ''heldby'' then Inr (HeldBy e)
              else Inl (Message (''claim reply: unknown verb '' @ line_at reply 0))))"

definition claim_as ::
    "send \<Rightarrow> (fleet \<Rightarrow> fleet) \<Rightarrow> kv \<Rightarrow> string \<Rightarrow> string \<Rightarrow> string \<Rightarrow> bool \<Rightarrow> patience \<Rightarrow> (router, grant) io" where
  "claim_as send others view n repo asker force p =
     bindE (getE (\<lambda>s. is_leader n (net s))) (\<lambda>ldr.
     if ldr then on_net (grant_claim others view n repo asker force)
     else bindE (ask_leader_with send n ''claim'' (claim_body repo asker force) p) (\<lambda>reply. liftE (parse_grant reply)))"

definition claim :: "send \<Rightarrow> (fleet \<Rightarrow> fleet) \<Rightarrow> kv \<Rightarrow> string \<Rightarrow> string \<Rightarrow> (router, grant) io" where
  "claim send others view n repo = claim_as send others view n repo n False PClaim"

definition may_take :: "string \<Rightarrow> router \<Rightarrow> bool" where
  "may_take n s \<longleftrightarrow> healthy (rnodes s n) \<and> \<not> pool_closed (rnodes s n) \<and> \<not> draining (nodes (net s) n)"

definition claim_to_recover :: "send \<Rightarrow> (fleet \<Rightarrow> fleet) \<Rightarrow> kv \<Rightarrow> string \<Rightarrow> string \<Rightarrow> (router, grant) io" where
  "claim_to_recover send others view n repo =
     bindE (getE (may_take n)) (\<lambda>ok.
     if \<not> ok then failE (Message ''this node may not take a repo over right now'')
     else claim_as send others view n repo n False PRecover)"

text \<open>\<open>unwrap_or(true)\<close>: a store that cannot be read does not make a repository missing.\<close>

definition exists_or_unknown :: "string \<Rightarrow> string \<Rightarrow> (router, bool) io" where
  "exists_or_unknown n repo =
     (case split_once slash repo of
        None \<Rightarrow> returnE True
      | Some (o1, n1) \<Rightarrow> bindE (tryE (pool_exists n o1 n1)) (\<lambda>r. returnE (case r of Inr b \<Rightarrow> b | Inl _ \<Rightarrow> True)))"

definition force_claim :: "send \<Rightarrow> (fleet \<Rightarrow> fleet) \<Rightarrow> kv \<Rightarrow> string \<Rightarrow> string \<Rightarrow> (router, grant) io" where
  "force_claim send others view n repo =
     bindE (getE (may_take n)) (\<lambda>ok.
     if \<not> ok then failE (Message ''this node may not take a repo over right now'')
     else bindE (exists_or_unknown n repo) (\<lambda>there.
          if \<not> there then failE (Message (repo @ '': no such repository''))
          else claim_as send others view n repo n True PRecover))"

definition claim_for :: "send \<Rightarrow> (fleet \<Rightarrow> fleet) \<Rightarrow> kv \<Rightarrow> string \<Rightarrow> string \<Rightarrow> string \<Rightarrow> (router, grant) io" where
  "claim_for send others view n repo m = claim_as send others view n repo m False PRecover"

definition parse_owner :: "string \<Rightarrow> error + entry option" where
  "parse_owner reply =
     (case lines_of reply of
        m # x # _ \<Rightarrow>
          if m = [] then Inr None
          else (case parse_u64 x of
                  None \<Rightarrow> Inl (Message (''owner reply: bad expiry '' @ x))
                | Some e \<Rightarrow> Inr (Some \<lparr>enode = m, eexpires = e\<rparr>))
      | _ \<Rightarrow> Inr None)"

definition ask_owner :: "send \<Rightarrow> kv \<Rightarrow> string \<Rightarrow> string \<Rightarrow> (router, entry option) io" where
  "ask_owner send view n repo =
     bindE (putE (upd_rnode n (\<lambda>x. x\<lparr>owner_asks := owner_asks x + 1\<rparr>))) (\<lambda>_.
     bindE (getE (\<lambda>s. is_leader n (net s))) (\<lambda>ldr.
     if ldr then on_net (own_get view n repo)
     else bindE (ask_leader_with send n ''owner'' repo PRecover) (\<lambda>reply. liftE (parse_owner reply))))"

definition renew_body :: "string \<Rightarrow> string list \<Rightarrow> string" where
  "renew_body n repos = n @ concat (map (\<lambda>r. newline # r) repos)"

definition renew_all :: "send \<Rightarrow> (fleet \<Rightarrow> fleet) \<Rightarrow> kv \<Rightarrow> string \<Rightarrow> string list \<Rightarrow> (router, string list) io" where
  "renew_all send others view n repos =
     bindE (getE (\<lambda>s. is_leader n (net s))) (\<lambda>ldr.
     if ldr then on_net (grant_renew others view n n repos)
     else bindE (ask_leader send n ''renew'' (renew_body n repos)) (\<lambda>reply.
          returnE (filter (\<lambda>l. l \<noteq> []) (lines_of reply))))"

definition renew_once :: "send \<Rightarrow> (fleet \<Rightarrow> fleet) \<Rightarrow> kv \<Rightarrow> string \<Rightarrow> (router, unit) io" where
  "renew_once send others view n =
     bindE (getE (\<lambda>s. warm_repos (rnodes s n))) (\<lambda>repos.
     bindE (renew_all send others view n repos) (\<lambda>lost.
     forE lost (\<lambda>repo. case split_once slash repo of None \<Rightarrow> returnE () | Some _ \<Rightarrow> pool_evict n repo)))"

definition release :: "send \<Rightarrow> (fleet \<Rightarrow> fleet) \<Rightarrow> kv \<Rightarrow> string \<Rightarrow> string \<Rightarrow> (router, unit) io" where
  "release send others view n repo =
     bindE (getE (\<lambda>s. is_leader n (net s))) (\<lambda>ldr.
     if ldr then on_net (grant_release others view n repo n)
     else bindE (ask_leader send n ''release'' (repo @ newline # n)) (\<lambda>_. returnE ()))"

section \<open>The leader's side of the wire\<close>

definition not_the_leader :: "nat \<times> string" where
  "not_the_leader = (421, ''not the leader; read cluster/leader'')"

definition own_err :: "string \<Rightarrow> error \<Rightarrow> router \<Rightarrow> nat \<times> string" where
  "own_err m e s =
     (if \<not> is_leader m (net s) then not_the_leader
      else case e of Unowned _ \<Rightarrow> (404, ''not found'') | _ \<Rightarrow> (500, ''internal error''))"

definition leader_only :: "string \<Rightarrow> (router \<Rightarrow> (nat \<times> string) \<times> router) \<Rightarrow> router \<Rightarrow> (nat \<times> string) \<times> router" where
  "leader_only m h s = (if \<not> is_leader m (net s) then (not_the_leader, s) else h s)"

definition answer :: "string \<Rightarrow> (router, 'a) io \<Rightarrow> ('a \<Rightarrow> string) \<Rightarrow> router \<Rightarrow> (nat \<times> string) \<times> router" where
  "answer m op text s = (case op s of (Inr x, t) \<Rightarrow> ((200, text x), t) | (Inl e, t) \<Rightarrow> (own_err m e t, t))"

definition show_entry :: "entry \<Rightarrow> string" where
  "show_entry e = enode e @ newline # to_decimal (eexpires e)"

definition show_grant :: "grant \<Rightarrow> string" where
  "show_grant g = (case g of
     Granted e \<Rightarrow> ''granted'' @ newline # show_entry e
   | HeldBy e \<Rightarrow> ''heldby'' @ newline # show_entry e)"

definition own_claim :: "(fleet \<Rightarrow> fleet) \<Rightarrow> kv \<Rightarrow> string \<Rightarrow> string \<Rightarrow> router \<Rightarrow> (nat \<times> string) \<times> router" where
  "own_claim others view m body = leader_only m (\<lambda>s.
     let bad = ((400, ''repo'' @ newline # ''node['' @ newline # ''force]''), s);
         grant = (\<lambda>repo asker force. if repo = [] \<or> asker = [] then bad
           else answer m (on_net (grant_claim others view m repo asker force)) show_grant s)
     in case split_on newline (trim_end body) of
          [repo, asker] \<Rightarrow> grant repo asker False
        | [repo, asker, force] \<Rightarrow> if force \<noteq> ''force'' then bad else grant repo asker True
        | _ \<Rightarrow> bad)"

definition own_owner :: "send \<Rightarrow> kv \<Rightarrow> string \<Rightarrow> string \<Rightarrow> router \<Rightarrow> (nat \<times> string) \<times> router" where
  "own_owner send view m body = leader_only m (\<lambda>s.
     let repo = trim_end body in
     if repo = [] \<or> newline \<in> set repo then ((400, ''repo''), s)
     else answer m (ask_owner send view m repo) (\<lambda>e. case e of Some e \<Rightarrow> show_entry e | None \<Rightarrow> []) s)"

definition own_renew :: "(fleet \<Rightarrow> fleet) \<Rightarrow> kv \<Rightarrow> string \<Rightarrow> string \<Rightarrow> router \<Rightarrow> (nat \<times> string) \<times> router" where
  "own_renew others view m body = leader_only m (\<lambda>s.
     case split_on newline (trim_end body) of
       asker # repos \<Rightarrow>
         if asker = [] then ((400, ''node'' @ newline # ''repo...''), s)
         else answer m (on_net (grant_renew others view m asker (filter (\<lambda>l. l \<noteq> []) repos))) (join_with newline) s
     | [] \<Rightarrow> ((400, ''node'' @ newline # ''repo...''), s))"

definition two_lines :: "string \<Rightarrow> (string \<times> string) option" where
  "two_lines body =
     (case split_on newline (trim_end body) of
        [repo, asker] \<Rightarrow> if repo \<noteq> [] \<and> asker \<noteq> [] then Some (repo, asker) else None
      | _ \<Rightarrow> None)"

definition own_release :: "(fleet \<Rightarrow> fleet) \<Rightarrow> kv \<Rightarrow> string \<Rightarrow> string \<Rightarrow> router \<Rightarrow> (nat \<times> string) \<times> router" where
  "own_release others view m body = leader_only m (\<lambda>s.
     case two_lines body of
       None \<Rightarrow> ((400, ''repo'' @ newline # ''node''), s)
     | Some (repo, asker) \<Rightarrow> answer m (on_net (grant_release others view m repo asker)) (\<lambda>_. []) s)"

section \<open>Where a request belongs\<close>

datatype route = RLocal | RPeer string | RUnavailable | RMissing

definition route_to :: "string \<Rightarrow> string \<Rightarrow> router \<Rightarrow> route" where
  "route_to n m s =
     (if m = n then (if healthy (rnodes s n) \<and> \<not> pool_closed (rnodes s n) then RLocal else RUnavailable)
      else RPeer m)"

definition recent :: "nat \<Rightarrow> nat \<Rightarrow> (string \<times> nat) list \<Rightarrow> string \<Rightarrow> bool" where
  "recent every at m k = (case map_of m k of Some t \<Rightarrow> at - t < every | None \<Rightarrow> False)"

definition may_ask_to_recover :: "string \<Rightarrow> string \<Rightarrow> (router, bool) io" where
  "may_ask_to_recover n repo =
     (\<lambda>s. if recent RECOVERY_ASK_EVERY (now_ms s) (recovery_asked (rnodes s n)) repo then (Inr False, s)
          else (Inr True, upd_rnode n (\<lambda>x. x\<lparr>recovery_asked := AList.update repo (now_ms s) (recovery_asked x)\<rparr>) s))"

definition swept :: "nat \<Rightarrow> (string \<times> nat) list \<Rightarrow> (string \<times> nat) list" where
  "swept at m =
     (if MISSING_CACHE_MAX \<le> length m
      then let kept = filter (\<lambda>(_, t). at - t < MISSING_ASK_EVERY) m in if MISSING_CACHE_MAX \<le> length kept then [] else kept
      else m)"

definition may_ask_who_owns :: "string \<Rightarrow> string \<Rightarrow> (router, bool) io" where
  "may_ask_who_owns n repo =
     (\<lambda>s. if recent MISSING_ASK_EVERY (now_ms s) (missing_seen (rnodes s n)) repo then (Inr False, s)
          else (Inr True, upd_rnode n (\<lambda>x. x\<lparr>missing_seen := swept (now_ms s) (missing_seen x)\<rparr>) s))"

definition note_no_owner :: "string \<Rightarrow> string \<Rightarrow> (router, unit) io" where
  "note_no_owner n repo =
     putE (\<lambda>s. upd_rnode n (\<lambda>x. x\<lparr>missing_seen := AList.update repo (now_ms s) (missing_seen x)\<rparr>) s)"

text \<open>
  The peer a drain gives a repository to: rendezvous hashing over the nodes the map and the lease
  name. The hash is the standard library's; of equal ones \<open>max_by_key\<close> takes the last.
\<close>

fun max_by :: "('a \<Rightarrow> nat) \<Rightarrow> 'a \<Rightarrow> 'a list \<Rightarrow> 'a" where
  "max_by f x [] = x"
| "max_by f x (y # ys) = max_by f (if f x \<le> f y then y else x) ys"

definition rendezvous :: "('a \<Rightarrow> nat) \<Rightarrow> 'a list \<Rightarrow> 'a option" where
  "rendezvous f xs = (case xs of [] \<Rightarrow> None | x # ys \<Rightarrow> Some (max_by f x ys))"

definition handover_target :: "(string \<Rightarrow> string \<Rightarrow> nat) \<Rightarrow> kv \<Rightarrow> string \<Rightarrow> string \<Rightarrow> (router, string option) io" where
  "handover_target hash view n repo =
     bindE (getE now_ms) (\<lambda>now.
     bindE (tryE (on_net (own_all view n))) (\<lambda>all.
     bindE (getE (\<lambda>s. leader (nodes (net s) n))) (\<lambda>ldr.
     let entries = (case all of Inr es \<Rightarrow> es | Inl _ \<Rightarrow> []);
         named = map (\<lambda>(_, e). enode e) (filter (\<lambda>(_, e). \<not> entry_expired e now) entries) @ (case ldr of Some m \<Rightarrow> [m] | None \<Rightarrow> []);
         peers = remdups (sort (filter (\<lambda>m. m \<noteq> n) named))
     in returnE (rendezvous (hash repo) peers))))"

text \<open>The path through \<open>route_for\<close> for a repository with no live entry, in the order of the source.\<close>

definition ask_missing :: "send \<Rightarrow> kv \<Rightarrow> string \<Rightarrow> string \<Rightarrow> (router, route) io" where
  "ask_missing send view n repo =
     bindE (may_ask_who_owns n repo) (\<lambda>ask.
     if \<not> ask then returnE RMissing
     else bindE (tryE (ask_owner send view n repo)) (\<lambda>r.
          bindE (getE now_ms) (\<lambda>now.
          case r of
            Inr (Some e) \<Rightarrow>
              if \<not> entry_expired e now then getE (route_to n (enode e))
              else bindE (note_no_owner n repo) (\<lambda>_. returnE RMissing)
          | _ \<Rightarrow> bindE (note_no_owner n repo) (\<lambda>_. returnE RMissing))))"

definition claim_route :: "send \<Rightarrow> (fleet \<Rightarrow> fleet) \<Rightarrow> kv \<Rightarrow> string \<Rightarrow> string \<Rightarrow> entry option \<Rightarrow> (router, route) io" where
  "claim_route send others view n repo e =
     bindE (tryE (claim send others view n repo)) (\<lambda>g.
     case g of
       Inr (Granted x) \<Rightarrow> getE (route_to n (enode x))
     | Inr (HeldBy x) \<Rightarrow> getE (route_to n (enode x))
     | Inl _ \<Rightarrow>
         bindE (getE (\<lambda>s. repo \<in> set (warm_repos (rnodes s n)))) (\<lambda>warm.
         if (case e of Some x \<Rightarrow> enode x = n | None \<Rightarrow> False) \<and> warm then getE (route_to n n)
         else returnE RUnavailable))"

definition route_unowned ::
    "send \<Rightarrow> (fleet \<Rightarrow> fleet) \<Rightarrow> kv \<Rightarrow> (string \<Rightarrow> string \<Rightarrow> nat) \<Rightarrow> string \<Rightarrow> string \<Rightarrow> bool \<Rightarrow> entry option \<Rightarrow> (router, route) io" where
  "route_unowned send others view hash n repo create e =
     bindE (getE (\<lambda>s. healthy (rnodes s n))) (\<lambda>h.
     if \<not> h then returnE RUnavailable
     else bindE (getE (\<lambda>s. pool_closed (rnodes s n) \<or> draining (nodes (net s) n))) (\<lambda>leaving.
          if leaving then
            bindE (handover_target hash view n repo) (\<lambda>peer.
            case peer of Some m \<Rightarrow> getE (route_to n m) | None \<Rightarrow> returnE RUnavailable)
          else bindE (if create then returnE True else exists_or_unknown n repo) (\<lambda>there.
               if \<not> there then ask_missing send view n repo
               else claim_route send others view n repo e)))"

definition route_for ::
    "send \<Rightarrow> (fleet \<Rightarrow> fleet) \<Rightarrow> kv \<Rightarrow> (string \<Rightarrow> string \<Rightarrow> nat) \<Rightarrow> string \<Rightarrow> string \<Rightarrow> bool \<Rightarrow> (router, route) io" where
  "route_for send others view hash n repo create =
     bindE (getE now_ms) (\<lambda>now.
     bindE (tryE (on_net (own_get view n repo))) (\<lambda>r.
     case r of
       Inl _ \<Rightarrow> returnE RUnavailable
     | Inr e \<Rightarrow>
         (case e of
            Some x \<Rightarrow>
              if \<not> entry_expired x now then getE (route_to n (enode x))
              else route_unowned send others view hash n repo create e
          | None \<Rightarrow> route_unowned send others view hash n repo create e)))"

definition route :: "send \<Rightarrow> (fleet \<Rightarrow> fleet) \<Rightarrow> kv \<Rightarrow> (string \<Rightarrow> string \<Rightarrow> nat) \<Rightarrow> string \<Rightarrow> string \<Rightarrow> (router, route) io" where
  "route send others view hash n repo = route_for send others view hash n repo False"

definition on_fenced ::
    "send \<Rightarrow> (fleet \<Rightarrow> fleet) \<Rightarrow> kv \<Rightarrow> (string \<Rightarrow> string \<Rightarrow> nat) \<Rightarrow> string \<Rightarrow> string \<Rightarrow> string \<Rightarrow> (router, bool) io" where
  "on_fenced send others view hash n o1 n1 =
     bindE (route_for send others view hash n (o1 @ ''/'' @ n1) True) (\<lambda>r.
     if r \<noteq> RLocal then returnE False
     else bindE (pool_evict n (o1 @ ''/'' @ n1)) (\<lambda>_. returnE True))"

definition open_repo_after_fence ::
    "send \<Rightarrow> (fleet \<Rightarrow> fleet) \<Rightarrow> kv \<Rightarrow> (string \<Rightarrow> string \<Rightarrow> nat) \<Rightarrow> (router, 'r option) io \<Rightarrow> string \<Rightarrow> string \<Rightarrow> string
      \<Rightarrow> (router, 'r option) io" where
  "open_repo_after_fence send others view hash open_it n o1 n1 =
     handleE open_it (\<lambda>e.
       if is_fenced e
       then bindE (on_fenced send others view hash n o1 n1) (\<lambda>again. if again then open_it else failE e)
       else failE e)"

section \<open>The routing middleware\<close>

datatype recovery = ServeHere | ForwardTo string | Force | GiveUp

definition grantee :: "grant \<Rightarrow> string" where
  "grantee g = (case g of Granted e \<Rightarrow> enode e | HeldBy e \<Rightarrow> enode e)"

definition decide_recovery :: "grant option \<Rightarrow> string \<Rightarrow> string \<Rightarrow> recovery" where
  "decide_recovery asked unreachable me =
     (case asked of
        Some g \<Rightarrow>
          if grantee g = me then ServeHere
          else if grantee g \<noteq> unreachable then ForwardTo (grantee g)
          else Force
      | None \<Rightarrow> GiveUp)"

text \<open>
  What becomes of a request: handled here (under \<open>pool::unowned\<close> when a key is named), answered by
  the middleware, or answered by the peer it was forwarded to.
\<close>

datatype outcome = Serve "string option" | Answer nat | Relayed string nat

type_synonym forward = "string \<Rightarrow> nat \<Rightarrow> (router, nat) io"

definition ok_option :: "error + 'a \<Rightarrow> 'a option" where
  "ok_option r = (case r of Inr x \<Rightarrow> Some x | Inl _ \<Rightarrow> None)"

definition act_on :: "forward \<Rightarrow> nat \<Rightarrow> recovery \<Rightarrow> (router, outcome) io" where
  "act_on forward hops step =
     (case step of
        ServeHere \<Rightarrow> returnE (Serve None)
      | ForwardTo m \<Rightarrow>
          bindE (tryE (forward m hops)) (\<lambda>r. returnE (case r of Inr st \<Rightarrow> Relayed m st | Inl _ \<Rightarrow> Answer 502))
      | _ \<Rightarrow> returnE (Answer 502))"

definition take_over ::
    "send \<Rightarrow> (fleet \<Rightarrow> fleet) \<Rightarrow> kv \<Rightarrow> forward \<Rightarrow> (error \<Rightarrow> bool) \<Rightarrow> string \<Rightarrow> string \<Rightarrow> string \<Rightarrow> nat \<Rightarrow> (router, outcome) io" where
  "take_over send others view forward is_connect n repo m hops =
     bindE (tryE (forward m hops)) (\<lambda>r.
     case r of
       Inr st \<Rightarrow> returnE (Relayed m st)
     | Inl e \<Rightarrow>
         if \<not> is_connect e then returnE (Answer 502)
         else bindE (tryE (force_claim send others view n repo)) (\<lambda>g.
              act_on forward hops (case g of Inr g \<Rightarrow> decide_recovery (Some g) m n | Inl _ \<Rightarrow> GiveUp)))"

definition recover_after_forward ::
    "send \<Rightarrow> (fleet \<Rightarrow> fleet) \<Rightarrow> kv \<Rightarrow> forward \<Rightarrow> (error \<Rightarrow> bool) \<Rightarrow> string \<Rightarrow> string \<Rightarrow> string \<Rightarrow> nat \<Rightarrow> bool \<Rightarrow> error
      \<Rightarrow> (router, outcome) io" where
  "recover_after_forward send others view forward is_connect n repo m hops replay e =
     (if \<not> (replay \<and> is_connect e) then returnE (Answer 502)
      else bindE (may_ask_to_recover n repo) (\<lambda>ask.
           if \<not> ask then returnE (Answer 502)
           else bindE (tryE (claim_to_recover send others view n repo)) (\<lambda>asked.
                case decide_recovery (ok_option asked) m n of
                  Force \<Rightarrow> take_over send others view forward is_connect n repo m hops
                | step \<Rightarrow> act_on forward hops step)))"

definition route_inner ::
    "send \<Rightarrow> (fleet \<Rightarrow> fleet) \<Rightarrow> kv \<Rightarrow> (string \<Rightarrow> string \<Rightarrow> nat) \<Rightarrow> forward \<Rightarrow> (error \<Rightarrow> bool) \<Rightarrow> string \<Rightarrow> string \<Rightarrow> string
      \<Rightarrow> string option \<Rightarrow> bool \<Rightarrow> (router, outcome) io" where
  "route_inner send others view hash forward is_connect n verb path header peer =
     (case classify path peer of
        RtLocal \<Rightarrow> returnE (Serve None)
      | RtNotFound \<Rightarrow> returnE (Answer 404)
      | RtNoSuchImage \<Rightarrow> returnE (Answer 404)
      | RtBadRepoPath \<Rightarrow> returnE (Answer 400)
      | RtRepo repo \<Rightarrow>
          bindE (route_for send others view hash n repo (may_create verb path)) (\<lambda>r.
          if r = RMissing then returnE (Serve (Some repo))
          else if MAX_HOPS \<le> hops_of header then returnE (if r = RLocal then Serve None else Answer 503)
          else (case r of
                  RLocal \<Rightarrow> returnE (Serve None)
                | RPeer m \<Rightarrow>
                    bindE (tryE (forward m (hops_of header))) (\<lambda>res.
                    case res of
                      Inr st \<Rightarrow> returnE (Relayed m st)
                    | Inl e \<Rightarrow> recover_after_forward send others view forward is_connect n repo m (hops_of header) (verb = ''GET'') e)
                | _ \<Rightarrow> returnE (Answer 503))))"

section \<open>Leaving the fleet\<close>

text \<open>
  \<open>slow i\<close> says how the \<open>i\<close>-th repository's handover met its time limit: not at all, or after that
  many of its steps, the next step landing or not.
\<close>

definition within :: "(nat \<times> bool) option \<Rightarrow> nat \<Rightarrow> (router, 'a) io \<Rightarrow> (router, 'a) io" where
  "within stop i m =
     (case stop of
        None \<Rightarrow> m
      | Some (k, lands) \<Rightarrow>
          if i < k then m
          else if i = k \<and> lands then bindE (ignoreE m) (\<lambda>_. failE (Message ''elapsed''))
          else failE (Message ''elapsed''))"

definition close_local :: "string \<Rightarrow> string \<Rightarrow> (router, unit) io" where
  "close_local n repo = (case split_once slash repo of None \<Rightarrow> returnE () | Some _ \<Rightarrow> pool_evict n repo)"

definition give_to ::
    "send \<Rightarrow> (fleet \<Rightarrow> fleet) \<Rightarrow> kv \<Rightarrow> (nat \<times> bool) option \<Rightarrow> string \<Rightarrow> string \<Rightarrow> string \<Rightarrow> (router, bool) io" where
  "give_to send others view stop n repo m =
     bindE (within stop 3 (tryE (claim_for send others view n repo m))) (\<lambda>g.
     case g of
       Inr (Granted _) \<Rightarrow> returnE True
     | _ \<Rightarrow> bindE (within stop 4 (ignoreE (claim_for send others view n repo n))) (\<lambda>_. returnE False))"

definition hand_over ::
    "send \<Rightarrow> (fleet \<Rightarrow> fleet) \<Rightarrow> kv \<Rightarrow> (string \<Rightarrow> string \<Rightarrow> nat) \<Rightarrow> (nat \<times> bool) option \<Rightarrow> string \<Rightarrow> string \<Rightarrow> (router, bool) io" where
  "hand_over send others view hash stop n repo =
     bindE (within stop 0 (handover_target hash view n repo)) (\<lambda>target.
     bindE (within stop 1 (tryE (release send others view n repo))) (\<lambda>r.
     bindE (within stop 2 (close_local n repo)) (\<lambda>_.
     case r of
       Inl _ \<Rightarrow> returnE False
     | Inr _ \<Rightarrow> (case target of None \<Rightarrow> returnE False | Some m \<Rightarrow> give_to send others view stop n repo m))))"

fun drain_repos ::
    "send \<Rightarrow> (fleet \<Rightarrow> fleet) \<Rightarrow> kv \<Rightarrow> (string \<Rightarrow> string \<Rightarrow> nat) \<Rightarrow> (nat \<Rightarrow> bool) \<Rightarrow> (nat \<Rightarrow> (nat \<times> bool) option) \<Rightarrow> string \<Rightarrow> nat
      \<Rightarrow> string list \<Rightarrow> (router, nat \<times> nat) io" where
  "drain_repos send others view hash late slow n i [] = returnE (0, 0)"
| "drain_repos send others view hash late slow n i (repo # repos) =
     (if late i then returnE (0, 0)
      else bindE (tryE (hand_over send others view hash (slow i) n repo)) (\<lambda>r.
           bindE (case r of Inl _ \<Rightarrow> ignoreE (release send others view n repo) | Inr _ \<Rightarrow> returnE ()) (\<lambda>_.
           bindE (drain_repos send others view hash late slow n (Suc i) repos) (\<lambda>(moved, kept).
           returnE (case r of Inr True \<Rightarrow> (moved + 1, kept) | Inr False \<Rightarrow> (moved, kept + 1) | Inl _ \<Rightarrow> (moved, kept))))))"

text \<open>Thirteen seconds of reading the lease five times a second, for a leader that is another node.\<close>

fun await_new_leader :: "string \<Rightarrow> nat \<Rightarrow> (router, unit) io" where
  "await_new_leader n 0 = returnE ()"
| "await_new_leader n (Suc k) =
     bindE (tryE (on_net lease_read)) (\<lambda>cur.
     bindE (getE now_ms) (\<lambda>now.
     case cur of
       Inr (Some c) \<Rightarrow>
         if lnode (hlease c) \<noteq> n \<and> \<not> lease_expired (hlease c) now then on_net (putE (note_live n (hlease c)))
         else bindE (pause 200) (\<lambda>_. await_new_leader n k)
     | _ \<Rightarrow> bindE (pause 200) (\<lambda>_. await_new_leader n k)))"

text \<open>\<open>App::resign\<close>, run to its end.\<close>

definition resign_all :: "string \<Rightarrow> fleet \<Rightarrow> fleet" where
  "resign_all n s =
     (let (c1, s1) = resign_seg n RIdle s; (c2, s2) = resign_seg n c1 s1; (c3, s3) = resign_seg n c2 s2
      in if c3 = RIdle then s3 else snd (resign_seg n c3 s3))"

definition drain ::
    "send \<Rightarrow> (fleet \<Rightarrow> fleet) \<Rightarrow> kv \<Rightarrow> (string \<Rightarrow> string \<Rightarrow> nat) \<Rightarrow> (nat \<Rightarrow> bool) \<Rightarrow> (nat \<Rightarrow> (nat \<times> bool) option) \<Rightarrow> string
      \<Rightarrow> (router, nat \<times> nat) io" where
  "drain send others view hash late slow n =
     bindE (on_net (putE (upd_node n (\<lambda>x. x\<lparr>draining := True\<rparr>)))) (\<lambda>_.
     bindE (getE (\<lambda>s. is_leader n (net s))) (\<lambda>was_leader.
     bindE (on_net (putE (resign_all n))) (\<lambda>_.
     bindE (if was_leader then await_new_leader n 65 else returnE ()) (\<lambda>_.
     bindE (getE (\<lambda>s. warm_repos (rnodes s n))) (\<lambda>repos.
     drain_repos send others view hash late slow n 0 repos)))))"

section \<open>A claim over the wire is a claim at the leader\<close>

text \<open>
  The names the protocol is made for are words of printable ASCII: the names of nodes and the keys
  of repositories.
\<close>

definition graphic :: "char \<Rightarrow> bool" where
  "graphic c \<longleftrightarrow> 0x21 \<le> byte_of c \<and> byte_of c < 0x7F"

definition wire_ok :: "string \<Rightarrow> bool" where
  "wire_ok x \<longleftrightarrow> x \<noteq> [] \<and> list_all graphic x"

lemma graphic_no_break [simp]: "\<not> graphic newline" "\<not> graphic (CHR 0x0D)"
  by (simp_all add: graphic_def byte_of_def)

lemma wire_ok_newline: "wire_ok x \<Longrightarrow> newline \<notin> set x"
  by (auto simp: wire_ok_def list_all_iff)

lemma wire_ok_last: "wire_ok x \<Longrightarrow> x \<noteq> [] \<and> graphic (last x)"
  by (auto simp: wire_ok_def list_all_iff)

lemma strip_first_None: "strip_first ws s = None \<longleftrightarrow> (\<forall>w \<in> set ws. \<not> prefix w s)"
  by (induction ws) (auto simp: strip_prefix_def)

lemma white_spaces_end: "list_all (\<lambda>w. w \<noteq> [] \<and> \<not> graphic (last w)) white_spaces"
  by (simp add: white_spaces_def graphic_def byte_of_def)

lemma trim_end_graphic:
  assumes "graphic (last x)"
  shows "trim_end x = x"
proof -
  have "\<not> suffix w x" if "w \<in> set white_spaces" for w
    using that white_spaces_end assms by (auto simp: list_all_iff suffix_def)
  then have "strip_first (map rev white_spaces) (rev x) = None"
    by (simp add: strip_first_None suffix_to_prefix)
  then show ?thesis by (cases "length x") (simp_all add: trim_end_def)
qed

lemma chop_cr_wire: "wire_ok x \<Longrightarrow> chop_cr x = x"
  using wire_ok_last by (fastforce simp: chop_cr_def strip_suffix_Some split: option.splits)

lemma lines_entry:
  assumes "wire_ok m"
  shows "lines_of (m @ newline # to_decimal x) = [m, to_decimal x]"
  using assms wire_ok_newline [OF assms] chop_cr_wire [OF assms]
  by (simp add: lines_of_def split_on_append split_on_id)

lemma lines_grant:
  assumes "wire_ok v" "wire_ok m"
  shows "lines_of (v @ newline # m @ newline # to_decimal x) = [v, m, to_decimal x]"
  using assms wire_ok_newline [OF assms(1)] wire_ok_newline [OF assms(2)] chop_cr_wire [OF assms(1)] chop_cr_wire [OF assms(2)]
  by (simp add: lines_of_def split_on_append split_on_id)

lemma wire_verbs: "wire_ok ''granted''" "wire_ok ''heldby''" "wire_ok ''force''"
  by (simp_all add: wire_ok_def graphic_def byte_of_def)

definition grant_ok :: "grant \<Rightarrow> bool" where
  "grant_ok g \<longleftrightarrow> wire_ok (grantee g) \<and> (case g of Granted e \<Rightarrow> eexpires e < u64_bound | HeldBy e \<Rightarrow> eexpires e < u64_bound)"

lemma lines_show_grant:
  "grant_ok g \<Longrightarrow> lines_of (show_grant g) = (case g of
     Granted e \<Rightarrow> [''granted'', enode e, to_decimal (eexpires e)] | HeldBy e \<Rightarrow> [''heldby'', enode e, to_decimal (eexpires e)])"
  unfolding show_grant_def show_entry_def grant_ok_def grantee_def
  using lines_grant [OF wire_verbs(1)] lines_grant [OF wire_verbs(2)] by (cases g) auto

lemma parse_show_grant:
  assumes "grant_ok g"
  shows "parse_grant (show_grant g) = Inr g"
  using lines_show_grant [OF assms] assms
  by (cases g) (auto simp: parse_grant_def line_at_def Let_def grant_ok_def parse_decimal)

lemma split_claim_body:
  assumes "wire_ok repo" "wire_ok asker"
  shows "split_on newline (trim_end (claim_body repo asker force)) = (if force then [repo, asker, ''force''] else [repo, asker])"
proof -
  have "graphic (last (claim_body repo asker force))"
    using wire_ok_last [OF assms(2)] wire_ok_last [OF wire_verbs(3)] by (auto simp: claim_body_def)
  then show ?thesis
    using wire_ok_newline [OF assms(1)] wire_ok_newline [OF assms(2)]
    by (simp add: trim_end_graphic claim_body_def split_on_append split_on_id)
qed

text \<open>A send that reaches the handlers of the node it is sent to, and brings back what they answer.\<close>

definition delivers_claims :: "send \<Rightarrow> (fleet \<Rightarrow> fleet) \<Rightarrow> kv \<Rightarrow> bool" where
  "delivers_claims send others view \<longleftrightarrow> (\<forall>m body s. send m ''claim'' body s =
     (case own_claim others view m body s of ((status, text), t) \<Rightarrow> (Inr (status, Inr text), t)))"

lemma own_claim_granted:
  assumes "is_leader m (net s)" "wire_ok repo" "wire_ok asker" "grant_claim others view m repo asker force (net s) = (Inr g, t)"
  shows "own_claim others view m (claim_body repo asker force) s = ((200, show_grant g), s\<lparr>net := t\<rparr>)"
  using assms wire_ok_last [OF assms(2)] wire_ok_last [OF assms(3)]
  by (cases force) (simp_all add: own_claim_def leader_only_def split_claim_body answer_def on_net_def)

lemma ask_claim:
  assumes "delivers_claims send others view" "leader (nodes (net s) n) = Some m" "is_leader m (net s)" "wire_ok repo" "wire_ok asker"
    and "grant_claim others view m repo asker force (net s) = (Inr g, t)" "waiting (rnodes s n) < MAX_WAITING_CLAIMS"
  shows "ask_leader_with send n ''claim'' (claim_body repo asker force) p s = (Inr (show_grant g), s\<lparr>net := t\<rparr>)"
proof -
  obtain k where att: "attempts p = Suc k"
    by (cases p) (auto simp: CLAIM_ATTEMPTS_def RECOVER_ATTEMPTS_def RELEASE_ATTEMPTS_def)
  have loop: "ask_loop send n ''claim'' (claim_body repo asker force) bk (attempts p) True (Some m) e u = (Inr (show_grant g), u\<lparr>net := t\<rparr>)"
    if "net u = net s" for bk e u
    unfolding att using own_claim_granted [of m u repo asker others view force g t] assms(1,3-6) that
    by (simp add: bindE_def tryE_def delivers_claims_def)
  define u where "u = upd_rnode n (\<lambda>x. x\<lparr>waiting := Suc (waiting x)\<rparr>) s"
  have x: "x\<lparr>waiting := waiting x\<rparr> = x" for x :: rnode by simp
  have given: "upd_rnode n (\<lambda>x. x\<lparr>waiting := waiting x - 1\<rparr>) (u\<lparr>net := t\<rparr>) = s\<lparr>net := t\<rparr>"
    by (simp add: u_def upd_rnode_def x)
  have "net u = net s" by (simp add: u_def upd_rnode_def)
  then show ?thesis
    using loop [of s "backoff p"] loop [of u "backoff p"] assms(2,7) given
    by (cases "p = PClaim")
      (simp_all add: ask_leader_with_def bindE_def getE_def putE_def tryE_def u_def [symmetric] del: ask_loop.simps attempts.simps backoff.simps)
qed

text \<open>
  C26. A node that asks the leader over the wire gets the very answer the leader gives itself, and
  the map changes exactly as it does for a claim made at the leader, a forced one included.
\<close>

theorem remote_claim_is_local_claim:
  assumes "delivers_claims send others view" "leader (nodes (net s) n) = Some m" "is_leader m (net s)" "\<not> is_leader n (net s)"
    and "wire_ok repo" "wire_ok asker" "waiting (rnodes s n) < MAX_WAITING_CLAIMS"
    and "claim_as send others view m repo asker force p s = (Inr g, t)" "grant_ok g"
  shows "claim_as send others view n repo asker force p s = (Inr g, t)"
proof -
  from assms(3,8) obtain u where "grant_claim others view m repo asker force (net s) = (Inr g, u)" "t = s\<lparr>net := u\<rparr>"
    by (auto simp: claim_as_def getE_def bindE_def on_net_def split: prod.splits)
  with ask_claim [OF assms(1-3,5,6) _ assms(7)] parse_show_grant [OF assms(9)] assms(4)
  show ?thesis by (simp add: claim_as_def getE_def bindE_def)
qed

definition calm_rnode :: rnode where
  "calm_rnode = \<lparr>healthy = True, pool_closed = False, slots = [], recovery_asked = [], missing_seen = [], owner_asks = 0, waiting = 0\<rparr>"

definition calm_router :: router where
  "calm_router = \<lparr>net = busy_fleet\<lparr>nodes := (nodes busy_fleet)(''b'' := new_app\<lparr>leader := Some ''a''\<rparr>)\<rparr>,
     rnodes = \<lambda>_. calm_rnode, files = [''repo/o/r/manifest/1'']\<rparr>"

definition direct_send :: "(fleet \<Rightarrow> fleet) \<Rightarrow> kv \<Rightarrow> send" where
  "direct_send others view m what body s =
     (if what = ''claim'' then (case own_claim others view m body s of ((status, text), t) \<Rightarrow> (Inr (status, Inr text), t))
      else (Inl (Message ''connection refused''), s))"

theorem remote_claim_is_local_claim_witness:
  "claim_as (direct_send id []) id [] ''b'' ''x/y'' ''b'' False PClaim calm_router
    = (Inr (Granted \<lparr>enode = ''b'', eexpires = CLOCK_FLOOR_MS + LEASE_TTL\<rparr>),
       snd (claim_as (direct_send id []) id [] ''a'' ''x/y'' ''b'' False PClaim calm_router))"
proof (rule remote_claim_is_local_claim [where m = "''a''"])
  show "delivers_claims (direct_send id []) id []" by (simp add: delivers_claims_def direct_send_def)
  have "fst (claim_as (direct_send id []) id [] ''a'' ''x/y'' ''b'' False PClaim calm_router)
      = Inr (Granted \<lparr>enode = ''b'', eexpires = CLOCK_FLOOR_MS + LEASE_TTL\<rparr>)"
    by (simp add: claim_as_def calm_router_def busy_fleet_def quiet_fleet_def new_app_def is_leader_def getE_def bindE_def on_net_def grant_claim_def
        writing_epoch_def decision_clock_def decision_now_ms_def fenced_check_def handleE_def own_get_def map_read_def io_read_def
        io_step_def kv_get_def own_key_def decide_claim_def own_put_def map_write_def io_write_def still_leading_def putE_def)
  then show "claim_as (direct_send id []) id [] ''a'' ''x/y'' ''b'' False PClaim calm_router
      = (Inr (Granted \<lparr>enode = ''b'', eexpires = CLOCK_FLOOR_MS + LEASE_TTL\<rparr>),
         snd (claim_as (direct_send id []) id [] ''a'' ''x/y'' ''b'' False PClaim calm_router))"
    by (metis prod.collapse)
  show "leader (nodes (net calm_router) ''b'') = Some ''a''" "is_leader ''a'' (net calm_router)" "\<not> is_leader ''b'' (net calm_router)"
    "waiting (rnodes calm_router ''b'') < MAX_WAITING_CLAIMS"
    by (simp_all add: calm_router_def calm_rnode_def busy_fleet_def is_leader_def new_app_def MAX_WAITING_CLAIMS_def)
  show "grant_ok (Granted \<lparr>enode = ''b'', eexpires = CLOCK_FLOOR_MS + LEASE_TTL\<rparr>)" "wire_ok ''x/y''" "wire_ok ''b''"
    by (simp_all add: grant_ok_def grantee_def wire_ok_def graphic_def byte_of_def CLOCK_FLOOR_MS_def LEASE_TTL_def)
qed

section \<open>No node serves what it is not named for\<close>

text \<open>
  The states \<open>route_for\<close> goes through: after reading its copy of the map, and when it turns to the
  leader. \<open>route_named\<close> says, of exactly this run, that one of the two names this node, or that the
  leader did not answer, the entry that has lapsed named this node and it holds the database open.
\<close>

definition after_map :: "kv \<Rightarrow> string \<Rightarrow> string \<Rightarrow> router \<Rightarrow> router" where
  "after_map view n repo s = snd (on_net (own_get view n repo) s)"

definition at_leader :: "kv \<Rightarrow> string \<Rightarrow> string \<Rightarrow> bool \<Rightarrow> router \<Rightarrow> router" where
  "at_leader view n repo create s =
     (let u = after_map view n repo s in if create then u else snd (exists_or_unknown n repo u))"

definition route_named ::
    "send \<Rightarrow> (fleet \<Rightarrow> fleet) \<Rightarrow> kv \<Rightarrow> string \<Rightarrow> string \<Rightarrow> bool \<Rightarrow> router \<Rightarrow> bool" where
  "route_named send others view n repo create s \<longleftrightarrow>
     (let mine = fst (own_get view n repo (net s)); u = at_leader view n repo create s; g = claim send others view n repo u
      in (\<exists>x. mine = Inr (Some x) \<and> enode x = n \<and> \<not> entry_expired x (now_ms s))
       \<or> (\<exists>y. fst g = Inr y \<and> grantee y = n)
       \<or> (\<exists>x e. mine = Inr (Some x) \<and> enode x = n \<and> fst g = Inl e \<and> repo \<in> set (warm_repos (rnodes (snd g) n)))
       \<or> (\<exists>x. fst (ask_owner send view n repo (snd (may_ask_who_owns n repo u))) = Inr (Some x) \<and> enode x = n))"

lemma max_by_mem: "max_by f x xs \<in> set (x # xs)"
  by (induction xs arbitrary: x) (auto split: if_splits)

lemma rendezvous_mem: "rendezvous f xs = Some m \<Longrightarrow> m \<in> set xs"
  using max_by_mem [of f] by (auto simp: rendezvous_def split: list.splits)

lemma handover_target_other: "handover_target hash view n repo s = (Inr (Some m), t) \<Longrightarrow> m \<noteq> n"
  by (auto simp: handover_target_def bindE_def getE_def tryE_def Let_def dest!: rendezvous_mem)

lemma route_to_local: "route_to n m s = RLocal \<longleftrightarrow> m = n \<and> healthy (rnodes s n) \<and> \<not> pool_closed (rnodes s n)"
  by (simp add: route_to_def)

abbreviation serving :: "string \<Rightarrow> router \<Rightarrow> bool" where
  "serving n t \<equiv> healthy (rnodes t n) \<and> \<not> pool_closed (rnodes t n)"

lemma claim_route_local:
  assumes "claim_route send others view n repo e u = (Inr RLocal, t)"
  shows "serving n t \<and> ((\<exists>y. fst (claim send others view n repo u) = Inr y \<and> grantee y = n)
    \<or> (\<exists>x err. e = Some x \<and> enode x = n \<and> fst (claim send others view n repo u) = Inl err
        \<and> repo \<in> set (warm_repos (rnodes (snd (claim send others view n repo u)) n))))"
  using assms
  by (auto simp: claim_route_def bindE_def tryE_def getE_def grantee_def route_to_local
      split: sum.splits grant.splits if_splits option.splits)

lemma ask_missing_local:
  assumes "ask_missing send view n repo u = (Inr RLocal, t)"
  shows "serving n t \<and> (\<exists>x. fst (ask_owner send view n repo (snd (may_ask_who_owns n repo u))) = Inr (Some x) \<and> enode x = n)"
  using assms
  by (auto simp: ask_missing_def bindE_def tryE_def getE_def route_to_local note_no_owner_def putE_def
      split: sum.splits if_splits option.splits prod.splits)

lemma exists_or_unknown_ok: "\<exists>b. exists_or_unknown n repo u = (Inr b, snd (exists_or_unknown n repo u))"
  by (auto simp: exists_or_unknown_def bindE_def tryE_def split: option.splits)

lemma route_unowned_local:
  assumes "route_unowned send others view hash n repo create e u = (Inr RLocal, t)"
  defines "v \<equiv> (if create then u else snd (exists_or_unknown n repo u))"
  shows "claim_route send others view n repo e v = (Inr RLocal, t) \<or> ask_missing send view n repo v = (Inr RLocal, t)"
proof -
  have leaving: "(case peer of Some m \<Rightarrow> getE (route_to n m) | None \<Rightarrow> returnE RUnavailable) w \<noteq> (Inr RLocal, t)"
    if "handover_target hash view n repo u = (Inr peer, w)" for peer w
    using that handover_target_other [of hash view n repo u _ w] by (auto simp: getE_def route_to_local split: option.splits)
  from assms(1) have "healthy (rnodes u n)" by (auto simp: route_unowned_def bindE_def getE_def split: if_splits)
  moreover from assms(1) calculation leaving [unfolded getE_def] have "\<not> (pool_closed (rnodes u n) \<or> draining (nodes (net u) n))"
    by (auto simp: route_unowned_def bindE_def getE_def split: if_splits sum.splits prod.splits)
  moreover obtain b where "(if create then returnE True else exists_or_unknown n repo) u = (Inr b, v)"
    using exists_or_unknown_ok [of n repo u] unfolding v_def by (cases create) (simp, metis)
  ultimately show ?thesis using assms(1) by (auto simp: route_unowned_def bindE_def getE_def split: if_splits)
qed

lemma route_for_local:
  assumes "route_for send others view hash n repo create s = (Inr RLocal, t)"
  shows "serving n t \<and> route_named send others view n repo create s"
proof -
  let ?u = "after_map view n repo s" and ?v = "at_leader view n repo create s"
  obtain e where e: "own_get view n repo (net s) = (Inr e, net ?u)" "on_net (own_get view n repo) s = (Inr e, ?u)"
    using assms by (auto simp: route_for_def bindE_def getE_def tryE_def after_map_def on_net_def split: sum.splits prod.splits)
  consider x where "e = Some x" "enode x = n" "\<not> entry_expired x (now_ms s)" "serving n t"
    | "route_unowned send others view hash n repo create e ?u = (Inr RLocal, t)"
    using assms e by (auto simp: route_for_def bindE_def getE_def tryE_def route_to_local split: if_splits option.splits)
  then show ?thesis
  proof cases
    case 1
    with e show ?thesis by (simp add: route_named_def)
  next
    case 2
    from route_unowned_local [OF this] have "claim_route send others view n repo e ?v = (Inr RLocal, t) \<or> ask_missing send view n repo ?v = (Inr RLocal, t)"
      by (simp add: at_leader_def Let_def)
    with e claim_route_local [of send others view n repo e ?v t] ask_missing_local [of send view n repo ?v t]
    show ?thesis by (auto simp: route_named_def Let_def)
  qed
qed

text \<open>
  The recovery after a forward that failed: the states in which the leader is asked, and asked
  again to force the claim.
\<close>

definition recovery_named ::
    "send \<Rightarrow> (fleet \<Rightarrow> fleet) \<Rightarrow> kv \<Rightarrow> forward \<Rightarrow> string \<Rightarrow> string \<Rightarrow> string \<Rightarrow> nat \<Rightarrow> router \<Rightarrow> bool" where
  "recovery_named send others view forward n repo m hops u \<longleftrightarrow>
     (let v = snd (may_ask_to_recover n repo u); asked = claim_to_recover send others view n repo v;
          forced = force_claim send others view n repo (snd (forward m hops (snd asked)))
      in (\<exists>g. fst asked = Inr g \<and> grantee g = n)
       \<or> (\<exists>g. fst asked = Inr g \<and> grantee g = m \<and> (\<exists>g'. fst forced = Inr g' \<and> grantee g' = n)))"

lemma act_on_serve: "act_on forward hops step u = (Inr (Serve k), t) \<longleftrightarrow> step = ServeHere \<and> k = None \<and> t = u"
  by (auto simp: act_on_def bindE_def tryE_def split: recovery.splits sum.splits)

lemma decide_serve: "decide_recovery asked m n = ServeHere \<longleftrightarrow> (\<exists>g. asked = Some g \<and> grantee g = n)"
  by (auto simp: decide_recovery_def split: option.splits)

lemma decide_force: "decide_recovery asked m n = Force \<longleftrightarrow> (\<exists>g. asked = Some g \<and> grantee g = m \<and> m \<noteq> n)"
  by (auto simp: decide_recovery_def split: option.splits)

lemma ok_option_Some: "ok_option r = Some x \<longleftrightarrow> r = Inr x"
  by (simp add: ok_option_def split: sum.splits)

lemma take_over_serve:
  assumes "take_over send others view forward is_connect n repo m hops u = (Inr (Serve k), t)"
  shows "k = None \<and> (\<exists>g. fst (force_claim send others view n repo (snd (forward m hops u))) = Inr g \<and> grantee g = n)"
  using assms by (auto simp: take_over_def bindE_def tryE_def act_on_serve decide_serve split: sum.splits if_splits prod.splits)

lemma recover_serve:
  assumes "recover_after_forward send others view forward is_connect n repo m hops replay e u = (Inr (Serve k), t)"
  shows "k = None \<and> replay \<and> is_connect e \<and> recovery_named send others view forward n repo m hops u"
proof -
  have r: "replay" "is_connect e" using assms by (auto simp: recover_after_forward_def split: if_splits)
  obtain v where v: "may_ask_to_recover n repo u = (Inr True, v)"
    using assms r by (auto simp: recover_after_forward_def bindE_def may_ask_to_recover_def split: if_splits)
  let ?asked = "claim_to_recover send others view n repo v"
  from assms r v have "(case decide_recovery (ok_option (fst ?asked)) m n of
      Force \<Rightarrow> take_over send others view forward is_connect n repo m hops | step \<Rightarrow> act_on forward hops step) (snd ?asked) = (Inr (Serve k), t)"
    by (simp add: recover_after_forward_def bindE_def tryE_def)
  then consider "decide_recovery (ok_option (fst ?asked)) m n = Force" "take_over send others view forward is_connect n repo m hops (snd ?asked) = (Inr (Serve k), t)"
    | "decide_recovery (ok_option (fst ?asked)) m n = ServeHere" "k = None"
    by (auto simp: act_on_serve split: recovery.splits)
  then show ?thesis
    using r v by cases (auto simp: recovery_named_def Let_def decide_force decide_serve ok_option_Some dest!: take_over_serve)
qed


definition owner_view :: kv where
  "owner_view = [(own_key ''o/r'', encode_entry \<lparr>enode = ''c'', eexpires = CLOCK_FLOOR_MS + 5\<rparr>)]"

definition owner_router :: router where
  "owner_router = calm_router\<lparr>net := busy_fleet\<lparr>nodes := (nodes busy_fleet)(''c'' := new_app\<lparr>role := Reader True\<rparr>)\<rparr>\<rparr>"


section \<open>Invented names cost the leader nothing\<close>

abbreviation map_is :: "kv \<Rightarrow> router \<Rightarrow> bool" where
  "map_is m s \<equiv> omap (net s) = m"

lemma keeps_on_net: "(\<And>f. omap (snd (k f)) = omap f) \<Longrightarrow> keeps (map_is m) (on_net k)"
  by (auto simp: keeps_def on_net_def split: prod.splits) (metis snd_conv)

lemma lease_read_omap [simp]: "omap (snd (lease_read f)) = omap f"
  by (auto simp: lease_read_def io_read_def io_step_def getE_def bindE_def liftE_def split: option.splits sum.splits)

lemma own_get_omap [simp]: "omap (snd (own_get view n repo f)) = omap f"
  by (auto simp: own_get_def io_read_def io_step_def getE_def bindE_def liftE_def split: option.splits sum.splits)

lemma own_all_omap [simp]: "omap (snd (own_all view n f)) = omap f"
  by (auto simp: own_all_def io_read_def io_step_def getE_def bindE_def liftE_def split: option.splits sum.splits)

lemma keeps_upd_rnode: "keeps (map_is m) (putE (upd_rnode n f))"
  by (simp add: keeps_def putE_def upd_rnode_def)

lemma keeps_net_put: "(\<And>f. omap (g f) = omap f) \<Longrightarrow> keeps (map_is m) (on_net (putE g))"
  by (rule keeps_on_net) (simp add: putE_def)

lemma keeps_refresh: "keeps (map_is m) (refresh_leader n)"
  unfolding refresh_leader_def
  by (intro keeps_intros keeps_net_put keeps_on_net) (simp_all add: note_live_def upd_node_def)

definition map_free :: "kv \<Rightarrow> send \<Rightarrow> string \<Rightarrow> bool" where
  "map_free m send what \<longleftrightarrow> (\<forall>l body. keeps (map_is m) (send l what body))"

lemma keeps_ask_loop:
  assumes "map_free m send what"
  shows "keeps (map_is m) (ask_loop send n what body bk left first ldr err)"
proof (induction left arbitrary: first ldr err)
  case (Suc left)
  have "keeps (map_is m) (pause bk)" by (simp add: keeps_def pause_def putE_def)
  moreover have "keeps (map_is m) (case ldr of Some l \<Rightarrow> returnE (Some l) | None \<Rightarrow> refresh_leader n)"
    by (cases ldr) (simp_all add: keeps_refresh keeps_returnE)
  ultimately show ?case
    unfolding ask_loop.simps using Suc assms unfolding map_free_def by (intro keeps_intros) auto
qed (simp add: keeps_def)

lemma keeps_ask:
  assumes "map_free m send what"
  shows "keeps (map_is m) (ask_leader_with send n what body p)"
  unfolding ask_leader_with_def Let_def using keeps_ask_loop [OF assms]
  by (intro keeps_intros keeps_upd_rnode) auto

lemma keeps_ask_missing:
  assumes "map_free m send ''owner''"
  shows "keeps (map_is m) (ask_missing send view n repo)"
proof -
  have who: "keeps (map_is m) (may_ask_who_owns n repo)" by (simp add: keeps_def may_ask_who_owns_def upd_rnode_def)
  have noted: "keeps (map_is m) (note_no_owner n repo)" by (simp add: keeps_def note_no_owner_def putE_def upd_rnode_def)
  have "keeps (map_is m) (ask_owner send view n repo)"
    unfolding ask_owner_def by (intro keeps_intros keeps_upd_rnode keeps_on_net keeps_ask assms) simp
  with who noted show ?thesis unfolding ask_missing_def by (intro keeps_intros)
qed

lemma exists_nothing:
  assumes "split_once slash repo = Some (o1, n1)" and "repo \<notin> fst ` set (slots (rnodes u n))"
    and "\<not> list_ex (\<lambda>p. prefix (''repo/'' @ o1 @ ''/'' @ n1 @ ''/'') p) (files u)" and "faults (net u) (clock (net u)) = None"
  shows "exists_or_unknown n repo u = (Inr False, u\<lparr>net := (net u)\<lparr>clock := Suc (clock (net u))\<rparr>\<rparr>)"
proof -
  have "repo = o1 @ ''/'' @ n1" using assms(1) by (induction repo arbitrary: o1) (auto split: if_splits)
  with assms show ?thesis
    by (simp add: exists_or_unknown_def pool_exists_def tryE_def bindE_def getE_def on_net_def io_step_def)
qed

lemma bindE_getE: "bindE (getE f) g s = g (f s) s"
  by (simp add: bindE_def getE_def)

lemma keeps_route_unowned:
  assumes "map_free m send ''owner''"
    and "exists_or_unknown n repo u = (Inr False, v)" "map_is m v" "map_is m u"
  shows "map_is m (snd (route_unowned send others view hash n repo False e u))"
proof -
  have "keeps (map_is m) (handover_target hash view n repo)"
    unfolding handover_target_def Let_def by (intro keeps_intros keeps_on_net) simp
  then have "keeps (map_is m) (bindE (handover_target hash view n repo)
      (\<lambda>peer. case peer of Some l \<Rightarrow> getE (route_to n l) | None \<Rightarrow> returnE RUnavailable))"
    by (intro keeps_intros)
  note hand = keepsD [OF this assms(4)]
  have "bindE (exists_or_unknown n repo) g u = g False v" for g :: "bool \<Rightarrow> (router, route) io"
    using assms(2) by (simp add: bindE_def)
  then show ?thesis
    using hand keepsD [OF keeps_ask_missing [OF assms(1)] assms(3)] assms(4)
    by (simp add: route_unowned_def bindE_getE)
qed



end
