(* ===== verification/Interference.thy ===== *)
theory Interference
  imports Prelude
begin

text \<open>
  A client of the object store among other clients. Before each of its calls the others may have
  done anything to the store, which \<open>cothers\<close> says per call; the call itself is atomic, may fail
  and, failing, may have landed. What the client itself changed is kept in \<open>ctrace\<close>, for the
  statements only. The locale \<open>interference\<close> is the proof system: an assertion that the moves of
  the others cannot break is \<open>stable\<close>, and \<open>rg A m B\<close> says that \<open>m\<close>, started where \<open>A\<close> holds,
  makes only moves that it promised and ends where \<open>B\<close> holds.
\<close>

record 'x client = io_env +
  cstore :: 'x
  cothers :: "nat \<Rightarrow> 'x \<Rightarrow> 'x"
  ctrace :: "('x \<times> 'x) list"

definition meanwhile :: "'x client \<Rightarrow> 'x client" where
  "meanwhile s = s\<lparr>cstore := cothers s (clock s) (cstore s)\<rparr>"

definition move :: "('x \<Rightarrow> 'x) \<Rightarrow> 'x client \<Rightarrow> 'x client" where
  "move f s = s\<lparr>cstore := f (cstore s), ctrace := (cstore s, f (cstore s)) # ctrace s\<rparr>"

definition os_get :: "('x \<Rightarrow> 'a) \<Rightarrow> ('x client, 'a) io" where
  "os_get f = (\<lambda>s. io_read (\<lambda>s. f (cstore s)) (meanwhile s))"

text \<open>A write that the store performs only under the condition \<open>c\<close>; the answer says whether it did.\<close>

definition os_cas :: "('x \<Rightarrow> bool) \<Rightarrow> ('x \<Rightarrow> 'x) \<Rightarrow> ('x client, bool) io" where
  "os_cas c f = (\<lambda>s. let ok = c (cstore (meanwhile s))
     in bindE (io_write (if ok then move f else id)) (\<lambda>_. returnE ok) (meanwhile s))"

definition os_set :: "('x \<Rightarrow> 'x) \<Rightarrow> ('x client, unit) io" where
  "os_set f = bindE (os_cas (\<lambda>_. True) f) (\<lambda>_. returnE ())"

text \<open>Reading the clock or drawing a number: no call to the store, so nothing happens before it.\<close>

definition local_step :: "('x \<Rightarrow> 'a \<times> 'x) \<Rightarrow> ('x client, 'a) io" where
  "local_step f = (\<lambda>s. (Inr (fst (f (cstore s))), move (\<lambda>x. snd (f x)) s))"

text \<open>A loop with a bounded number of attempts; each answers, or says that it is to be repeated.\<close>

fun cas_attempts :: "nat \<Rightarrow> string \<Rightarrow> ('s, 'a option) io \<Rightarrow> ('s, 'a) io" where
  "cas_attempts 0 msg m = failE (Message msg)"
| "cas_attempts (Suc n) msg m =
     bindE m (\<lambda>r. case r of Some x \<Rightarrow> returnE x | None \<Rightarrow> cas_attempts n msg m)"

locale interference =
  fixes inv :: "'x \<Rightarrow> bool"
    and rely guar :: "'x \<Rightarrow> 'x \<Rightarrow> bool"
  assumes rely_inv: "inv x \<Longrightarrow> rely x y \<Longrightarrow> inv y"
    and guar_inv: "inv x \<Longrightarrow> guar x y \<Longrightarrow> inv y"
begin

definition good :: "'x client \<Rightarrow> bool" where
  "good s \<longleftrightarrow> inv (cstore s) \<and> (\<forall>i x. inv x \<longrightarrow> rely x (cothers s i x))
     \<and> (\<forall>(x, y)\<in>set (ctrace s). guar x y)"

definition stable :: "('x \<Rightarrow> bool) \<Rightarrow> bool" where
  "stable A \<longleftrightarrow> (\<forall>x y. inv x \<longrightarrow> A x \<longrightarrow> rely x y \<longrightarrow> A y)"

definition rg :: "('x \<Rightarrow> bool) \<Rightarrow> ('x client, 'a) io \<Rightarrow> ('a \<Rightarrow> 'x \<Rightarrow> bool) \<Rightarrow> bool" where
  "rg A m B \<longleftrightarrow> triple (\<lambda>s. good s \<and> A (cstore s)) m (\<lambda>v s. good s \<and> B v (cstore s)) good"

lemma rgI:
  assumes "\<And>s e t. good s \<Longrightarrow> A (cstore s) \<Longrightarrow> m s = (Inl e, t) \<Longrightarrow> good t"
    and "\<And>s v t. good s \<Longrightarrow> A (cstore s) \<Longrightarrow> m s = (Inr v, t) \<Longrightarrow> good t \<and> B v (cstore t)"
  shows "rg A m B"
  unfolding rg_def triple_def
proof (intro allI impI)
  fix s assume s: "good s \<and> A (cstore s)"
  obtain r t where m: "m s = (r, t)" by (cases "m s")
  show "case m s of (Inl e, t) \<Rightarrow> good t | (Inr v, t) \<Rightarrow> good t \<and> B v (cstore t)"
  proof (cases r)
    case (Inl e)
    with m assms(1) [of s e t] s show ?thesis by simp
  next
    case (Inr v)
    with m assms(2) [of s v t] s show ?thesis by simp
  qed
qed

lemma rgD:
  assumes "rg A m B" "good s" "A (cstore s)" "m s = (r, t)"
  shows "good t" and "\<And>v. r = Inr v \<Longrightarrow> B v (cstore t)"
proof -
  have post: "case r of Inl e \<Rightarrow> good t | Inr v \<Rightarrow> good t \<and> B v (cstore t)"
    by (rule tripleD [OF assms(1) [unfolded rg_def] _ assms(4)]) (use assms(2,3) in blast)
  then show "good t" by (cases r) simp_all
  show "B v (cstore t)" if "r = Inr v" for v using post that by simp
qed

lemma stableI: "(\<And>x y. inv x \<Longrightarrow> A x \<Longrightarrow> rely x y \<Longrightarrow> A y) \<Longrightarrow> stable A"
  by (auto simp: stable_def)

lemma stableD: "stable A \<Longrightarrow> inv x \<Longrightarrow> A x \<Longrightarrow> rely x y \<Longrightarrow> A y"
  by (auto simp: stable_def)

lemma stable_True: "stable (\<lambda>_. True)" and stable_const: "stable (\<lambda>_. c)"
  by (auto simp: stable_def)

lemma stable_conj: "stable A \<Longrightarrow> stable B \<Longrightarrow> stable (\<lambda>x. A x \<and> B x)"
  by (auto simp: stable_def)

lemma stable_all: "(\<And>i. stable (A i)) \<Longrightarrow> stable (\<lambda>x. \<forall>i. A i x)"
  by (auto simp: stable_def)

lemma stable_imp: "(c \<Longrightarrow> stable A) \<Longrightarrow> stable (\<lambda>x. c \<longrightarrow> A x)"
  by (auto simp: stable_def)

lemmas stable_intros = stable_True stable_const stable_conj stable_all stable_imp

lemma good_clock: "good (s\<lparr>clock := n\<rparr>) = good s"
  by (simp add: good_def)

lemma good_meanwhile:
  assumes "good s"
  shows "good (meanwhile s)" "rely (cstore s) (cstore (meanwhile s))"
proof -
  show "rely (cstore s) (cstore (meanwhile s))" using assms by (auto simp: good_def meanwhile_def)
  with assms show "good (meanwhile s)" by (auto simp: good_def meanwhile_def intro: rely_inv)
qed

lemma good_move: "good s \<Longrightarrow> guar (cstore s) (f (cstore s)) \<Longrightarrow> good (move f s)"
  by (auto simp: good_def move_def intro: guar_inv)

lemma rg_get:
  assumes "stable A" and "\<And>x. inv x \<Longrightarrow> A x \<Longrightarrow> B (f x) x"
  shows "rg A (os_get f) B"
proof -
  have "case os_get f s of (Inl e, t) \<Rightarrow> good t | (Inr v, t) \<Rightarrow> good t \<and> B v (cstore t)"
    if "good s" "A (cstore s)" for s
  proof -
    let ?m = "meanwhile s"
    from that have g: "good ?m" and A: "A (cstore ?m)" and i: "inv (cstore ?m)"
      using good_meanwhile [of s] stableD [OF assms(1)] by (auto simp: good_def)
    with assms(2) show ?thesis
      by (auto simp: os_get_def io_read_def io_step_def bindE_def getE_def good_clock split: option.splits)
  qed
  then show ?thesis by (auto simp: rg_def triple_def)
qed

lemma rg_cas:
  assumes "stable A"
    and "\<And>x. inv x \<Longrightarrow> A x \<Longrightarrow> c x \<Longrightarrow> guar x (f x) \<and> B True (f x)"
    and "\<And>x. inv x \<Longrightarrow> A x \<Longrightarrow> \<not> c x \<Longrightarrow> B False x"
  shows "rg A (os_cas c f) B"
proof -
  have "case os_cas c f s of (Inl e, t) \<Rightarrow> good t | (Inr v, t) \<Rightarrow> good t \<and> B v (cstore t)"
    if "good s" "A (cstore s)" for s
  proof -
    define m where "m = (meanwhile s)\<lparr>clock := Suc (clock s)\<rparr>"
    have m': "(meanwhile s)\<lparr>clock := Suc (clock (meanwhile s))\<rparr> = m" "cstore (meanwhile s) = cstore m"
      by (simp_all add: m_def meanwhile_def)
    from that have g: "good m" and A: "A (cstore m)" and i: "inv (cstore m)"
      using good_meanwhile [of s] stableD [OF assms(1)] by (auto simp: good_def m_def good_clock)
    have fine: "good (move f m)" "B True (cstore (move f m))" if "c (cstore m)"
      using assms(2) [OF i A that] good_move [OF g] by (simp_all add: move_def)
    show ?thesis
      using g fine assms(3) [OF i A] m'
      by (auto simp: os_cas_def Let_def bindE_def io_write_def split: option.splits)
  qed
  then show ?thesis by (auto simp: rg_def triple_def)
qed

lemma rg_local:
  assumes "\<And>x. inv x \<Longrightarrow> A x \<Longrightarrow> guar x (snd (f x)) \<and> B (fst (f x)) (snd (f x))"
  shows "rg A (local_step f) B"
  using assms by (auto simp: rg_def triple_def local_step_def good_def move_def intro: guar_inv)

lemma rg_bind:
  assumes "rg A m B" and "\<And>v. rg (B v) (f v) C"
  shows "rg A (bindE m f) C"
  using assms unfolding rg_def by (rule triple_bindE)

lemma rg_return: "(\<And>x. inv x \<Longrightarrow> A x \<Longrightarrow> B v x) \<Longrightarrow> rg A (returnE v) B"
  by (auto simp: rg_def triple_def good_def)

lemma rg_fail: "rg A (failE e) B"
  by (auto simp: rg_def triple_def)

lemma rg_weaken:
  assumes "rg A m B" "\<And>x. inv x \<Longrightarrow> A' x \<Longrightarrow> A x" "\<And>v x. inv x \<Longrightarrow> B v x \<Longrightarrow> B' v x"
  shows "rg A' m B'"
  using assms(1) unfolding rg_def
  by (rule triple_weaken) (auto simp: good_def intro: assms(2,3))

lemma rg_pre: "rg A m B \<Longrightarrow> (\<And>x. inv x \<Longrightarrow> A' x \<Longrightarrow> A x) \<Longrightarrow> rg A' m B"
  by (rule rg_weaken)

lemma rg_post: "rg A m B \<Longrightarrow> (\<And>v x. inv x \<Longrightarrow> B v x \<Longrightarrow> B' v x) \<Longrightarrow> rg A m B'"
  by (rule rg_weaken)

text \<open>A fact that does not depend on the store.\<close>

lemma rg_when: "(c \<Longrightarrow> rg A m B) \<Longrightarrow> rg (\<lambda>x. c \<and> A x) m B"
  by (cases c) (auto simp: rg_def triple_def)

lemma rg_set:
  assumes "stable A" and "\<And>x. inv x \<Longrightarrow> A x \<Longrightarrow> guar x (f x) \<and> B (f x)"
  shows "rg A (os_set f) (\<lambda>_. B)"
  unfolding os_set_def
  by (rule rg_bind, rule rg_cas [where B = "\<lambda>_. B"]) (use assms in \<open>auto intro: rg_return\<close>)

lemma rg_if: "(b \<Longrightarrow> rg A m B) \<Longrightarrow> (\<not> b \<Longrightarrow> rg A n B) \<Longrightarrow> rg A (if b then m else n) B"
  by simp

lemma rg_case_option:
  "(v = None \<Longrightarrow> rg A m B) \<Longrightarrow> (\<And>y. v = Some y \<Longrightarrow> rg A (f y) B) \<Longrightarrow> rg A (case v of None \<Rightarrow> m | Some y \<Rightarrow> f y) B"
  by (cases v) auto

lemma rg_attempts:
  assumes "rg A m (\<lambda>r x. case r of None \<Rightarrow> A x | Some v \<Rightarrow> B v x)"
  shows "rg A (cas_attempts n msg m) B"
proof (induction n)
  case (Suc n)
  have "rg (\<lambda>x. case r of None \<Rightarrow> A x | Some v \<Rightarrow> B v x)
      (case r of Some v \<Rightarrow> returnE v | None \<Rightarrow> cas_attempts n msg m) B" for r
    by (cases r) (auto simp: Suc.IH intro: rg_return)
  with assms show ?case by (auto intro: rg_bind)
qed (simp only: cas_attempts.simps rg_fail)

lemma rg_for:
  assumes "\<And>y. y \<in> set ys \<Longrightarrow> rg A (f y) (\<lambda>_. A)"
  shows "rg A (forE ys f) (\<lambda>_. A)"
  using assms by (induction ys) (auto intro: rg_return rg_bind)

text \<open>The result of an operation as a value: an error leaves what holds of every good state.\<close>

lemma rg_try:
  assumes "rg A m B" and "\<And>v x. inv x \<Longrightarrow> B v x \<Longrightarrow> C (Inr v) x" and "\<And>e x. inv x \<Longrightarrow> C (Inl e) x"
  shows "rg A (tryE m) C"
proof (rule rgI)
  fix s v t assume s: "good s" "A (cstore s)" and t: "tryE m s = (Inr v, t)"
  then have m: "m s = (v, t)" by (auto simp: tryE_def)
  have "inv (cstore t)" using rgD(1) [OF assms(1) s m] by (simp add: good_def)
  then have "C v (cstore t)" using assms(2,3) rgD(2) [OF assms(1) s m] by (cases v) auto
  with rgD(1) [OF assms(1) s m] show "good t \<and> C v (cstore t)" ..
qed (simp add: tryE_def)

end

end
