(* ===== verification/Blobs.thy ===== *)
theory Blobs
  imports Interference "HOL-Library.AList"
begin

text \<open>
  The blobs of the image registry: \<open>crates/registry/src/blob_state.rs\<close>, with the digests and the
  paths of \<open>crates/registry/src/store.rs\<close>. A blob is an object under a key of its own; the state
  record of its digest says which key is active, which publications pin it and which keys are
  retired and wait to be deleted. Records are written with conditional puts only.

  State records are kept as records: their JSON text is the business of serde. The version of a
  record is its contents, the weakest promise a store gives; the nonce of a record is what makes
  two contents differ. A nonce is sixteen random bytes, which are taken not to repeat: the model
  counts them, and draws the nonce of a record as its put reaches the store. The pause between two
  cas_attempts has no effect of its own, since the other clients may move before every call anyway.
  Times are milliseconds.
\<close>

section \<open>Digests and paths\<close>

record digest =
  algo :: string
  hex :: string

definition lower_hex :: "char \<Rightarrow> bool" where
  "lower_hex c \<longleftrightarrow> in_range 0x30 0x39 c \<or> in_range 0x61 0x66 c"

definition parse_digest :: "string \<Rightarrow> digest option" where
  "parse_digest s =
     (case split_once (CHR '':'') s of
        None \<Rightarrow> None
      | Some (a, h) \<Rightarrow>
          (case (if a = ''sha256'' then Some 64 else if a = ''sha512'' then Some (128::nat) else None) of
             None \<Rightarrow> None
           | Some want_len \<Rightarrow>
               if length h \<noteq> want_len then None
               else if \<not> list_all lower_hex h then None
               else Some \<lparr>algo = a, hex = h\<rparr>))"

definition show_digest :: "digest \<Rightarrow> string" where
  "show_digest d = algo d @ '':'' @ hex d"

definition valid_digest :: "digest \<Rightarrow> bool" where
  "valid_digest d \<longleftrightarrow> parse_digest (show_digest d) = Some d"

abbreviation slash :: char where "slash \<equiv> CHR ''/''"

definition blob_path :: "string \<Rightarrow> digest \<Rightarrow> string" where
  "blob_path o1 d = ''blobs/'' @ o1 @ slash # algo d @ slash # hex d"

definition manifest_prefix :: "string \<Rightarrow> string \<Rightarrow> string" where
  "manifest_prefix o1 n = ''manifests/'' @ o1 @ slash # n"

definition manifest_path :: "string \<Rightarrow> string \<Rightarrow> digest \<Rightarrow> string" where
  "manifest_path o1 n d = manifest_prefix o1 n @ slash # algo d @ slash # hex d"

definition state_path :: "string \<Rightarrow> digest \<Rightarrow> string" where
  "state_path o1 d = ''blob-state/'' @ o1 @ slash # algo d @ slash # hex d"

definition generation_path :: "string \<Rightarrow> digest \<Rightarrow> string \<Rightarrow> string" where
  "generation_path o1 d g = ''blob-generations/'' @ o1 @ slash # algo d @ slash # hex d @ slash # g"

definition canonical_path :: "string \<Rightarrow> digest \<Rightarrow> string" where
  "canonical_path o1 d = blob_path o1 d"

definition owner_prefix :: "string \<Rightarrow> string" where
  "owner_prefix o1 = ''blob-state/'' @ o1"

section \<open>Records and the store\<close>

record blob_generation =
  physical_key :: string
  pins :: "string list"
  installed_at :: int

record retired_generation =
  retired_key :: string
  retired_at :: int

record blob_record =
  nonce_of :: string
  active :: "blob_generation option"
  retired :: "retired_generation list"

record loaded =
  lrecord :: blob_record
  lversion :: blob_record

record blob_object =
  odata :: bytes
  modified :: int

record bucket =
  wall_ms :: int
  rng :: nat
  states :: "(string \<times> blob_record) list"
  objects :: "(string \<times> blob_object) list"

type_synonym registry = "bucket client"

definition nonce :: "nat \<Rightarrow> string" where
  "nonce n = pad_left 32 (to_radix 16 n)"

definition draw_nonce :: "(registry, string) io" where
  "draw_nonce = local_step (\<lambda>x. (nonce (rng x), x\<lparr>rng := Suc (rng x)\<rparr>))"

definition now_millis :: "(registry, int) io" where
  "now_millis = getE (\<lambda>s. wall_ms (cstore s))"

text \<open>Objects under a directory, in byte order; their last modification; put and delete.\<close>

definition listed :: "string \<Rightarrow> (string \<times> 'a) list \<Rightarrow> string list" where
  "listed dir xs = sort (filter (prefix (dir @ [slash])) (map fst xs))"

definition os_head :: "string \<Rightarrow> (registry, int option) io" where
  "os_head p = os_get (\<lambda>x. map_option modified (map_of (objects x) p))"

definition os_body :: "string \<Rightarrow> (registry, bytes) io" where
  "os_body p =
     bindE (os_get (\<lambda>x. map_option odata (map_of (objects x) p))) (\<lambda>b.
     case b of None \<Rightarrow> failE (Message ''object not found'') | Some b \<Rightarrow> returnE b)"

definition put_object :: "string \<Rightarrow> bytes \<Rightarrow> (registry, unit) io" where
  "put_object p b = os_set (\<lambda>x. x\<lparr>objects := AList.update p \<lparr>odata = b, modified = wall_ms x\<rparr> (objects x)\<rparr>)"

definition delete_object :: "string \<Rightarrow> (registry, unit) io" where
  "delete_object p = os_set (\<lambda>x. x\<lparr>objects := AList.delete p (objects x)\<rparr>)"

section \<open>Publications and pins\<close>

definition publication_id :: "(registry, string) io" where
  "publication_id =
     bindE draw_nonce (\<lambda>n. bindE now_millis (\<lambda>t. returnE (n @ ''@'' @ show_int t)))"

definition publication :: "string \<Rightarrow> string \<Rightarrow> digest \<Rightarrow> string \<Rightarrow> int \<Rightarrow> string" where
  "publication o1 name1 d n t =
     ''manifest/'' @ o1 @ slash # name1 @ slash # show_digest d @ ''#'' @ n @ ''@'' @ show_int t"

definition manifest_publication :: "string \<Rightarrow> string \<Rightarrow> digest \<Rightarrow> (registry, string) io" where
  "manifest_publication o1 name1 d =
     bindE draw_nonce (\<lambda>n. bindE now_millis (\<lambda>t. returnE (publication o1 name1 d n t)))"

definition rsplit_once :: "char \<Rightarrow> string \<Rightarrow> (string \<times> string) option" where
  "rsplit_once c s = map_option (\<lambda>(a, b). (rev b, rev a)) (split_once c (rev s))"

definition pin_is_live :: "string \<Rightarrow> int \<Rightarrow> bool" where
  "pin_is_live p cutoff =
     (case rsplit_once (CHR ''@'') p of
        None \<Rightarrow> True
      | Some (_, t) \<Rightarrow> (case parse_i64 t of None \<Rightarrow> True | Some t \<Rightarrow> t \<ge> cutoff))"

definition has_live_pin :: "blob_generation \<Rightarrow> int \<Rightarrow> bool" where
  "has_live_pin g cutoff \<longleftrightarrow> list_ex (\<lambda>p. pin_is_live p cutoff) (pins g)"

section \<open>Reading and writing a record\<close>

definition bs_create :: "string \<Rightarrow> blob_record \<Rightarrow> (registry, bool) io" where
  "bs_create path r =
     os_cas (\<lambda>x. map_of (states x) path = None)
       (\<lambda>x. x\<lparr>states := AList.update path (r\<lparr>nonce_of := nonce (rng x)\<rparr>) (states x), rng := Suc (rng x)\<rparr>)"

definition bs_update :: "string \<Rightarrow> blob_record \<Rightarrow> blob_record \<Rightarrow> (registry, bool) io" where
  "bs_update path r current =
     os_cas (\<lambda>x. map_of (states x) path = Some current)
       (\<lambda>x. x\<lparr>states := AList.update path (r\<lparr>nonce_of := nonce (rng x)\<rparr>) (states x), rng := Suc (rng x)\<rparr>)"

definition bs_read :: "string \<Rightarrow> (registry, loaded option) io" where
  "bs_read path =
     bindE (os_get (\<lambda>x. map_of (states x) path)) (\<lambda>v.
     returnE (map_option (\<lambda>r. \<lparr>lrecord = r, lversion = r\<rparr>) v))"

text \<open>A blob of before the records is adopted: its record is made when it is first looked at.\<close>

definition bs_load :: "string \<Rightarrow> digest \<Rightarrow> (registry, loaded option) io" where
  "bs_load o1 d =
     bindE (bs_read (state_path o1 d)) (\<lambda>found.
     case found of
       Some l \<Rightarrow> returnE (Some l)
     | None \<Rightarrow>
         bindE (os_head (canonical_path o1 d)) (\<lambda>m.
         case m of
           None \<Rightarrow> returnE None
         | Some at \<Rightarrow>
             bindE (bs_create (state_path o1 d)
                      \<lparr>nonce_of = '''', active = Some \<lparr>physical_key = canonical_path o1 d, pins = [], installed_at = at\<rparr>,
                       retired = []\<rparr>) (\<lambda>_.
             bs_read (state_path o1 d))))"

definition bs_resolve :: "string \<Rightarrow> digest \<Rightarrow> (registry, string option) io" where
  "bs_resolve o1 d =
     bindE (bs_load o1 d) (\<lambda>l.
     returnE (case l of None \<Rightarrow> None | Some l \<Rightarrow> map_option physical_key (active (lrecord l))))"

definition bs_exists :: "string \<Rightarrow> digest \<Rightarrow> (registry, bool) io" where
  "bs_exists o1 d =
     bindE (bs_resolve o1 d) (\<lambda>p.
     case p of
       None \<Rightarrow> returnE False
     | Some p \<Rightarrow> bindE (os_head p) (\<lambda>m. returnE (m \<noteq> None)))"

definition new_generation :: "string \<Rightarrow> digest \<Rightarrow> (registry, string \<times> string) io" where
  "new_generation o1 d = bindE draw_nonce (\<lambda>g. returnE (g, generation_path o1 d g))"

definition answer_if :: "'a \<Rightarrow> bool \<Rightarrow> (registry, 'a option) io" where
  "answer_if v done1 = returnE (if done1 then Some v else None)"

definition bs_install_once :: "string \<Rightarrow> digest \<Rightarrow> string \<Rightarrow> (registry, unit option) io" where
  "bs_install_once o1 d key =
     bindE (bs_load o1 d) (\<lambda>current.
     bindE now_millis (\<lambda>t.
     case current of
       Some l \<Rightarrow>
         (case active (lrecord l) of
            Some old \<Rightarrow>
              if physical_key old = key then returnE (Some ())
              else bindE (bs_update (state_path o1 d)
                     ((lrecord l)\<lparr>retired := retired (lrecord l) @ [\<lparr>retired_key = physical_key old, retired_at = t\<rparr>],
                        active := Some \<lparr>physical_key = key, pins = pins old, installed_at = t\<rparr>\<rparr>) (lversion l))
                   (answer_if ())
          | None \<Rightarrow>
              bindE (bs_update (state_path o1 d)
                ((lrecord l)\<lparr>active := Some \<lparr>physical_key = key, pins = [], installed_at = t\<rparr>\<rparr>) (lversion l))
              (answer_if ()))
     | None \<Rightarrow>
         bindE (bs_create (state_path o1 d)
           \<lparr>nonce_of = '''', active = Some \<lparr>physical_key = key, pins = [], installed_at = t\<rparr>, retired = []\<rparr>)
         (answer_if ())))"

definition bs_install :: "string \<Rightarrow> digest \<Rightarrow> string \<Rightarrow> (registry, unit) io" where
  "bs_install o1 d key = cas_attempts 8 ''blob state CAS retries exhausted'' (bs_install_once o1 d key)"

definition bs_pin_once :: "string \<Rightarrow> digest \<Rightarrow> string \<Rightarrow> (registry, bool option) io" where
  "bs_pin_once o1 d p =
     bindE (bs_load o1 d) (\<lambda>l.
     case l of
       None \<Rightarrow> returnE (Some False)
     | Some l \<Rightarrow>
         (case active (lrecord l) of
            None \<Rightarrow> returnE (Some False)
          | Some g \<Rightarrow>
              let g' = (if p \<in> set (pins g) then g else g\<lparr>pins := pins g @ [p]\<rparr>)
              in bindE (bs_update (state_path o1 d) ((lrecord l)\<lparr>active := Some g'\<rparr>) (lversion l)) (answer_if True)))"

definition bs_pin :: "string \<Rightarrow> digest \<Rightarrow> string \<Rightarrow> (registry, bool) io" where
  "bs_pin o1 d p = cas_attempts 8 ''blob pin CAS retries exhausted'' (bs_pin_once o1 d p)"

definition bs_unpin_once :: "string \<Rightarrow> digest \<Rightarrow> string \<Rightarrow> (registry, unit option) io" where
  "bs_unpin_once o1 d p =
     bindE (bs_load o1 d) (\<lambda>l.
     case l of
       None \<Rightarrow> returnE (Some ())
     | Some l \<Rightarrow>
         (case active (lrecord l) of
            None \<Rightarrow> returnE (Some ())
          | Some g \<Rightarrow>
              bindE (bs_update (state_path o1 d)
                ((lrecord l)\<lparr>active := Some (g\<lparr>pins := filter (\<lambda>q. q \<noteq> p) (pins g)\<rparr>)\<rparr>) (lversion l))
              (answer_if ())))"

definition bs_unpin :: "string \<Rightarrow> digest \<Rightarrow> string \<Rightarrow> (registry, unit) io" where
  "bs_unpin o1 d p = cas_attempts 8 ''blob unpin CAS retries exhausted'' (bs_unpin_once o1 d p)"

definition retire_active :: "blob_record \<Rightarrow> string \<Rightarrow> int \<Rightarrow> blob_record" where
  "retire_active r key t = r\<lparr>active := None, retired := retired r @ [\<lparr>retired_key = key, retired_at = t\<rparr>]\<rparr>"

definition bs_retire_once :: "string \<Rightarrow> digest \<Rightarrow> (registry, string option option) io" where
  "bs_retire_once o1 d =
     bindE (bs_load o1 d) (\<lambda>l.
     case l of
       None \<Rightarrow> returnE (Some None)
     | Some l \<Rightarrow>
         (case active (lrecord l) of
            None \<Rightarrow> returnE (Some None)
          | Some g \<Rightarrow>
              bindE now_millis (\<lambda>t.
              bindE (bs_update (state_path o1 d) (retire_active (lrecord l) (physical_key g) t) (lversion l))
                (answer_if (Some (physical_key g))))))"

definition bs_retire :: "string \<Rightarrow> digest \<Rightarrow> (registry, string option) io" where
  "bs_retire o1 d = cas_attempts 8 ''blob retire CAS retries exhausted'' (bs_retire_once o1 d)"

definition state_digest :: "string \<Rightarrow> string \<Rightarrow> digest option" where
  "state_digest o1 location =
     (case strip_prefix (owner_prefix o1 @ [slash]) location of
        None \<Rightarrow> None
      | Some r \<Rightarrow> (case split_on slash r of [a, h] \<Rightarrow> parse_digest (a @ '':'' @ h) | _ \<Rightarrow> None))"

type_synonym candidate = "digest \<times> blob_record \<times> blob_record"

fun candidates_loop :: "string \<Rightarrow> string list \<Rightarrow> (registry, candidate list) io" where
  "candidates_loop o1 [] = returnE []"
| "candidates_loop o1 (loc # locs) =
     (case state_digest o1 loc of
        None \<Rightarrow> candidates_loop o1 locs
      | Some d \<Rightarrow>
          bindE (bs_read loc) (\<lambda>l.
          case l of
            None \<Rightarrow> candidates_loop o1 locs
          | Some l \<Rightarrow> bindE (candidates_loop o1 locs) (\<lambda>out. returnE ((d, lrecord l, lversion l) # out))))"

definition bs_candidates :: "string \<Rightarrow> (registry, candidate list) io" where
  "bs_candidates o1 = bindE (os_get (\<lambda>x. listed (owner_prefix o1) (states x))) (candidates_loop o1)"

definition retire_if_unpinned :: "string \<Rightarrow> digest \<Rightarrow> blob_record \<Rightarrow> int \<Rightarrow> (registry, string option) io" where
  "retire_if_unpinned o1 d expected cutoff =
     bindE (bs_read (state_path o1 d)) (\<lambda>l.
     case l of
       None \<Rightarrow> returnE None
     | Some l \<Rightarrow>
         if lversion l \<noteq> expected then returnE None
         else (case active (lrecord l) of
            None \<Rightarrow> returnE None
          | Some g \<Rightarrow>
              if has_live_pin g cutoff then returnE None
              else bindE now_millis (\<lambda>t.
                   bindE (bs_update (state_path o1 d) (retire_active (lrecord l) (physical_key g) t) expected) (\<lambda>won.
                   returnE (if won then Some (physical_key g) else None)))))"

definition forget_retired_once :: "string \<Rightarrow> digest \<Rightarrow> string \<Rightarrow> (registry, unit option) io" where
  "forget_retired_once o1 d key =
     bindE (bs_read (state_path o1 d)) (\<lambda>l.
     case l of
       None \<Rightarrow> returnE (Some ())
     | Some l \<Rightarrow>
         bindE (bs_update (state_path o1 d)
           ((lrecord l)\<lparr>retired := filter (\<lambda>r. retired_key r \<noteq> key) (retired (lrecord l))\<rparr>) (lversion l))
         (answer_if ()))"

definition delete_retired :: "string \<Rightarrow> digest \<Rightarrow> string \<Rightarrow> (registry, unit) io" where
  "delete_retired o1 d key =
     bindE (delete_object key) (\<lambda>_.
     cas_attempts 8 ''retired blob cleanup CAS retries exhausted'' (forget_retired_once o1 d key))"

text \<open>The first entry of the key is the one that is stamped.\<close>

fun stamp_first :: "string \<Rightarrow> int \<Rightarrow> retired_generation list \<Rightarrow> retired_generation list" where
  "stamp_first key t [] = []"
| "stamp_first key t (r # rs) =
     (if retired_key r = key then r\<lparr>retired_at := t\<rparr> # rs else r # stamp_first key t rs)"

definition stamp_once :: "string \<Rightarrow> digest \<Rightarrow> string \<Rightarrow> int \<Rightarrow> (registry, unit option) io" where
  "stamp_once o1 d key t =
     bindE (bs_read (state_path o1 d)) (\<lambda>l.
     case l of
       None \<Rightarrow> returnE (Some ())
     | Some l \<Rightarrow>
         (case find (\<lambda>r. retired_key r = key) (retired (lrecord l)) of
            None \<Rightarrow> returnE (Some ())
          | Some entry \<Rightarrow>
              if retired_at entry \<noteq> 0 then returnE (Some ())
              else bindE (bs_update (state_path o1 d)
                     ((lrecord l)\<lparr>retired := stamp_first key t (retired (lrecord l))\<rparr>) (lversion l))
                   (answer_if ())))"

definition stamp_retired :: "string \<Rightarrow> digest \<Rightarrow> string \<Rightarrow> int \<Rightarrow> (registry, unit) io" where
  "stamp_retired o1 d key t = cas_attempts 8 ''retired blob stamp CAS retries exhausted'' (stamp_once o1 d key t)"

definition delete_active :: "string \<Rightarrow> digest \<Rightarrow> (registry, string option) io" where
  "delete_active o1 d =
     bindE (bs_retire o1 d) (\<lambda>key.
     case key of
       None \<Rightarrow> returnE None
     | Some k \<Rightarrow> bindE (delete_retired o1 d k) (\<lambda>_. returnE (Some k)))"

end
