(* ===== verification/Watch.thy ===== *)
theory Watch
  imports Blobs
begin

text \<open>
  What the clients of the registry owe each other, told for one blob that is watched. \<open>inv\<close> is what
  always holds of the store: the key that a record names is there, and a blob that a manifest needs
  has one. \<open>honours w F N\<close> is the protocol of a move: records change under a new nonce, a key is
  deleted only when it is not the active one, a manifest appears only while a live pin holds what
  it needs, and nobody drops a live pin outside \<open>F\<close> or installs a key outside \<open>N\<close>. The locale
  \<open>registry_client\<close> proves for the operations of \<open>Blobs\<close> that they keep to the protocol among
  clients that do.
\<close>

record watch =
  wowner :: string
  wdigest :: digest
  wcut :: int
  wkeys :: "string set"
  wneeds :: "bytes \<Rightarrow> bool"

definition keys_of :: "string \<Rightarrow> digest \<Rightarrow> string set" where
  "keys_of o1 d = insert (canonical_path o1 d) (range (generation_path o1 d))"

definition rec_keys :: "blob_record \<Rightarrow> string set" where
  "rec_keys r = physical_key ` set_option (active r) \<union> retired_key ` set (retired r)"

definition wpath :: "watch \<Rightarrow> string" where
  "wpath w = state_path (wowner w) (wdigest w)"

definition wstate :: "watch \<Rightarrow> bucket \<Rightarrow> blob_record option" where
  "wstate w x = map_of (states x) (wpath w)"

abbreviation wcanonical :: "watch \<Rightarrow> string" where
  "wcanonical w \<equiv> canonical_path (wowner w) (wdigest w)"

text \<open>The key the bytes are under: the active one, or the place of before the records.\<close>

definition cur_key :: "watch \<Rightarrow> bucket \<Rightarrow> string option" where
  "cur_key w x = (case wstate w x of None \<Rightarrow> Some (wcanonical w) | Some r \<Rightarrow> map_option physical_key (active r))"

definition there :: "bucket \<Rightarrow> string \<Rightarrow> bool" where
  "there x k \<longleftrightarrow> map_of (objects x) k \<noteq> None"

definition readable :: "watch \<Rightarrow> bucket \<Rightarrow> bool" where
  "readable w x \<longleftrightarrow> (\<exists>k. cur_key w x = Some k \<and> there x k)"

definition needs_at :: "watch \<Rightarrow> bucket \<Rightarrow> string \<Rightarrow> bool" where
  "needs_at w x q \<longleftrightarrow> prefix (''manifests/'' @ wowner w @ [slash]) q
     \<and> (\<exists>ob. map_of (objects x) q = Some ob \<and> wneeds w (odata ob))"

definition needed :: "watch \<Rightarrow> bucket \<Rightarrow> bool" where
  "needed w x \<longleftrightarrow> (\<exists>q. needs_at w x q)"

definition pinned_by :: "watch \<Rightarrow> string \<Rightarrow> bucket \<Rightarrow> bool" where
  "pinned_by w p x \<longleftrightarrow> (\<exists>r g. wstate w x = Some r \<and> active r = Some g \<and> p \<in> set (pins g))"

definition live :: "watch \<Rightarrow> bucket \<Rightarrow> bool" where
  "live w x \<longleftrightarrow> (\<exists>p. pinned_by w p x \<and> pin_is_live p (wcut w))"

definition retired_keys :: "watch \<Rightarrow> bucket \<Rightarrow> string set" where
  "retired_keys w x = (case wstate w x of None \<Rightarrow> {} | Some r \<Rightarrow> retired_key ` set (retired r))"

definition rec_ok :: "watch \<Rightarrow> blob_record \<Rightarrow> bool" where
  "rec_ok w r \<longleftrightarrow>
     (\<forall>g. active r = Some g \<longrightarrow> physical_key g \<notin> retired_key ` set (retired r)
        \<and> (physical_key g \<in> wkeys w \<longrightarrow> wcut w < installed_at g))
     \<and> (\<forall>g\<in>set (retired r). retired_key g \<in> wkeys w \<longrightarrow> wcut w < retired_at g)"

definition watch_ok :: "watch \<Rightarrow> bool" where
  "watch_ok w \<longleftrightarrow> valid_digest (wdigest w) \<and> 0 \<le> wcut w
     \<and> wkeys w \<subseteq> range (generation_path (wowner w) (wdigest w))"

definition used :: "bucket \<Rightarrow> blob_record \<Rightarrow> bool" where
  "used x r \<longleftrightarrow> nonce_of r \<in> nonce ` {..<rng x}"

definition keys_ok :: "watch \<Rightarrow> bucket \<Rightarrow> bool" where
  "keys_ok w x \<longleftrightarrow> (\<forall>e r. valid_digest e \<longrightarrow> map_of (states x) (state_path (wowner w) e) = Some r
     \<longrightarrow> rec_keys r \<subseteq> keys_of (wowner w) e)"

definition inv :: "watch \<Rightarrow> bucket \<Rightarrow> bool" where
  "inv w x \<longleftrightarrow> watch_ok w \<and> wcut w < wall_ms x \<and> keys_ok w x
     \<and> (\<forall>r. wstate w x = Some r \<longrightarrow> used x r \<and> rec_ok w r)
     \<and> (\<forall>n. \<not> there x (manifest_path (wowner w) n (wdigest w)))
     \<and> (\<forall>r k. wstate w x = Some r \<longrightarrow> cur_key w x = Some k \<longrightarrow> there x k)
     \<and> (needed w x \<longrightarrow> readable w x)"

definition honours :: "watch \<Rightarrow> string set \<Rightarrow> string set \<Rightarrow> bucket \<Rightarrow> bucket \<Rightarrow> bool" where
  "honours w F N x y \<longleftrightarrow>
     wall_ms x \<le> wall_ms y \<and> rng x \<le> rng y \<and> inv w y
     \<and> (wstate w y = wstate w x \<or> (\<exists>r. wstate w y = Some r \<and> \<not> used x r))
     \<and> cur_key w y \<in> {None, cur_key w x} \<union> Some ` N
     \<and> retired_keys w y \<subseteq> retired_keys w x \<union> set_option (cur_key w x) \<union> N
     \<and> (\<forall>q. needs_at w y q \<longrightarrow> needs_at w x q \<or> wstate w y \<noteq> wstate w x \<or> live w x)
     \<and> (wstate w y = None \<longrightarrow> there x (wcanonical w) \<longrightarrow> there y (wcanonical w))
     \<and> (\<forall>k\<in>wkeys w. there x k \<longrightarrow> there y k)
     \<and> (\<forall>p. p \<notin> F \<longrightarrow> pin_is_live p (wcut w) \<longrightarrow> pinned_by w p x \<longrightarrow> pinned_by w p y)"

section \<open>Nonces, digests and paths\<close>

lemma nonce_inj: "nonce m = nonce n \<longleftrightarrow> m = n"
proof
  assume "nonce m = nonce n"
  then have "digits_value 16 0 (nonce m) = digits_value 16 0 (nonce n)" by simp
  then show "m = n" by (simp add: nonce_def pad_left_def digits_value_zeros digits_value_to_radix)
qed simp

lemma split_once_Some: "split_once c s = Some (a, b) \<longleftrightarrow> s = a @ c # b \<and> c \<notin> set a"
proof
  show "s = a @ c # b \<and> c \<notin> set a" if "split_once c s = Some (a, b)"
    using that by (induction s arbitrary: a) (auto split: if_splits)
qed (simp add: split_once_append)

definition digest_shape :: "string \<Rightarrow> string \<Rightarrow> bool" where
  "digest_shape a h \<longleftrightarrow> (a = ''sha256'' \<and> length h = 64 \<or> a = ''sha512'' \<and> length h = 128) \<and> list_all lower_hex h"

lemma digest_shape_colon: "digest_shape a h \<Longrightarrow> CHR '':'' \<notin> set a \<and> slash \<notin> set a"
  by (auto simp: digest_shape_def)

lemma lower_hex_ascii: "list_all lower_hex h \<Longrightarrow> slash \<notin> set h"
  by (auto simp: list_all_iff lower_hex_def in_range_def byte_of_def)

lemma parse_digest_Inl:
  "parse_digest s = Some d \<longleftrightarrow> split_once (CHR '':'') s = Some (algo d, hex d) \<and> digest_shape (algo d) (hex d)"
  unfolding parse_digest_def digest_shape_def
  by (cases "split_once (CHR '':'') s"; cases d) (auto split: if_splits)

lemma parse_digest_shape: "parse_digest s = Some d \<longleftrightarrow> s = show_digest d \<and> digest_shape (algo d) (hex d)"
  unfolding parse_digest_Inl split_once_Some show_digest_def using digest_shape_colon by auto

lemma valid_digest_shape: "valid_digest d \<longleftrightarrow> digest_shape (algo d) (hex d)"
  by (simp add: valid_digest_def parse_digest_shape)

lemma parse_digest_Some: "parse_digest s = Some d \<longleftrightarrow> s = show_digest d \<and> valid_digest d"
  by (simp add: parse_digest_shape valid_digest_shape)

lemma valid_no_slash: "valid_digest d \<Longrightarrow> slash \<notin> set (algo d) \<and> slash \<notin> set (hex d)"
  using digest_shape_colon lower_hex_ascii by (auto simp: valid_digest_shape digest_shape_def)

lemma show_digest_inj: "valid_digest d \<Longrightarrow> valid_digest e \<Longrightarrow> show_digest d = show_digest e \<longleftrightarrow> d = e"
  by (metis option.inject valid_digest_def)

lemma state_path_inj: "valid_digest d \<Longrightarrow> valid_digest e \<Longrightarrow> state_path o1 d = state_path o1 e \<longleftrightarrow> d = e"
  using valid_no_slash [of d] valid_no_slash [of e]
  by (cases d; cases e) (auto simp: state_path_def sep_inj)

lemma keys_disjoint:
  assumes "valid_digest d" "valid_digest e" "d \<noteq> e"
  shows "keys_of o1 d \<inter> keys_of o1 e = {}"
  using assms valid_no_slash [of d] valid_no_slash [of e]
  by (cases d; cases e)
    (auto simp: keys_of_def canonical_path_def blob_path_def generation_path_def sep_inj)

lemma last_two_inj:
  assumes "slash \<notin> set a" "slash \<notin> set h" "slash \<notin> set a'" "slash \<notin> set h'"
    and "p @ slash # a @ slash # h = p' @ slash # a' @ slash # h'"
  shows "p = p'" "a = a'" "h = h'"
proof -
  have "rev h @ slash # rev a @ slash # rev p = rev h' @ slash # rev a' @ slash # rev p'"
    using arg_cong [OF assms(5), of rev] by simp
  with assms(1-4) show "p = p'" "a = a'" "h = h'" by (simp_all add: sep_inj)
qed

lemma manifest_path_inj:
  assumes "valid_digest d" "valid_digest e" "manifest_path o1 n d = manifest_path o2 m e"
  shows "d = e"
proof -
  note n = valid_no_slash [OF assms(1)] valid_no_slash [OF assms(2)]
  have "algo d = algo e" "hex d = hex e"
    using last_two_inj [OF _ _ _ _ assms(3) [unfolded manifest_path_def]] n by simp_all
  then show ?thesis by simp
qed

lemma canonical_not_generation: "canonical_path o1 d \<notin> range (generation_path o1 d)"
  by (auto simp: canonical_path_def blob_path_def generation_path_def)

section \<open>The protocol composes\<close>

lemma live_state: "wstate w y = wstate w x \<Longrightarrow> live w y = live w x"
  by (simp add: live_def pinned_by_def)

lemma used_mono: "used x r \<Longrightarrow> rng x \<le> rng y \<Longrightarrow> used y r"
  by (auto simp: used_def)

lemma honours_refl: "inv w x \<Longrightarrow> honours w F N x x"
  by (auto simp: honours_def)

lemma honours_mono: "honours w F N x y \<Longrightarrow> F \<subseteq> F' \<Longrightarrow> N \<subseteq> N' \<Longrightarrow> honours w F' N' x y"
  unfolding honours_def by blast

lemma honoursD:
  assumes "honours w F N x y"
  shows honours_wall: "wall_ms x \<le> wall_ms y"
    and honours_rng: "rng x \<le> rng y"
    and honours_inv: "inv w y"
    and honours_state: "wstate w y = wstate w x \<or> (\<exists>r. wstate w y = Some r \<and> \<not> used x r)"
    and honours_cur: "cur_key w y \<in> {None, cur_key w x} \<union> Some ` N"
    and honours_ret: "retired_keys w y \<subseteq> retired_keys w x \<union> set_option (cur_key w x) \<union> N"
    and honours_needs: "needs_at w y q \<Longrightarrow> needs_at w x q \<or> wstate w y \<noteq> wstate w x \<or> live w x"
    and honours_canon: "wstate w y = None \<Longrightarrow> there x (wcanonical w) \<Longrightarrow> there y (wcanonical w)"
    and honours_keys: "k \<in> wkeys w \<Longrightarrow> there x k \<Longrightarrow> there y k"
    and honours_pins: "p \<notin> F \<Longrightarrow> pin_is_live p (wcut w) \<Longrightarrow> pinned_by w p x \<Longrightarrow> pinned_by w p y"
  using assms by (simp_all add: honours_def)

text \<open>A record that has changed never comes back.\<close>

lemma honours_moved:
  assumes "inv w x" "honours w F N x y" "honours w F N y z" "wstate w y \<noteq> wstate w x"
  shows "wstate w z \<noteq> wstate w x" "\<exists>r. wstate w z = Some r \<and> \<not> used x r"
proof -
  obtain r where r: "wstate w y = Some r" "\<not> used x r"
    using honours_state [OF assms(2)] assms(4) by blast
  obtain r' where r': "wstate w z = Some r'" "\<not> used x r'"
    using honours_state [OF assms(3)] r used_mono [OF _ honours_rng [OF assms(2)]] by auto
  then show "\<exists>r. wstate w z = Some r \<and> \<not> used x r" by blast
  show "wstate w z \<noteq> wstate w x" using r' assms(1) by (auto simp: inv_def)
qed

lemma honours_trans:
  assumes x: "inv w x" and xy: "honours w F N x y" and yz: "honours w F N y z"
  shows "honours w F N x z"
  unfolding honours_def
proof (intro conjI allI ballI impI)
  show "wall_ms x \<le> wall_ms z" "rng x \<le> rng z" "inv w z"
    using honours_wall [OF xy] honours_wall [OF yz] honours_rng [OF xy] honours_rng [OF yz] honours_inv [OF yz]
    by simp_all
  show "wstate w z = wstate w x \<or> (\<exists>r. wstate w z = Some r \<and> \<not> used x r)"
  proof (cases "wstate w y = wstate w x")
    case True
    with honours_state [OF yz] show ?thesis using used_mono [OF _ honours_rng [OF xy]] by auto
  qed (use honours_moved(2) [OF x xy yz] in blast)
  show "needs_at w x q \<or> wstate w z \<noteq> wstate w x \<or> live w x" if "needs_at w z q" for q
  proof (cases "wstate w y = wstate w x")
    case True
    with honours_needs [OF yz that] honours_needs [OF xy] live_state [OF True] show ?thesis by auto
  qed (use honours_moved(1) [OF x xy yz] in blast)
  show "there z (wcanonical w)" if z: "wstate w z = None" and xc: "there x (wcanonical w)"
  proof (rule honours_canon [OF yz z])
    have "wstate w y = None" using honours_state [OF yz] z by auto
    then show "there y (wcanonical w)" by (rule honours_canon [OF xy _ xc])
  qed
  have "set_option (cur_key w y) \<subseteq> set_option (cur_key w x) \<union> N" using honours_cur [OF xy] by auto
  with honours_ret [OF xy] honours_ret [OF yz]
  show "retired_keys w z \<subseteq> retired_keys w x \<union> set_option (cur_key w x) \<union> N" by blast
  show "cur_key w z \<in> {None, cur_key w x} \<union> Some ` N"
    using honours_cur [OF xy] honours_cur [OF yz] by auto
qed (use honours_keys [OF xy] honours_keys [OF yz] honours_pins [OF xy] honours_pins [OF yz] in auto)

section \<open>Moves that obey\<close>

definition write_state :: "string \<Rightarrow> blob_record \<Rightarrow> bucket \<Rightarrow> bucket" where
  "write_state path r x =
     x\<lparr>states := AList.update path (r\<lparr>nonce_of := nonce (rng x)\<rparr>) (states x), rng := Suc (rng x)\<rparr>"

lemma write_state_simps [simp]:
  "wall_ms (write_state path r x) = wall_ms x" "rng (write_state path r x) = Suc (rng x)"
  "objects (write_state path r x) = objects x"
  "map_of (states (write_state path r x)) q =
     (if q = path then Some (r\<lparr>nonce_of := nonce (rng x)\<rparr>) else map_of (states x) q)"
  by (auto simp: write_state_def update_conv')

lemma there_frame: "objects y = objects x \<Longrightarrow> there y = there x"
  by (simp add: there_def fun_eq_iff)

lemma needs_frame: "objects y = objects x \<Longrightarrow> needs_at w y = needs_at w x"
  by (simp add: needs_at_def fun_eq_iff)

lemma rec_keys_nonce [simp]: "rec_keys (r\<lparr>nonce_of := n\<rparr>) = rec_keys r" "rec_ok w (r\<lparr>nonce_of := n\<rparr>) = rec_ok w r"
  by (simp_all add: rec_keys_def rec_ok_def)

lemma fresh_nonce [simp]: "\<not> used x (r\<lparr>nonce_of := nonce (rng x)\<rparr>)"
  by (auto simp: used_def nonce_inj)

lemma used_Suc [simp]: "used (write_state path r x) q \<longleftrightarrow> nonce_of q = nonce (rng x) \<or> used x q"
  by (auto simp: used_def lessThan_Suc)

lemma honours_draw: "inv w x \<Longrightarrow> honours w {} {} x (x\<lparr>rng := Suc (rng x)\<rparr>)"
  by (auto simp: honours_def inv_def wstate_def cur_key_def retired_keys_def needs_at_def needed_def readable_def
      there_def pinned_by_def keys_ok_def intro: used_mono)

lemma keys_ok_write:
  assumes "keys_ok w x" "valid_digest e" "rec_keys r \<subseteq> keys_of (wowner w) e"
  shows "keys_ok w (write_state (state_path (wowner w) e) r x)"
  unfolding keys_ok_def
proof (intro allI impI)
  fix e' r' assume e': "valid_digest e'"
    and r': "map_of (states (write_state (state_path (wowner w) e) r x)) (state_path (wowner w) e') = Some r'"
  show "rec_keys r' \<subseteq> keys_of (wowner w) e'"
  proof (cases "e' = e")
    case True
    with r' assms(3) show ?thesis by auto
  next
    case False
    then have "state_path (wowner w) e' \<noteq> state_path (wowner w) e"
      using state_path_inj [OF e' assms(2)] by simp
    with r' e' assms(1) show ?thesis by (simp add: keys_ok_def)
  qed
qed

lemma inv_keys_ok: "inv w x \<Longrightarrow> keys_ok w x" and inv_readable: "inv w x \<Longrightarrow> needed w x \<Longrightarrow> readable w x"
  by (simp_all add: inv_def)

text \<open>The record of another blob.\<close>

lemma honours_other:
  assumes x: "inv w x" and e: "valid_digest e" "e \<noteq> wdigest w" and r: "rec_keys r \<subseteq> keys_of (wowner w) e"
  shows "honours w {} {} x (write_state (state_path (wowner w) e) r x)" (is "honours w {} {} x ?y")
proof -
  have d: "valid_digest (wdigest w)" using x by (simp add: inv_def watch_ok_def)
  have st: "wstate w ?y = wstate w x"
    using e state_path_inj [OF d e(1)] by (auto simp: wstate_def wpath_def)
  note same = st there_frame [of ?y x] needs_frame [of ?y x]
  have "keys_ok w ?y"
    by (rule keys_ok_write [OF inv_keys_ok [OF x] e(1) r])
  then have "inv w ?y"
    using x by (auto simp: inv_def same cur_key_def needed_def readable_def)
  then show ?thesis
    by (auto simp: honours_def same cur_key_def retired_keys_def pinned_by_def)
qed

text \<open>The record of the watched blob itself.\<close>

lemma honours_write:
  assumes x: "inv w x"
    and keys: "rec_keys r \<subseteq> keys_of (wowner w) (wdigest w)" and ok: "rec_ok w r"
    and act: "\<And>g. active r = Some g \<Longrightarrow> there x (physical_key g)
       \<and> (cur_key w x = Some (physical_key g) \<or> physical_key g \<in> N)"
    and need: "needed w x \<Longrightarrow> active r \<noteq> None"
    and ret: "retired_key ` set (retired r) \<subseteq> retired_keys w x \<union> set_option (cur_key w x) \<union> N"
    and pin: "\<And>p. p \<notin> F \<Longrightarrow> pin_is_live p (wcut w) \<Longrightarrow> pinned_by w p x \<Longrightarrow> \<exists>g. active r = Some g \<and> p \<in> set (pins g)"
  shows "honours w F N x (write_state (wpath w) r x)" (is "honours w F N x ?y")
proof -
  have d: "valid_digest (wdigest w)" using x by (simp add: inv_def watch_ok_def)
  have st: "wstate w ?y = Some (r\<lparr>nonce_of := nonce (rng x)\<rparr>)" by (simp add: wstate_def)
  have cur: "cur_key w ?y = map_option physical_key (active r)" by (simp add: cur_key_def st)
  note same = st cur there_frame [of ?y x] needs_frame [of ?y x]
  have "keys_ok w ?y"
    unfolding wpath_def by (rule keys_ok_write [OF inv_keys_ok [OF x] d keys])
  moreover have "needed w ?y \<Longrightarrow> readable w ?y"
    using need act by (auto simp: needed_def readable_def same)
  ultimately have "inv w ?y"
    using x ok act by (auto simp: inv_def same)
  moreover have "cur_key w ?y \<in> {None, cur_key w x} \<union> Some ` N"
    using act by (cases "active r") (auto simp: cur)
  moreover have "retired_keys w ?y = retired_key ` set (retired r)" by (simp add: retired_keys_def st)
  moreover have "wstate w ?y \<noteq> wstate w x"
    using x st by (metis fresh_nonce inv_def)
  ultimately show ?thesis
    using ret pin st by (auto simp: honours_def same pinned_by_def)
qed

lemma cur_key_keys: "inv w x \<Longrightarrow> cur_key w x = Some k \<Longrightarrow> k \<in> keys_of (wowner w) (wdigest w)"
  by (auto simp: inv_def keys_ok_def watch_ok_def wstate_def wpath_def cur_key_def rec_keys_def keys_of_def
      split: option.splits)

lemma honours_delete:
  assumes x: "inv w x" and k: "cur_key w x \<noteq> Some k" "k \<notin> wkeys w"
  shows "honours w {} {} x (x\<lparr>objects := AList.delete k (objects x)\<rparr>)" (is "honours w {} {} x ?y")
proof -
  have st: "wstate w ?y = wstate w x" "cur_key w ?y = cur_key w x" by (simp_all add: wstate_def cur_key_def)
  have th: "there ?y q \<longleftrightarrow> there x q \<and> q \<noteq> k" for q by (simp add: there_def delete_conv')
  have nd: "needs_at w ?y q \<Longrightarrow> needs_at w x q" for q
    by (auto simp: needs_at_def delete_conv' split: if_splits)
  have "readable w ?y" if "needed w ?y"
  proof -
    have "readable w x" using that nd inv_readable [OF x] unfolding needed_def by blast
    then show ?thesis using k by (auto simp: readable_def st th)
  qed
  moreover have "keys_ok w ?y" using x by (simp add: inv_def keys_ok_def)
  ultimately have "inv w ?y"
    using x k by (auto simp: inv_def st th used_def)
  moreover have "wcanonical w \<noteq> k" if "wstate w x = None" using that k by (simp add: cur_key_def)
  ultimately show ?thesis
    using nd k by (auto simp: honours_def st th retired_keys_def pinned_by_def)
qed

lemma honours_put:
  assumes x: "inv w x" and q: "\<And>n. q \<noteq> manifest_path (wowner w) n (wdigest w)"
    and b: "wneeds w b \<Longrightarrow> prefix (''manifests/'' @ wowner w @ [slash]) q \<Longrightarrow> live w x"
  shows "honours w {} {} x (x\<lparr>objects := AList.update q \<lparr>odata = b, modified = t\<rparr> (objects x)\<rparr>)" (is "honours w {} {} x ?y")
proof -
  have st: "wstate w ?y = wstate w x" "cur_key w ?y = cur_key w x" by (simp_all add: wstate_def cur_key_def)
  have th: "there ?y k \<longleftrightarrow> there x k \<or> k = q" for k by (auto simp: there_def update_conv')
  have nd: "needs_at w ?y k \<Longrightarrow> needs_at w x k \<or> live w x" for k
    using b by (auto simp: needs_at_def update_conv' split: if_splits)
  have "readable w ?y" if "needed w ?y"
  proof -
    have "readable w x \<or> live w x" using that nd inv_readable [OF x] unfolding needed_def by blast
    then show ?thesis using x by (auto simp: readable_def st th live_def pinned_by_def inv_def cur_key_def)
  qed
  moreover have "keys_ok w ?y" using x by (simp add: inv_def keys_ok_def)
  ultimately have "inv w ?y"
    using x q by (auto simp: inv_def st th used_def)
  then show ?thesis
    using nd by (auto simp: honours_def st th retired_keys_def pinned_by_def)
qed

section \<open>A client among clients that obey\<close>

lemma bs_update_eq: "bs_update path r cur = os_cas (\<lambda>x. map_of (states x) path = Some cur) (write_state path r)"
  by (simp add: bs_update_def write_state_def [abs_def])

lemma bs_create_eq: "bs_create path r = os_cas (\<lambda>x. map_of (states x) path = None) (write_state path r)"
  by (simp add: bs_create_def write_state_def [abs_def])

definition seen :: "watch \<Rightarrow> blob_record \<Rightarrow> bucket \<Rightarrow> bool" where
  "seen w r x \<longleftrightarrow> used x r \<and> rec_ok w r
     \<and> (\<forall>k\<in>retired_key ` set (retired r). k \<notin> wkeys w \<longrightarrow> cur_key w x \<noteq> Some k)"

text \<open>Manifests that need the blob are all among \<open>Q\<close>, as long as the record is the one that was seen.\<close>

definition unneeded :: "watch \<Rightarrow> string set \<Rightarrow> blob_record \<Rightarrow> bucket \<Rightarrow> bool" where
  "unneeded w Q r x \<longleftrightarrow> used x r
     \<and> (wstate w x = Some r \<longrightarrow> (\<forall>g. active r = Some g \<longrightarrow> \<not> has_live_pin g (wcut w))
        \<longrightarrow> (\<forall>q. needs_at w x q \<longrightarrow> q \<in> Q))"

lemma honours_back:
  assumes "inv w x" "honours w F N x y" "used x r" "wstate w y = Some r"
  shows "wstate w x = Some r"
  using honours_state [OF assms(2)] assms(3,4) by auto

lemma live_iff: "wstate w x = Some r \<Longrightarrow> live w x \<longleftrightarrow> (\<exists>g. active r = Some g \<and> has_live_pin g (wcut w))"
  by (auto simp: live_def pinned_by_def has_live_pin_def list_ex_iff)

locale registry_client = interference "inv w" rely guar for w :: watch and rely guar +
  assumes calm: "inv w x \<Longrightarrow> honours w {} {} x y \<Longrightarrow> rely x y \<and> guar x y"
    and rely_honours: "rely x y \<Longrightarrow> honours w UNIV (wkeys w) x y"
begin

lemma stable_used: "stable (\<lambda>x. used x r)"
  by (rule stableI) (auto intro: used_mono dest!: rely_honours honours_rng)

lemma stable_idle: "k \<notin> wkeys w \<Longrightarrow> stable (\<lambda>x. cur_key w x \<noteq> Some k)"
  by (rule stableI) (auto dest!: rely_honours honours_cur)

lemma stable_canon: "stable (\<lambda>x. wstate w x = None \<longrightarrow> there x (wcanonical w))"
proof (rule stableI, rule impI)
  fix x y assume x: "wstate w x = None \<longrightarrow> there x (wcanonical w)" and y: "rely x y" "wstate w y = None"
  note ob = rely_honours [OF y(1)]
  have "wstate w x = None" using honours_state [OF ob] y(2) by auto
  with x y(2) show "there y (wcanonical w)" by (auto intro: honours_canon [OF ob])
qed

lemma stable_seen: "stable (seen w r)"
proof (rule stableI)
  fix x y assume s: "seen w r x" and y: "rely x y"
  note ob = rely_honours [OF y]
  show "seen w r y"
    using s honours_cur [OF ob] used_mono [OF _ honours_rng [OF ob]] by (auto simp: seen_def)
qed

lemma stable_unneeded: "stable (unneeded w Q r)"
proof (rule stableI)
  fix x y assume x: "Watch.inv w x" and u: "unneeded w Q r x" and y: "rely x y"
  note ob = rely_honours [OF y]
  have "q \<in> Q" if r: "wstate w y = Some r" "\<forall>g. active r = Some g \<longrightarrow> \<not> has_live_pin g (wcut w)"
    and q: "needs_at w y q" for q
  proof -
    have rx: "wstate w x = Some r" using honours_back [OF x ob] u r(1) by (auto simp: unneeded_def)
    have "\<not> live w x" using r(2) live_iff [OF rx] by auto
    then have "needs_at w x q" using honours_needs [OF ob q] rx r(1) by auto
    with u r(2) rx show ?thesis by (simp add: unneeded_def)
  qed
  with u show "unneeded w Q r y" using used_mono [OF _ honours_rng [OF ob]] by (simp add: unneeded_def)
qed

lemma rg_cas_calm:
  assumes "stable A" "\<And>x. inv w x \<Longrightarrow> A x \<Longrightarrow> c x \<Longrightarrow> honours w {} {} x (f x)"
  shows "rg A (os_cas c f) (\<lambda>_. A)"
  by (rule rg_cas [OF assms(1)]) (use assms(2) calm stableD [OF assms(1)] in blast)+

lemma rg_set_calm:
  assumes "stable A" "\<And>x. inv w x \<Longrightarrow> A x \<Longrightarrow> honours w {} {} x (f x)"
  shows "rg A (os_set f) (\<lambda>_. A)"
  by (rule rg_set [OF assms(1)]) (use assms(2) calm stableD [OF assms(1)] in blast)

lemma rg_now: "rg A now_millis (\<lambda>t x. wcut w < t \<and> A x)"
  unfolding now_millis_def by (auto simp: rg_def triple_def getE_def good_def inv_def)

lemma rg_head: "stable A \<Longrightarrow> rg A (os_head p) (\<lambda>_. A)"
  unfolding os_head_def by (rule rg_get)

lemma rg_read:
  assumes "stable A"
  shows "rg A (bs_read p) (\<lambda>v x. (\<forall>l. v = Some l \<longrightarrow> lversion l = lrecord l) \<and> A x)"
  unfolding bs_read_def by (rule rg_bind, rule rg_get [OF assms, where B = "\<lambda>_. A"]) (auto intro: rg_return)

lemma rg_update:
  assumes "stable A" "valid_digest e"
    and "e \<noteq> wdigest w \<Longrightarrow> rec_keys r \<subseteq> rec_keys cur"
    and "\<And>x. e = wdigest w \<Longrightarrow> inv w x \<Longrightarrow> A x \<Longrightarrow> wstate w x = Some cur
       \<Longrightarrow> honours w {} {} x (write_state (wpath w) r x)"
  shows "rg A (bs_update (state_path (wowner w) e) r cur) (\<lambda>_. A)"
  unfolding bs_update_eq
proof (rule rg_cas_calm [OF assms(1)])
  fix x assume x: "inv w x" "A x" "map_of (states x) (state_path (wowner w) e) = Some cur"
  show "honours w {} {} x (write_state (state_path (wowner w) e) r x)"
  proof (cases "e = wdigest w")
    case True
    with x assms(4) show ?thesis by (simp add: wpath_def wstate_def)
  next
    case False
    have "rec_keys cur \<subseteq> keys_of (wowner w) e" using x(1,3) assms(2) by (simp add: inv_def keys_ok_def)
    with assms(2,3) False show ?thesis by (auto intro!: honours_other [OF x(1)])
  qed
qed

lemma rg_attempts_keep: "rg A m (\<lambda>_. A) \<Longrightarrow> rg A (cas_attempts n msg m) (\<lambda>_. A)"
  by (rule rg_attempts, erule rg_post) (simp split: option.splits)

lemma rg_answer: "rg A (answer_if v b) (\<lambda>_. A)"
  unfolding answer_if_def by (rule rg_return)

text \<open>Looking at a blob adopts it, if it is one of before the records.\<close>

definition adopted :: "digest \<Rightarrow> int \<Rightarrow> blob_record" where
  "adopted e at = \<lparr>nonce_of = '''',
     active = Some \<lparr>physical_key = canonical_path (wowner w) e, pins = [], installed_at = at\<rparr>, retired = []\<rparr>"

lemma honours_adopt:
  assumes x: "inv w x" and e: "valid_digest e"
    and c: "e = wdigest w \<Longrightarrow> wstate w x = None \<Longrightarrow> there x (wcanonical w)"
    and n: "map_of (states x) (state_path (wowner w) e) = None"
  shows "honours w {} {} x (write_state (state_path (wowner w) e) (adopted e at) x)"
proof (cases "e = wdigest w")
  case True
  have nk: "wcanonical w \<notin> wkeys w"
    using x canonical_not_generation unfolding inv_def watch_ok_def by blast
  have st: "wstate w x = None" using n True by (simp add: wstate_def wpath_def)
  with c True have "there x (wcanonical w)" by simp
  then have "honours w {} {} x (write_state (wpath w) (adopted e at) x)"
    using True st nk
    by (intro honours_write [OF x])
      (auto simp: adopted_def rec_keys_def keys_of_def rec_ok_def cur_key_def pinned_by_def)
  then show ?thesis using True by (simp add: wpath_def)
qed (auto intro!: honours_other [OF x e] simp: adopted_def rec_keys_def keys_of_def)

lemma rg_load:
  assumes A: "stable A" and e: "valid_digest e"
  shows "rg A (bs_load (wowner w) e) (\<lambda>v x. (\<forall>l. v = Some l \<longrightarrow> lversion l = lrecord l) \<and> A x)"
  unfolding bs_load_def
proof (rule rg_bind [OF rg_read [OF A]], rule rg_when, rule rg_case_option)
  define C where "C = (\<lambda>x. (e = wdigest w \<longrightarrow> wstate w x = None \<longrightarrow> there x (wcanonical w)) \<and> A x)"
  have C: "stable C" unfolding C_def by (intro stable_intros stable_canon A)
  have head: "rg A (os_head (canonical_path (wowner w) e)) (\<lambda>m x. if m = None then A x else C x)"
    unfolding os_head_def by (rule rg_get [OF A]) (auto simp: C_def there_def)
  have create: "rg C (bs_create (state_path (wowner w) e) (adopted e at)) (\<lambda>_. A)" for at
    unfolding bs_create_eq
    by (rule rg_post, rule rg_cas_calm [OF C], rule honours_adopt [OF _ e]) (auto simp: C_def)
  show "rg A (bindE (os_head (canonical_path (wowner w) e)) (\<lambda>m. case m of None \<Rightarrow> returnE None
      | Some at \<Rightarrow> bindE (bs_create (state_path (wowner w) e) \<lparr>nonce_of = '''',
            active = Some \<lparr>physical_key = canonical_path (wowner w) e, pins = [], installed_at = at\<rparr>, retired = []\<rparr>)
          (\<lambda>_. bs_read (state_path (wowner w) e))))
     (\<lambda>v x. (\<forall>l. v = Some l \<longrightarrow> lversion l = lrecord l) \<and> A x)"
  proof (rule rg_bind [OF head], rule rg_case_option)
    show "rg (\<lambda>x. if m = None then A x else C x) (returnE None)
        (\<lambda>v x. (\<forall>l. v = Some l \<longrightarrow> lversion l = lrecord l) \<and> A x)" for m :: "int option"
      by (rule rg_return) (auto simp: C_def split: if_splits)
    show "rg (\<lambda>x. if m = None then A x else C x)
        (bindE (bs_create (state_path (wowner w) e) \<lparr>nonce_of = '''',
            active = Some \<lparr>physical_key = canonical_path (wowner w) e, pins = [], installed_at = at\<rparr>, retired = []\<rparr>)
          (\<lambda>_. bs_read (state_path (wowner w) e)))
        (\<lambda>v x. (\<forall>l. v = Some l \<longrightarrow> lversion l = lrecord l) \<and> A x)" if "m = Some at" for m at
      using that rg_bind [OF create rg_read [OF A]] by (simp add: adopted_def)
  qed
qed (rule rg_return, simp)

lemma rg_resolve: "stable A \<Longrightarrow> valid_digest e \<Longrightarrow> rg A (bs_resolve (wowner w) e) (\<lambda>_. A)"
  unfolding bs_resolve_def by (rule rg_bind [OF rg_load]) (auto intro: rg_return)

end

section \<open>Retiring and deleting\<close>

text \<open>A record of the watched blob rewritten without touching what is active.\<close>

lemma honours_rewrite:
  assumes x: "inv w x" and st: "wstate w x = Some cur"
    and act: "active r = active cur"
    and ret: "retired_key ` set (retired r) \<subseteq> retired_key ` set (retired cur)"
    and old: "\<And>g. g \<in> set (retired r) \<Longrightarrow> g \<in> set (retired cur) \<or> wcut w < retired_at g"
  shows "honours w {} {} x (write_state (wpath w) r x)"
proof (rule honours_write [OF x])
  have ok: "rec_ok w cur" and keys: "rec_keys cur \<subseteq> keys_of (wowner w) (wdigest w)"
    using x st by (auto simp: inv_def keys_ok_def watch_ok_def wstate_def wpath_def)
  have "rec_keys r \<subseteq> rec_keys cur" unfolding rec_keys_def act by (rule Un_mono [OF order_refl ret])
  with keys show "rec_keys r \<subseteq> keys_of (wowner w) (wdigest w)" by (rule order_trans [rotated])
  show "rec_ok w r"
    unfolding rec_ok_def
  proof (intro conjI allI ballI impI)
    fix g assume g: "active r = Some g"
    show "physical_key g \<notin> retired_key ` set (retired r)"
      using ok act ret g unfolding rec_ok_def by (metis subsetD)
    show "wcut w < installed_at g" if "physical_key g \<in> wkeys w"
      using ok act g that unfolding rec_ok_def by metis
  next
    fix g assume "g \<in> set (retired r)" "retired_key g \<in> wkeys w"
    then show "wcut w < retired_at g" using old ok unfolding rec_ok_def by blast
  qed
  show "there x (physical_key g) \<and> (cur_key w x = Some (physical_key g) \<or> physical_key g \<in> {})"
    if "active r = Some g" for g
    using that act x st by (auto simp: inv_def cur_key_def)
  show "active r \<noteq> None" if "needed w x"
    using inv_readable [OF x that] st act by (auto simp: readable_def cur_key_def)
  show "retired_key ` set (retired r) \<subseteq> retired_keys w x \<union> set_option (cur_key w x) \<union> {}"
    using ret st by (auto simp: retired_keys_def)
  show "\<exists>g. active r = Some g \<and> p \<in> set (pins g)" if "pinned_by w p x" for p
    using that st act by (auto simp: pinned_by_def)
qed

lemma stamp_first_keys [simp]: "map retired_key (stamp_first k t rs) = map retired_key rs"
  by (induction rs) auto

lemma stamp_first_key_set [simp]: "retired_key ` set (stamp_first k t rs) = retired_key ` set rs"
  by (metis list.set_map stamp_first_keys)

lemma stamp_first_mem: "g \<in> set (stamp_first k t rs) \<Longrightarrow> g \<in> set rs \<or> retired_at g = t"
  by (induction rs) (auto split: if_splits)

text \<open>A record whose active key nobody needs and no live pin holds is retired.\<close>

lemma honours_retire:
  assumes x: "inv w x" and st: "wstate w x = Some cur" and g: "active cur = Some g"
    and np: "\<not> has_live_pin g (wcut w)" and nn: "\<not> needed w x" and t: "wcut w < t"
  shows "honours w {} {} x (write_state (wpath w) (retire_active cur (physical_key g) t) x)"
proof (rule honours_write [OF x])
  have ok: "rec_ok w cur" and keys: "rec_keys cur \<subseteq> keys_of (wowner w) (wdigest w)"
    using x st by (auto simp: inv_def keys_ok_def watch_ok_def wstate_def wpath_def)
  show "rec_keys (retire_active cur (physical_key g) t) \<subseteq> keys_of (wowner w) (wdigest w)"
    using keys g by (auto simp: rec_keys_def retire_active_def)
  show "rec_ok w (retire_active cur (physical_key g) t)"
    using ok t by (auto simp: rec_ok_def retire_active_def)
  show "\<exists>g'. active (retire_active cur (physical_key g) t) = Some g' \<and> p \<in> set (pins g')"
    if "pin_is_live p (wcut w)" "pinned_by w p x" for p
    using that np st g by (auto simp: pinned_by_def has_live_pin_def list_ex_iff)
qed (use st g nn in \<open>auto simp: retire_active_def retired_keys_def cur_key_def\<close>)

lemma colon_split:
  assumes "valid_digest e" "a @ CHR '':'' # h = algo e @ CHR '':'' # hex e"
  shows "a = algo e" "h = hex e"
proof -
  have e: "CHR '':'' \<notin> set (algo e)" "CHR '':'' \<notin> set (hex e)"
    using assms(1) by (auto simp: valid_digest_shape digest_shape_def list_all_iff lower_hex_def in_range_def byte_of_def)
  have "count_list (a @ CHR '':'' # h) (CHR '':'') = 1" using e unfolding assms(2) by (simp add: count_notin)
  then have "CHR '':'' \<notin> set a" by (auto simp: count_list_0_iff)
  with e(1) assms(2) show "a = algo e" "h = hex e" by (simp_all add: sep_inj)
qed

lemma state_digest_path:
  assumes "state_digest o1 loc = Some e"
  shows "valid_digest e \<and> loc = state_path o1 e"
proof -
  from assms obtain r a h where r: "loc = owner_prefix o1 @ [slash] @ r" "split_on slash r = [a, h]"
    and e: "a @ '':'' @ h = show_digest e" "valid_digest e"
    by (auto simp: state_digest_def strip_prefix_Some parse_digest_Some split: option.splits list.splits)
  have "r = join_with slash [a, h]" using join_split_on [of slash r] r(2) by simp
  moreover have "a = algo e" "h = hex e" using colon_split [OF e(2)] e(1) by (auto simp: show_digest_def)
  ultimately show ?thesis using r(1) e(2) by (simp add: state_path_def owner_prefix_def)
qed

definition cand_ok :: "watch \<Rightarrow> candidate list \<Rightarrow> bucket \<Rightarrow> bool" where
  "cand_ok w cs x \<longleftrightarrow> (\<forall>(e, r, v)\<in>set cs. valid_digest e \<and> v = r
     \<and> (if e = wdigest w then seen w r x else rec_keys r \<subseteq> keys_of (wowner w) e))"

lemma cand_ok_Cons: "cand_ok w ((e, r, v) # cs) x \<longleftrightarrow> valid_digest e \<and> v = r
     \<and> (if e = wdigest w then seen w r x else rec_keys r \<subseteq> keys_of (wowner w) e) \<and> cand_ok w cs x"
  by (auto simp: cand_ok_def)

context registry_client
begin

lemma stable_cand: "stable (cand_ok w cs)"
proof (induction cs)
  case (Cons c cs)
  obtain e r v where c: "c = (e, r, v)" by (cases c)
  have "stable (\<lambda>x. if e = wdigest w then seen w r x else rec_keys r \<subseteq> keys_of (wowner w) e)"
    by (cases "e = wdigest w") (auto intro: stable_const stable_seen)
  with Cons.IH show ?case unfolding c cand_ok_Cons by (intro stable_conj stable_const)
qed (simp add: cand_ok_def stable_const)

lemma rg_delete:
  assumes "stable A" "\<And>x. inv w x \<Longrightarrow> A x \<Longrightarrow> cur_key w x \<noteq> Some k" "k \<notin> wkeys w"
  shows "rg A (delete_object k) (\<lambda>_. A)"
  unfolding delete_object_def
  by (rule rg_set_calm [OF assms(1)]) (use assms in \<open>auto intro: honours_delete\<close>)

lemma rg_forget:
  assumes A: "stable A" and e: "valid_digest e"
  shows "rg A (forget_retired_once (wowner w) e k) (\<lambda>_. A)"
  unfolding forget_retired_once_def
proof (rule rg_bind [OF rg_read [OF A]], rule rg_when, rule rg_case_option)
  fix v l assume v: "\<forall>l. v = Some l \<longrightarrow> lversion l = lrecord l" "v = Some l"
  show "rg A (bindE (bs_update (state_path (wowner w) e)
      ((lrecord l)\<lparr>retired := filter (\<lambda>r. retired_key r \<noteq> k) (retired (lrecord l))\<rparr>) (lversion l)) (answer_if ())) (\<lambda>_. A)"
    using v by (intro rg_bind [OF rg_update [OF A e] rg_answer] honours_rewrite) (auto simp: rec_keys_def)
qed (rule rg_return)

lemma rg_delete_retired:
  assumes A: "stable A" and e: "valid_digest e"
    and k: "\<And>x. inv w x \<Longrightarrow> A x \<Longrightarrow> cur_key w x \<noteq> Some k" "k \<notin> wkeys w"
  shows "rg A (delete_retired (wowner w) e k) (\<lambda>_. A)"
  unfolding delete_retired_def
  by (intro rg_bind [OF rg_delete [OF A k]] rg_attempts_keep rg_forget A e)

lemma rg_stamp:
  assumes A: "stable A" and e: "valid_digest e" and t: "wcut w < t"
  shows "rg A (stamp_retired (wowner w) e k t) (\<lambda>_. A)"
  unfolding stamp_retired_def stamp_once_def
proof (rule rg_attempts_keep, rule rg_bind [OF rg_read [OF A]], rule rg_when, rule rg_case_option)
  fix v l assume v: "\<forall>l. v = Some l \<longrightarrow> lversion l = lrecord l" "v = Some l"
  have "rg A (bindE (bs_update (state_path (wowner w) e)
      ((lrecord l)\<lparr>retired := stamp_first k t (retired (lrecord l))\<rparr>) (lversion l)) (answer_if ())) (\<lambda>_. A)"
    using v t by (intro rg_bind [OF rg_update [OF A e] rg_answer] honours_rewrite)
      (auto simp: rec_keys_def dest: stamp_first_mem)
  then show "rg A (case find (\<lambda>r. retired_key r = k) (retired (lrecord l)) of
      None \<Rightarrow> returnE (Some ())
    | Some entry \<Rightarrow> if retired_at entry \<noteq> 0 then returnE (Some ())
        else bindE (bs_update (state_path (wowner w) e)
          ((lrecord l)\<lparr>retired := stamp_first k t (retired (lrecord l))\<rparr>) (lversion l)) (answer_if ())) (\<lambda>_. A)"
    by (auto split: option.splits intro: rg_return)
qed (rule rg_return)

text \<open>Retiring under the version that was seen: the answer names the key, which no longer is active.\<close>

lemma rg_retire_other:
  assumes A: "stable A" and e: "valid_digest e" "e \<noteq> wdigest w"
  shows "rg A (retire_if_unpinned (wowner w) e r c) (\<lambda>v x. (\<forall>k. v = Some k \<longrightarrow> k \<in> rec_keys r) \<and> A x)"
  unfolding retire_if_unpinned_def
proof (rule rg_bind [OF rg_read [OF A]], rule rg_when, rule rg_case_option)
  fix v l assume v: "\<forall>l. v = Some l \<longrightarrow> lversion l = lrecord l" "v = Some l"
  have "rg A (bindE now_millis (\<lambda>t. bindE (bs_update (state_path (wowner w) e)
      (retire_active (lrecord l) (physical_key g) t) r)
      (\<lambda>won. returnE (if won then Some (physical_key g) else None)))) (\<lambda>v x. (\<forall>k. v = Some k \<longrightarrow> k \<in> rec_keys r) \<and> A x)"
    if "lversion l = r" "active (lrecord l) = Some g" for g
  proof (rule rg_bind [OF rg_now], rule rg_when, rule rg_bind [OF rg_update [OF A e(1)]])
    show "rg A (returnE (if won then Some (physical_key g) else None)) (\<lambda>v x. (\<forall>k. v = Some k \<longrightarrow> k \<in> rec_keys r) \<and> A x)" for won
      using v that by (intro rg_return) (auto simp: rec_keys_def)
  qed (use v that e in \<open>auto simp: rec_keys_def retire_active_def\<close>)
  then show "rg A (if lversion l \<noteq> r then returnE None
      else case active (lrecord l) of None \<Rightarrow> returnE None
      | Some g \<Rightarrow> if has_live_pin g c then returnE None
          else bindE now_millis (\<lambda>t. bindE (bs_update (state_path (wowner w) e)
            (retire_active (lrecord l) (physical_key g) t) r)
            (\<lambda>won. returnE (if won then Some (physical_key g) else None)))) (\<lambda>v x. (\<forall>k. v = Some k \<longrightarrow> k \<in> rec_keys r) \<and> A x)"
    by (auto split: option.splits intro: rg_return)
qed (rule rg_return, simp)

end

context registry_client
begin

lemma rg_retire_watched:
  assumes A: "stable A" and K: "\<And>g. active r = Some g \<Longrightarrow> physical_key g \<notin> wkeys w"
  shows "rg (\<lambda>x. unneeded w {} r x \<and> A x) (retire_if_unpinned (wowner w) (wdigest w) r (wcut w))
    (\<lambda>v x. (\<forall>k. v = Some k \<longrightarrow> k \<notin> wkeys w \<and> cur_key w x \<noteq> Some k) \<and> A x)"
    (is "rg ?A _ ?B")
  unfolding retire_if_unpinned_def
proof (rule rg_bind [OF rg_read], rule stable_conj [OF stable_unneeded A], rule rg_when, rule rg_case_option)
  show "rg ?A (returnE None) ?B" by (rule rg_return) simp
  fix v l assume v: "\<forall>l. v = Some l \<longrightarrow> lversion l = lrecord l" "v = Some l"
  have "rg ?A (bindE now_millis (\<lambda>t. bindE (bs_update (state_path (wowner w) (wdigest w))
      (retire_active (lrecord l) (physical_key g) t) r)
      (\<lambda>won. returnE (if won then Some (physical_key g) else None)))) ?B"
    if r: "lversion l = r" "active (lrecord l) = Some g" "\<not> has_live_pin g (wcut w)" for g
  proof (rule rg_bind [OF rg_now], rule rg_when, rule rg_bind)
    fix t assume t: "wcut w < t"
    have lr: "lrecord l = r" using v r(1) by simp
    with r(2) have gr: "active r = Some g" by simp
    show "rg ?A (bs_update (state_path (wowner w) (wdigest w)) (retire_active (lrecord l) (physical_key g) t) r)
      (\<lambda>won x. (won \<longrightarrow> cur_key w x \<noteq> Some (physical_key g)) \<and> A x)"
      unfolding bs_update_eq lr
    proof (rule rg_cas [OF stable_conj [OF stable_unneeded A]])
      fix x assume x: "Watch.inv w x" "?A x" "map_of (states x) (state_path (wowner w) (wdigest w)) = Some r"
      then have st: "wstate w x = Some r" by (simp add: wstate_def wpath_def)
      with x(2) gr r(3) have nn: "\<not> needed w x" by (simp add: unneeded_def needed_def)
      let ?y = "write_state (state_path (wowner w) (wdigest w)) (retire_active r (physical_key g) t) x"
      have ob: "honours w {} {} x ?y" using honours_retire [OF x(1) st gr r(3) nn t] by (simp add: wpath_def)
      have "cur_key w ?y = None" by (simp add: cur_key_def wstate_def wpath_def retire_active_def)
      then show "guar x ?y \<and> (True \<longrightarrow> cur_key w ?y \<noteq> Some (physical_key g)) \<and> A ?y"
        using calm [OF x(1) ob] stableD [OF A x(1)] x(2) by auto
    qed auto
    show "rg (\<lambda>x. (won \<longrightarrow> cur_key w x \<noteq> Some (physical_key g)) \<and> A x)
      (returnE (if won then Some (physical_key g) else None)) ?B" for won
      using K [OF gr] by (intro rg_return) auto
  qed
  then show "rg ?A (if lversion l \<noteq> r then returnE None
      else case active (lrecord l) of None \<Rightarrow> returnE None
      | Some g \<Rightarrow> if has_live_pin g (wcut w) then returnE None
          else bindE now_millis (\<lambda>t. bindE (bs_update (state_path (wowner w) (wdigest w))
            (retire_active (lrecord l) (physical_key g) t) r)
            (\<lambda>won. returnE (if won then Some (physical_key g) else None)))) ?B"
    by (auto split: option.splits intro: rg_return)
qed

text \<open>What a listing of the records has shown.\<close>

lemma seen_now: "Watch.inv w x \<Longrightarrow> wstate w x = Some r \<Longrightarrow> seen w r x"
  by (auto simp: seen_def inv_def rec_ok_def cur_key_def)

lemma rg_candidates_loop:
  assumes "stable A"
  shows "rg A (candidates_loop (wowner w) locs) (\<lambda>cs x. cand_ok w cs x \<and> A x)"
  using assms
proof (induction locs arbitrary: A)
  case Nil
  show ?case unfolding candidates_loop.simps by (rule rg_return) (simp add: cand_ok_def)
next
  case (Cons loc locs)
  note A = Cons.prems and IH = Cons.IH [OF Cons.prems]
  show ?case
  proof (cases "state_digest (wowner w) loc")
    case None
    with IH show ?thesis by simp
  next
    case (Some e)
    then have e: "valid_digest e" "loc = state_path (wowner w) e" by (auto dest: state_digest_path)
    define S where "S = (\<lambda>(l :: loaded) x. lversion l = lrecord l
       \<and> (if e = wdigest w then seen w (lrecord l) x else rec_keys (lrecord l) \<subseteq> keys_of (wowner w) e) \<and> A x)"
    have SS: "stable (S l)" for l
      unfolding S_def by (intro stable_conj stable_const A) (cases "e = wdigest w"; simp add: stable_seen stable_const)
    have loop: "rg (S l) (candidates_loop (wowner w) locs) (\<lambda>cs x. cand_ok w cs x \<and> S l x)" for l
      by (rule Cons.IH [OF SS])
    have here: "S \<lparr>lrecord = r, lversion = r\<rparr> x" if "Watch.inv w x" "A x" "map_of (states x) loc = Some r" for x r
    proof -
      have "rec_keys r \<subseteq> keys_of (wowner w) e" using inv_keys_ok [OF that(1)] that(3) e by (simp add: keys_ok_def)
      moreover have "seen w r x" if "e = wdigest w"
        using that \<open>map_of (states x) loc = Some r\<close> e(2)
        by (intro seen_now [OF \<open>Watch.inv w x\<close>]) (simp add: wstate_def wpath_def)
      ultimately show ?thesis using that(2) by (simp add: S_def)
    qed
    have "rg A (os_get (\<lambda>x. map_of (states x) loc)) (\<lambda>v x. (\<forall>r. v = Some r \<longrightarrow> S \<lparr>lrecord = r, lversion = r\<rparr> x) \<and> A x)"
      by (rule rg_get [OF A]) (use here in blast)
    then have "rg A (bs_read loc) (\<lambda>v x. case v of None \<Rightarrow> A x | Some l \<Rightarrow> S l x)"
      unfolding bs_read_def by (rule rg_bind) (auto intro!: rg_return split: option.splits)
    moreover have "rg (\<lambda>x. case v of None \<Rightarrow> A x | Some l \<Rightarrow> S l x)
      (case v of None \<Rightarrow> candidates_loop (wowner w) locs
       | Some l \<Rightarrow> bindE (candidates_loop (wowner w) locs) (\<lambda>out. returnE ((e, lrecord l, lversion l) # out)))
      (\<lambda>cs x. cand_ok w cs x \<and> A x)" for v
    proof (cases v)
      case (Some l)
      have "rg (S l) (bindE (candidates_loop (wowner w) locs) (\<lambda>out. returnE ((e, lrecord l, lversion l) # out)))
          (\<lambda>cs x. cand_ok w cs x \<and> A x)"
        by (rule rg_bind [OF loop], rule rg_return) (use e(1) in \<open>simp add: cand_ok_Cons S_def\<close>)
      with Some show ?thesis by simp
    qed (use IH in simp)
    ultimately show ?thesis using Some by (auto intro: rg_bind)
  qed
qed

lemma rg_candidates: "stable A \<Longrightarrow> rg A (bs_candidates (wowner w)) (\<lambda>cs x. cand_ok w cs x \<and> A x)"
  unfolding bs_candidates_def
  by (rule rg_bind [OF rg_get [where B = "\<lambda>_. A"]]) (auto intro: rg_candidates_loop)

end

end
