(* ===== verification/Sweep.thy ===== *)
theory Sweep
  imports Watch
begin

text \<open>
  Publishing a manifest and sweeping the blobs that no manifest names:
  \<open>crates/registry/src/gc.rs\<close> and the first half of \<open>crates/registry/src/manifests.rs\<close>. The JSON
  text of a manifest is read by serde, here the parameter \<open>from_slice\<close>; \<open>datable\<close> says which
  millisecond counts chrono can turn into a date. A listing is one look at the store, and what the
  code runs as a bounded number of concurrent calls runs here one after the other, the other
  clients moving before each call.
\<close>

section \<open>Manifests as JSON\<close>

datatype json =
    JNull
  | JBool bool
  | JInt int
  | JFloat string
  | JStr string
  | JArr "json list"
  | JObj "(string \<times> json) list"

fun is_object :: "json \<Rightarrow> bool" where
  "is_object (JObj m) = True"
| "is_object _ = False"

fun jget :: "string \<Rightarrow> json \<Rightarrow> json option" where
  "jget k (JObj m) = map_of m k"
| "jget k _ = None"

fun as_str :: "json \<Rightarrow> string option" where
  "as_str (JStr s) = Some s"
| "as_str _ = None"

fun as_array :: "json \<Rightarrow> json list option" where
  "as_array (JArr a) = Some a"
| "as_array _ = None"

fun as_u64 :: "json \<Rightarrow> nat option" where
  "as_u64 (JInt n) = (if 0 \<le> n \<and> nat n < u64_bound then Some (nat n) else None)"
| "as_u64 _ = None"

fun collect :: "json \<Rightarrow> string list"
  and collect_fields :: "(string \<times> json) list \<Rightarrow> string list"
  and collect_items :: "json list \<Rightarrow> string list" where
  "collect (JObj m) = collect_fields m"
| "collect (JArr a) = collect_items a"
| "collect JNull = []"
| "collect (JBool b) = []"
| "collect (JInt n) = []"
| "collect (JFloat x) = []"
| "collect (JStr s) = []"
| "collect_fields [] = []"
| "collect_fields ((k, v) # m) =
     (if k = ''digest'' then (case as_str v of Some s \<Rightarrow> [s] | None \<Rightarrow> []) else []) @ collect v @ collect_fields m"
| "collect_items [] = []"
| "collect_items (v # a) = collect v @ collect_items a"

definition sum_sizes :: "json \<Rightarrow> string \<Rightarrow> nat \<Rightarrow> nat" where
  "sum_sizes v key base =
     (case Option.bind (jget key v) as_array of
        None \<Rightarrow> base
      | Some items \<Rightarrow>
          fold (\<lambda>s acc. min (acc + s) (u64_bound - 1)) (List.map_filter (\<lambda>l. Option.bind (jget ''size'' l) as_u64) items) base)"

definition declared_size :: "(bytes \<Rightarrow> json option) \<Rightarrow> bytes \<Rightarrow> nat" where
  "declared_size from_slice b =
     (case from_slice b of
        None \<Rightarrow> 0
      | Some v \<Rightarrow>
          sum_sizes v ''manifests'' (sum_sizes v ''layers''
            (case Option.bind (Option.bind (jget ''config'' v) (jget ''size'')) as_u64 of None \<Rightarrow> 0 | Some n \<Rightarrow> n)))"

definition digest_ok :: "json \<Rightarrow> bool" where
  "digest_ok d = (case jget ''digest'' d of
     Some s \<Rightarrow> (case as_str s of Some t \<Rightarrow> parse_digest t \<noteq> None | None \<Rightarrow> False)
   | None \<Rightarrow> True)"

definition declared_digests_parse :: "json \<Rightarrow> bool" where
  "declared_digests_parse v \<longleftrightarrow>
     (case jget ''config'' v of None \<Rightarrow> True | Some c \<Rightarrow> digest_ok c)
     \<and> list_all (\<lambda>k. case Option.bind (jget k v) as_array of None \<Rightarrow> True | Some l \<Rightarrow> list_all digest_ok l)
         [''layers'', ''manifests'']"

definition MAX_MANIFEST :: nat where "MAX_MANIFEST = 4 * 1024 * 1024"
definition DRAIN_CEILING :: nat where "DRAIN_CEILING = 64 * 1024 * 1024"

text \<open>The chunks of the body in order, each a piece or a failure of the connection.\<close>

fun read_manifest_loop :: "(error + bytes) list \<Rightarrow> bytes \<Rightarrow> nat \<Rightarrow> bytes option" where
  "read_manifest_loop [] buf got = (if got \<le> MAX_MANIFEST then Some buf else None)"
| "read_manifest_loop (Inl e # cs) buf got = None"
| "read_manifest_loop (Inr c # cs) buf got =
     (let got = got + length c
      in if got > DRAIN_CEILING then None
         else read_manifest_loop cs (if got \<le> MAX_MANIFEST then buf @ c else buf) got)"

definition read_manifest :: "(error + bytes) list \<Rightarrow> bytes option" where
  "read_manifest cs = read_manifest_loop cs [] 0"

datatype reference = RefDigest digest | RefTag string

definition is_ascii_alnum :: "char \<Rightarrow> bool" where
  "is_ascii_alnum c \<longleftrightarrow> in_range 0x30 0x39 c \<or> in_range 0x41 0x5A c \<or> in_range 0x61 0x7A c"

definition reference :: "string \<Rightarrow> reference option" where
  "reference s =
     (case parse_digest s of
        Some d \<Rightarrow> Some (RefDigest d)
      | None \<Rightarrow>
          if length s \<le> 128 \<and> s \<noteq> [] \<and> (is_ascii_alnum (hd s) \<or> hd s = CHR ''_'')
             \<and> list_all (\<lambda>c. is_ascii_alnum c \<or> c = CHR ''.'' \<or> c = CHR ''_'' \<or> c = CHR ''-'') s
          then Some (RefTag s) else None)"

section \<open>What a push must hold\<close>

definition elsewhere :: "json \<Rightarrow> bool" where
  "elsewhere l = (case Option.bind (jget ''urls'' l) as_array of None \<Rightarrow> False | Some u \<Rightarrow> u \<noteq> [])"

definition foreign :: "json \<Rightarrow> bool" where
  "foreign l = (case Option.bind (jget ''mediaType'' l) as_str of
     None \<Rightarrow> False
   | Some t \<Rightarrow> str_contains t ''.foreign.'' \<or> str_contains t ''.nondistributable.'')"

definition prune_layers :: "json \<Rightarrow> json" where
  "prune_layers v = (case as_array v of
     None \<Rightarrow> v | Some ls \<Rightarrow> JArr (filter (\<lambda>l. \<not> elsewhere l \<and> \<not> foreign l) ls))"

fun prune :: "json \<Rightarrow> json" where
  "prune (JObj m) =
     JObj (map (\<lambda>(k, v). (k, if k = ''layers'' then prune_layers v else v)) (filter (\<lambda>(k, v). k \<noteq> ''subject'') m))"
| "prune v = v"

definition manifest_digests :: "(bytes \<Rightarrow> json option) \<Rightarrow> bytes \<Rightarrow> error + digest list" where
  "manifest_digests from_slice b =
     (case from_slice b of
        None \<Rightarrow> Inl (Message ''manifest is not a JSON object'')
      | Some v \<Rightarrow>
          if \<not> is_object v then Inl (Message ''manifest is not a JSON object'')
          else let v = prune v
               in if \<not> declared_digests_parse v then Inl (Message ''a declared digest is not a valid digest'')
                  else Inr (List.map_filter parse_digest (remdups (collect v))))"

section \<open>Publishing\<close>

definition release_pins :: "string \<Rightarrow> digest list \<Rightarrow> string \<Rightarrow> (registry, unit) io" where
  "release_pins o1 pinned p = forE pinned (\<lambda>d. ignoreE (bs_unpin o1 d p))"

definition probe :: "string \<Rightarrow> string \<Rightarrow> digest list \<Rightarrow> digest \<Rightarrow> (registry, bool) io" where
  "probe o1 name1 pinned d =
     (if d \<in> set pinned then
        bindE (bs_resolve o1 d) (\<lambda>p.
        case p of
          None \<Rightarrow> returnE False
        | Some p \<Rightarrow> bindE (os_head p) (\<lambda>m. returnE (m \<noteq> None)))
      else bindE (os_head (manifest_path o1 name1 d)) (\<lambda>m. returnE (m \<noteq> None)))"

datatype pin_failure = PinErr error | ProbeErr error | BlobUnknown | WriteErr error

definition first_error :: "(error + 'a) list \<Rightarrow> error option" where
  "first_error rs = (case List.map_filter (\<lambda>r. case r of Inl e \<Rightarrow> Some e | Inr _ \<Rightarrow> None) rs of [] \<Rightarrow> None | e # _ \<Rightarrow> Some e)"

definition pin_probe_write ::
  "string \<Rightarrow> string \<Rightarrow> digest \<Rightarrow> digest list \<Rightarrow> bytes \<Rightarrow> (registry, pin_failure + unit) io" where
  "pin_probe_write o1 name1 d digests body =
     bindE (manifest_publication o1 name1 d) (\<lambda>p.
     bindE (mapE digests (\<lambda>b. tryE (bs_pin o1 b p))) (\<lambda>rs.
     let pinned = map fst (filter (\<lambda>(b, r). r = Inr True) (zip digests rs))
     in case first_error rs of
          Some e \<Rightarrow> bindE (release_pins o1 pinned p) (\<lambda>_. returnE (Inl (PinErr e)))
        | None \<Rightarrow>
            bindE (mapE digests (\<lambda>b. tryE (probe o1 name1 pinned b))) (\<lambda>present.
            case first_error present of
              Some e \<Rightarrow> bindE (release_pins o1 pinned p) (\<lambda>_. returnE (Inl (ProbeErr (Message (err_text e)))))
            | None \<Rightarrow>
                if Inr False \<in> set present
                then bindE (release_pins o1 pinned p) (\<lambda>_. returnE (Inl BlobUnknown))
                else bindE (tryE (put_object (manifest_path o1 name1 d) body)) (\<lambda>w.
                     bindE (release_pins o1 pinned p) (\<lambda>_.
                     returnE (case w of Inl e \<Rightarrow> Inl (WriteErr e) | Inr _ \<Rightarrow> Inr ()))))))"

section \<open>The sweep\<close>

definition digest_from_path :: "string \<Rightarrow> string option" where
  "digest_from_path p =
     (case rev (split_on slash p) of h # a # _ \<Rightarrow> Some (a @ '':'' @ h) | _ \<Rightarrow> None)"

fun referenced_loop :: "(bytes \<Rightarrow> json option) \<Rightarrow> string list \<Rightarrow> string list \<Rightarrow> (registry, string list) io" where
  "referenced_loop from_slice [] out = returnE out"
| "referenced_loop from_slice (p # ps) out =
     bindE (os_body p) (\<lambda>b.
     case from_slice b of
       None \<Rightarrow> failE (Message ''unparseable manifest'')
     | Some v \<Rightarrow>
         referenced_loop from_slice ps
           (collect v @ (case digest_from_path p of Some d \<Rightarrow> [d] | None \<Rightarrow> []) @ out))"

definition referenced :: "(bytes \<Rightarrow> json option) \<Rightarrow> string \<Rightarrow> (registry, string list) io" where
  "referenced from_slice o1 =
     bindE (os_get (\<lambda>x. listed (''manifests/'' @ o1) (objects x))) (\<lambda>paths.
     referenced_loop from_slice paths [])"

definition installed_before :: "(int \<Rightarrow> bool) \<Rightarrow> blob_generation \<Rightarrow> int \<Rightarrow> (registry, bool option) io" where
  "installed_before datable g cutoff =
     (if installed_at g > 0 then
        returnE (Some (datable (installed_at g) \<and> installed_at g \<le> cutoff))
      else bindE (os_head (physical_key g)) (\<lambda>m. returnE (map_option (\<lambda>at. at \<le> cutoff) m)))"

definition sweep_retired :: "string \<Rightarrow> digest \<Rightarrow> retired_generation \<Rightarrow> int \<Rightarrow> int \<Rightarrow> (registry, unit) io" where
  "sweep_retired o1 d r cutoff t =
     (if retired_at r > 0 then
        (if retired_at r \<le> cutoff then delete_retired o1 d (retired_key r) else returnE ())
      else stamp_retired o1 d (retired_key r) t)"

definition sweep_retireds :: "string \<Rightarrow> digest \<Rightarrow> blob_record \<Rightarrow> int \<Rightarrow> int \<Rightarrow> (registry, unit) io" where
  "sweep_retireds o1 d r cutoff t = forE (retired r) (\<lambda>g. sweep_retired o1 d g cutoff t)"

fun adopt_loop :: "string \<Rightarrow> string list \<Rightarrow> string list \<Rightarrow> bool \<Rightarrow> (registry, bool) io" where
  "adopt_loop o1 [] known adopted = returnE adopted"
| "adopt_loop o1 (loc # locs) known adopted =
     (case Option.bind (digest_from_path loc) parse_digest of
        None \<Rightarrow> adopt_loop o1 locs known adopted
      | Some d \<Rightarrow>
          if show_digest d \<in> set known then adopt_loop o1 locs known adopted
          else bindE (bs_resolve o1 d) (\<lambda>_. adopt_loop o1 locs (show_digest d # known) True))"

fun old_candidates :: "(int \<Rightarrow> bool) \<Rightarrow> int \<Rightarrow> candidate list \<Rightarrow> (registry, string list) io" where
  "old_candidates datable cutoff [] = returnE []"
| "old_candidates datable cutoff ((d, r, v) # cs) =
     (case active r of
        None \<Rightarrow> old_candidates datable cutoff cs
      | Some g \<Rightarrow>
          if has_live_pin g cutoff then old_candidates datable cutoff cs
          else bindE (installed_before datable g cutoff) (\<lambda>b.
               bindE (old_candidates datable cutoff cs) (\<lambda>out.
               returnE (if b = Some True then show_digest d # out else out))))"

text \<open>One candidate: its retired keys first, then the key that is active.\<close>

definition sweep_one ::
  "(int \<Rightarrow> bool) \<Rightarrow> string \<Rightarrow> string list \<Rightarrow> string list \<Rightarrow> int \<Rightarrow> int \<Rightarrow> candidate \<Rightarrow> (registry, nat) io" where
  "sweep_one datable o1 keep old cutoff t = (\<lambda>(d, r, v).
     bindE (sweep_retireds o1 d r cutoff t) (\<lambda>_.
     if show_digest d \<in> set keep then returnE 0
     else case active r of
       None \<Rightarrow> returnE 0
     | Some g \<Rightarrow>
         if has_live_pin g cutoff then returnE 0
         else if show_digest d \<notin> set old then returnE 0
         else bindE (installed_before datable g cutoff) (\<lambda>b.
              if b \<noteq> Some True then returnE 0
              else bindE (retire_if_unpinned o1 d v cutoff) (\<lambda>key.
                   case key of
                     None \<Rightarrow> returnE 0
                   | Some k \<Rightarrow> bindE (delete_retired o1 d k) (\<lambda>_. returnE 1)))))"

fun sweep_loop ::
  "(int \<Rightarrow> bool) \<Rightarrow> string \<Rightarrow> string list \<Rightarrow> string list \<Rightarrow> int \<Rightarrow> int \<Rightarrow> candidate list \<Rightarrow> nat \<Rightarrow> (registry, nat) io" where
  "sweep_loop datable o1 keep old cutoff t [] n = returnE n"
| "sweep_loop datable o1 keep old cutoff t (c # cs) n =
     bindE (sweep_one datable o1 keep old cutoff t c) (\<lambda>k. sweep_loop datable o1 keep old cutoff t cs (n + k))"

definition sweep_candidates ::
  "(bytes \<Rightarrow> json option) \<Rightarrow> (int \<Rightarrow> bool) \<Rightarrow> string \<Rightarrow> int \<Rightarrow> int \<Rightarrow> candidate list \<Rightarrow> (registry, nat) io" where
  "sweep_candidates from_slice datable o1 cutoff t cs =
     bindE (old_candidates datable cutoff cs) (\<lambda>old.
     if old = [] then
       bindE (forE cs (\<lambda>(d, r, v). sweep_retireds o1 d r cutoff t)) (\<lambda>_. returnE 0)
     else
       bindE (referenced from_slice o1) (\<lambda>keep.
       sweep_loop datable o1 keep old cutoff t cs 0))"

definition sweep_owner ::
  "(bytes \<Rightarrow> json option) \<Rightarrow> (int \<Rightarrow> bool) \<Rightarrow> string \<Rightarrow> int \<Rightarrow> (registry, nat) io" where
  "sweep_owner from_slice datable o1 grace =
     bindE now_millis (\<lambda>t0.
     let cutoff = t0 - grace
     in bindE now_millis (\<lambda>t.
        bindE (bs_candidates o1) (\<lambda>cs.
        bindE (os_get (\<lambda>x. listed (''blobs/'' @ o1) (objects x))) (\<lambda>legacy.
        bindE (adopt_loop o1 legacy (map (\<lambda>(d, _). show_digest d) cs) False) (\<lambda>adopted.
        bindE (if adopted then bs_candidates o1 else returnE cs) (\<lambda>cs.
        sweep_candidates from_slice datable o1 cutoff t cs))))))"

section \<open>The sweep keeps to the protocol\<close>

lemma collect_items_set: "set (collect_items a) = (\<Union>v\<in>set a. set (collect v))"
  by (induction a) auto

lemma collect_fields_mem: "s \<in> set (collect_fields m) \<longleftrightarrow>
    (\<exists>(k, v)\<in>set m. k = ''digest'' \<and> as_str v = Some s \<or> s \<in> set (collect v))"
proof (induction m)
  case (Cons kv m)
  obtain k v where kv: "kv = (k, v)" by (cases kv)
  show ?case
    unfolding kv by (cases "as_str v"; cases "k = ''digest''") (simp_all add: Cons.IH eq_commute)
qed simp

lemma collect_prune_layers: "set (collect (prune_layers v)) \<subseteq> set (collect v)"
  by (cases v) (auto simp: prune_layers_def collect_items_set)

text \<open>Whatever a push must hold, the sweep keeps.\<close>

lemma collect_prune: "set (collect (prune v)) \<subseteq> set (collect v)"
proof (cases v)
  case (JObj m)
  have "\<exists>(k, v)\<in>set m. k = ''digest'' \<and> as_str v = Some s \<or> s \<in> set (collect v)"
    if "s \<in> set (collect (prune v))" for s
  proof -
    from that JObj obtain k u where ku: "(k, u) \<in> set m"
      "k = ''digest'' \<and> as_str (if k = ''layers'' then prune_layers u else u) = Some s
       \<or> s \<in> set (collect (if k = ''layers'' then prune_layers u else u))"
      by (auto simp: collect_fields_mem)
    then have "k = ''digest'' \<and> as_str u = Some s \<or> s \<in> set (collect u)"
      using collect_prune_layers [of u] by (auto split: if_splits)
    with ku(1) show ?thesis by blast
  qed
  with JObj show ?thesis by (auto simp: collect_fields_mem)
qed auto

definition needs_digest :: "(bytes \<Rightarrow> json option) \<Rightarrow> digest \<Rightarrow> bytes \<Rightarrow> bool" where
  "needs_digest from_slice d b \<longleftrightarrow> (\<exists>v. from_slice b = Some v \<and> show_digest d \<in> set (collect (prune v)))"

lemma needs_digest_collect: "needs_digest fs d b \<Longrightarrow> fs b = Some v \<Longrightarrow> show_digest d \<in> set (collect v)"
  using collect_prune by (auto simp: needs_digest_def)

context registry_client
begin

lemma stable_unneededs: "stable (\<lambda>x. \<forall>r\<in>R. unneeded w Q r x)"
  by (rule stableI) (auto intro: stableD [OF stable_unneeded])

text \<open>The walk over the manifests: one that needs the blob is met, unless it is still to come.\<close>

lemma rg_referenced_loop:
  assumes nd: "wneeds w = needs_digest fs (wdigest w)" and A: "stable A"
  shows "rg (\<lambda>x. (show_digest (wdigest w) \<notin> set out \<longrightarrow> (\<forall>r\<in>R. unneeded w (set ps) r x)) \<and> A x)
     (referenced_loop fs ps out)
     (\<lambda>keep x. (show_digest (wdigest w) \<notin> set keep \<longrightarrow> (\<forall>r\<in>R. unneeded w {} r x)) \<and> A x)"
proof (induction ps arbitrary: out)
  case Nil
  show ?case unfolding referenced_loop.simps by (rule rg_return) simp
next
  case (Cons p ps)
  let ?P = "\<lambda>x. (show_digest (wdigest w) \<notin> set out \<longrightarrow> (\<forall>r\<in>R. unneeded w (set (p # ps)) r x)) \<and> A x"
  have P: "stable ?P" by (intro stable_intros stable_unneededs A)
  define D where "D = (\<lambda>b x. (show_digest (wdigest w) \<notin> set out \<longrightarrow> wneeds w b
       \<or> (\<forall>r\<in>R. unneeded w (set ps) r x)) \<and> A x)"
  have met: "D (odata ob) x" if "Watch.inv w x" "?P x" "map_of (objects x) p = Some ob" for x ob
    using that by (fastforce simp: D_def unneeded_def needs_at_def)
  have body: "rg ?P (os_body p) D"
    unfolding os_body_def
  proof (rule rg_bind [OF rg_get [OF P, where B = "\<lambda>v x. \<forall>b. v = Some b \<longrightarrow> D b x"]])
    show "rg (\<lambda>x. \<forall>b. v = Some b \<longrightarrow> D b x) (case v of None \<Rightarrow> failE (Message ''object not found'') | Some b \<Rightarrow> returnE b) D" for v
      by (cases v) (auto intro: rg_return rg_fail [simplified failE_def] simp: failE_def)
  qed (use met in auto)
  show ?case
    unfolding referenced_loop.simps
  proof (rule rg_bind [OF body])
    fix b
    show "rg (D b) (case fs b of None \<Rightarrow> failE (Message ''unparseable manifest'')
        | Some v \<Rightarrow> referenced_loop fs ps (collect v @ (case digest_from_path p of Some d \<Rightarrow> [d] | None \<Rightarrow> []) @ out))
      (\<lambda>keep x. (show_digest (wdigest w) \<notin> set keep \<longrightarrow> (\<forall>r\<in>R. unneeded w {} r x)) \<and> A x)"
    proof (rule rg_case_option, rule rg_fail)
      fix v assume v: "fs b = Some v"
      show "rg (D b) (referenced_loop fs ps (collect v @ (case digest_from_path p of Some d \<Rightarrow> [d] | None \<Rightarrow> []) @ out))
        (\<lambda>keep x. (show_digest (wdigest w) \<notin> set keep \<longrightarrow> (\<forall>r\<in>R. unneeded w {} r x)) \<and> A x)"
        by (rule rg_pre [OF Cons.IH]) (use v nd in \<open>auto simp: D_def dest: needs_digest_collect\<close>)
    qed
  qed
qed

lemma rg_referenced:
  assumes nd: "wneeds w = needs_digest fs (wdigest w)" and A: "stable A"
    and R: "\<And>x r. Watch.inv w x \<Longrightarrow> A x \<Longrightarrow> r \<in> R \<Longrightarrow> used x r"
  shows "rg A (referenced fs (wowner w))
     (\<lambda>keep x. (show_digest (wdigest w) \<notin> set keep \<longrightarrow> (\<forall>r\<in>R. unneeded w {} r x)) \<and> A x)"
  unfolding referenced_def
proof (rule rg_bind [OF rg_get [OF A, where B = "\<lambda>ps x. (\<forall>r\<in>R. unneeded w (set ps) r x) \<and> A x"]])
  show "rg (\<lambda>x. (\<forall>r\<in>R. unneeded w (set ps) r x) \<and> A x) (referenced_loop fs ps [])
     (\<lambda>keep x. (show_digest (wdigest w) \<notin> set keep \<longrightarrow> (\<forall>r\<in>R. unneeded w {} r x)) \<and> A x)" for ps
    by (rule rg_pre [OF rg_referenced_loop [OF nd A]]) simp
  fix x assume x: "Watch.inv w x" "A x"
  have "q \<in> set (listed (''manifests/'' @ wowner w) (objects x))" if "needs_at w x q" for q
    using that by (force simp: needs_at_def listed_def dest!: map_of_SomeD)
  with R [OF x] x(2) show "(\<forall>r\<in>R. unneeded w (set (listed (''manifests/'' @ wowner w) (objects x))) r x) \<and> A x"
    by (auto simp: unneeded_def)
qed

end

text \<open>The keys of another blob are not those of the watched one.\<close>

lemma other_key:
  assumes "inv w x" "valid_digest e" "e \<noteq> wdigest w" "k \<in> keys_of (wowner w) e"
  shows "k \<notin> wkeys w" "cur_key w x \<noteq> Some k"
proof -
  have d: "valid_digest (wdigest w)" "wkeys w \<subseteq> keys_of (wowner w) (wdigest w)"
    using assms(1) by (auto simp: inv_def watch_ok_def keys_of_def)
  have "k \<notin> keys_of (wowner w) (wdigest w)"
    using keys_disjoint [OF assms(2) d(1) assms(3)] assms(4) by blast
  with d(2) show "k \<notin> wkeys w" by blast
  with cur_key_keys [OF assms(1)] \<open>k \<notin> keys_of (wowner w) (wdigest w)\<close>
  show "cur_key w x \<noteq> Some k" by blast
qed

context registry_client
begin

lemma rg_inv: "(\<And>x. Watch.inv w x \<Longrightarrow> A x \<Longrightarrow> c) \<Longrightarrow> (c \<Longrightarrow> rg A m B) \<Longrightarrow> rg A m B"
  by (rule rg_pre [OF rg_when, of c]) blast+

lemma rg_installed_before:
  assumes A: "stable A"
  shows "rg A (installed_before datable g (wcut w)) (\<lambda>b x. (b = Some True \<longrightarrow> installed_at g \<le> wcut w) \<and> A x)"
proof (rule rg_inv [where c = "0 \<le> wcut w"])
  assume c: "0 \<le> wcut w"
  show ?thesis
    unfolding installed_before_def
    by (rule rg_if, rule rg_return, simp) (rule rg_bind [OF rg_head [OF A]], rule rg_return, use c in auto)
qed (simp add: inv_def watch_ok_def)

text \<open>A candidate and what is known of it.\<close>

definition cand :: "digest \<Rightarrow> blob_record \<Rightarrow> bucket \<Rightarrow> bool" where
  "cand e r x \<longleftrightarrow> valid_digest e
     \<and> (if e = wdigest w then seen w r x else rec_keys r \<subseteq> keys_of (wowner w) e)"

lemma cand_ok_mem: "cand_ok w cs x \<Longrightarrow> (e, r, v) \<in> set cs \<Longrightarrow> v = r \<and> cand e r x"
  unfolding cand_ok_def by (drule (1) bspec) (simp add: cand_def)

lemma rg_sweep_retired:
  assumes A: "stable A" and C: "\<And>x. Watch.inv w x \<Longrightarrow> A x \<Longrightarrow> cand e r x" and g: "g \<in> set (retired r)"
    and t: "wcut w < t"
  shows "rg A (sweep_retired (wowner w) e g (wcut w) t) (\<lambda>_. A)"
proof -
  have idle: "retired_key g \<notin> wkeys w \<and> cur_key w x \<noteq> Some (retired_key g)"
    if x: "Watch.inv w x" "A x" and old: "retired_at g \<le> wcut w" for x
  proof (cases "e = wdigest w")
    case True
    then have s: "seen w r x" using C [OF x] by (simp add: cand_def)
    then have "retired_key g \<notin> wkeys w" using g old by (auto simp: seen_def rec_ok_def)
    with s g show ?thesis by (auto simp: seen_def)
  next
    case False
    have "retired_key g \<in> keys_of (wowner w) e" using C [OF x] False g by (auto simp: cand_def rec_keys_def)
    with other_key [OF x(1) _ False] C [OF x] show ?thesis by (auto simp: cand_def)
  qed
  show ?thesis
    unfolding sweep_retired_def
  proof (intro rg_if)
    show "rg A (delete_retired (wowner w) e (retired_key g)) (\<lambda>_. A)" if "retired_at g \<le> wcut w"
      by (rule rg_inv [where c = "valid_digest e \<and> retired_key g \<notin> wkeys w"])
        (use idle C that in \<open>auto simp: cand_def intro!: rg_delete_retired [OF A]\<close>)
    show "rg A (stamp_retired (wowner w) e (retired_key g) t) (\<lambda>_. A)"
      by (rule rg_inv [where c = "valid_digest e"]) (use C t in \<open>auto simp: cand_def intro!: rg_stamp [OF A]\<close>)
  qed (rule rg_return)
qed

lemma rg_sweep_retireds:
  assumes "stable A" and "\<And>x. Watch.inv w x \<Longrightarrow> A x \<Longrightarrow> cand e r x" and "wcut w < t"
  shows "rg A (sweep_retireds (wowner w) e r (wcut w) t) (\<lambda>_. A)"
  unfolding sweep_retireds_def by (rule rg_for, rule rg_sweep_retired) (use assms in auto)

text \<open>One candidate: a blob that is retired is not needed, and its key is deleted after.\<close>

lemma rg_retire_delete:
  assumes A: "stable A" and C: "\<And>x. Watch.inv w x \<Longrightarrow> A x \<Longrightarrow> cand e r x"
    and U: "\<And>x. Watch.inv w x \<Longrightarrow> A x \<Longrightarrow> e = wdigest w \<Longrightarrow> unneeded w {} r x"
    and g: "active r = Some g" "installed_at g \<le> wcut w"
  shows "rg A (bindE (retire_if_unpinned (wowner w) e r (wcut w)) (\<lambda>key. case key of None \<Rightarrow> returnE 0
       | Some k \<Rightarrow> bindE (delete_retired (wowner w) e k) (\<lambda>_. returnE 1))) (\<lambda>_. A)" (is "rg A ?m _")
proof (rule rg_inv [where c = "valid_digest e"])
  assume e: "valid_digest e"
  define K where "K = (\<lambda>key x. (\<forall>k. key = Some k \<longrightarrow> k \<notin> wkeys w \<and> cur_key w x \<noteq> Some k) \<and> A x)"
  have K: "stable (\<lambda>x. k \<notin> wkeys w \<and> cur_key w x \<noteq> Some k \<and> A x)" for k
    by (cases "k \<in> wkeys w") (auto intro!: stable_conj stable_const stable_idle A simp: stable_const)
  have "rg A (retire_if_unpinned (wowner w) e r (wcut w)) K"
  proof (cases "e = wdigest w")
    case True
    have nk: "physical_key g \<notin> wkeys w" if "rec_ok w r" using that g by (force simp: rec_ok_def)
    show ?thesis
      unfolding True K_def
    proof (rule rg_inv [where c = "rec_ok w r"])
      show "rg A (retire_if_unpinned (wowner w) (wdigest w) r (wcut w))
        (\<lambda>key x. (\<forall>k. key = Some k \<longrightarrow> k \<notin> wkeys w \<and> cur_key w x \<noteq> Some k) \<and> A x)" if "rec_ok w r"
        by (rule rg_pre [OF rg_retire_watched [OF A]]) (use nk that g U True in auto)
    qed (use C True in \<open>auto simp: cand_def seen_def\<close>)
  next
    case False
    show ?thesis
      unfolding K_def
    proof (rule rg_post [OF rg_retire_other [OF A e False]], intro conjI allI impI; elim conjE)
      fix v x k assume x: "Watch.inv w x" "A x" and k: "\<forall>k. v = Some k \<longrightarrow> k \<in> rec_keys r" "v = Some k"
      have "k \<in> keys_of (wowner w) e" using C [OF x] k False by (auto simp: cand_def)
      then show "k \<notin> wkeys w" "cur_key w x \<noteq> Some k" using other_key [OF x(1) e False] by blast+
    qed
  qed
  then show ?thesis
  proof (rule rg_bind, intro rg_case_option)
    show "rg (K key) (returnE 0) (\<lambda>_. A)" for key :: "string option" by (rule rg_return) (simp add: K_def)
    fix key :: "string option" and k assume key: "key = Some k"
    have "rg (\<lambda>x. k \<notin> wkeys w \<and> cur_key w x \<noteq> Some k \<and> A x) (delete_retired (wowner w) e k) (\<lambda>_. A)"
      by (rule rg_when, rule rg_post [OF rg_delete_retired [OF stable_conj [OF stable_idle A] e]]) auto
    then have "rg (K key) (delete_retired (wowner w) e k) (\<lambda>_. A)"
      by (rule rg_pre) (simp add: K_def key)
    then show "rg (K key) (bindE (delete_retired (wowner w) e k) (\<lambda>_. returnE 1)) (\<lambda>_. A)"
      by (rule rg_bind) (rule rg_return)
  qed
qed (use C in \<open>auto simp: cand_def\<close>)

end

context registry_client
begin

lemma rg_sweep_one:
  assumes A: "stable A" and C: "\<And>x. Watch.inv w x \<Longrightarrow> A x \<Longrightarrow> cand e r x"
    and U: "\<And>x. Watch.inv w x \<Longrightarrow> A x \<Longrightarrow> e = wdigest w \<Longrightarrow> show_digest e \<notin> set keep \<Longrightarrow> unneeded w {} r x"
    and t: "wcut w < t"
  shows "rg A (sweep_one datable (wowner w) keep old (wcut w) t (e, r, r)) (\<lambda>_. A)"
  unfolding sweep_one_def prod.case
proof (rule rg_bind [OF rg_sweep_retireds [OF A C t]], assumption+, intro rg_if rg_case_option)
  fix g assume g: "active r = Some g" and k: "show_digest e \<notin> set keep"
  show "rg A (bindE (installed_before datable g (wcut w)) (\<lambda>b. if b \<noteq> Some True then returnE 0
      else bindE (retire_if_unpinned (wowner w) e r (wcut w)) (\<lambda>key. case key of None \<Rightarrow> returnE 0
        | Some k \<Rightarrow> bindE (delete_retired (wowner w) e k) (\<lambda>_. returnE 1)))) (\<lambda>_. A)"
  proof (rule rg_bind [OF rg_installed_before [OF A]], rule rg_when, rule rg_if)
    fix b assume b: "b = Some True \<longrightarrow> installed_at g \<le> wcut w" "\<not> b \<noteq> Some True"
    show "rg A (bindE (retire_if_unpinned (wowner w) e r (wcut w)) (\<lambda>key. case key of None \<Rightarrow> returnE 0
        | Some k \<Rightarrow> bindE (delete_retired (wowner w) e k) (\<lambda>_. returnE 1))) (\<lambda>_. A)"
      by (rule rg_retire_delete [OF A C _ g]) (use U k b in auto)
  qed (rule rg_return)
qed (rule rg_return, assumption)+

lemma rg_sweep_loop:
  assumes A: "stable A" and t: "wcut w < t"
    and C: "\<And>x e r v. Watch.inv w x \<Longrightarrow> A x \<Longrightarrow> (e, r, v) \<in> set cs \<Longrightarrow> v = r \<and> cand e r x
       \<and> (e = wdigest w \<longrightarrow> show_digest e \<notin> set keep \<longrightarrow> unneeded w {} r x)"
  shows "rg A (sweep_loop datable (wowner w) keep old (wcut w) t cs n) (\<lambda>_. A)"
  using C
proof (induction cs arbitrary: n)
  case (Cons c cs)
  obtain e r v where c: "c = (e, r, v)" by (cases c)
  have one: "rg A (sweep_one datable (wowner w) keep old (wcut w) t c) (\<lambda>_. A)"
    by (rule rg_inv [where c = "v = r"])
      (use Cons.prems [of _ e r v] c in \<open>auto intro!: rg_sweep_one [OF A _ _ t]\<close>)
  have "rg A (sweep_loop datable (wowner w) keep old (wcut w) t cs k) (\<lambda>_. A)" for k
    by (rule Cons.IH, rule Cons.prems) (assumption, assumption, simp)
  then show ?case
    unfolding sweep_loop.simps by (rule rg_bind [OF one])
qed (simp add: rg_return [unfolded returnE_def] returnE_def)

lemma rg_old_candidates: "stable A \<Longrightarrow> rg A (old_candidates datable (wcut w) cs) (\<lambda>_. A)"
proof (induction cs)
  case (Cons c cs)
  obtain e r v where c: "c = (e, r, v)" by (cases c)
  show ?case
    unfolding c old_candidates.simps
  proof (intro rg_case_option rg_if)
    show "rg A (bindE (installed_before datable g (wcut w)) (\<lambda>b. bindE (old_candidates datable (wcut w) cs)
        (\<lambda>out. returnE (if b = Some True then show_digest e # out else out)))) (\<lambda>_. A)" for g
      by (rule rg_bind [OF rg_post [OF rg_installed_before, where B' = "\<lambda>_. A"]], rule Cons.prems, simp,
          rule rg_bind [OF Cons.IH [OF Cons.prems]], rule rg_return)
  qed (use Cons in simp_all)
qed (simp only: old_candidates.simps rg_return)

lemma rg_adopt: "stable A \<Longrightarrow> rg A (adopt_loop (wowner w) locs known ad) (\<lambda>_. A)"
proof (induction locs arbitrary: known ad)
  case (Cons loc locs)
  show ?case
    unfolding adopt_loop.simps
  proof (intro rg_case_option rg_if)
    fix e assume "Option.bind (digest_from_path loc) parse_digest = Some e"
    then have "valid_digest e" by (auto simp: bind_eq_Some_conv parse_digest_Some)
    then show "rg A (bindE (bs_resolve (wowner w) e) (\<lambda>_. adopt_loop (wowner w) locs (show_digest e # known) True)) (\<lambda>_. A)"
      by (rule rg_bind [OF rg_resolve [OF Cons.prems]]) (rule Cons.IH [OF Cons.prems])
  qed (rule Cons.IH [OF Cons.prems])+
qed (simp only: adopt_loop.simps rg_return)

lemma rg_sweep_candidates:
  assumes nd: "wneeds w = needs_digest fs (wdigest w)" and A: "stable A" and t: "wcut w < t"
  shows "rg (\<lambda>x. cand_ok w cs x \<and> A x) (sweep_candidates fs datable (wowner w) (wcut w) t cs) (\<lambda>_. A)"
proof -
  let ?A = "\<lambda>x. cand_ok w cs x \<and> A x"
  let ?R = "{r. \<exists>v. (wdigest w, r, v) \<in> set cs}"
  have st: "stable ?A" by (intro stable_conj stable_cand A)
  have cand: "v = r \<and> cand e r x" if "?A x" "(e, r, v) \<in> set cs" for x e r v
    using that cand_ok_mem by blast
  have used: "used x r" if "?A x" "r \<in> ?R" for x r
  proof -
    from that(2) obtain v where "(wdigest w, r, v) \<in> set cs" by blast
    then show ?thesis using cand [OF that(1)] by (fastforce simp: cand_def seen_def)
  qed
  have retireds: "rg ?A (forE cs (\<lambda>(e, r, v). sweep_retireds (wowner w) e r (wcut w) t)) (\<lambda>_. ?A)"
  proof (rule rg_for)
    fix c assume c: "c \<in> set cs"
    obtain e r v where erv: "c = (e, r, v)" by (cases c)
    have "rg ?A (sweep_retireds (wowner w) e r (wcut w) t) (\<lambda>_. ?A)"
      by (rule rg_sweep_retireds [OF st _ t]) (use cand [of _ e r v] c erv in blast)
    then show "rg ?A (case c of (e, r, v) \<Rightarrow> sweep_retireds (wowner w) e r (wcut w) t) (\<lambda>_. ?A)"
      by (simp add: erv)
  qed
  have loop: "rg (\<lambda>x. (show_digest (wdigest w) \<notin> set keep \<longrightarrow> (\<forall>r\<in>?R. unneeded w {} r x)) \<and> ?A x)
      (sweep_loop datable (wowner w) keep old (wcut w) t cs 0) (\<lambda>_. A)" for keep old
  proof (rule rg_post [OF rg_sweep_loop [OF _ t]])
    show "stable (\<lambda>x. (show_digest (wdigest w) \<notin> set keep \<longrightarrow> (\<forall>r\<in>?R. unneeded w {} r x)) \<and> ?A x)"
      by (intro stable_conj [OF _ st] stable_imp stable_unneededs)
  qed (use cand in auto)
  show ?thesis
    unfolding sweep_candidates_def
  proof (rule rg_bind [OF rg_old_candidates [OF st]], intro rg_if)
    show "rg ?A (bindE (forE cs (\<lambda>(e, r, v). sweep_retireds (wowner w) e r (wcut w) t)) (\<lambda>_. returnE 0)) (\<lambda>_. A)"
      by (rule rg_bind [OF retireds], rule rg_return) simp
    show "rg ?A (bindE (referenced fs (wowner w)) (\<lambda>keep. sweep_loop datable (wowner w) keep old (wcut w) t cs 0)) (\<lambda>_. A)" for old
      by (rule rg_bind [OF rg_referenced [OF nd st used] loop])
  qed
qed

end

context registry_client
begin

lemma rg_sweep_owner:
  assumes nd: "wneeds w = needs_digest fs (wdigest w)"
  shows "rg (\<lambda>x. wall_ms x = wcut w + grace) (sweep_owner fs datable (wowner w) grace) (\<lambda>_ _. True)"
proof -
  have now: "rg (\<lambda>x. wall_ms x = wcut w + grace) now_millis (\<lambda>t x. t = wcut w + grace \<and> True)"
    unfolding now_millis_def by (auto simp: rg_def triple_def getE_def)
  have again: "rg (\<lambda>x. cand_ok w cs x \<and> True) (if ad then bs_candidates (wowner w) else returnE cs)
      (\<lambda>cs x. cand_ok w cs x \<and> True)" for ad cs
    by (rule rg_if, rule rg_pre [OF rg_candidates [OF stable_True]]) (auto intro: rg_return)
  have st: "stable (\<lambda>x. cand_ok w cs x \<and> True)" for cs by (intro stable_conj stable_cand stable_True)
  show ?thesis
    unfolding sweep_owner_def Let_def
  proof (rule rg_bind [OF now], rule rg_when)
    fix t0 assume t0: "t0 = wcut w + grace"
    show "rg (\<lambda>_. True) (bindE now_millis (\<lambda>t. bindE (bs_candidates (wowner w)) (\<lambda>cs.
        bindE (os_get (\<lambda>x. listed (''blobs/'' @ wowner w) (objects x))) (\<lambda>legacy.
        bindE (adopt_loop (wowner w) legacy (map (\<lambda>(d, _). show_digest d) cs) False) (\<lambda>adopted.
        bindE (if adopted then bs_candidates (wowner w) else returnE cs) (\<lambda>cs.
        sweep_candidates fs datable (wowner w) (t0 - grace) t cs)))))) (\<lambda>_ _. True)"
      unfolding t0 add_diff_cancel_right'
      by (rule rg_bind [OF rg_now], rule rg_when, rule rg_bind [OF rg_candidates [OF stable_True]],
          rule rg_bind [OF rg_get [OF st, where B = "\<lambda>_ x. cand_ok w _ x \<and> True"]], assumption,
          rule rg_bind [OF rg_adopt [OF st]], rule rg_bind [OF again],
          rule rg_sweep_candidates [OF nd stable_True])
  qed
qed

end

interpretation sweeper: registry_client w "honours w UNIV (wkeys w)" "honours w {} {}" for w
proof unfold_locales
  fix x y
  show "inv w y" if "honours w UNIV (wkeys w) x y" using that by (rule honours_inv)
  show "inv w y" if "honours w {} {} x y" using that by (rule honours_inv)
  show "honours w UNIV (wkeys w) x y \<and> honours w {} {} x y" if "honours w {} {} x y"
    using that honours_mono by blast
qed

section \<open>A sweep takes no blob that is published\<close>

text \<open>
  C8. The sweep of an owner's blobs, run in any interleaving with clients that keep to the
  protocol (uploads, pushes whose pins are younger than the grace period, other sweeps) and with
  any call to the store failing: a blob that a manifest of the owner needs is readable at its end,
  and every single move of the sweep keeps to the protocol too, so that it never deletes the key a
  record names and never retires a blob that is pinned or published meanwhile.
\<close>

theorem sweep_keeps_published:
  assumes "\<And>i x. inv w x \<Longrightarrow> honours w UNIV (wkeys w) x (cothers s i x)"
    and "inv w (cstore s)" and "ctrace s = []"
    and "wneeds w = needs_digest from_slice (wdigest w)" and "wcut w = wall_ms (cstore s) - grace"
    and "sweep_owner from_slice datable (wowner w) grace s = (res, t)"
  shows "(needed w (cstore t) \<longrightarrow> readable w (cstore t)) \<and> (\<forall>(x, y)\<in>set (ctrace t). honours w {} {} x y)"
proof -
  have s: "sweeper.good w s" using assms(1-3) by (simp add: sweeper.good_def)
  have "sweeper.good w t"
    by (rule sweeper.rgD(1) [OF sweeper.rg_sweep_owner [OF assms(4)] s _ assms(6)]) (use assms(5) in simp)
  then show ?thesis using inv_readable by (auto simp: sweeper.good_def)
qed

text \<open>Two blobs of before the grace period; one manifest names the first.\<close>

definition sample_digest :: "char \<Rightarrow> digest" where
  "sample_digest c = \<lparr>algo = ''sha256'', hex = replicate 64 c\<rparr>"

definition sample_json :: "bytes \<Rightarrow> json option" where
  "sample_json b =
     (if b = ''m'' then Some (JObj [(''config'', JObj [(''digest'', JStr (show_digest (sample_digest (CHR ''a''))))])]) else None)"

definition sample_key :: "char \<Rightarrow> string" where
  "sample_key c = generation_path ''acme'' (sample_digest c) ''01''"

definition sample_record :: "nat \<Rightarrow> char \<Rightarrow> blob_record" where
  "sample_record n c = \<lparr>nonce_of = nonce n,
     active = Some \<lparr>physical_key = sample_key c, pins = [], installed_at = 10\<rparr>, retired = []\<rparr>"

definition sample_manifest :: string where
  "sample_manifest = manifest_path ''acme'' ''web'' (sample_digest (CHR ''c''))"

definition sample_bucket :: bucket where
  "sample_bucket = \<lparr>wall_ms = 90, rng = 2,
     states = [(state_path ''acme'' (sample_digest (CHR ''a'')), sample_record 0 (CHR ''a'')),
               (state_path ''acme'' (sample_digest (CHR ''b'')), sample_record 1 (CHR ''b''))],
     objects = [(sample_key (CHR ''a''), \<lparr>odata = ''x'', modified = 10\<rparr>),
                (sample_key (CHR ''b''), \<lparr>odata = ''y'', modified = 10\<rparr>),
                (sample_manifest, \<lparr>odata = ''m'', modified = 20\<rparr>)]\<rparr>"

definition later :: "bucket \<Rightarrow> bucket" where
  "later x = x\<lparr>wall_ms := wall_ms x + 1\<rparr>"

definition sample_client :: registry where
  "sample_client = \<lparr>clock = 0, faults = (\<lambda>_. None), landed = (\<lambda>_. False), cstore = sample_bucket,
     cothers = (\<lambda>_. later), ctrace = []\<rparr>"

definition sample_watch :: watch where
  "sample_watch = \<lparr>wowner = ''acme'', wdigest = sample_digest (CHR ''a''), wcut = 50,
     wkeys = {generation_path ''acme'' (sample_digest (CHR ''a'')) ''02''},
     wneeds = needs_digest sample_json (sample_digest (CHR ''a''))\<rparr>"

definition sample_sweep :: "(error + nat) \<times> registry" where
  "sample_sweep = sweep_owner sample_json (\<lambda>_. True) ''acme'' 40 sample_client"

lemma sample_run:
  "fst sample_sweep = Inr 1
   \<and> map_of (objects (cstore (snd sample_sweep))) sample_manifest = Some \<lparr>odata = ''m'', modified = 20\<rparr>"
  by code_simp

lemma honours_later: "inv w x \<Longrightarrow> honours w F N x (later x)"
  by (auto simp: honours_def inv_def later_def wstate_def cur_key_def retired_keys_def needs_at_def needed_def readable_def
      there_def pinned_by_def keys_ok_def used_def)

lemma sample_digest_valid: "valid_digest (sample_digest (CHR ''a''))" "valid_digest (sample_digest (CHR ''b''))"
    "valid_digest (sample_digest (CHR ''c''))"
  by code_simp+

lemma sample_digest_inj [simp]: "sample_digest c = sample_digest c' \<longleftrightarrow> c = c'"
  by (auto simp: sample_digest_def)

lemma sample_state: "valid_digest e \<Longrightarrow> map_of (states sample_bucket) (state_path ''acme'' e) =
    (if e = sample_digest (CHR ''a'') then Some (sample_record 0 (CHR ''a''))
     else if e = sample_digest (CHR ''b'') then Some (sample_record 1 (CHR ''b'')) else None)"
  by (simp add: sample_bucket_def state_path_inj sample_digest_valid)

lemma sample_simps: "cstore sample_client = sample_bucket" "cothers sample_client i = later" "ctrace sample_client = []"
    "wowner sample_watch = ''acme''" "wdigest sample_watch = sample_digest (CHR ''a'')" "wcut sample_watch = 50"
    "wneeds sample_watch = needs_digest sample_json (sample_digest (CHR ''a''))" "wall_ms sample_bucket = 90"
  by (simp_all add: sample_client_def sample_watch_def sample_bucket_def)

lemma sample_record_keys: "rec_keys (sample_record n c) = {sample_key c}"
  by (simp add: rec_keys_def sample_record_def)

lemma sample_there: "there sample_bucket (sample_key (CHR ''a''))"
    "\<not> there sample_bucket (manifest_path ''acme'' n (sample_digest (CHR ''a'')))"
proof -
  show "there sample_bucket (sample_key (CHR ''a''))" by (simp add: there_def sample_bucket_def)
  have "manifest_path ''acme'' n (sample_digest (CHR ''a'')) \<noteq> sample_manifest"
    using manifest_path_inj [OF sample_digest_valid(1,3)] by (auto simp: sample_manifest_def)
  then show "\<not> there sample_bucket (manifest_path ''acme'' n (sample_digest (CHR ''a'')))"
    by (simp add: there_def sample_bucket_def sample_key_def generation_path_def manifest_path_def manifest_prefix_def)
qed

lemma sample_inv: "inv sample_watch sample_bucket"
proof -
  have st: "wstate sample_watch sample_bucket = Some (sample_record 0 (CHR ''a''))"
    by (simp add: wstate_def wpath_def sample_watch_def sample_state sample_digest_valid)
  then have cur: "cur_key sample_watch sample_bucket = Some (sample_key (CHR ''a''))"
    by (simp add: cur_key_def sample_record_def)
  then have "readable sample_watch sample_bucket" using sample_there(1) by (simp add: readable_def)
  moreover have "keys_ok sample_watch sample_bucket"
    by (auto simp: keys_ok_def sample_watch_def sample_state sample_record_keys keys_of_def sample_key_def split: if_splits)
  moreover have "used sample_bucket (sample_record 0 (CHR ''a''))"
    by (auto simp: used_def sample_record_def sample_bucket_def)
  moreover have "watch_ok sample_watch" by (simp add: watch_ok_def sample_watch_def sample_digest_valid)
  ultimately show ?thesis
    using st cur sample_there
    by (simp add: inv_def)
      (simp add: sample_watch_def sample_bucket_def rec_ok_def sample_record_def sample_key_def generation_path_def)
qed

theorem sweep_keeps_published_witness:
  "fst sample_sweep = Inr 1 \<and> readable sample_watch (cstore (snd sample_sweep))"
proof -
  let ?t = "cstore (snd sample_sweep)"
  have "(needed sample_watch ?t \<longrightarrow> readable sample_watch ?t)
      \<and> (\<forall>(x, y)\<in>set (ctrace (snd sample_sweep)). honours sample_watch {} {} x y)"
    by (rule sweep_keeps_published [where s = sample_client and from_slice = sample_json and grace = 40
            and datable = "\<lambda>_. True" and res = "fst sample_sweep"])
      (simp_all add: sample_simps sample_inv honours_later sample_sweep_def)
  moreover have "needs_at sample_watch ?t sample_manifest"
    using sample_run
    by (simp add: needs_at_def sample_watch_def needs_digest_def sample_json_def sample_manifest_def
        manifest_path_def manifest_prefix_def)
  ultimately show ?thesis using sample_run by (auto simp: needed_def)
qed

end
