(* ===== verification/Publish.thy ===== *)
theory Publish
  imports Sweep
begin

text \<open>
  The push of a manifest (\<open>pin_probe_write\<close> of \<open>crates/registry/src/manifests.rs\<close>) and the
  installation of an uploaded blob, as clients among clients: what \<open>Sweep\<close> relies on of the others
  is what these two do. The locale \<open>publisher\<close> is a client that owns one pin, which only it drops.
\<close>

section \<open>A push keeps to the protocol\<close>

lemma pin_is_live_publication:
  assumes "- int i64_bound \<le> t" "t < int i64_bound"
  shows "pin_is_live (publication o1 n d x t) cutoff \<longleftrightarrow> cutoff \<le> t"
proof -
  have no: "CHR ''@'' \<notin> set (rev (show_int t))" using set_show_int [of t] by auto
  have "rsplit_once (CHR ''@'') (publication o1 n d x t) =
      Some (''manifest/'' @ o1 @ slash # n @ slash # show_digest d @ ''#'' @ x, show_int t)"
    using split_once_append [OF no] by (simp add: rsplit_once_def publication_def)
  with parse_show_int [of t] assms show ?thesis by (simp add: pin_is_live_def)
qed

lemma manifest_digests_mem:
  assumes "manifest_digests fs b = Inr ds" "needs_digest fs d b" "valid_digest d"
  shows "d \<in> set ds"
proof -
  from assms(1,2) obtain v where v: "fs b = Some v" "ds = List.map_filter parse_digest (remdups (collect (prune v)))"
    "show_digest d \<in> set (collect (prune v))"
    by (auto simp: manifest_digests_def needs_digest_def Let_def split: option.splits if_splits)
  moreover have "parse_digest (show_digest d) = Some d" using assms(3) by (simp add: parse_digest_Some)
  ultimately show ?thesis by (force simp: List.map_filter_def image_iff)
qed

lemma manifest_digests_valid:
  assumes "manifest_digests fs b = Inr ds" "e \<in> set ds"
  shows "valid_digest e"
proof -
  from assms obtain v where "e \<in> set (List.map_filter parse_digest (remdups (collect (prune v))))"
    by (auto simp: manifest_digests_def Let_def split: option.splits if_splits)
  then obtain s where "parse_digest s = Some e" by (auto simp: List.map_filter_def)
  then show ?thesis by (simp add: parse_digest_Some)
qed

lemma first_error_Cons: "first_error (r # rs) = None \<longleftrightarrow> (\<exists>v. r = Inr v) \<and> first_error rs = None"
  by (cases r) (auto simp: first_error_def List.map_filter_simps split: list.splits)

context interference
begin

text \<open>Calls one after the other, each with its result as a value: what each says holds if none failed.\<close>

lemma rg_map_try:
  assumes "\<And>b A. b \<in> set bs \<Longrightarrow> stable A \<Longrightarrow> rg A (f b) (\<lambda>v x. Q b v x \<and> A x)"
    and "\<And>b v. stable (Q b v)" and "stable A"
  shows "rg A (mapE bs (\<lambda>b. tryE (f b))) (\<lambda>rs x. first_error rs = None \<longrightarrow>
     length rs = length bs \<and> (\<forall>(b, r)\<in>set (zip bs rs). \<exists>v. r = Inr v \<and> Q b v x) \<and> A x)"
  using assms
proof (induction bs arbitrary: A)
  case Nil
  show ?case by (simp only: mapE.simps) (rule rg_return, simp)
next
  case (Cons b bs)
  let ?B = "\<lambda>r x. \<forall>v. r = Inr v \<longrightarrow> Q b v x \<and> A x"
  have one: "rg A (tryE (f b)) ?B"
    by (rule rg_try [OF Cons.prems(1)]) (use Cons.prems(3) in auto)
  have st: "stable (?B r)" for r
    by (intro stable_all stable_imp stable_conj Cons.prems(2,3))
  have rest1: "rg (?B r) (mapE bs (\<lambda>b. tryE (f b))) (\<lambda>rs x. first_error rs = None \<longrightarrow>
     length rs = length bs \<and> (\<forall>(b, r)\<in>set (zip bs rs). \<exists>v. r = Inr v \<and> Q b v x) \<and> ?B r x)" for r
    by (rule Cons.IH [OF _ Cons.prems(2) st]) (use Cons.prems(1) in auto)
  show ?case
    unfolding mapE.simps
    by (rule rg_bind [OF one], rule rg_bind [OF rest1], rule rg_return) (auto simp: first_error_Cons)
qed

end

locale publisher = registry_client w rely guar for w rely guar +
  fixes mine :: string
  assumes own_pin: "pin_is_live mine (wcut w) \<Longrightarrow> rely x y \<Longrightarrow> pinned_by w mine x \<Longrightarrow> pinned_by w mine y"
    and may_drop: "honours w {mine} {} x y \<Longrightarrow> guar x y"
begin

lemma rg_pin:
  assumes A: "stable A" and e: "valid_digest e"
  shows "rg A (bs_pin (wowner w) e mine) (\<lambda>b x. (e = wdigest w \<longrightarrow> b \<longrightarrow> pinned_by w mine x) \<and> A x)"
  unfolding bs_pin_def bs_pin_once_def
proof (rule rg_attempts, rule rg_bind [OF rg_load [OF A e]], rule rg_when)
  let ?B = "\<lambda>r x. case r of None \<Rightarrow> A x | Some b \<Rightarrow> (e = wdigest w \<longrightarrow> b \<longrightarrow> pinned_by w mine x) \<and> A x"
  have no: "rg A (returnE (Some False)) ?B" by (rule rg_return) simp
  fix v assume v: "\<forall>l. v = Some l \<longrightarrow> lversion l = lrecord l"
  have up: "rg A (bindE (bs_update (state_path (wowner w) e) (r\<lparr>active := Some g'\<rparr>) r) (answer_if True)) ?B"
    if g: "active r = Some g" "g' = (if mine \<in> set (pins g) then g else g\<lparr>pins := pins g @ [mine]\<rparr>)" for r g g'
  proof (rule rg_bind)
    show "rg A (bs_update (state_path (wowner w) e) (r\<lparr>active := Some g'\<rparr>) r)
      (\<lambda>won x. (e = wdigest w \<longrightarrow> won \<longrightarrow> pinned_by w mine x) \<and> A x)"
      unfolding bs_update_eq
    proof (rule rg_cas [OF A])
      fix x assume x: "Watch.inv w x" "A x" "map_of (states x) (state_path (wowner w) e) = Some r"
      let ?y = "write_state (state_path (wowner w) e) (r\<lparr>active := Some g'\<rparr>) x"
      have key: "physical_key g' = physical_key g" "installed_at g' = installed_at g" "set (pins g) \<subseteq> set (pins g')" "mine \<in> set (pins g')"
        using g(2) by auto
      have ob: "honours w {} {} x ?y"
      proof (cases "e = wdigest w")
        case True
        then have st: "wstate w x = Some r" using x(3) by (simp add: wstate_def wpath_def)
        have "rec_keys r \<subseteq> keys_of (wowner w) (wdigest w)" "rec_ok w r" "there x (physical_key g)"
          using x(1) st g(1) e True by (auto simp: inv_def keys_ok_def wstate_def wpath_def cur_key_def)
        then have "honours w {} {} x (write_state (wpath w) (r\<lparr>active := Some g'\<rparr>) x)"
          using g(1) key st
          by (intro honours_write [OF x(1)])
            (auto simp: rec_keys_def rec_ok_def cur_key_def retired_keys_def pinned_by_def)
        then show ?thesis using True by (simp add: wpath_def)
      next
        case False
        have "rec_keys (r\<lparr>active := Some g'\<rparr>) = rec_keys r" using g(1) key by (simp add: rec_keys_def)
        then show ?thesis
          using x(3) e inv_keys_ok [OF x(1)] by (intro honours_other [OF x(1) e False]) (auto simp: keys_ok_def)
      qed
      have "pinned_by w mine ?y" if "e = wdigest w"
        using that key(4) by (simp add: pinned_by_def wstate_def wpath_def)
      then show "guar x ?y \<and> (e = wdigest w \<longrightarrow> True \<longrightarrow> pinned_by w mine ?y) \<and> A ?y"
        using calm [OF x(1) ob] stableD [OF A x(1,2)] by blast
    qed simp
    show "rg (\<lambda>x. (e = wdigest w \<longrightarrow> won \<longrightarrow> pinned_by w mine x) \<and> A x) (answer_if True won) ?B" for won
      unfolding answer_if_def by (rule rg_return) auto
  qed
  show "rg A (case v of None \<Rightarrow> returnE (Some False) | Some l \<Rightarrow>
      (case active (lrecord l) of None \<Rightarrow> returnE (Some False)
       | Some g \<Rightarrow> let g' = (if mine \<in> set (pins g) then g else g\<lparr>pins := pins g @ [mine]\<rparr>)
           in bindE (bs_update (state_path (wowner w) e) ((lrecord l)\<lparr>active := Some g'\<rparr>) (lversion l)) (answer_if True))) ?B"
  proof (intro rg_case_option no)
    fix l g assume l: "v = Some l" and g: "active (lrecord l) = Some g"
    show "rg A (let g' = (if mine \<in> set (pins g) then g else g\<lparr>pins := pins g @ [mine]\<rparr>)
        in bindE (bs_update (state_path (wowner w) e) ((lrecord l)\<lparr>active := Some g'\<rparr>) (lversion l)) (answer_if True)) ?B"
      using up [OF g refl] v l by (simp add: Let_def)
  qed
qed

end

context publisher
begin

lemma stable_own: "pin_is_live mine (wcut w) \<Longrightarrow> stable (pinned_by w mine)"
  by (rule stableI) (rule own_pin)

text \<open>Releasing drops the own pin and no other.\<close>

lemma rg_unpin:
  assumes e: "valid_digest e"
  shows "rg (\<lambda>_. True) (bs_unpin (wowner w) e mine) (\<lambda>_ _. True)"
  unfolding bs_unpin_def bs_unpin_once_def
proof (rule rg_attempts_keep, rule rg_bind [OF rg_load [OF stable_True e]], rule rg_when, intro rg_case_option rg_return)
  fix v l g assume v: "\<forall>l. v = Some l \<longrightarrow> lversion l = lrecord l" "v = Some l" and g: "active (lrecord l) = Some g"
  define r where "r = lrecord l"
  let ?g = "g\<lparr>pins := filter (\<lambda>q. q \<noteq> mine) (pins g)\<rparr>"
  have "rg (\<lambda>_. True) (bs_update (state_path (wowner w) e) (r\<lparr>active := Some ?g\<rparr>) r) (\<lambda>_ _. True)"
    unfolding bs_update_eq
  proof (rule rg_cas [OF stable_True])
    fix x assume x: "Watch.inv w x" "map_of (states x) (state_path (wowner w) e) = Some r"
    have "honours w {mine} {} x (write_state (state_path (wowner w) e) (r\<lparr>active := Some ?g\<rparr>) x)"
    proof (cases "e = wdigest w")
      case True
      then have st: "wstate w x = Some r" using x(2) by (simp add: wstate_def wpath_def)
      have "rec_keys r \<subseteq> keys_of (wowner w) (wdigest w)" "rec_ok w r" "there x (physical_key g)"
        using x(1) st g e True by (auto simp: inv_def keys_ok_def wstate_def wpath_def cur_key_def r_def)
      then have "honours w {mine} {} x (write_state (wpath w) (r\<lparr>active := Some ?g\<rparr>) x)"
        using g st by (intro honours_write [OF x(1)])
          (auto simp: rec_keys_def rec_ok_def cur_key_def retired_keys_def pinned_by_def r_def)
      then show ?thesis using True by (simp add: wpath_def)
    next
      case False
      have "rec_keys (r\<lparr>active := Some ?g\<rparr>) = rec_keys r" using g by (simp add: rec_keys_def r_def)
      then have "honours w {} {} x (write_state (state_path (wowner w) e) (r\<lparr>active := Some ?g\<rparr>) x)"
        using x(2) e inv_keys_ok [OF x(1)] by (intro honours_other [OF x(1) e False]) (auto simp: keys_ok_def)
      then show ?thesis by (rule honours_mono) auto
    qed
    then show "guar x (write_state (state_path (wowner w) e) (r\<lparr>active := Some ?g\<rparr>) x) \<and> True"
      using may_drop by blast
  qed simp
  then show "rg (\<lambda>_. True) (bindE (bs_update (state_path (wowner w) e) ((lrecord l)\<lparr>active := Some ?g\<rparr>) (lversion l)) (answer_if ())) (\<lambda>_ _. True)"
    using v rg_bind [OF _ rg_answer] by (simp add: r_def)
qed simp_all

lemma rg_release:
  assumes "\<And>e. e \<in> set es \<Longrightarrow> valid_digest e"
  shows "rg A (release_pins (wowner w) es mine) (\<lambda>_ _. True)"
proof -
  have "rg (\<lambda>_. True) (ignoreE (bs_unpin (wowner w) e mine)) (\<lambda>_ _. True)" if "e \<in> set es" for e
  proof (rule rgI)
    fix s v t assume "good s" "ignoreE (bs_unpin (wowner w) e mine) s = (Inr v, t)"
    then show "good t \<and> True"
      using rgD(1) [OF rg_unpin [OF assms [OF that]], of s _ t] by (cases "bs_unpin (wowner w) e mine s") (auto simp: ignoreE_def)
  qed (simp add: ignoreE_def)
  then show ?thesis
    unfolding release_pins_def by (intro rg_pre [OF rg_for]) auto
qed

text \<open>A digest that was not pinned is accepted only as a manifest, and the watched one is none.\<close>

lemma rg_probe:
  assumes A: "stable A" and e: "valid_digest e"
  shows "rg A (probe (wowner w) n es e) (\<lambda>b x. (e = wdigest w \<and> wdigest w \<notin> set es \<longrightarrow> \<not> b) \<and> A x)"
proof -
  have head: "rg A (bindE (os_head p) (\<lambda>m. returnE (m \<noteq> None))) (\<lambda>_. A)" for p
    by (rule rg_bind [OF rg_head [OF A]]) (rule rg_return)
  have res: "rg A (bindE (bs_resolve (wowner w) e) (\<lambda>p. case p of None \<Rightarrow> returnE False
      | Some p \<Rightarrow> bindE (os_head p) (\<lambda>m. returnE (m \<noteq> None)))) (\<lambda>_. A)"
    by (rule rg_bind [OF rg_resolve [OF A e]], intro rg_case_option head rg_return)
  have absent: "rg A (bindE (os_head (manifest_path (wowner w) n e)) (\<lambda>m. returnE (m \<noteq> None)))
      (\<lambda>b x. (e = wdigest w \<longrightarrow> \<not> b) \<and> A x)"
    unfolding os_head_def
    by (rule rg_bind [OF rg_get [OF A, where B = "\<lambda>m x. (e = wdigest w \<longrightarrow> m = None) \<and> A x"]])
      (auto simp: inv_def there_def intro: rg_return)
  show ?thesis
    unfolding probe_def
  proof (rule rg_if)
    show "rg A (bindE (bs_resolve (wowner w) e) (\<lambda>p. case p of None \<Rightarrow> returnE False
        | Some p \<Rightarrow> bindE (os_head p) (\<lambda>m. returnE (m \<noteq> None))))
      (\<lambda>b x. (e = wdigest w \<and> wdigest w \<notin> set es \<longrightarrow> \<not> b) \<and> A x)" if "e \<in> set es"
      by (rule rg_post [OF res]) (use that in auto)
    show "rg A (bindE (os_head (manifest_path (wowner w) n e)) (\<lambda>m. returnE (m \<noteq> None)))
      (\<lambda>b x. (e = wdigest w \<and> wdigest w \<notin> set es \<longrightarrow> \<not> b) \<and> A x)"
      by (rule rg_post [OF absent]) auto
  qed
qed

lemma rg_put_manifest:
  assumes live: "pin_is_live mine (wcut w)" and d: "valid_digest d" "d \<noteq> wdigest w"
  shows "rg (\<lambda>x. wneeds w body \<longrightarrow> pinned_by w mine x) (tryE (put_object (manifest_path (wowner w) n d) body)) (\<lambda>_ _. True)"
proof (rule rg_try)
  have st: "stable (\<lambda>x. wneeds w body \<longrightarrow> pinned_by w mine x)"
    by (intro stable_imp stable_own [OF live])
  show "rg (\<lambda>x. wneeds w body \<longrightarrow> pinned_by w mine x) (put_object (manifest_path (wowner w) n d) body)
      (\<lambda>_ x. wneeds w body \<longrightarrow> pinned_by w mine x)"
    unfolding put_object_def
  proof (rule rg_set_calm [OF st])
    fix x assume x: "Watch.inv w x" "wneeds w body \<longrightarrow> pinned_by w mine x"
    show "honours w {} {} x (x\<lparr>objects := AList.update (manifest_path (wowner w) n d)
        \<lparr>odata = body, modified = wall_ms x\<rparr> (objects x)\<rparr>)"
    proof (rule honours_put [OF x(1)])
      have "valid_digest (wdigest w)" using x(1) by (simp add: inv_def watch_ok_def)
      then show "manifest_path (wowner w) n d \<noteq> manifest_path (wowner w) n' (wdigest w)" for n'
        using manifest_path_inj [OF d(1)] d(2) by metis
    qed (use x live in \<open>auto simp: live_def\<close>)
  qed
qed simp_all

end

context publisher
begin

lemma rg_publication:
  "rg (\<lambda>x. mine = publication o1 n d (nonce (rng x)) (wall_ms x)) (manifest_publication o1 n d) (\<lambda>p x. p = mine \<and> True)"
proof -
  have "rg (\<lambda>x. mine = publication o1 n d (nonce (rng x)) (wall_ms x)) draw_nonce
      (\<lambda>k x. mine = publication o1 n d k (wall_ms x))"
    unfolding draw_nonce_def by (rule rg_local) (use calm honours_draw in auto)
  moreover have "rg (\<lambda>x. mine = publication o1 n d k (wall_ms x)) now_millis (\<lambda>t x. publication o1 n d k t = mine \<and> True)" for k
    unfolding now_millis_def by (auto simp: rg_def triple_def getE_def)
  ultimately show ?thesis
    unfolding manifest_publication_def by (intro rg_bind rg_return) auto
qed

lemma rg_pin_probe_write:
  assumes live: "pin_is_live mine (wcut w)" and d: "valid_digest d" "d \<noteq> wdigest w"
    and ds: "\<And>e. e \<in> set ds \<Longrightarrow> valid_digest e" and nd: "wneeds w body \<Longrightarrow> wdigest w \<in> set ds"
  shows "rg (\<lambda>x. mine = publication (wowner w) n d (nonce (rng x)) (wall_ms x))
     (pin_probe_write (wowner w) n d ds body) (\<lambda>_ _. True)"
proof -
  have pins: "rg (\<lambda>_. True) (mapE ds (\<lambda>b. tryE (bs_pin (wowner w) b mine))) (\<lambda>rs x. first_error rs = None \<longrightarrow>
     length rs = length ds \<and> (\<forall>(b, r)\<in>set (zip ds rs). \<exists>v. r = Inr v
       \<and> (b = wdigest w \<longrightarrow> v \<longrightarrow> pinned_by w mine x)) \<and> True)"
    by (rule rg_map_try) (intro rg_pin ds stable_imp stable_own live stable_True | assumption)+
  have probes: "rg A (mapE ds (\<lambda>b. tryE (probe (wowner w) n es b))) (\<lambda>rs x. first_error rs = None \<longrightarrow>
     length rs = length ds \<and> (\<forall>(b, r)\<in>set (zip ds rs). \<exists>v. r = Inr v
       \<and> (b = wdigest w \<and> wdigest w \<notin> set es \<longrightarrow> \<not> v)) \<and> A x)" if "stable A" for A es
    by (rule rg_map_try) (intro rg_probe ds stable_const that | assumption)+
  have held: "wdigest w \<in> set es" if len: "length rs = length ds" "wdigest w \<in> set ds" and no: "Inr False \<notin> set rs"
    "\<forall>(b, r)\<in>set (zip ds rs). \<exists>v. r = Inr v \<and> (b = wdigest w \<and> wdigest w \<notin> set es \<longrightarrow> \<not> v)" for rs :: "(error + bool) list" and es
  proof -
    obtain r where r: "(wdigest w, r) \<in> set (zip ds rs)" using len by (metis in_set_impl_in_set_zip1)
    then have "r \<in> set rs" by (rule set_zip_rightD)
    with r no show ?thesis by fastforce
  qed
  show ?thesis
    unfolding pin_probe_write_def Let_def
  proof (rule rg_bind [OF rg_publication], rule rg_when, hypsubst, rule rg_bind [OF pins], rule rg_case_option)
    fix rs :: "(error + bool) list"
    define es where "es = map fst (filter (\<lambda>(b, r). r = Inr True) (zip ds rs))"
    have es: "valid_digest e" if "e \<in> set es" for e
      using that ds by (auto simp: es_def dest: set_zip_leftD)
    let ?P = "\<lambda>x. first_error rs = None \<longrightarrow> length rs = length ds \<and> (\<forall>(b, r)\<in>set (zip ds rs). \<exists>v. r = Inr v
       \<and> (b = wdigest w \<longrightarrow> v \<longrightarrow> pinned_by w mine x)) \<and> True"
    let ?A = "\<lambda>x. wdigest w \<in> set es \<longrightarrow> pinned_by w mine x"
    have release: "rg B (bindE (release_pins (wowner w) es mine) (\<lambda>_. returnE v)) (\<lambda>_ _. True)" for B and v :: "pin_failure + unit"
      by (rule rg_bind [OF rg_release [OF es]], assumption, rule rg_return) simp
    show "rg ?P (bindE (release_pins (wowner w) (map fst (filter (\<lambda>(b, r). r = Inr True) (zip ds rs))) mine)
        (\<lambda>_. returnE (Inl (PinErr e) :: pin_failure + unit))) (\<lambda>_ _. True)" for e
      unfolding es_def [symmetric] by (rule release)
    assume ok: "first_error rs = None"
    have A: "stable ?A" by (intro stable_imp stable_own live)
    have PA: "?A x" if "?P x" for x
      using that ok by (auto simp: es_def)
    show "rg ?P (bindE (mapE ds (\<lambda>b. tryE (probe (wowner w) n (map fst (filter (\<lambda>(b, r). r = Inr True) (zip ds rs))) b)))
      (\<lambda>present. case first_error present of
         Some e \<Rightarrow> bindE (release_pins (wowner w) (map fst (filter (\<lambda>(b, r). r = Inr True) (zip ds rs))) mine)
                     (\<lambda>_. returnE (Inl (ProbeErr (Message (err_text e)))))
       | None \<Rightarrow> if Inr False \<in> set present
           then bindE (release_pins (wowner w) (map fst (filter (\<lambda>(b, r). r = Inr True) (zip ds rs))) mine) (\<lambda>_. returnE (Inl BlobUnknown))
           else bindE (tryE (put_object (manifest_path (wowner w) n d) body)) (\<lambda>u.
                bindE (release_pins (wowner w) (map fst (filter (\<lambda>(b, r). r = Inr True) (zip ds rs))) mine) (\<lambda>_.
                returnE (case u of Inl e \<Rightarrow> Inl (WriteErr e) | Inr _ \<Rightarrow> Inr ()))))) (\<lambda>_ _. True)"
      unfolding es_def [symmetric]
    proof (rule rg_bind [OF rg_pre [OF probes [OF A]]], erule PA, intro rg_case_option rg_if release)
      fix present :: "(error + bool) list"
      assume none: "first_error present = None" and all: "Inr False \<notin> set present"
      have "wneeds w body \<longrightarrow> pinned_by w mine x" if "first_error present = None \<longrightarrow> length present = length ds
          \<and> (\<forall>(b, r)\<in>set (zip ds present). \<exists>v. r = Inr v \<and> (b = wdigest w \<and> wdigest w \<notin> set es \<longrightarrow> \<not> v)) \<and> ?A x" for x
        using that none held [OF _ nd all] by blast
      then show "rg (\<lambda>x. first_error present = None \<longrightarrow> length present = length ds
          \<and> (\<forall>(b, r)\<in>set (zip ds present). \<exists>v. r = Inr v \<and> (b = wdigest w \<and> wdigest w \<notin> set es \<longrightarrow> \<not> v)) \<and> ?A x)
        (bindE (tryE (put_object (manifest_path (wowner w) n d) body)) (\<lambda>u.
           bindE (release_pins (wowner w) es mine) (\<lambda>_.
           returnE (case u of Inl e \<Rightarrow> Inl (WriteErr e) | Inr _ \<Rightarrow> Inr ())))) (\<lambda>_ _. True)"
        by (intro rg_bind [OF rg_pre [OF rg_put_manifest [OF live d]] release])
    qed
  qed
qed

end

interpretation pusher: publisher w "honours w (UNIV - {m}) (wkeys w)" "honours w {m} {}" m for w m
proof unfold_locales
  fix x y
  show "inv w y" if "honours w (UNIV - {m}) (wkeys w) x y" using that by (rule honours_inv)
  show "inv w y" if "honours w {m} {} x y" using that by (rule honours_inv)
  show "honours w (UNIV - {m}) (wkeys w) x y \<and> honours w {m} {} x y" if "honours w {} {} x y"
    using that honours_mono by blast
  show "honours w UNIV (wkeys w) x y" if "honours w (UNIV - {m}) (wkeys w) x y"
    using that honours_mono by blast
  show "pinned_by w m y" if "pin_is_live m (wcut w)" "honours w (UNIV - {m}) (wkeys w) x y" "pinned_by w m x"
    using honours_pins [OF that(2) _ that(1,3)] by blast
qed

section \<open>Installing an uploaded blob\<close>

locale uploader = registry_client w rely guar for w rely guar +
  fixes fresh :: string
  assumes own_key: "rely x y \<Longrightarrow> honours w UNIV (wkeys w - {fresh}) x y"
    and may_install: "honours w {} {fresh} x y \<Longrightarrow> guar x y"
begin

definition waiting :: "bucket \<Rightarrow> bool" where
  "waiting x \<longleftrightarrow> fresh \<in> wkeys w \<and> there x fresh \<and> fresh \<notin> retired_keys w x \<and> cur_key w x \<noteq> Some fresh"

lemma stable_waiting: "stable waiting"
proof (rule stableI)
  fix x y assume x: "waiting x" and y: "rely x y"
  note ob = own_key [OF y]
  show "waiting y"
    using x honours_cur [OF ob] honours_ret [OF ob] honours_keys [OF ob] by (auto simp: waiting_def)
qed

lemma rg_put_record:
  assumes "\<And>x. inv w x \<Longrightarrow> waiting x \<Longrightarrow> c x \<Longrightarrow> honours w {} {fresh} x (f x)"
  shows "rg waiting (bindE (os_cas c f) (answer_if ())) (\<lambda>r x. case r of None \<Rightarrow> waiting x | Some _ \<Rightarrow> True)"
proof (rule rg_bind)
  show "rg waiting (os_cas c f) (\<lambda>won x. \<not> won \<longrightarrow> waiting x)"
    by (rule rg_cas [OF stable_waiting]) (use assms may_install in auto)
  show "rg (\<lambda>x. \<not> won \<longrightarrow> waiting x) (answer_if () won) (\<lambda>r x. case r of None \<Rightarrow> waiting x | Some _ \<Rightarrow> True)" for won
    unfolding answer_if_def by (rule rg_return) auto
qed

lemma honours_install:
  assumes x: "inv w x" "waiting x" and t: "wcut w < t"
    and pins: "\<And>p. pinned_by w p x \<Longrightarrow> p \<in> set ps"
    and ret: "retired_key ` set rs \<subseteq> retired_keys w x \<union> set_option (cur_key w x)"
    and keys: "retired_key ` set rs \<subseteq> keys_of (wowner w) (wdigest w)"
    and old: "\<And>g. g \<in> set rs \<Longrightarrow> retired_key g \<in> wkeys w \<Longrightarrow> wcut w < retired_at g"
  shows "honours w {} {fresh} x (write_state (wpath w)
     \<lparr>nonce_of = z, active = Some \<lparr>physical_key = fresh, pins = ps, installed_at = t\<rparr>, retired = rs\<rparr> x)"
proof (rule honours_write [OF x(1)])
  have f: "fresh \<notin> retired_key ` set rs" using x(2) ret by (auto simp: waiting_def)
  have "fresh \<in> keys_of (wowner w) (wdigest w)"
    using x by (auto simp: waiting_def inv_def watch_ok_def keys_of_def)
  with keys show "rec_keys \<lparr>nonce_of = z, active = Some \<lparr>physical_key = fresh, pins = ps, installed_at = t\<rparr>, retired = rs\<rparr>
      \<subseteq> keys_of (wowner w) (wdigest w)"
    by (auto simp: rec_keys_def)
  show "rec_ok w \<lparr>nonce_of = z, active = Some \<lparr>physical_key = fresh, pins = ps, installed_at = t\<rparr>, retired = rs\<rparr>"
    using f t old by (simp add: rec_ok_def)
qed (use x ret pins in \<open>auto simp: waiting_def\<close>)

lemma rg_install: "rg waiting (bs_install (wowner w) (wdigest w) fresh) (\<lambda>_ _. True)"
  unfolding bs_install_def
proof (rule rg_attempts, rule rg_inv [where c = "valid_digest (wdigest w)"])
  show "valid_digest (wdigest w)" if "inv w x" for x using that by (simp add: inv_def watch_ok_def)
  assume d: "valid_digest (wdigest w)"
  let ?B = "\<lambda>r x. case r of None \<Rightarrow> waiting x | Some _ \<Rightarrow> True"
  let ?p = "state_path (wowner w) (wdigest w)"
  have new: "rg waiting (bindE (bs_create ?p \<lparr>nonce_of = '''', active = Some \<lparr>physical_key = fresh, pins = [], installed_at = t\<rparr>,
      retired = []\<rparr>) (answer_if ())) ?B" if "wcut w < t" for t
    unfolding bs_create_eq
    by (rule rg_put_record, unfold wpath_def [symmetric], rule honours_install)
      (use that in \<open>auto simp: pinned_by_def wstate_def\<close>)
  have again: "rg waiting (bindE (bs_update ?p (r\<lparr>active := Some \<lparr>physical_key = fresh, pins = [], installed_at = t\<rparr>\<rparr>) r) (answer_if ())) ?B"
    if t: "wcut w < t" and r: "active r = None" for t r
    unfolding bs_update_eq
  proof (rule rg_put_record)
    fix x assume x: "inv w x" "waiting x" "map_of (states x) ?p = Some r"
    then have st: "wstate w x = Some r" by (simp add: wstate_def wpath_def)
    have "rec_ok w r" "rec_keys r \<subseteq> keys_of (wowner w) (wdigest w)"
      using x(1) st d by (auto simp: inv_def keys_ok_def wstate_def wpath_def)
    then have "honours w {} {fresh} x (write_state (wpath w) \<lparr>nonce_of = nonce_of r,
        active = Some \<lparr>physical_key = fresh, pins = [], installed_at = t\<rparr>, retired = retired r\<rparr> x)"
      using st r by (intro honours_install [OF x(1,2) t]) (auto simp: pinned_by_def retired_keys_def rec_keys_def rec_ok_def)
    then show "honours w {} {fresh} x (write_state ?p (r\<lparr>active := Some \<lparr>physical_key = fresh, pins = [], installed_at = t\<rparr>\<rparr>) x)"
      by (cases r) (simp add: wpath_def)
  qed
  have over: "rg waiting (bindE (bs_update ?p (r\<lparr>retired := retired r @ [\<lparr>retired_key = physical_key g, retired_at = t\<rparr>],
        active := Some \<lparr>physical_key = fresh, pins = pins g, installed_at = t\<rparr>\<rparr>) r) (answer_if ())) ?B"
    if t: "wcut w < t" and g: "active r = Some g" for t r g
    unfolding bs_update_eq
  proof (rule rg_put_record)
    fix x assume x: "inv w x" "waiting x" "map_of (states x) ?p = Some r"
    then have st: "wstate w x = Some r" by (simp add: wstate_def wpath_def)
    have "rec_ok w r" "rec_keys r \<subseteq> keys_of (wowner w) (wdigest w)"
      using x(1) st d by (auto simp: inv_def keys_ok_def wstate_def wpath_def)
    then have "honours w {} {fresh} x (write_state (wpath w) \<lparr>nonce_of = nonce_of r,
        active = Some \<lparr>physical_key = fresh, pins = pins g, installed_at = t\<rparr>,
        retired = retired r @ [\<lparr>retired_key = physical_key g, retired_at = t\<rparr>]\<rparr> x)"
      using st g t by (intro honours_install [OF x(1,2) t])
        (auto simp: pinned_by_def retired_keys_def cur_key_def rec_keys_def rec_ok_def)
    then show "honours w {} {fresh} x (write_state ?p (r\<lparr>retired := retired r @ [\<lparr>retired_key = physical_key g, retired_at = t\<rparr>],
        active := Some \<lparr>physical_key = fresh, pins = pins g, installed_at = t\<rparr>\<rparr>) x)"
      by (cases r) (simp add: wpath_def)
  qed
  have done1: "rg waiting (returnE (Some ())) ?B" by (rule rg_return) simp
  show "rg waiting (bs_install_once (wowner w) (wdigest w) fresh) ?B"
    unfolding bs_install_once_def
  proof (rule rg_bind [OF rg_load [OF stable_waiting d]], rule rg_when, rule rg_bind [OF rg_now], rule rg_when)
    fix v :: "loaded option" and t assume v: "\<forall>l. v = Some l \<longrightarrow> lversion l = lrecord l" and t: "wcut w < t"
    then show "rg waiting (case v of
       Some l \<Rightarrow>
         (case active (lrecord l) of
            Some old \<Rightarrow>
              if physical_key old = fresh then returnE (Some ())
              else bindE (bs_update ?p
                     ((lrecord l)\<lparr>retired := retired (lrecord l) @ [\<lparr>retired_key = physical_key old, retired_at = t\<rparr>],
                        active := Some \<lparr>physical_key = fresh, pins = pins old, installed_at = t\<rparr>\<rparr>) (lversion l))
                   (answer_if ())
          | None \<Rightarrow>
              bindE (bs_update ?p
                ((lrecord l)\<lparr>active := Some \<lparr>physical_key = fresh, pins = [], installed_at = t\<rparr>\<rparr>) (lversion l))
              (answer_if ()))
     | None \<Rightarrow>
         bindE (bs_create ?p
           \<lparr>nonce_of = '''', active = Some \<lparr>physical_key = fresh, pins = [], installed_at = t\<rparr>, retired = []\<rparr>)
         (answer_if ())) ?B"
      using new [OF t] again [OF t] over [OF t] done1 by (auto split: option.splits)
  qed
qed

end

interpretation upl: uploader w "honours w UNIV (wkeys w - {k})" "honours w {} {k}" k for w k
proof unfold_locales
  fix x y
  show "inv w y" if "honours w UNIV (wkeys w - {k}) x y" using that by (rule honours_inv)
  show "inv w y" if "honours w {} {k} x y" using that by (rule honours_inv)
  show "honours w UNIV (wkeys w - {k}) x y \<and> honours w {} {k} x y" if "honours w {} {} x y"
    using that honours_mono by blast
  show "honours w UNIV (wkeys w) x y" if "honours w UNIV (wkeys w - {k}) x y"
    using that honours_mono by blast
qed

section \<open>Pushes and uploads among the others\<close>

text \<open>
  C9. The push of a manifest, from its pins to their release, in any interleaving with clients that
  keep to the protocol and with any call failing: afterwards a blob that a manifest of the owner
  needs is readable, and every move of the push keeps to the protocol that the sweep relies on. In
  particular the manifest is put only while the push holds a live pin on each blob it names, and
  it drops no pin but its own.
\<close>

theorem push_keeps_published:
  assumes "\<And>i x. inv w x \<Longrightarrow> honours w (UNIV - {m}) (wkeys w) x (cothers s i x)"
    and "inv w (cstore s)" and "ctrace s = []"
    and "m = publication (wowner w) name1 d (nonce (rng (cstore s))) (wall_ms (cstore s))"
    and "wall_ms (cstore s) < int i64_bound"
    and "valid_digest d" and "d \<noteq> wdigest w"
    and "manifest_digests from_slice body = Inr ds" and "wneeds w = needs_digest from_slice (wdigest w)"
    and "pin_probe_write (wowner w) name1 d ds body s = (res, t)"
  shows "(needed w (cstore t) \<longrightarrow> readable w (cstore t)) \<and> (\<forall>(x, y)\<in>set (ctrace t). honours w {m} {} x y)"
proof -
  have s: "pusher.good w m s" using assms(1-3) by (simp add: pusher.good_def)
  have c: "valid_digest (wdigest w)" "0 \<le> wcut w" "wcut w < wall_ms (cstore s)"
    using assms(2) by (simp_all add: inv_def watch_ok_def)
  then have live: "pin_is_live m (wcut w)"
    using pin_is_live_publication [of "wall_ms (cstore s)"] assms(4,5) by simp
  have run: "pusher.rg w m (\<lambda>x. m = publication (wowner w) name1 d (nonce (rng x)) (wall_ms x))
      (pin_probe_write (wowner w) name1 d ds body) (\<lambda>_ _. True)"
    by (rule pusher.rg_pin_probe_write [OF live assms(6,7)])
      (use manifest_digests_valid [OF assms(8)] manifest_digests_mem [OF assms(8) _ c(1)] assms(9) in auto)
  have "pusher.good w m t"
    by (rule pusher.rgD(1) [OF run s _ assms(10)]) (rule assms(4))
  then show ?thesis using inv_readable by (auto simp: pusher.good_def)
qed

definition unpublished :: bucket where
  "unpublished = sample_bucket\<lparr>objects := AList.delete sample_manifest (objects sample_bucket)\<rparr>"

definition push_client :: registry where
  "push_client = sample_client\<lparr>cstore := unpublished\<rparr>"

definition sample_push :: "(error + (pin_failure + unit)) \<times> registry" where
  "sample_push = pin_probe_write ''acme'' ''web'' (sample_digest (CHR ''c'')) [sample_digest (CHR ''a'')] ''m'' push_client"

lemma sample_digests: "manifest_digests sample_json ''m'' = Inr [sample_digest (CHR ''a'')]"
  by code_simp

lemma unpublished_inv: "inv sample_watch unpublished"
proof -
  have "cur_key sample_watch sample_bucket = Some (sample_key (CHR ''a''))"
    by (simp add: cur_key_def wstate_def wpath_def sample_simps sample_state sample_digest_valid sample_record_def)
  then have "honours sample_watch {} {} sample_bucket unpublished"
    unfolding unpublished_def
    by (intro honours_delete [OF sample_inv])
      (simp_all add: sample_watch_def sample_manifest_def sample_key_def generation_path_def manifest_path_def manifest_prefix_def)
  then show ?thesis by (rule honours_inv)
qed

theorem push_keeps_published_witness:
  "list_all (\<lambda>(x, y). honours sample_watch {publication ''acme'' ''web'' (sample_digest (CHR ''c'')) (nonce 2) 90} {} x y)
     (ctrace (snd sample_push))"
  unfolding list_all_iff
  by (rule push_keeps_published [where s = push_client and from_slice = sample_json and body = "''m''"
          and d = "sample_digest (CHR ''c'')" and ?name1.0 = "''web''" and ds = "[sample_digest (CHR ''a'')]" and res = "fst sample_push",
        THEN conjunct2])
    (simp_all add: push_client_def sample_simps unpublished_inv honours_later sample_digests sample_digest_valid
      sample_push_def, simp_all add: unpublished_def sample_bucket_def)


definition new_key :: string where
  "new_key = generation_path ''acme'' (sample_digest (CHR ''a'')) ''02''"

definition uploaded_bucket :: bucket where
  "uploaded_bucket = sample_bucket\<lparr>objects := AList.update new_key \<lparr>odata = ''x'', modified = 80\<rparr> (objects sample_bucket)\<rparr>"

definition install_client :: registry where
  "install_client = sample_client\<lparr>cstore := uploaded_bucket\<rparr>"

definition sample_install :: "(error + unit) \<times> registry" where
  "sample_install = bs_install ''acme'' (sample_digest (CHR ''a'')) new_key install_client"

lemma sample_install_run:
  "fst sample_install = Inr ()
   \<and> map_option odata (map_of (objects (cstore (snd sample_install))) sample_manifest) = Some ''m''
   \<and> map_option (map_option physical_key \<circ> active)
       (map_of (states (cstore (snd sample_install))) (state_path ''acme'' (sample_digest (CHR ''a'')))) = Some (Some new_key)"
  by code_simp

lemma uploaded_facts: "inv sample_watch uploaded_bucket" "new_key \<in> wkeys sample_watch" "there uploaded_bucket new_key"
    "new_key \<notin> retired_keys sample_watch uploaded_bucket" "cur_key sample_watch uploaded_bucket \<noteq> Some new_key"
proof -
  have "honours sample_watch {} {} sample_bucket uploaded_bucket"
    unfolding uploaded_bucket_def
    by (rule honours_put [OF sample_inv])
      (simp_all add: sample_simps new_key_def generation_path_def manifest_path_def manifest_prefix_def)
  then show "inv sample_watch uploaded_bucket" by (rule honours_inv)
  have st: "wstate sample_watch uploaded_bucket = Some (sample_record 0 (CHR ''a''))"
    using sample_state [OF sample_digest_valid(1)] by (simp add: wstate_def wpath_def sample_simps uploaded_bucket_def)
  then show "new_key \<notin> retired_keys sample_watch uploaded_bucket" "cur_key sample_watch uploaded_bucket \<noteq> Some new_key"
    by (simp_all add: retired_keys_def cur_key_def sample_record_def sample_key_def new_key_def generation_path_def)
qed (simp_all add: sample_watch_def new_key_def there_def uploaded_bucket_def update_conv')


end
