(* ===== verification/Pool.thy ===== *)
theory Pool
  imports Prelude
begin

text \<open>
  The pool of repository databases (\<open>crates/storage/src/pool/mod.rs\<close>, \<open>lease.rs\<close> and \<open>evict.rs\<close>):
  one slot per repository, opened by the first request that needs it and shared by the others,
  swept when nobody uses it, evicted when the lease is lost, deleted with the repository and
  closed at shutdown.

  Every asynchronous function is a process whose program counter stands between two points at
  which the code takes a lock or waits; \<open>pool_step\<close> interleaves the processes in any order with the
  clock, with opens that fail and with handles that die. A slot (\<open>Arc<Entry>\<close>) and a handle
  (\<open>Arc<Db>\<close>) are addresses into lists that only grow, so that \<open>Arc::ptr_eq\<close> is equality of
  addresses; a once-cell that is being filled remembers which process holds its permit.
  The order in which a hash map is iterated is an argument of the step that iterates it.

  SlateDB is not part of the sources. Of a handle the model keeps what the pool relies on: whether
  it is open, being closed or shut, and the reason it reports. An open may succeed or fail, a close
  takes any time, a second close of a handle returns at once, and anything not shut may write
  files under its repository's prefix at any moment.
\<close>

section \<open>State\<close>

text \<open>A \<open>tokio::sync::OnceCell\<close> of a handle: empty, being filled by a process, or filled.\<close>

datatype cell = Empty | Opening nat | Full nat

datatype closed_cell = CNone | CRun nat | CDone

record slot =
  skey :: string
  cell :: cell
  last_used :: nat
  last_flush :: nat
  releasing :: bool
  sclosed :: closed_cell

datatype life = Live | Closing | Shut

datatype close_reason = Fenced | Clean | Panicked

record db =
  dkey :: string
  life :: life
  reason :: "close_reason option"

datatype get_error = PoolClosed | UnownedError | BeingDeleted | FencedError | OpenFailed | WasClosed

datatype closer = C0 | C1 | C2 nat | C3 | CEnd

type_synonym picks = "(string \<times> nat) list"

datatype process =
    GStart string bool | GInsert string | GWait string nat | GCheck string nat | GOurs string nat
  | GOpening string nat | GFail string nat get_error | GAdopt string nat nat
  | GRefuse string nat closer | GBound string nat nat | GStatus string nat
  | GSame string nat get_error | GHold string nat | GErr string get_error
  | Closer nat closer
  | DInsert string | DRemove string | DWait string nat | DWalk string | DUnmark string bool
  | DEnd string bool
  | RDrain picks | RClose bool "string list" picks picks
  | RClosing bool "string list" nat picks picks bool
  | RForce "string list" picks bool | RRelease bool "string list" picks
  | SCollect
  | FFlush picks
  | PDone

record pool =
  slots :: "slot list"
  dbs :: "db list"
  entries :: "string \<rightharpoonup> nat"
  pclosed :: bool
  deleting :: "string set"
  max_warm :: nat
  idle_ttl :: nat
  flush_every :: nat
  hook :: bool
  procs :: "process list"
  pclock :: nat
  ondisk :: "string set"
  released :: "string list"

definition upd_slot :: "nat \<Rightarrow> (slot \<Rightarrow> slot) \<Rightarrow> pool \<Rightarrow> pool" where
  "upd_slot s f st = st\<lparr>slots := (slots st)[s := f (slots st ! s)]\<rparr>"

definition upd_db :: "nat \<Rightarrow> (db \<Rightarrow> db) \<Rightarrow> pool \<Rightarrow> pool" where
  "upd_db d f st = st\<lparr>dbs := (dbs st)[d := f (dbs st ! d)]\<rparr>"

definition put_cell :: "nat \<Rightarrow> cell \<Rightarrow> pool \<Rightarrow> pool" where
  "put_cell s c = upd_slot s (\<lambda>e. e\<lparr>cell := c\<rparr>)"

definition put_closed :: "nat \<Rightarrow> closed_cell \<Rightarrow> pool \<Rightarrow> pool" where
  "put_closed s c = upd_slot s (\<lambda>e. e\<lparr>sclosed := c\<rparr>)"

definition flag :: "bool \<Rightarrow> string \<Rightarrow> pool \<Rightarrow> pool" where
  "flag b k st = (case entries st k of None \<Rightarrow> st | Some s \<Rightarrow> upd_slot s (\<lambda>e. e\<lparr>releasing := b\<rparr>) st)"

definition drop_key :: "string \<Rightarrow> pool \<Rightarrow> pool" where
  "drop_key k st = st\<lparr>entries := (entries st)(k := None)\<rparr>"

definition wrote :: "string \<Rightarrow> pool \<Rightarrow> pool" where
  "wrote k st = st\<lparr>ondisk := insert k (ondisk st)\<rparr>"

definition new_slot :: "string \<Rightarrow> nat \<Rightarrow> slot" where
  "new_slot k t = \<lparr>skey = k, cell = Empty, last_used = t, last_flush = t, releasing = False, sclosed = CNone\<rparr>"

definition new_db :: "string \<Rightarrow> db" where
  "new_db k = \<lparr>dkey = k, life = Live, reason = None\<rparr>"

text \<open>\<open>Db::close\<close> marks the handle closed before it flushes.\<close>

definition start_close :: "nat \<Rightarrow> pool \<Rightarrow> pool" where
  "start_close d = upd_db d (\<lambda>h. h\<lparr>life := Closing,
     reason := (case reason h of None \<Rightarrow> Some Clean | Some r \<Rightarrow> Some r)\<rparr>)"

section \<open>Reference counts\<close>

text \<open>The handles (\<open>Arc<Db>\<close>) and the slots (\<open>Arc<Entry>\<close>) a process owns a reference to.\<close>

fun handles :: "process \<Rightarrow> nat list" where
  "handles (GAdopt k s d) = [d]"
| "handles (GBound k s d) = [d]"
| "handles (GStatus k d) = [d]"
| "handles (GSame k d e) = [d]"
| "handles (GHold k d) = [d]"
| "handles (RDrain picked) = map snd picked"
| "handles (RClose sd keys todo skipped) = map snd todo @ map snd skipped"
| "handles (RClosing sd keys d todo skipped b) = d # map snd todo @ map snd skipped"
| "handles (RForce keys skipped b) = map snd skipped"
| "handles (RRelease sd keys skipped) = map snd skipped"
| "handles (FFlush todo) = map snd todo"
| "handles p = []"

fun entry_refs :: "process \<Rightarrow> nat list" where
  "entry_refs (GWait k s) = [s]"
| "entry_refs (GCheck k s) = [s]"
| "entry_refs (GOurs k s) = [s]"
| "entry_refs (GOpening k s) = [s]"
| "entry_refs (GFail k s e) = [s]"
| "entry_refs (GAdopt k s d) = [s]"
| "entry_refs (GRefuse k s c) = [s]"
| "entry_refs (GBound k s d) = [s]"
| "entry_refs (Closer s c) = (if c = CEnd then [] else [s])"
| "entry_refs p = []"

definition slot_alive :: "pool \<Rightarrow> nat \<Rightarrow> bool" where
  "slot_alive st s \<longleftrightarrow> entries st (skey (slots st ! s)) = Some s
     \<or> list_ex (\<lambda>p. s \<in> set (entry_refs p)) (procs st)"

definition strong_count :: "pool \<Rightarrow> nat \<Rightarrow> nat" where
  "strong_count st d =
     length (filter (\<lambda>s. cell (slots st ! s) = Full d \<and> slot_alive st s) [0..<length (slots st)])
     + sum_list (map (\<lambda>p. count_list (handles p) d) (procs st))"

section \<open>What a sweep picks\<close>

definition idle_entries :: "pool \<Rightarrow> string list \<Rightarrow> (nat \<times> string) list" where
  "idle_entries st order =
     sort_key fst (map (\<lambda>k. (last_used (slots st ! the (entries st k)), k))
       (filter (\<lambda>k. let e = slots st ! the (entries st k) in
          \<not> releasing e \<and> (case cell e of Full d \<Rightarrow> strong_count st d = 1 | _ \<Rightarrow> True)) order))"

fun pick_loop :: "pool \<Rightarrow> nat \<Rightarrow> nat \<Rightarrow> (nat \<times> string) list \<Rightarrow> picks" where
  "pick_loop st over i [] = []"
| "pick_loop st over i ((last_t, k) # idle) =
     (if over \<le> i \<and> pclock st - last_t < idle_ttl st then pick_loop st over (Suc i) idle
      else case cell (slots st ! the (entries st k)) of
        Full d \<Rightarrow> (k, d) # pick_loop st over (Suc i) idle
      | _ \<Rightarrow> pick_loop st over (Suc i) idle)"

definition evictable :: "string list \<Rightarrow> pool \<Rightarrow> picks \<times> pool" where
  "evictable order st =
     (let picked = pick_loop st (length order - max_warm st) 0 (idle_entries st order)
      in (picked, fold (flag True \<circ> fst) picked st))"

definition retire :: "picks \<Rightarrow> process list" where
  "retire picked = (if picked = [] then [] else [RDrain picked])"

text \<open>What shutdown collects, and what a flush pass is due to flush.\<close>

definition with_handle :: "pool \<Rightarrow> string list \<Rightarrow> picks" where
  "with_handle st order = concat (map (\<lambda>k. case cell (slots st ! the (entries st k)) of
     Full d \<Rightarrow> [(k, d)] | _ \<Rightarrow> []) order)"

definition flush_due :: "string list \<Rightarrow> pool \<Rightarrow> picks" where
  "flush_due order st = with_handle st (filter (\<lambda>k. let e = slots st ! the (entries st k) in
     \<not> releasing e \<and> flush_every st \<le> pclock st - last_flush e) order)"

section \<open>Closing a slot\<close>

text \<open>\<open>Entry::close\<close>: the first caller closes, the others wait for it to be done.\<close>

fun close_seg :: "nat \<Rightarrow> nat \<Rightarrow> closer \<Rightarrow> pool \<Rightarrow> (closer \<times> pool) option" where
  "close_seg i s C0 st = (case sclosed (slots st ! s) of
     CNone \<Rightarrow> Some (C1, put_closed s (CRun i) st)
   | CRun _ \<Rightarrow> None
   | CDone \<Rightarrow> Some (CEnd, st))"
| "close_seg i s C1 st = (case cell (slots st ! s) of
     Opening _ \<Rightarrow> None
   | Empty \<Rightarrow> Some (C3, st)
   | Full d \<Rightarrow> if life (dbs st ! d) = Live then Some (C2 d, start_close d st) else Some (C3, st))"
| "close_seg i s (C2 d) st = (if life (dbs st ! d) = Shut then Some (C3, st) else None)"
| "close_seg i s C3 st = Some (CEnd, put_closed s CDone st)"
| "close_seg i s CEnd st = None"

section \<open>The processes\<close>

text \<open>
  One atomic piece of process \<open>i\<close>: its next program counter, the processes it spawns and the
  state, or \<open>None\<close> while it waits. \<open>ok\<close> is the outcome of a call out of the pool (the open, the
  file deletes, the flush, or whether the wait for a close ended before its deadline), \<open>order\<close> the
  order in which the map is iterated. Without a release hook the code waits for the closes of a
  retirement where it started it; here the retirement is a process of its own in both cases, which
  allows more interleavings.
\<close>

type_synonym piece = "(process \<times> process list \<times> pool) option"

definition get_once_seg :: "nat \<Rightarrow> bool \<Rightarrow> string list \<Rightarrow> process \<Rightarrow> pool \<Rightarrow> piece" where [simp]:
  "get_once_seg i ok order p st = (case p of
     GStart k unowned \<Rightarrow>
       Some (if pclosed st then GErr k PoolClosed else if unowned then GErr k UnownedError else GInsert k, [], st)
   | GInsert k \<Rightarrow> (case entries st k of
       Some s \<Rightarrow> Some (GWait k s, [], upd_slot s (\<lambda>e. e\<lparr>last_used := pclock st\<rparr>) st)
     | None \<Rightarrow> let s = length (slots st) in
         Some (GWait k s, [], st\<lparr>slots := slots st @ [new_slot k (pclock st)], entries := (entries st)(k \<mapsto> s)\<rparr>))
   | GWait k s \<Rightarrow> (case cell (slots st ! s) of
       Full d \<Rightarrow> Some (GAdopt k s d, [], st)
     | Opening _ \<Rightarrow> None
     | Empty \<Rightarrow> Some (GCheck k s, [], put_cell s (Opening i) st))
   | GCheck k s \<Rightarrow>
       if k \<in> deleting st then Some (GFail k s BeingDeleted, [], put_cell s Empty st)
       else Some (GOurs k s, [], st)
   | GOurs k s \<Rightarrow>
       if entries st k = Some s then Some (GOpening k s, [], st)
       else Some (GFail k s FencedError, [], put_cell s Empty st)
   | GOpening k s \<Rightarrow>
       if ok then Some (GWait k s, [],
         wrote k (put_cell s (Full (length (dbs st))) (st\<lparr>dbs := dbs st @ [new_db k]\<rparr>)))
       else Some (GFail k s OpenFailed, [], wrote k (put_cell s Empty st))
   | GFail k s e \<Rightarrow>
       Some (GErr k e, [], if entries st k = Some s then drop_key k st else st)
   | GBound k s d \<Rightarrow>
       if max_warm st < length order
       then let (picked, st') = evictable order st in Some (GStatus k d, retire picked, st')
       else Some (GStatus k d, [], st)
   | _ \<Rightarrow> None)"

definition adopt_seg :: "nat \<Rightarrow> process \<Rightarrow> pool \<Rightarrow> piece" where [simp]:
  "adopt_seg i p st = (case p of
     GAdopt k s d \<Rightarrow> Some (if entries st k = Some s then GBound k s d else GRefuse k s C0, [], st)
   | GRefuse k s c \<Rightarrow> (case close_seg i s c st of
       None \<Rightarrow> None
     | Some (c', st') \<Rightarrow> Some (if c' = CEnd then GErr k FencedError else GRefuse k s c', [], st'))
   | _ \<Rightarrow> None)"

definition evict_if_same :: "string \<Rightarrow> nat \<Rightarrow> pool \<Rightarrow> process list \<times> pool" where [simp]:
  "evict_if_same k d st = (case entries st k of
     Some s \<Rightarrow> if cell (slots st ! s) = Full d then ([Closer s C0], drop_key k st) else ([], st)
   | None \<Rightarrow> ([], st))"

definition get_seg :: "process \<Rightarrow> pool \<Rightarrow> piece" where [simp]:
  "get_seg p st = (case p of
     GStatus k d \<Rightarrow> Some (case reason (dbs st ! d) of
       None \<Rightarrow> GHold k d
     | Some Fenced \<Rightarrow> GSame k d FencedError
     | Some _ \<Rightarrow> GSame k d WasClosed, [], st)
   | GSame k d e \<Rightarrow> Some (GErr k e, evict_if_same k d st)
   | GHold k d \<Rightarrow> Some (PDone, [], st)
   | _ \<Rightarrow> None)"

definition delete_seg :: "bool \<Rightarrow> process \<Rightarrow> pool \<Rightarrow> piece" where [simp]:
  "delete_seg ok p st = (case p of
     DInsert k \<Rightarrow> Some (DRemove k, [], st\<lparr>deleting := insert k (deleting st)\<rparr>)
   | DRemove k \<Rightarrow> (case entries st k of
       None \<Rightarrow> Some (DWalk k, [], st)
     | Some s \<Rightarrow> Some (DWait k (length (procs st)), [Closer s C0], drop_key k st))
   | DWait k j \<Rightarrow>
       if ok \<and> (case procs st ! j of Closer s CEnd \<Rightarrow> False | _ \<Rightarrow> True) then None
       else Some (DWalk k, [], st)
   | DWalk k \<Rightarrow> Some (DUnmark k ok, [], if ok then st\<lparr>ondisk := ondisk st - {k}\<rparr> else st)
   | DUnmark k r \<Rightarrow> Some (DEnd k r, [], st\<lparr>deleting := deleting st - {k}\<rparr>)
   | _ \<Rightarrow> None)"

definition closer_seg :: "nat \<Rightarrow> nat \<Rightarrow> closer \<Rightarrow> pool \<Rightarrow> piece" where [simp]:
  "closer_seg i s c st = (case close_seg i s c st of
     None \<Rightarrow> None | Some (c', st') \<Rightarrow> Some (Closer s c', [], st'))"

text \<open>\<open>close_all\<close>, of a sweep or of shutdown, and what follows it: a sweep gives back the leases of
  what it closed, shutdown first closes what it skipped.\<close>

definition close_all_seg :: "process \<Rightarrow> pool \<Rightarrow> piece" where [simp]:
  "close_all_seg p st = (case p of
     RClose sd keys [] skipped \<Rightarrow>
       Some (if sd then RForce keys skipped False
             else if hook st then RRelease False (filter (\<lambda>k. k \<notin> fst ` set skipped) keys) skipped
             else PDone, [], st)
   | RClose sd keys ((k, d) # todo) skipped \<Rightarrow>
       if 2 < strong_count st d
       then Some (RClose sd keys todo (skipped @ [(k, d)]), [], flag False k st)
       else Some (RClosing sd keys d todo skipped False, [], drop_key k st)
   | RClosing sd keys d todo skipped started \<Rightarrow>
       if started then if life (dbs st ! d) = Shut then Some (RClose sd keys todo skipped, [], st) else None
       else if life (dbs st ! d) = Live then Some (RClosing sd keys d todo skipped True, [], start_close d st)
       else Some (RClose sd keys todo skipped, [], st)
   | _ \<Rightarrow> None)"

definition retire_seg :: "process \<Rightarrow> pool \<Rightarrow> piece" where [simp]:
  "retire_seg p st = (case p of
     RDrain picked \<Rightarrow> Some (RClose False (map fst picked) picked [], [], st)
   | RRelease sd [] skipped \<Rightarrow> Some (PDone, [], if sd then st\<lparr>entries := Map.empty\<rparr> else st)
   | RRelease sd (k # keys) skipped \<Rightarrow>
       Some (RRelease sd keys skipped, [], st\<lparr>released := released st @ [k]\<rparr>)
   | _ \<Rightarrow> None)"

definition shutdown_seg :: "string list \<Rightarrow> process \<Rightarrow> pool \<Rightarrow> piece" where [simp]:
  "shutdown_seg order p st = (case p of
     SCollect \<Rightarrow>
       let all = with_handle st order
       in Some (RClose True (map fst all) all [], [], fold (flag True \<circ> fst) all st)
   | RForce keys [] started \<Rightarrow> Some (RRelease True (if hook st then keys else []) [], [], st)
   | RForce keys ((k, d) # skipped) started \<Rightarrow>
       if started then if life (dbs st ! d) = Shut then Some (RForce keys skipped False, [], st) else None
       else if life (dbs st ! d) = Live then Some (RForce keys ((k, d) # skipped) True, [], start_close d st)
       else Some (RForce keys skipped False, [], st)
   | _ \<Rightarrow> None)"

definition flush_seg :: "bool \<Rightarrow> process \<Rightarrow> pool \<Rightarrow> piece" where [simp]:
  "flush_seg ok p st = (case p of
     FFlush ((k, d) # todo) \<Rightarrow>
       Some (FFlush todo, [], if ok then (case entries st k of None \<Rightarrow> st
         | Some s \<Rightarrow> upd_slot s (\<lambda>e. e\<lparr>last_flush := pclock st\<rparr>) st) else st)
   | FFlush [] \<Rightarrow> Some (PDone, [], st)
   | _ \<Rightarrow> None)"

fun pool_seg :: "nat \<Rightarrow> bool \<Rightarrow> string list \<Rightarrow> process \<Rightarrow> pool \<Rightarrow> piece" where
  "pool_seg i ok order (GStart k u) st = get_once_seg i ok order (GStart k u) st"
| "pool_seg i ok order (GInsert k) st = get_once_seg i ok order (GInsert k) st"
| "pool_seg i ok order (GWait k s) st = get_once_seg i ok order (GWait k s) st"
| "pool_seg i ok order (GCheck k s) st = get_once_seg i ok order (GCheck k s) st"
| "pool_seg i ok order (GOurs k s) st = get_once_seg i ok order (GOurs k s) st"
| "pool_seg i ok order (GOpening k s) st = get_once_seg i ok order (GOpening k s) st"
| "pool_seg i ok order (GFail k s e) st = get_once_seg i ok order (GFail k s e) st"
| "pool_seg i ok order (GBound k s d) st = get_once_seg i ok order (GBound k s d) st"
| "pool_seg i ok order (GAdopt k s d) st = adopt_seg i (GAdopt k s d) st"
| "pool_seg i ok order (GRefuse k s c) st = adopt_seg i (GRefuse k s c) st"
| "pool_seg i ok order (GStatus k d) st = get_seg (GStatus k d) st"
| "pool_seg i ok order (GSame k d e) st = get_seg (GSame k d e) st"
| "pool_seg i ok order (GHold k d) st = get_seg (GHold k d) st"
| "pool_seg i ok order (GErr k e) st = None"
| "pool_seg i ok order (Closer s c) st = closer_seg i s c st"
| "pool_seg i ok order (DInsert k) st = delete_seg ok (DInsert k) st"
| "pool_seg i ok order (DRemove k) st = delete_seg ok (DRemove k) st"
| "pool_seg i ok order (DWait k j) st = delete_seg ok (DWait k j) st"
| "pool_seg i ok order (DWalk k) st = delete_seg ok (DWalk k) st"
| "pool_seg i ok order (DUnmark k r) st = delete_seg ok (DUnmark k r) st"
| "pool_seg i ok order (DEnd k r) st = None"
| "pool_seg i ok order (RDrain picked) st = retire_seg (RDrain picked) st"
| "pool_seg i ok order (RClose sd keys todo skipped) st = close_all_seg (RClose sd keys todo skipped) st"
| "pool_seg i ok order (RClosing sd keys d todo skipped b) st = close_all_seg (RClosing sd keys d todo skipped b) st"
| "pool_seg i ok order (RForce keys skipped b) st = shutdown_seg order (RForce keys skipped b) st"
| "pool_seg i ok order (RRelease sd keys skipped) st = retire_seg (RRelease sd keys skipped) st"
| "pool_seg i ok order SCollect st = shutdown_seg order SCollect st"
| "pool_seg i ok order (FFlush todo) st = flush_seg ok (FFlush todo) st"
| "pool_seg i ok order PDone st = None"

text \<open>
  What can happen to a pool: a request, an eviction (the lease was lost or a write came back
  fenced), a delete, the sweeper's two passes, shutdown, one piece of a process, the passing of
  time, a handle that dies, a close that ends and a write of an open handle.
\<close>

datatype event =
    Get string bool | Evict string | Delete string | Sweep "string list" | FlushStale "string list"
  | Shutdown | Step nat bool "string list" | Pass nat | Die nat close_reason | Finish nat | Write nat

definition spawn :: "process list \<Rightarrow> pool \<Rightarrow> pool" where
  "spawn ps st = st\<lparr>procs := procs st @ ps\<rparr>"

definition evict :: "string \<Rightarrow> pool \<Rightarrow> pool" where
  "evict k st = (case entries st k of None \<Rightarrow> st | Some s \<Rightarrow> spawn [Closer s C0] (drop_key k st))"

definition pool_sweep :: "string list \<Rightarrow> pool \<Rightarrow> pool" where
  "pool_sweep order st = (let (picked, st') = evictable order st in spawn (retire picked) st')"

definition run_process :: "nat \<Rightarrow> bool \<Rightarrow> string list \<Rightarrow> pool \<Rightarrow> pool option" where
  "run_process i ok order st =
     (if i < length (procs st) then case pool_seg i ok order (procs st ! i) st of
        None \<Rightarrow> None
      | Some (p, ps, st') \<Rightarrow> Some (st'\<lparr>procs := (procs st)[i := p] @ ps\<rparr>)
      else None)"

fun act :: "event \<Rightarrow> pool \<Rightarrow> pool option" where
  "act (Get k unowned) st = Some (spawn [GStart k unowned] st)"
| "act (Evict k) st = Some (evict k st)"
| "act (Delete k) st = Some (spawn [DInsert k] st)"
| "act (Sweep order) st = Some (pool_sweep order st)"
| "act (FlushStale order) st = Some (spawn [FFlush (flush_due order st)] st)"
| "act Shutdown st = Some (spawn [SCollect] (st\<lparr>pclosed := True\<rparr>))"
| "act (Step i ok order) st = run_process i ok order st"
| "act (Pass t) st = Some (st\<lparr>pclock := pclock st + t\<rparr>)"
| "act (Die d r) st = (if d < length (dbs st) \<and> reason (dbs st ! d) = None
     then Some (upd_db d (\<lambda>h. h\<lparr>reason := Some r\<rparr>) st) else None)"
| "act (Finish d) st = (if d < length (dbs st) \<and> life (dbs st ! d) = Closing
     then Some (wrote (dkey (dbs st ! d)) (upd_db d (\<lambda>h. h\<lparr>life := Shut\<rparr>) st)) else None)"
| "act (Write d) st = (if d < length (dbs st) \<and> life (dbs st ! d) \<noteq> Shut
     then Some (wrote (dkey (dbs st ! d)) st) else None)"

text \<open>The map is iterated in some order that names each of its keys once.\<close>

fun iterates :: "event \<Rightarrow> pool \<Rightarrow> bool" where
  "iterates (Sweep order) st = (distinct order \<and> set order = dom (entries st))"
| "iterates (FlushStale order) st = (distinct order \<and> set order = dom (entries st))"
| "iterates (Step i ok order) st = (distinct order \<and> set order = dom (entries st))"
| "iterates ev st = True"

definition fresh_pool :: "pool \<Rightarrow> bool" where
  "fresh_pool st \<longleftrightarrow> slots st = [] \<and> dbs st = [] \<and> entries st = Map.empty \<and> \<not> pclosed st
     \<and> deleting st = {} \<and> procs st = []"

text \<open>The states reached by events that the discipline \<open>P\<close> allows; \<open>anything\<close> allows all.\<close>

inductive pool_reach :: "(event \<Rightarrow> pool \<Rightarrow> bool) \<Rightarrow> pool \<Rightarrow> bool" for P where
  fresh: "fresh_pool st \<Longrightarrow> pool_reach P st"
| step: "pool_reach P st \<Longrightarrow> P ev st \<Longrightarrow> iterates ev st \<Longrightarrow> act ev st = Some st' \<Longrightarrow> pool_reach P st'"

text \<open>Runs of a discipline, for the runs that are followed to the end.\<close>

fun performs :: "(event \<Rightarrow> pool \<Rightarrow> bool) \<Rightarrow> event list \<Rightarrow> pool \<Rightarrow> pool option" where
  "performs P [] st = Some st"
| "performs P (ev # evs) st =
     (if P ev st \<and> iterates ev st then case act ev st of None \<Rightarrow> None | Some st' \<Rightarrow> performs P evs st' else None)"

lemma performs_reach: "pool_reach P st \<Longrightarrow> performs P evs st = Some st' \<Longrightarrow> pool_reach P st'"
  by (induction evs arbitrary: st) (auto split: if_splits option.splits intro: pool_reach.step)

definition empty_pool :: "nat \<Rightarrow> pool" where
  "empty_pool n = \<lparr>slots = [], dbs = [], entries = Map.empty, pclosed = False, deleting = {}, max_warm = n,
     idle_ttl = 300, flush_every = 300, hook = True, procs = [], pclock = 0, ondisk = {}, released = []\<rparr>"

lemma empty_pool_reach: "pool_reach P (empty_pool n)"
  by (rule pool_reach.fresh) (simp add: empty_pool_def fresh_pool_def)

definition anything :: "event \<Rightarrow> pool \<Rightarrow> bool" where
  "anything ev st = True"

section \<open>Well-typed pools\<close>

text \<open>The slot whose cell a process is filling, and the slot it is closing.\<close>

fun opener :: "process \<Rightarrow> nat option" where
  "opener (GCheck k s) = Some s"
| "opener (GOurs k s) = Some s"
| "opener (GOpening k s) = Some s"
| "opener p = None"

fun in_close :: "closer \<Rightarrow> bool" where
  "in_close C1 = True"
| "in_close (C2 d) = True"
| "in_close C3 = True"
| "in_close c = False"

fun closing_slot :: "process \<Rightarrow> nat option" where
  "closing_slot (GRefuse k s c) = (if in_close c then Some s else None)"
| "closing_slot (Closer s c) = (if in_close c then Some s else None)"
| "closing_slot p = None"

definition has_slot :: "pool \<Rightarrow> string \<Rightarrow> nat \<Rightarrow> bool" where
  "has_slot st k s \<longleftrightarrow> s < length (slots st) \<and> skey (slots st ! s) = k"

definition has_db :: "pool \<Rightarrow> string \<Rightarrow> nat \<Rightarrow> bool" where
  "has_db st k d \<longleftrightarrow> d < length (dbs st) \<and> dkey (dbs st ! d) = k"

definition picks_ok :: "pool \<Rightarrow> picks \<Rightarrow> bool" where
  "picks_ok st ps \<longleftrightarrow> (\<forall>k d. (k, d) \<in> set ps \<longrightarrow> has_db st k d)"

definition permit :: "pool \<Rightarrow> nat \<Rightarrow> string \<Rightarrow> nat \<Rightarrow> bool" where
  "permit st i k s \<longleftrightarrow> has_slot st k s \<and> cell (slots st ! s) = Opening i"

definition filled :: "pool \<Rightarrow> string \<Rightarrow> nat \<Rightarrow> nat \<Rightarrow> bool" where
  "filled st k s d \<longleftrightarrow> has_slot st k s \<and> has_db st k d \<and> cell (slots st ! s) = Full d"

fun closer_ok :: "pool \<Rightarrow> nat \<Rightarrow> nat \<Rightarrow> closer \<Rightarrow> bool" where
  "closer_ok st i s (C2 d) = (sclosed (slots st ! s) = CRun i \<and> cell (slots st ! s) = Full d)"
| "closer_ok st i s c = (in_close c \<longrightarrow> sclosed (slots st ! s) = CRun i)"

fun proc_ok :: "pool \<Rightarrow> nat \<Rightarrow> process \<Rightarrow> bool" where
  "proc_ok st i (GWait k s) = has_slot st k s"
| "proc_ok st i (GCheck k s) = permit st i k s"
| "proc_ok st i (GOurs k s) = permit st i k s"
| "proc_ok st i (GOpening k s) = permit st i k s"
| "proc_ok st i (GFail k s e) = has_slot st k s"
| "proc_ok st i (GAdopt k s d) = filled st k s d"
| "proc_ok st i (GRefuse k s c) = (has_slot st k s \<and> closer_ok st i s c)"
| "proc_ok st i (GBound k s d) = filled st k s d"
| "proc_ok st i (GStatus k d) = has_db st k d"
| "proc_ok st i (GSame k d e) = has_db st k d"
| "proc_ok st i (GHold k d) = has_db st k d"
| "proc_ok st i (Closer s c) = (s < length (slots st) \<and> closer_ok st i s c)"
| "proc_ok st i (RDrain picked) = picks_ok st picked"
| "proc_ok st i (RClose sd keys todo skipped) = picks_ok st (todo @ skipped)"
| "proc_ok st i (RClosing sd keys d todo skipped b) =
     (d < length (dbs st) \<and> picks_ok st (todo @ skipped))"
| "proc_ok st i (RForce keys skipped b) = picks_ok st skipped"
| "proc_ok st i (RRelease sd keys skipped) = picks_ok st skipped"
| "proc_ok st i (FFlush todo) = picks_ok st todo"
| "proc_ok st i p = True"

definition slot_ok :: "pool \<Rightarrow> nat \<Rightarrow> bool" where
  "slot_ok st s \<longleftrightarrow>
     (\<forall>d. cell (slots st ! s) = Full d \<longrightarrow> has_db st (skey (slots st ! s)) d)
   \<and> (\<forall>i. cell (slots st ! s) = Opening i \<longrightarrow> i < length (procs st) \<and> opener (procs st ! i) = Some s)
   \<and> (\<forall>i. sclosed (slots st ! s) = CRun i \<longrightarrow> i < length (procs st) \<and> closing_slot (procs st ! i) = Some s)"

definition well_typed :: "pool \<Rightarrow> bool" where
  "well_typed st \<longleftrightarrow>
     (\<forall>k s. entries st k = Some s \<longrightarrow> has_slot st k s)
   \<and> (\<forall>s < length (slots st). slot_ok st s)
   \<and> (\<forall>s < length (slots st). \<forall>s' < length (slots st). \<forall>d.
        cell (slots st ! s) = Full d \<and> cell (slots st ! s') = Full d \<longrightarrow> s = s')
   \<and> (\<forall>i < length (procs st). proc_ok st i (procs st ! i))"

text \<open>What a process may rely on while the others move: \<open>relies i\<close> is kept by every step that is not its own.\<close>

definition relies :: "nat \<Rightarrow> pool \<Rightarrow> pool \<Rightarrow> bool" where
  "relies i st st' \<longleftrightarrow>
     length (slots st) \<le> length (slots st') \<and> length (dbs st) \<le> length (dbs st')
   \<and> (\<forall>d < length (dbs st). dkey (dbs st' ! d) = dkey (dbs st ! d))
   \<and> (\<forall>s < length (slots st). skey (slots st' ! s) = skey (slots st ! s)
        \<and> (\<forall>d. cell (slots st ! s) = Full d \<longrightarrow> cell (slots st' ! s) = Full d)
        \<and> (cell (slots st ! s) = Opening i \<longrightarrow> cell (slots st' ! s) = Opening i)
        \<and> (sclosed (slots st ! s) = CRun i \<longrightarrow> sclosed (slots st' ! s) = CRun i))"

lemma picks_ok_simps [simp]:
  "picks_ok st []" "picks_ok st (x # ps) = (has_db st (fst x) (snd x) \<and> picks_ok st ps)"
  "picks_ok st (ps @ qs) = (picks_ok st ps \<and> picks_ok st qs)"
  by (cases x, auto simp: picks_ok_def)

lemma keeps_has [elim]:
  "relies i st st' \<Longrightarrow> has_slot st k s \<Longrightarrow> has_slot st' k s"
  "relies i st st' \<Longrightarrow> has_db st k d \<Longrightarrow> has_db st' k d"
  "relies i st st' \<Longrightarrow> permit st i k s \<Longrightarrow> permit st' i k s"
  "relies i st st' \<Longrightarrow> filled st k s d \<Longrightarrow> filled st' k s d"
  by (auto simp: relies_def has_slot_def has_db_def permit_def filled_def)

lemma keeps_closer: "relies i st st' \<Longrightarrow> s < length (slots st) \<Longrightarrow> closer_ok st i s c \<Longrightarrow> closer_ok st' i s c"
  by (cases c) (auto simp: relies_def)

lemma keeps_picks:
  "relies i st st' \<Longrightarrow> picks_ok st ps \<Longrightarrow> picks_ok st' ps"
  by (auto simp: picks_ok_def)

lemma proc_ok_stable:
  assumes "relies i st st'" "proc_ok st i p"
  shows "proc_ok st' i p"
proof -
  have "s < length (slots st')" if "s < length (slots st)" for s
    using assms(1) that by (simp add: relies_def)
  moreover have "d < length (dbs st')" if "d < length (dbs st)" for d
    using assms(1) that by (simp add: relies_def)
  moreover have "s < length (slots st)" if "has_slot st k s" for k s
    using that by (simp add: has_slot_def)
  ultimately show ?thesis
    using assms keeps_has [OF assms(1)] keeps_closer [OF assms(1)] keeps_picks [OF assms(1)]
    by (cases p) (simp_all, blast+)
qed

lemma procs_ok_ignores_procs [simp]:
  "proc_ok (st\<lparr>procs := ps\<rparr>) i p = proc_ok st i p"
  "has_slot (st\<lparr>procs := ps\<rparr>) k s = has_slot st k s"
  "has_db (st\<lparr>procs := ps\<rparr>) k d = has_db st k d"
proof -
  have *: "relies i st (st\<lparr>procs := ps\<rparr>)" "relies i (st\<lparr>procs := ps\<rparr>) st"
    by (simp_all add: relies_def)
  show "proc_ok (st\<lparr>procs := ps\<rparr>) i p = proc_ok st i p"
    using proc_ok_stable [OF *(1)] proc_ok_stable [OF *(2)] by blast
qed (simp_all add: has_slot_def has_db_def)

subsection \<open>Flags and picks change nothing else\<close>

lemma nth_upd: "j < length xs \<Longrightarrow> xs[i := x] ! j = (if i = j then x else xs ! j)"
  by (auto simp: nth_list_update)

lemma flag_simps [simp]:
  "entries (flag b k st) = entries st" "dbs (flag b k st) = dbs st" "procs (flag b k st) = procs st"
  "length (slots (flag b k st)) = length (slots st)" "ondisk (flag b k st) = ondisk st"
  "deleting (flag b k st) = deleting st"
  by (simp_all add: flag_def upd_slot_def split: option.split)

lemma flag_slot [simp]:
  assumes "s < length (slots st)"
  shows "skey (slots (flag b k st) ! s) = skey (slots st ! s)"
    "cell (slots (flag b k st) ! s) = cell (slots st ! s)"
    "sclosed (slots (flag b k st) ! s) = sclosed (slots st ! s)"
  using assms by (auto simp: flag_def upd_slot_def nth_upd split: option.split)

lemma flags_simps [simp]:
  "entries (fold (flag b \<circ> fst) ps st) = entries st" "dbs (fold (flag b \<circ> fst) ps st) = dbs st"
  "procs (fold (flag b \<circ> fst) ps st) = procs st" "length (slots (fold (flag b \<circ> fst) ps st)) = length (slots st)"
  "ondisk (fold (flag b \<circ> fst) ps st) = ondisk st" "deleting (fold (flag b \<circ> fst) ps st) = deleting st"
  by (induction ps arbitrary: st) simp_all

lemma flags_slot [simp]:
  assumes "s < length (slots st)"
  shows "skey (slots (fold (flag b \<circ> fst) ps st) ! s) = skey (slots st ! s)"
    "cell (slots (fold (flag b \<circ> fst) ps st) ! s) = cell (slots st ! s)"
    "sclosed (slots (fold (flag b \<circ> fst) ps st) ! s) = sclosed (slots st ! s)"
  using assms by (induction ps arbitrary: st) simp_all

lemma pick_loop_set: "(k, d) \<in> set (pick_loop st ov i idle) \<Longrightarrow>
   k \<in> snd ` set idle \<and> cell (slots st ! the (entries st k)) = Full d"
  by (induction st ov i idle rule: pick_loop.induct) (auto split: if_splits cell.splits)

lemma idle_set: "(t, k) \<in> set (idle_entries st order) \<Longrightarrow> k \<in> set order
   \<and> \<not> releasing (slots st ! the (entries st k))
   \<and> (\<forall>d. cell (slots st ! the (entries st k)) = Full d \<longrightarrow> strong_count st d = 1)"
  by (cases "cell (slots st ! the (entries st k))") (auto simp: idle_entries_def Let_def)

lemma evictable_picks:
  assumes "evictable order st = (picked, st')" "set order = dom (entries st)" "(k, d) \<in> set picked"
  obtains s where "entries st k = Some s" "cell (slots st ! s) = Full d" "\<not> releasing (slots st ! s)"
    "strong_count st d = 1"
proof -
  have "k \<in> set order \<and> \<not> releasing (slots st ! the (entries st k))
     \<and> strong_count st d = 1 \<and> cell (slots st ! the (entries st k)) = Full d"
    using assms by (auto simp: evictable_def Let_def dest!: pick_loop_set dest: idle_set)
  with assms(2) that show ?thesis by (metis domD option.sel)
qed

lemma evictable_state: "evictable order st = (picked, st') \<Longrightarrow> st' = fold (flag True \<circ> fst) picked st"
  by (auto simp: evictable_def Let_def)

lemma with_handle_set:
  assumes "(k, d) \<in> set (with_handle st order)" "set order \<subseteq> dom (entries st)"
  obtains s where "entries st k = Some s" "cell (slots st ! s) = Full d"
proof -
  have "k \<in> set order \<and> cell (slots st ! the (entries st k)) = Full d"
    using assms(1) by (auto simp: with_handle_def split: cell.splits)
  with assms(2) that show ?thesis by (metis domD option.sel subsetD)
qed

lemma keeps_refl [simp]: "relies i st st"
  by (simp add: relies_def)

lemmas pool_helpers = upd_slot_def upd_db_def put_cell_def put_closed_def drop_key_def wrote_def
  start_close_def spawn_def

lemma close_seg_keeps:
  assumes "close_seg i s c st = Some (c', st')" "closer_ok st i s c" "s < length (slots st)"
  shows "closer_ok st' i s c'" and "j \<noteq> i \<Longrightarrow> relies j st st'"
    and "entries st' = entries st" and "procs st' = procs st"
    and "length (slots st') = length (slots st)" and "length (dbs st') = length (dbs st)"
    and "\<And>r. r < length (slots st) \<Longrightarrow> skey (slots st' ! r) = skey (slots st ! r) \<and> cell (slots st' ! r) = cell (slots st ! r)"
    and "\<And>d. d < length (dbs st) \<Longrightarrow> dkey (dbs st' ! d) = dkey (dbs st ! d)"
    and "\<And>r. r < length (slots st) \<Longrightarrow> sclosed (slots st' ! r) = sclosed (slots st ! r) \<or> r = s"
    and "sclosed (slots st' ! s) = CRun m \<Longrightarrow> m = i \<and> in_close c' \<or> sclosed (slots st ! s) = CRun m \<and> m \<noteq> i"
  using assms
  by (cases c; auto simp: pool_helpers relies_def nth_upd split: closed_cell.splits cell.splits if_splits option.splits)+

lemma evictable_keeps:
  assumes "evictable order st = (picked, st')"
  shows "relies i st st'" "entries st' = entries st" "procs st' = procs st" "dbs st' = dbs st"
    "length (slots st') = length (slots st)"
    "\<And>r. r < length (slots st) \<Longrightarrow> skey (slots st' ! r) = skey (slots st ! r) \<and> cell (slots st' ! r) = cell (slots st ! r)
       \<and> sclosed (slots st' ! r) = sclosed (slots st ! r)"
  by (simp_all add: evictable_state [OF assms] relies_def)

lemma flag_keeps: "relies i st (flag b k st)" "relies i st (fold (flag b \<circ> fst) ps st)"
  by (simp_all add: relies_def)

lemma well_typedD:
  assumes "well_typed st"
  shows "entries st k = Some s \<Longrightarrow> has_slot st k s"
    "s < length (slots st) \<Longrightarrow> slot_ok st s"
    "s < length (slots st) \<Longrightarrow> s' < length (slots st) \<Longrightarrow> cell (slots st ! s) = Full d \<Longrightarrow> cell (slots st ! s') = Full d \<Longrightarrow> s = s'"
    "i < length (procs st) \<Longrightarrow> proc_ok st i (procs st ! i)"
  using assms by (auto simp: well_typed_def)

lemma filled_entry:
  "well_typed st \<Longrightarrow> entries st k = Some s \<Longrightarrow> cell (slots st ! s) = Full d \<Longrightarrow> filled st k s d"
  using well_typedD(1,2) by (fastforce simp: filled_def slot_ok_def has_slot_def)

lemma seg_keeps:
  assumes "pool_seg i ok order p st = Some (p', ps, st')" "proc_ok st i p" "j \<noteq> i"
  shows "relies j st st'"
proof (cases p)
  case (GRefuse k s c)
  with assms show ?thesis
    by (auto split: option.splits dest!: close_seg_keeps(2) simp: has_slot_def)
next
  case (Closer s c)
  with assms show ?thesis
    by (auto split: option.splits dest!: close_seg_keeps(2))
next
  case (GBound k s d)
  with assms show ?thesis
    by (auto split: if_splits prod.splits dest: evictable_keeps(1))
next
  case (RClose sd keys todo skipped)
  with assms show ?thesis
    by (cases todo) (auto split: if_splits simp: flag_keeps, auto simp: relies_def drop_key_def)
next
  case (RForce keys skipped b)
  with assms show ?thesis
    by (cases skipped) (auto split: if_splits simp: relies_def pool_helpers nth_upd)
next
  case (RRelease sd keys skipped)
  with assms show ?thesis
    by (cases keys) (auto split: if_splits simp: relies_def)
next
  case (FFlush todo)
  with assms show ?thesis
    by (cases todo) (auto split: if_splits option.splits simp: relies_def pool_helpers nth_upd)
next
  case SCollect
  with assms show ?thesis by (auto simp: Let_def flag_keeps)
next
  case (GInsert k)
  with assms show ?thesis
    by (auto split: option.splits simp: relies_def pool_helpers nth_upd nth_append Let_def)
qed (use assms in \<open>auto split: if_splits option.splits cell.splits
      simp: relies_def pool_helpers nth_upd nth_append Let_def permit_def\<close>)

lemma picks_typed:
  assumes "well_typed st" "\<And>k d. (k, d) \<in> set ps \<Longrightarrow> \<exists>s. entries st k = Some s \<and> cell (slots st ! s) = Full d"
  shows "picks_ok st ps"
  using assms(2) filled_entry [OF assms(1)] by (fastforce simp: picks_ok_def filled_def)

lemma evictable_typed:
  assumes "well_typed st" "evictable order st = (picked, st')" "set order = dom (entries st)"
  shows "picks_ok st' picked"
  by (rule keeps_picks [OF evictable_keeps(1) [OF assms(2)] picks_typed [OF assms(1)]])
     (use evictable_picks [OF assms(2,3)] in metis)

lemma with_handle_typed:
  assumes "well_typed st" "set order \<subseteq> dom (entries st)"
  shows "picks_ok st (with_handle st order)"
  by (rule picks_typed [OF assms(1)]) (use with_handle_set [OF _ assms(2)] in metis)

lemma has_db_simps [simp]:
  "has_db (flag b k st) k' d = has_db st k' d" "has_db (drop_key k st) k' d = has_db st k' d"
  "has_db (start_close e st) k' d = has_db st k' d" "has_db (upd_slot s f st) k' d = has_db st k' d"
  "has_db (st\<lparr>entries := m\<rparr>) k' d = has_db st k' d" "has_db (st\<lparr>released := r\<rparr>) k' d = has_db st k' d"
  by (auto simp: has_db_def drop_key_def start_close_def upd_db_def upd_slot_def nth_upd)

lemma picks_ok_states [simp]:
  "picks_ok (flag b k st) ps = picks_ok st ps" "picks_ok (drop_key k st) ps = picks_ok st ps"
  "picks_ok (start_close e st) ps = picks_ok st ps" "picks_ok (upd_slot s f st) ps = picks_ok st ps"
  "picks_ok (st\<lparr>entries := m\<rparr>) ps = picks_ok st ps" "picks_ok (st\<lparr>released := r\<rparr>) ps = picks_ok st ps"
  by (simp_all add: picks_ok_def)

lemma length_dbs_simps [simp]: "dbs (drop_key k st) = dbs st" "length (dbs (start_close e st)) = length (dbs st)"
  by (simp_all add: drop_key_def start_close_def upd_db_def)

lemma seg_proc_ok:
  assumes "well_typed st" "pool_seg i ok order p st = Some (p', ps, st')" "proc_ok st i p" "set order = dom (entries st)"
  shows "proc_ok st' i p'"
proof (cases p)
  case (GInsert k)
  with assms show ?thesis
    by (auto split: option.splits simp: has_slot_def pool_helpers nth_upd nth_append Let_def new_slot_def
        dest!: well_typedD(1))
next
  case (GWait k s)
  with assms show ?thesis
    using well_typedD(2) [OF assms(1), of s]
    by (auto split: cell.splits simp: has_slot_def pool_helpers nth_upd permit_def filled_def slot_ok_def)
next
  case (GRefuse k s c)
  with assms show ?thesis
    using close_seg_keeps(1) [of i s c st] close_seg_keeps(5,7) [of i s c st]
    by (auto split: option.splits simp: has_slot_def)
next
  case (Closer s c)
  with assms show ?thesis
    using close_seg_keeps(1,5) [of i s c st] by (auto split: option.splits)
next
  case (GBound k s d)
  with assms show ?thesis
    by (auto split: if_splits prod.splits simp: filled_def dest!: evictable_keeps(1) intro: keeps_has)
next
  case (RClose sd keys todo skipped)
  with assms show ?thesis
    by (cases todo) (auto split: if_splits simp: has_db_def)
next
  case (RClosing sd keys d todo skipped b)
  with assms show ?thesis by (auto split: if_splits)
next
  case (RForce keys skipped b)
  with assms show ?thesis by (cases skipped) (auto split: if_splits)
next
  case (RRelease sd keys skipped)
  with assms show ?thesis by (cases keys) (auto split: if_splits)
next
  case (FFlush todo)
  with assms show ?thesis by (cases todo) (auto split: if_splits option.splits)
next
  case SCollect
  with assms show ?thesis
    using keeps_picks [OF flag_keeps(2) [of 0] with_handle_typed [OF assms(1), of order]] assms(4) by (auto simp: Let_def)
qed (use assms in \<open>auto split: if_splits option.splits cell.splits close_reason.splits
      simp: pool_helpers nth_upd nth_append Let_def permit_def filled_def has_slot_def has_db_def new_db_def\<close>)

lemma seg_spawn_ok:
  assumes "well_typed st" "pool_seg i ok order p st = Some (p', ps, st')" "set order = dom (entries st)" "q \<in> set ps"
  shows "proc_ok st' j q" "opener q = None" "closing_slot q = None"
proof -
  have "proc_ok st' j q \<and> opener q = None \<and> closing_slot q = None"
  proof (cases p)
    case (GBound k s d)
    with assms show ?thesis
      by (auto split: if_splits prod.splits simp: retire_def dest: evictable_typed)
  next
    case (RClose sd keys todo skipped)
    with assms show ?thesis by (cases todo) (auto split: if_splits)
  next
    case (RForce keys skipped b)
    with assms show ?thesis by (cases skipped) (auto split: if_splits)
  next
    case (RRelease sd keys skipped)
    with assms show ?thesis by (cases keys) auto
  next
    case (FFlush todo)
    with assms show ?thesis by (cases todo) auto
  qed (use assms in \<open>auto split: if_splits option.splits cell.splits
      simp: pool_helpers Let_def has_slot_def dest!: well_typedD(1)\<close>)
  then show "proc_ok st' j q" "opener q = None" "closing_slot q = None" by auto
qed

lemma seg_entries:
  assumes "pool_seg i ok order p st = Some (p', ps, st')" "proc_ok st i p"
  shows "entries st' k = Some s \<Longrightarrow> entries st k = Some s \<or> s = length (slots st) \<and> has_slot st' k s"
    and "procs st' = procs st"
proof -
  have "(entries st' k = Some s \<longrightarrow> entries st k = Some s \<or> s = length (slots st) \<and> has_slot st' k s)
      \<and> procs st' = procs st"
  proof (cases p)
    case (GRefuse k r c)
    with assms show ?thesis
      using close_seg_keeps(3,4) [of i r c st] by (auto split: option.splits simp: has_slot_def)
  next
    case (Closer r c)
    with assms show ?thesis
      using close_seg_keeps(3,4) [of i r c st] by (auto split: option.splits)
  next
    case (GBound k r d)
    with assms show ?thesis
      by (auto split: if_splits prod.splits dest: evictable_keeps(2,3))
  next
    case (RClose sd keys todo skipped)
    with assms show ?thesis by (cases todo) (auto split: if_splits simp: drop_key_def)
  next
    case (RForce keys skipped b)
    with assms show ?thesis by (cases skipped) (auto split: if_splits simp: pool_helpers)
  next
    case (RRelease sd keys skipped)
    with assms show ?thesis by (cases keys) (auto split: if_splits)
  next
    case (FFlush todo)
    with assms show ?thesis by (cases todo) (auto split: if_splits option.splits simp: pool_helpers)
  qed (use assms(1) in \<open>auto split: if_splits option.splits cell.splits
      simp: pool_helpers Let_def has_slot_def new_slot_def\<close>)
  then show "entries st' k = Some s \<Longrightarrow> entries st k = Some s \<or> s = length (slots st) \<and> has_slot st' k s"
    and "procs st' = procs st" by auto
qed

lemma close_seg_slots:
  assumes "close_seg i s c st = Some (c', st')" "closer_ok st i s c" "r < length (slots st')" "s < length (slots st)"
  shows "r < length (slots st) \<and> cell (slots st' ! r) = cell (slots st ! r)
    \<and> (sclosed (slots st' ! r) = CRun m \<longrightarrow> m = i \<and> in_close c' \<and> r = s
        \<or> sclosed (slots st ! r) = CRun m \<and> (m = i \<longrightarrow> \<not> (in_close c \<and> r = s)))"
  using assms
  by (cases c) (auto simp: pool_helpers nth_upd split: closed_cell.splits cell.splits if_splits option.splits)

definition slot_change :: "nat \<Rightarrow> process \<Rightarrow> process \<Rightarrow> pool \<Rightarrow> pool \<Rightarrow> nat \<Rightarrow> bool" where
  "slot_change i p p' st st' r \<longleftrightarrow>
     (\<forall>m. cell (slots st' ! r) = Opening m \<longrightarrow> m = i \<and> opener p' = Some r
        \<or> r < length (slots st) \<and> cell (slots st ! r) = Opening m \<and> (m = i \<longrightarrow> opener p \<noteq> Some r))
   \<and> (\<forall>d. cell (slots st' ! r) = Full d \<longrightarrow> r < length (slots st) \<and> cell (slots st ! r) = Full d
        \<or> d = length (dbs st) \<and> has_db st' (skey (slots st' ! r)) d \<and> opener p = Some r)
   \<and> (\<forall>m. sclosed (slots st' ! r) = CRun m \<longrightarrow> m = i \<and> closing_slot p' = Some r
        \<or> r < length (slots st) \<and> sclosed (slots st ! r) = CRun m \<and> (m = i \<longrightarrow> closing_slot p \<noteq> Some r))"

lemma slot_change_none:
  "r < length (slots st) \<Longrightarrow> cell (slots st' ! r) = cell (slots st ! r) \<Longrightarrow> sclosed (slots st' ! r) = sclosed (slots st ! r)
   \<Longrightarrow> opener p = None \<Longrightarrow> closing_slot p = None \<Longrightarrow> slot_change i p p' st st' r"
  by (simp add: slot_change_def)

lemma seg_slots:
  assumes "pool_seg i ok order p st = Some (p', ps, st')" "proc_ok st i p" "r < length (slots st')"
  shows "slot_change i p p' st st' r"
proof (cases p)
  case (GRefuse k s c)
  with assms obtain c' where "close_seg i s c st = Some (c', st')" "p' = (if c' = CEnd then GErr k FencedError else GRefuse k s c')"
    by (auto split: option.splits)
  with GRefuse assms show ?thesis
    using close_seg_slots [of i s c st c' st' r] by (fastforce simp: slot_change_def has_slot_def)
next
  case (Closer s c)
  with assms obtain c' where "close_seg i s c st = Some (c', st')" "p' = Closer s c'"
    by (auto split: option.splits)
  with Closer assms show ?thesis
    using close_seg_slots [of i s c st c' st' r] by (fastforce simp: slot_change_def)
next
  case (GBound k s d)
  with assms show ?thesis
    by (auto split: if_splits prod.splits intro!: slot_change_none dest!: evictable_state)
next
  case (RClose sd keys todo skipped)
  with assms show ?thesis
    by (cases todo) (auto split: if_splits intro!: slot_change_none simp: drop_key_def)
next
  case (RForce keys skipped b)
  with assms show ?thesis
    by (cases skipped) (auto split: if_splits intro!: slot_change_none simp: pool_helpers)
next
  case (RRelease sd keys skipped)
  with assms show ?thesis
    by (cases keys) (auto split: if_splits intro!: slot_change_none)
next
  case (FFlush todo)
  with assms show ?thesis
    by (cases todo) (auto split: if_splits option.splits intro!: slot_change_none simp: pool_helpers nth_upd)
next
  case SCollect
  with assms show ?thesis by (auto simp: Let_def intro!: slot_change_none)
next
  case (GInsert k)
  with assms show ?thesis
    by (cases "r = length (slots st)")
       (auto split: option.splits if_splits simp: slot_change_def pool_helpers nth_upd nth_append Let_def new_slot_def)
qed (use assms in \<open>auto split: if_splits option.splits cell.splits
      simp: slot_change_def pool_helpers nth_upd permit_def has_slot_def has_db_def new_db_def nth_append\<close>)

lemma slot_ok_step:
  assumes "slot_change i p p' st st' r" "p = procs st ! i" "i < length (procs st)" "procs st' = (procs st)[i := p'] @ ps"
    "r < length (slots st) \<Longrightarrow> slot_ok st r" "relies j st st'"
  shows "slot_ok st' r"
proof -
  have "has_db st' (skey (slots st' ! r)) d" if "cell (slots st' ! r) = Full d" for d
    using assms(1,5,6) that keeps_has(2) [OF assms(6)]
    by (auto simp: slot_change_def slot_ok_def relies_def)
  moreover have "m < length (procs st') \<and> opener (procs st' ! m) = Some r" if "cell (slots st' ! r) = Opening m" for m
    using assms(1-5) that by (cases "m = i") (auto simp: slot_change_def slot_ok_def nth_append)
  moreover have "m < length (procs st') \<and> closing_slot (procs st' ! m) = Some r" if "sclosed (slots st' ! r) = CRun m" for m
    using assms(1-5) that by (cases "m = i") (auto simp: slot_change_def slot_ok_def nth_append)
  ultimately show ?thesis by (simp add: slot_ok_def)
qed

lemma slot_ok_procs:
  "procs st' = ps \<Longrightarrow> slots st' = slots st \<Longrightarrow> dbs st' = dbs st \<Longrightarrow> slot_ok st' r = slot_ok (st\<lparr>procs := ps\<rparr>) r"
  by (simp add: slot_ok_def has_db_def)

lemma slot_change_procs [simp]:
  "slot_change i p p' st (st'\<lparr>procs := ps\<rparr>) r = slot_change i p p' st st' r"
  by (simp add: slot_change_def)

lemma keeps_procs [simp]: "relies j st (st'\<lparr>procs := ps\<rparr>) = relies j st st'"
  by (simp add: relies_def)

lemma proc_cases:
  assumes "j < length (xs[i := x] @ ys)"
  obtains "j = i" "i < length xs" "(xs[i := x] @ ys) ! j = x" | "j \<noteq> i" "j < length xs" "(xs[i := x] @ ys) ! j = xs ! j"
    | "length xs \<le> j" "(xs[i := x] @ ys) ! j \<in> set ys"
  using assms by (cases "j < length xs"; cases "j = i") (auto simp: nth_append)

lemma well_typed_run:
  assumes wt: "well_typed st" and run: "run_process i ok order st = Some u" and ord: "set order = dom (entries st)"
  shows "well_typed u"
proof -
  from run obtain p' ps st' where i: "i < length (procs st)" and pool_seg: "pool_seg i ok order (procs st ! i) st = Some (p', ps, st')"
    and u: "u = st'\<lparr>procs := (procs st)[i := p'] @ ps\<rparr>"
    by (auto simp: run_process_def split: if_splits option.splits)
  note ok = well_typedD(4) [OF wt i]
  have relies: "relies j st u" if "j \<noteq> i" for j
    using seg_keeps [OF pool_seg ok that] u by simp
  have change: "slot_change i (procs st ! i) p' st u r" if "r < length (slots u)" for r
    using seg_slots [OF pool_seg ok] u that by simp
  have "has_slot u k s" if "entries u k = Some s" for k s
    using seg_entries(1) [OF pool_seg ok, of k s] that u well_typedD(1) [OF wt, of k s] keeps_has(1) [OF relies [of "Suc i"]]
    by auto
  moreover have "slot_ok u r" if "r < length (slots u)" for r
    using slot_ok_step [OF change [OF that] refl i _ well_typedD(2) [OF wt] relies [of "Suc i"]] u by simp
  moreover have "r = r'" if "r < length (slots u)" "r' < length (slots u)" "cell (slots u ! r) = Full d" "cell (slots u ! r') = Full d" for r r' d
    using change [OF that(1)] change [OF that(2)] that(3,4) well_typedD(2,3) [OF wt]
    by (auto simp: slot_change_def slot_ok_def has_db_def) 
  moreover have "proc_ok u j (procs u ! j)" if j: "j < length (procs u)" for j
  proof -
    from j have "j < length ((procs st)[i := p'] @ ps)" using u by simp
    then show ?thesis
    proof (cases rule: proc_cases)
      case 1
      then show ?thesis using u seg_proc_ok [OF wt pool_seg ok ord] by simp
    next
      case 2
      then show ?thesis using u proc_ok_stable [OF relies well_typedD(4) [OF wt]] by simp
    next
      case 3
      then show ?thesis using u seg_spawn_ok(1) [OF wt pool_seg ord] by simp
    qed
  qed
  ultimately show ?thesis by (auto simp: well_typed_def)
qed

text \<open>An event other than a piece of a process adds processes, takes slots out of the map, or touches flags and handles.\<close>

definition same_slots :: "pool \<Rightarrow> pool \<Rightarrow> bool" where
  "same_slots st st' \<longleftrightarrow> length (slots st') = length (slots st) \<and> length (dbs st') = length (dbs st)
   \<and> (\<forall>d < length (dbs st). dkey (dbs st' ! d) = dkey (dbs st ! d))
   \<and> (\<forall>s < length (slots st). skey (slots st' ! s) = skey (slots st ! s)
        \<and> cell (slots st' ! s) = cell (slots st ! s) \<and> sclosed (slots st' ! s) = sclosed (slots st ! s))"

lemma same_slots_keeps: "same_slots st st' \<Longrightarrow> relies i st st'"
  by (simp add: same_slots_def relies_def)

lemma well_typed_grow:
  assumes wt: "well_typed st" and same: "same_slots st st'" and ents: "entries st' \<subseteq>\<^sub>m entries st"
    and procs: "procs st' = procs st @ ps" and new: "\<And>q j. q \<in> set ps \<Longrightarrow> proc_ok st' j q"
  shows "well_typed st'"
proof -
  have "has_slot st' k s" if "entries st' k = Some s" for k s
    using ents that keeps_has(1) [OF same_slots_keeps [OF same]] well_typedD(1) [OF wt, of k s]
    by (auto simp: map_le_def dom_def)
  moreover have "slot_ok st' r" if "r < length (slots st')" for r
    using same well_typedD(2) [OF wt, of r] procs that by (auto simp: same_slots_def slot_ok_def has_db_def nth_append)
  moreover have "r = r'" if "r < length (slots st')" "r' < length (slots st')" "cell (slots st' ! r) = Full d" "cell (slots st' ! r') = Full d" for r r' d
    using same well_typedD(3) [OF wt] that by (auto simp: same_slots_def)
  moreover have "proc_ok st' j (procs st' ! j)" if "j < length (procs st')" for j
    using proc_ok_stable [OF same_slots_keeps [OF same] well_typedD(4) [OF wt]] new procs that
    by (cases "j < length (procs st)") (auto simp: nth_append)
  ultimately show ?thesis by (auto simp: well_typed_def)
qed

lemma act_grow:
  assumes wt: "well_typed st" and it: "iterates ev st" and act: "act ev st = Some st'"
    and ev: "\<nexists>i ok order. ev = Step i ok order"
  shows "\<exists>ps. same_slots st st' \<and> entries st' \<subseteq>\<^sub>m entries st \<and> procs st' = procs st @ ps
     \<and> (\<forall>q \<in> set ps. (\<forall>j. proc_ok st' j q) \<and> opener q = None \<and> closing_slot q = None)"
proof (cases ev)
  case (Evict k)
  with act show ?thesis
    using well_typedD(1) [OF wt, of k]
    by (auto simp: evict_def pool_helpers same_slots_def map_le_def has_slot_def split: option.splits if_splits)
next
  case (Sweep order)
  obtain picked st1 where pick: "evictable order st = (picked, st1)" by fastforce
  then have "same_slots st st1" "entries st1 = entries st" "procs st1 = procs st" "picks_ok st1 picked"
    using evictable_typed [OF wt pick] Sweep it
    by (auto simp: same_slots_def evictable_state [OF pick])
  moreover have "st' = st1\<lparr>procs := procs st1 @ retire picked\<rparr>"
    using Sweep act pick by (simp add: pool_sweep_def spawn_def)
  ultimately show ?thesis
    by (auto simp: same_slots_def map_le_def retire_def)
next
  case (FlushStale order)
  have "picks_ok st (flush_due order st)"
    unfolding flush_due_def using FlushStale it by (intro with_handle_typed [OF wt]) auto
  with FlushStale act show ?thesis
    by (auto simp: same_slots_def map_le_def spawn_def)
qed (use act ev in \<open>auto simp: pool_helpers same_slots_def map_le_def nth_upd split: if_splits\<close>)

lemma well_typed_act:
  assumes "well_typed st" "iterates ev st" "act ev st = Some st'"
  shows "well_typed st'"
proof (cases "\<exists>i ok order. ev = Step i ok order")
  case True
  with assms show ?thesis by (auto intro: well_typed_run)
next
  case False
  then show ?thesis
    using act_grow [OF assms False] well_typed_grow [OF assms(1)] by blast
qed

lemma well_typed_reach: "pool_reach P st \<Longrightarrow> well_typed st"
proof (induction rule: pool_reach.induct)
  case (fresh st)
  then show ?case by (simp add: fresh_pool_def well_typed_def)
next
  case (step st ev st')
  then show ?case by (auto intro: well_typed_act)
qed

text \<open>An invariant of a discipline: it holds of a fresh pool, and every event the discipline allows keeps it on a well-typed pool.\<close>

locale discipline =
  fixes P :: "event \<Rightarrow> pool \<Rightarrow> bool" and I :: "pool \<Rightarrow> bool"
  assumes initially: "fresh_pool st \<Longrightarrow> I st"
    and kept: "well_typed st \<Longrightarrow> I st \<Longrightarrow> P ev st \<Longrightarrow> iterates ev st \<Longrightarrow> act ev st = Some st' \<Longrightarrow> I st'"
begin

lemma always: "pool_reach P st \<Longrightarrow> I st"
proof (induction rule: pool_reach.induct)
  case (fresh st)
  then show ?case by (rule initially)
next
  case (step st ev st')
  then show ?case using kept [OF well_typed_reach [OF step(1)]] by blast
qed

end

section \<open>Single flight\<close>

lemma opener_permit: "proc_ok st i p \<Longrightarrow> opener p = Some s \<Longrightarrow> cell (slots st ! s) = Opening i"
  by (cases p) (auto simp: permit_def)

lemma well_typed_proc:
  assumes "well_typed st" "p \<in> set (procs st)"
  obtains i where "proc_ok st i p"
  using assms well_typedD(4) by (metis in_set_conv_nth)

text \<open>
  C33. A pool stays well typed whatever happens to it, in any interleaving of requests, sweeps,
  evictions, deletes and shutdown: a key of the map names a slot of that key, a slot is filled with
  a handle of its own repository, no two slots share a handle, and every process holds slots and
  handles of the repository it works for. So an open is single flight: of all the requests that
  meet in one slot at most one is between taking the cell's permit and filling it, and those that
  come out of it with a handle come out with the same one, a handle of the repository they asked for.
\<close>

theorem pool_single_flight:
  assumes "pool_reach anything st"
  shows "well_typed st
    \<and> (\<forall>i j s. i < length (procs st) \<and> j < length (procs st)
         \<and> opener (procs st ! i) = Some s \<and> opener (procs st ! j) = Some s \<longrightarrow> i = j)
    \<and> (\<forall>k k' s d d'. GBound k s d \<in> set (procs st) \<and> GBound k' s d' \<in> set (procs st) \<longrightarrow> k = k' \<and> d = d')
    \<and> (\<forall>k d. GHold k d \<in> set (procs st) \<longrightarrow> d < length (dbs st) \<and> dkey (dbs st ! d) = k)"
proof (intro conjI allI impI)
  note wt = well_typed_reach [OF assms]
  show "well_typed st" by (rule wt)
  show "i = j" if "i < length (procs st) \<and> j < length (procs st)
       \<and> opener (procs st ! i) = Some s \<and> opener (procs st ! j) = Some s" for i j s
    using that opener_permit [OF well_typedD(4) [OF wt]] by (metis cell.inject(1))
  show "k = k'" "d = d'" if "GBound k s d \<in> set (procs st) \<and> GBound k' s d' \<in> set (procs st)" for k k' s d d'
  proof -
    from that have "filled st k s d" "filled st k' s d'" by (auto elim!: well_typed_proc [OF wt])
    then show "k = k'" "d = d'" by (auto simp: filled_def has_slot_def)
  qed
  show "d < length (dbs st)" "dkey (dbs st ! d) = k" if "GHold k d \<in> set (procs st)" for k d
    using well_typed_proc [OF wt that] by (auto simp: has_db_def)
qed

lemmas pool_eval = empty_pool_def anything_def run_process_def upd_slot_def upd_db_def put_cell_def put_closed_def
  drop_key_def wrote_def start_close_def spawn_def new_slot_def new_db_def evict_def pool_sweep_def evictable_def
  idle_entries_def retire_def with_handle_def flag_def strong_count_def slot_alive_def Let_def

definition two_requests :: "event list" where
  "two_requests = [Get ''a/b'' False, Get ''a/b'' False] @
     map (\<lambda>i. Step i True []) [0, 1, 0] @
     map (\<lambda>i. Step i True [''a/b'']) [0, 0, 0, 0, 1, 0, 0, 1, 1, 1, 0, 1, 0]"

theorem pool_single_flight_witness:
  "\<exists>st. performs anything two_requests (empty_pool 64) = Some st \<and> well_typed st
     \<and> procs st = [GHold ''a/b'' 0, GHold ''a/b'' 0] \<and> dkey (dbs st ! 0) = ''a/b''"
proof -
  have *: "procs (the (performs anything two_requests (empty_pool 64))) = [GHold ''a/b'' 0, GHold ''a/b'' 0]"
    "performs anything two_requests (empty_pool 64) \<noteq> None"
    by (simp_all add: two_requests_def pool_eval)
  then obtain st where st: "performs anything two_requests (empty_pool 64) = Some st" by auto
  with * pool_single_flight [OF performs_reach [OF empty_pool_reach st]] show ?thesis by auto
qed

end
