(* ===== verification/Handles.thy ===== *)
theory Handles
  imports Pool
begin

text \<open>
  What the pool promises about the handles it opens: none is lost (a handle that is open is named by
  the map, or some process is on its way to closing it), a sweep never closes a handle that a
  request holds, and a delete leaves no file behind. Each promise is proved for all interleavings
  that follow a discipline, a predicate on events; a run that breaks the discipline and the promise
  is given where the code allows one.
\<close>

section \<open>Slots out of the map\<close>

definition out :: "pool \<Rightarrow> nat \<Rightarrow> bool" where
  "out st s \<longleftrightarrow> s < length (slots st) \<and> entries st (skey (slots st ! s)) \<noteq> Some s"

definition dead :: "pool \<Rightarrow> nat \<Rightarrow> bool" where
  "dead st s \<longleftrightarrow> out st s
   \<and> (\<forall>d. cell (slots st ! s) = Full d \<longrightarrow> life (dbs st ! d) \<noteq> Live)
   \<and> (\<forall>i k. cell (slots st ! s) = Opening i \<longrightarrow> procs st ! i \<noteq> GOpening k s)"

lemma seg_life:
  assumes "pool_seg i ok order p st = Some (p', ps, st')" "d < length (dbs st)" "life (dbs st ! d) \<noteq> Live"
  shows "life (dbs st' ! d) \<noteq> Live"
proof (cases p)
  case (GRefuse k s c)
  then show ?thesis using assms
    by (cases c) (auto simp: pool_helpers nth_upd split: option.splits closed_cell.splits cell.splits if_splits)
next
  case (Closer s c)
  then show ?thesis using assms
    by (cases c) (auto simp: pool_helpers nth_upd split: option.splits closed_cell.splits cell.splits if_splits)
next
  case (GBound k s d)
  then show ?thesis using assms by (auto split: if_splits prod.splits dest: evictable_keeps(4))
next
  case (RClose sd keys todo skipped)
  then show ?thesis using assms by (cases todo) (auto split: if_splits)
next
  case (RForce keys skipped b)
  then show ?thesis using assms by (cases skipped) (auto simp: pool_helpers nth_upd split: if_splits)
next
  case (RRelease sd keys skipped)
  then show ?thesis using assms by (cases keys) (auto split: if_splits)
next
  case (FFlush todo)
  then show ?thesis using assms by (cases todo) (auto simp: pool_helpers split: if_splits option.splits)
qed (use assms in \<open>auto simp: pool_helpers nth_upd nth_append Let_def split: option.splits cell.splits if_splits\<close>)

lemma seg_fills:
  assumes "pool_seg i ok order p st = Some (p', ps, st')" "proc_ok st i p" "r < length (slots st')" "cell (slots st' ! r) = Full d"
  shows "r < length (slots st) \<and> cell (slots st ! r) = Full d
     \<or> (\<exists>k. p = GOpening k r \<and> p' = GWait k r) \<and> d = length (dbs st) \<and> entries st' = entries st"
proof (cases "r < length (slots st) \<and> cell (slots st ! r) = Full d")
  case False
  then have "d = length (dbs st)" "opener p = Some r"
    using seg_slots [OF assms(1-3)] assms(4) by (auto simp: slot_change_def)
  with assms False show ?thesis
    by (cases p) (auto simp: pool_helpers permit_def has_slot_def nth_upd split: if_splits)
qed simp

lemma seg_opens:
  assumes "pool_seg i ok order p st = Some (GOpening k s, ps, st')"
  shows "p = GOurs k s \<and> entries st k = Some s"
proof (cases p)
  case (RClose sd keys todo skipped)
  then show ?thesis using assms by (cases todo) (auto split: if_splits)
next
  case (RForce keys skipped b)
  then show ?thesis using assms by (cases skipped) (auto split: if_splits)
next
  case (RRelease sd keys skipped)
  then show ?thesis using assms by (cases keys) (auto split: if_splits)
next
  case (FFlush todo)
  then show ?thesis using assms by (cases todo) (auto split: if_splits)
qed (use assms in \<open>auto simp: Let_def split: option.splits cell.splits if_splits prod.splits close_reason.splits\<close>)

text \<open>What every event relies: a slot that has left the map stays out, a handle that is not open stays so, and a dead slot stays dead.\<close>

definition evolves :: "pool \<Rightarrow> pool \<Rightarrow> bool" where
  "evolves st st' \<longleftrightarrow> length (slots st) \<le> length (slots st')
   \<and> (\<forall>s d. s < length (slots st) \<longrightarrow> cell (slots st ! s) = Full d \<longrightarrow> cell (slots st' ! s) = Full d)
   \<and> (\<forall>s. out st s \<longrightarrow> out st' s) \<and> (\<forall>s. dead st s \<longrightarrow> dead st' s)
   \<and> (\<forall>d < length (dbs st). life (dbs st ! d) \<noteq> Live \<longrightarrow> life (dbs st' ! d) \<noteq> Live)"

lemma run_processE:
  assumes "run_process i ok order st = Some st'"
  obtains p' ps u where "i < length (procs st)" "pool_seg i ok order (procs st ! i) st = Some (p', ps, u)"
    "st' = u\<lparr>procs := (procs st)[i := p'] @ ps\<rparr>"
  using assms by (auto simp: run_process_def split: if_splits option.splits)

lemma out_step:
  assumes "relies j st st'" "\<And>k s. entries st' k = Some s \<Longrightarrow> s < length (slots st) \<Longrightarrow> entries st k = Some s" "out st s"
  shows "out st' s"
  using assms by (auto simp: out_def relies_def)

lemma dead_step:
  assumes wt: "well_typed st" and out: "out st' s" and dead: "dead st s"
    and cell: "\<And>d. cell (slots st' ! s) = Full d \<Longrightarrow> cell (slots st ! s) = Full d"
    and life: "\<And>d. d < length (dbs st) \<Longrightarrow> life (dbs st ! d) \<noteq> Live \<Longrightarrow> life (dbs st' ! d) \<noteq> Live"
    and opens: "\<And>m k. cell (slots st' ! s) = Opening m \<Longrightarrow> procs st' ! m \<noteq> GOpening k s"
  shows "dead st' s"
proof -
  have "d < length (dbs st)" if "cell (slots st ! s) = Full d" for d
    using well_typedD(2) [OF wt, of s] dead that by (auto simp: slot_ok_def has_db_def dead_def out_def)
  with assms show ?thesis by (auto simp: dead_def)
qed

lemma run_out:
  assumes wt: "well_typed st" and run: "run_process i ok order st = Some st'" and "out st s"
  shows "out st' s"
proof -
  obtain p' ps u where i: "i < length (procs st)" and pool_seg: "pool_seg i ok order (procs st ! i) st = Some (p', ps, u)"
    and st': "st' = u\<lparr>procs := (procs st)[i := p'] @ ps\<rparr>"
    using run by (rule run_processE)
  show ?thesis
    using seg_entries(1) [OF pool_seg well_typedD(4) [OF wt i]] st' assms(3)
    by (intro out_step [OF _ _ assms(3), of "Suc i"]) (auto intro: seg_keeps [OF pool_seg well_typedD(4) [OF wt i]])
qed

lemma run_dead:
  assumes wt: "well_typed st" and run: "run_process i ok order st = Some st'" and dead: "dead st s"
  shows "dead st' s"
proof -
  obtain p' ps u where i: "i < length (procs st)" and pool_seg: "pool_seg i ok order (procs st ! i) st = Some (p', ps, u)"
    and st': "st' = u\<lparr>procs := (procs st)[i := p'] @ ps\<rparr>"
    using run by (rule run_processE)
  note ok = well_typedD(4) [OF wt i]
  have out: "out st s" using dead by (simp add: dead_def)
  then have out': "out st' s" by (rule run_out [OF wt run])
  then have s: "s < length (slots st)" "s < length (slots u)" using out st' by (auto simp: out_def)
  have not_opening: "procs st ! i \<noteq> GOpening k s" for k
    using dead ok by (auto simp: dead_def permit_def)
  show ?thesis
  proof (rule dead_step [OF wt out' dead])
    show "cell (slots st ! s) = Full d" if "cell (slots st' ! s) = Full d" for d
      using seg_fills [OF pool_seg ok s(2)] that st' not_opening by auto
    show "life (dbs st' ! d) \<noteq> Live" if "d < length (dbs st)" "life (dbs st ! d) \<noteq> Live" for d
      using seg_life [OF pool_seg that] st' by simp
    show "procs st' ! m \<noteq> GOpening k s" if m: "cell (slots st' ! s) = Opening m" for m k
    proof (cases "m = i")
      case True
      have "p' \<noteq> GOpening k s"
        using seg_opens [of i ok order "procs st ! i" st k s ps u] pool_seg ok out
        by (auto simp: out_def permit_def has_slot_def)
      with True i st' show ?thesis by (simp add: nth_append)
    next
      case False
      then have "cell (slots st ! s) = Opening m" "m < length (procs st)"
        using seg_slots [OF pool_seg ok s(2)] m st' well_typedD(2) [OF wt s(1)]
        by (auto simp: slot_change_def slot_ok_def)
      with dead False st' show ?thesis by (auto simp: dead_def nth_append)
    qed
  qed
qed

lemma run_keeps:
  assumes "well_typed st" "run_process i ok order st = Some st'" "j \<noteq> i"
  shows "relies j st st'"
  using assms(2) by (rule run_processE) (use assms in \<open>auto intro: seg_keeps dest: well_typedD(4)\<close>)

lemma evolves_act:
  assumes wt: "well_typed st" and it: "iterates ev st" and act: "act ev st = Some st'"
  shows "evolves st st'"
proof (cases "\<exists>i ok order. ev = Step i ok order")
  case True
  then obtain i ok order where run: "run_process i ok order st = Some st'" using act by auto
  have "life (dbs st' ! d) \<noteq> Live" if "d < length (dbs st)" "life (dbs st ! d) \<noteq> Live" for d
    using run by (rule run_processE) (use that in \<open>auto dest: seg_life\<close>)
  then show ?thesis
    using run_keeps [OF wt run, of "Suc i"] run_out [OF wt run] run_dead [OF wt run]
    by (auto simp: evolves_def relies_def)
next
  case False
  from act_grow [OF wt it act False] obtain ps where same: "same_slots st st'" and ents: "entries st' \<subseteq>\<^sub>m entries st"
    and procs: "procs st' = procs st @ ps" by blast
  have ents': "entries st k = Some s" if "entries st' k = Some s" for k s
    using ents that by (metis domI map_le_def)
  have out: "out st' s" if "out st s" for s
    using out_step [OF same_slots_keeps [OF same] _ that] ents' by blast
  have life: "life (dbs st' ! d) \<noteq> Live" if "d < length (dbs st)" "life (dbs st ! d) \<noteq> Live" for d
  proof (cases ev)
    case (Sweep order)
    with act that show ?thesis
      by (auto simp: pool_sweep_def spawn_def split: prod.splits dest!: evictable_state)
  qed (use act that False in \<open>auto simp: evict_def pool_helpers nth_upd split: if_splits option.splits\<close>)
  have "dead st' s" if dead: "dead st s" for s
  proof (rule dead_step [OF wt _ dead _ life])
    have s: "s < length (slots st)" using dead by (simp add: dead_def out_def)
    show "out st' s" using dead out by (simp add: dead_def)
    show "cell (slots st ! s) = Full d" if "cell (slots st' ! s) = Full d" for d
      using same s that by (simp add: same_slots_def)
    show "procs st' ! m \<noteq> GOpening k s" if "cell (slots st' ! s) = Opening m" for m k
      using same s that dead procs well_typedD(2) [OF wt s]
      by (auto simp: same_slots_def dead_def slot_ok_def nth_append)
  qed
  with same out life show ?thesis by (auto simp: evolves_def same_slots_def)
qed

section \<open>No handle is lost\<close>

text \<open>The slot a process is on its way to close, once it is out of the map.\<close>

fun closes :: "process \<Rightarrow> nat option" where
  "closes (GWait k s) = Some s"
| "closes (GAdopt k s d) = Some s"
| "closes (GRefuse k s c) = (if c = C0 \<or> c = C1 then Some s else None)"
| "closes (Closer s c) = (if c = C0 \<or> c = C1 then Some s else None)"
| "closes p = None"

definition named :: "pool \<Rightarrow> nat \<Rightarrow> bool" where
  "named st d \<longleftrightarrow> (\<exists>k s. entries st k = Some s \<and> cell (slots st ! s) = Full d)"

definition closed_by :: "pool \<Rightarrow> nat \<Rightarrow> process \<Rightarrow> bool" where
  "closed_by st d p \<longleftrightarrow> (\<exists>s. closes p = Some s \<and> out st s \<and> cell (slots st ! s) = Full d)
     \<or> (\<exists>sd keys todo skipped. p = RClosing sd keys d todo skipped False)"

definition doomed :: "pool \<Rightarrow> nat \<Rightarrow> bool" where
  "doomed st d \<longleftrightarrow> (\<exists>p \<in> set (procs st). closed_by st d p)"

fun off :: "pool \<Rightarrow> process \<Rightarrow> bool" where
  "off st (GRefuse k s c) = (out st s \<and> (c = C3 \<or> (\<exists>d. c = C2 d) \<longrightarrow> dead st s))"
| "off st (Closer s c) = (out st s \<and> (c = C3 \<or> (\<exists>d. c = C2 d) \<longrightarrow> dead st s))"
| "off st p = True"

definition closers_inv :: "pool \<Rightarrow> bool" where
  "closers_inv st \<longleftrightarrow> (\<forall>s < length (slots st). sclosed (slots st ! s) = CDone \<longrightarrow> dead st s)
   \<and> (\<forall>p \<in> set (procs st). off st p)"

definition handles_inv :: "pool \<Rightarrow> bool" where
  "handles_inv st \<longleftrightarrow> closers_inv st
   \<and> (\<forall>d < length (dbs st). life (dbs st ! d) = Live \<longrightarrow> named st d \<or> doomed st d)"

text \<open>
  The discipline: a sweep that takes a key out of the map takes out the slot it picked, a failed
  open takes out a slot that nobody has filled since, and shutdown clears a map with no open handle.
\<close>

fun clean :: "event \<Rightarrow> pool \<Rightarrow> bool" where
  "clean (Step i ok order) st = (i < length (procs st) \<longrightarrow> (case procs st ! i of
     RClose sd keys ((k, d) # todo) skipped \<Rightarrow> 2 < strong_count st d
       \<or> (case entries st k of None \<Rightarrow> True | Some s \<Rightarrow> cell (slots st ! s) = Full d)
   | GFail k s e \<Rightarrow> entries st k = Some s \<longrightarrow> (case cell (slots st ! s) of Full d \<Rightarrow> False | _ \<Rightarrow> True)
   | RRelease True [] skipped \<Rightarrow> list_all (\<lambda>k. case cell (slots st ! the (entries st k)) of
       Full d \<Rightarrow> life (dbs st ! d) \<noteq> Live | _ \<Rightarrow> True) order
   | _ \<Rightarrow> True))"
| "clean ev st = True"

lemma off_evolves: "evolves st st' \<Longrightarrow> off st p \<Longrightarrow> off st' p"
  by (cases p) (auto simp: evolves_def)

lemma closed_by_evolves: "evolves st st' \<Longrightarrow> closed_by st d p \<Longrightarrow> closed_by st' d p"
  unfolding closed_by_def evolves_def by (metis out_def)

lemma out_procs [simp]: "out (st\<lparr>procs := ps\<rparr>) s = out st s"
  by (simp add: out_def)

lemma close_seg_off:
  assumes wt: "well_typed st" and pool_seg: "close_seg i s c st = Some (c', st')" and out: "out st s"
    and c: "c = C3 \<or> (\<exists>d. c = C2 d) \<longrightarrow> dead st s"
  shows "out st' s \<and> (c' = C3 \<or> (\<exists>d. c' = C2 d) \<longrightarrow> dead st' s)"
proof -
  have "d < length (dbs st)" if "cell (slots st ! s) = Full d" for d
    using well_typedD(2) [OF wt, of s] out that by (auto simp: slot_ok_def has_db_def out_def)
  then show ?thesis
    using assms(2-4) by (cases c)
      (auto simp: pool_helpers out_def dead_def nth_upd split: closed_cell.splits cell.splits if_splits)
qed

lemma dead_procs:
  assumes "dead u s" "\<And>k. p' \<noteq> GOpening k s" "\<And>m. cell (slots u ! s) = Opening m \<Longrightarrow> m < length (procs u)"
  shows "dead (u\<lparr>procs := (procs u)[i := p'] @ ps\<rparr>) s"
  using assms by (auto simp: dead_def nth_append nth_upd)

lemma seg_spawn_off:
  assumes "well_typed st" "pool_seg i ok order p st = Some (p', ps, u)" "q \<in> set ps"
  shows "off (u\<lparr>procs := qs\<rparr>) q"
proof (cases p)
  case (RClose sd keys todo skipped)
  with assms show ?thesis by (cases todo) (auto split: if_splits)
next
  case (RForce keys skipped b)
  with assms show ?thesis by (cases skipped) (auto split: if_splits)
next
  case (RRelease sd keys skipped)
  with assms show ?thesis by (cases keys) (auto split: if_splits)
next
  case (FFlush todo)
  with assms show ?thesis by (cases todo) (auto split: if_splits)
qed (use assms in \<open>auto simp: Let_def retire_def out_def drop_key_def has_slot_def
      split: option.splits cell.splits if_splits prod.splits dest: well_typedD(1)\<close>)

lemma close_seg_dead:
  assumes wt: "well_typed st" and pool_seg: "close_seg i s c st = Some (c', u)" and ok: "closer_ok st i s c"
    and out: "out st s" "c = C3 \<or> (\<exists>d. c = C2 d) \<longrightarrow> dead st s" and p': "\<And>k. p' \<noteq> GOpening k s"
  shows "out u s \<and> (c' = C3 \<or> (\<exists>d. c' = C2 d) \<longrightarrow> dead (u\<lparr>procs := (procs st)[i := p'] @ ps\<rparr>) s)"
proof -
  have s: "s < length (slots st)" using out by (simp add: out_def)
  have "m < length (procs u)" if "cell (slots u ! s) = Opening m" for m
    using well_typedD(2) [OF wt s] close_seg_keeps(4,7) [OF pool_seg ok s] s that by (auto simp: slot_ok_def)
  then show ?thesis
    using close_seg_off [OF wt pool_seg out] dead_procs [of u s p' i ps] p' close_seg_keeps(4) [OF pool_seg ok s] by auto
qed

lemma seg_off:
  assumes "well_typed st" "pool_seg i ok order p st = Some (p', ps, u)" "off st p" "proc_ok st i p"
  shows "off (u\<lparr>procs := (procs st)[i := p'] @ ps\<rparr>) p'"
proof (cases p)
  case (GAdopt k s d)
  with assms show ?thesis by (auto simp: out_def filled_def has_slot_def)
next
  case (GRefuse k s c)
  with assms obtain c' where "close_seg i s c st = Some (c', u)" "p' = (if c' = CEnd then GErr k FencedError else GRefuse k s c')"
    by (auto split: option.splits)
  with GRefuse assms close_seg_dead [of st i s c c' u p' ps] show ?thesis by auto
next
  case (Closer s c)
  with assms obtain c' where "close_seg i s c st = Some (c', u)" "p' = Closer s c'"
    by (auto split: option.splits)
  with Closer assms close_seg_dead [of st i s c c' u p' ps] show ?thesis by auto
next
  case (RClose sd keys todo skipped)
  with assms show ?thesis by (cases todo) (auto split: if_splits)
next
  case (RForce keys skipped b)
  with assms show ?thesis by (cases skipped) (auto split: if_splits)
next
  case (RRelease sd keys skipped)
  with assms show ?thesis by (cases keys) (auto split: if_splits)
next
  case (FFlush todo)
  with assms show ?thesis by (cases todo) (auto split: if_splits)
qed (use assms in \<open>auto simp: Let_def split: option.splits cell.splits if_splits prod.splits close_reason.splits\<close>)

lemma in_procs_update: "q \<in> set (xs[i := x]) \<Longrightarrow> q = x \<or> q \<in> set xs"
  using set_update_subset_insert [of xs i x] by auto

lemma run_off:
  assumes wt: "well_typed st" and run: "run_process i ok order st = Some st'" and off: "\<forall>p \<in> set (procs st). off st p"
    and ev: "evolves st st'"
  shows "\<forall>p \<in> set (procs st'). off st' p"
  using run
proof (rule run_processE)
  fix p' ps u
  assume *: "i < length (procs st)" "pool_seg i ok order (procs st ! i) st = Some (p', ps, u)"
    "st' = u\<lparr>procs := (procs st)[i := p'] @ ps\<rparr>"
  with off have "off st' p'" by (auto intro: seg_off [OF wt _ _ well_typedD(4) [OF wt]])
  with * off off_evolves [OF ev] seg_spawn_off [OF wt *(2)] show ?thesis
    by (auto dest!: in_procs_update)
qed

lemma seg_unnames:
  assumes pool_seg: "pool_seg i ok order p st = Some (p', ps, u)" and ent: "entries st k = Some s" "entries u k \<noteq> Some s"
    and slot: "skey (slots st ! s) = k" "cell (slots st ! s) = Full d" "s < length (slots st)"
    and live: "life (dbs u ! d) = Live"
    and clean: "clean (Step i ok order) st" "i < length (procs st)" "procs st ! i = p" "set order = dom (entries st)"
  shows "\<exists>q \<in> insert p' (set ps). closed_by u d q"
proof (cases p)
  case (RClose sd keys todo skipped)
  with assms show ?thesis
    by (cases todo) (auto simp: drop_key_def closed_by_def split: if_splits option.splits)
next
  case (GRefuse k s c)
  with assms show ?thesis
    by (cases c) (auto simp: pool_helpers split: option.splits closed_cell.splits cell.splits if_splits)
next
  case (Closer s c)
  with assms show ?thesis
    by (cases c) (auto simp: pool_helpers split: option.splits closed_cell.splits cell.splits if_splits)
next
  case (GBound k s d)
  with assms show ?thesis by (auto split: if_splits prod.splits dest!: evictable_state)
next
  case (RForce keys skipped b)
  with assms show ?thesis by (cases skipped) (auto simp: pool_helpers split: if_splits)
next
  case (RRelease sd keys skipped)
  with assms show ?thesis
    by (cases keys; cases sd) (auto simp: list_all_iff dom_def split: if_splits)
next
  case (FFlush todo)
  with assms show ?thesis by (cases todo) (auto simp: pool_helpers split: if_splits option.splits)
next
  case (GFail k s e)
  with assms show ?thesis by (auto simp: drop_key_def split: if_splits)
qed (use assms in \<open>auto simp: Let_def pool_helpers closed_by_def out_def
      split: option.splits cell.splits if_splits\<close>)

lemma seg_still_closes:
  assumes wt: "well_typed st" and pool_seg: "pool_seg i ok order p st = Some (p', ps, u)" and cl: "closed_by st d p"
    and ok: "proc_ok st i p" and live: "life (dbs u ! d) = Live" "d < length (dbs st)"
    and fin: "\<forall>s < length (slots st). sclosed (slots st ! s) = CDone \<longrightarrow> dead st s"
  shows "closed_by u d p'"
proof -
  have *: "life (dbs st ! d) = Live" using seg_life [OF pool_seg live(2)] live(1) by blast
  show ?thesis
  proof (cases p)
    case (GRefuse k s c)
    with assms * show ?thesis
      by (cases c)
         (auto simp: closed_by_def dead_def out_def pool_helpers nth_upd
           split: option.splits closed_cell.splits cell.splits if_splits)
  next
    case (Closer s c)
    with assms * show ?thesis
      by (cases c)
         (auto simp: closed_by_def dead_def out_def pool_helpers nth_upd
           split: option.splits closed_cell.splits cell.splits if_splits)
  qed (use assms * in \<open>auto simp: closed_by_def out_def pool_helpers nth_upd filled_def has_slot_def split: if_splits\<close>)
qed

lemma seg_done:
  assumes "pool_seg i ok order p st = Some (p', ps, u)" "proc_ok st i p" "off st p" "r < length (slots u)" "sclosed (slots u ! r) = CDone"
  shows "r < length (slots st) \<and> (sclosed (slots st ! r) = CDone \<or> dead st r)"
proof (cases p)
  case (GRefuse k s c)
  with assms show ?thesis
    by (cases c) (auto simp: pool_helpers nth_upd split: option.splits closed_cell.splits cell.splits if_splits)
next
  case (Closer s c)
  with assms show ?thesis
    by (cases c) (auto simp: pool_helpers nth_upd split: option.splits closed_cell.splits cell.splits if_splits)
next
  case (GInsert k)
  with assms show ?thesis
    by (cases "r = length (slots st)")
       (auto split: option.splits if_splits simp: pool_helpers nth_upd nth_append Let_def new_slot_def)
next
  case (GBound k s d)
  with assms show ?thesis by (auto split: if_splits prod.splits dest!: evictable_state)
next
  case (RClose sd keys todo skipped)
  with assms show ?thesis by (cases todo) (auto split: if_splits simp: drop_key_def)
next
  case (RForce keys skipped b)
  with assms show ?thesis by (cases skipped) (auto simp: pool_helpers split: if_splits)
next
  case (RRelease sd keys skipped)
  with assms show ?thesis by (cases keys) (auto split: if_splits)
next
  case (FFlush todo)
  with assms show ?thesis by (cases todo) (auto simp: pool_helpers nth_upd split: if_splits option.splits)
qed (use assms in \<open>auto simp: Let_def pool_helpers nth_upd split: option.splits cell.splits if_splits\<close>)

lemma seg_dbs:
  assumes "pool_seg i ok order p st = Some (p', ps, u)" "length (dbs st) \<le> d" "d < length (dbs u)"
  shows "\<exists>k s. p = GOpening k s \<and> p' = GWait k s \<and> d = length (dbs st) \<and> entries u = entries st
     \<and> slots u = (slots st)[s := (slots st ! s)\<lparr>cell := Full d\<rparr>]"
proof (cases p)
  case (GRefuse k s c)
  with assms show ?thesis
    by (cases c) (auto simp: pool_helpers split: option.splits closed_cell.splits cell.splits if_splits)
next
  case (Closer s c)
  with assms show ?thesis
    by (cases c) (auto simp: pool_helpers split: option.splits closed_cell.splits cell.splits if_splits)
next
  case (GBound k s d)
  with assms show ?thesis by (auto split: if_splits prod.splits dest!: evictable_state)
next
  case (RClose sd keys todo skipped)
  with assms show ?thesis by (cases todo) (auto split: if_splits)
next
  case (RForce keys skipped b)
  with assms show ?thesis by (cases skipped) (auto simp: pool_helpers split: if_splits)
next
  case (RRelease sd keys skipped)
  with assms show ?thesis by (cases keys) (auto split: if_splits)
next
  case (FFlush todo)
  with assms show ?thesis by (cases todo) (auto simp: pool_helpers split: if_splits option.splits)
qed (use assms in \<open>auto simp: Let_def pool_helpers less_Suc_eq split: option.splits cell.splits if_splits\<close>)

lemma closed_by_procs [simp]: "closed_by (st\<lparr>procs := ps\<rparr>) d q = closed_by st d q"
  by (simp add: closed_by_def)

lemma named_procs [simp]: "named (st\<lparr>procs := ps\<rparr>) d = named st d"
  by (simp add: named_def)

lemma seg_new_handle:
  assumes pool_seg: "pool_seg i ok order p st = Some (p', ps, u)" and ok: "proc_ok st i p"
    and d: "\<not> d < length (dbs st)" "d < length (dbs u)"
  shows "named u d \<or> closed_by u d p'"
proof -
  obtain k s where p: "p = GOpening k s" "p' = GWait k s" "entries u = entries st"
      "slots u = (slots st)[s := (slots st ! s)\<lparr>cell := Full d\<rparr>]"
    using seg_dbs [OF pool_seg, of d] d by auto
  then have s: "s < length (slots st)" "skey (slots st ! s) = k" using ok by (auto simp: permit_def has_slot_def)
  show ?thesis
  proof (cases "entries st k = Some s")
    case True
    then show ?thesis using p s by (auto simp: named_def intro!: exI [of _ k])
  next
    case False
    then show ?thesis using p s by (auto simp: closed_by_def out_def)
  qed
qed

lemma run_live:
  assumes wt: "well_typed st" and inv: "handles_inv st" and run: "run_process i ok order st = Some st'"
    and cl: "clean (Step i ok order) st" and ord: "set order = dom (entries st)" and ev: "evolves st st'"
    and d: "d < length (dbs st')" "life (dbs st' ! d) = Live"
  shows "named st' d \<or> doomed st' d"
proof -
  obtain p' ps u where i: "i < length (procs st)" and pool_seg: "pool_seg i ok order (procs st ! i) st = Some (p', ps, u)"
    and st': "st' = u\<lparr>procs := (procs st)[i := p'] @ ps\<rparr>"
    using run by (rule run_processE)
  note ok = well_typedD(4) [OF wt i]
  have own: "doomed st' d" if "closed_by u d q" "q \<in> insert p' (set ps)" for q
    using that st' set_update_memI [OF i, of p'] by (auto simp: doomed_def)
  show ?thesis
  proof (cases "d < length (dbs st)")
    case False
    then show ?thesis
      using seg_new_handle [OF pool_seg ok False] d(1) own [of p'] st' by auto
  next
    case True
    then have "life (dbs st ! d) = Live" using d ev by (auto simp: evolves_def)
    with True inv have "named st d \<or> doomed st d" by (auto simp: handles_inv_def)
    then show ?thesis
    proof
      assume "named st d"
      then obtain k s where ks: "entries st k = Some s" "cell (slots st ! s) = Full d" by (auto simp: named_def)
      then have s: "s < length (slots st)" "skey (slots st ! s) = k"
        using well_typedD(1) [OF wt ks(1)] by (auto simp: has_slot_def)
      have "cell (slots st' ! s) = Full d" using ev s ks by (auto simp: evolves_def)
      then show ?thesis
        using seg_unnames [OF pool_seg ks(1) _ s(2) ks(2) s(1) _ cl i refl ord] own d(2) st'
        by (cases "entries st' k = Some s") (auto simp: named_def)
    next
      assume "doomed st d"
      then obtain j where j: "j < length (procs st)" "closed_by st d (procs st ! j)"
        by (auto simp: doomed_def in_set_conv_nth)
      show ?thesis
      proof (cases "j = i")
        case True
        then show ?thesis
          using own [of p'] seg_still_closes [OF wt pool_seg _ ok _ \<open>d < length (dbs st)\<close>] j d(2) st' inv
          by (auto simp: handles_inv_def closers_inv_def)
      next
        case False
        with j have "procs st ! j \<in> set (procs st')"
          using st' by (auto simp: set_conv_nth nth_append intro!: exI [of _ j])
        then show ?thesis using closed_by_evolves [OF ev j(2)] by (auto simp: doomed_def)
      qed
    qed
  qed
qed

lemma act_procs_grow:
  assumes "well_typed st" "iterates ev st" "act ev st = Some st'" "\<nexists>i ok order. ev = Step i ok order"
  shows "set (procs st) \<subseteq> set (procs st')" "q \<in> set (procs st') \<Longrightarrow> q \<in> set (procs st) \<or> off st' q"
    "s < length (slots st') \<Longrightarrow> s < length (slots st) \<and> sclosed (slots st' ! s) = sclosed (slots st ! s) \<and> cell (slots st' ! s) = cell (slots st ! s)"
    "length (dbs st') = length (dbs st)"
proof -
  from act_grow [OF assms] obtain ps where ps: "same_slots st st'" "procs st' = procs st @ ps" by blast
  then show "set (procs st) \<subseteq> set (procs st')" "length (dbs st') = length (dbs st)"
    "s < length (slots st') \<Longrightarrow> s < length (slots st) \<and> sclosed (slots st' ! s) = sclosed (slots st ! s) \<and> cell (slots st' ! s) = cell (slots st ! s)"
    by (auto simp: same_slots_def)
  show "q \<in> set (procs st) \<or> off st' q" if "q \<in> set (procs st')"
  proof (cases ev)
    case (Sweep order)
    with assms that show ?thesis
      by (auto simp: pool_sweep_def spawn_def retire_def split: prod.splits if_splits dest!: evictable_state)
  next
    case (Evict k)
    with assms that well_typedD(1) [OF assms(1), of k] show ?thesis
      by (auto simp: evict_def pool_helpers out_def has_slot_def split: option.splits)
  qed (use assms that in \<open>auto simp: pool_helpers split: if_splits\<close>)
qed

lemma act_live:
  assumes wt: "well_typed st" and it: "iterates ev st" and act: "act ev st = Some st'"
    and ev: "\<nexists>i ok order. ev = Step i ok order" and inv: "named st d \<or> doomed st d"
  shows "named st' d \<or> doomed st' d"
  using inv
proof
  assume "doomed st d"
  with closed_by_evolves [OF evolves_act [OF wt it act]] act_procs_grow(1) [OF wt it act ev] show ?thesis
    by (auto simp: doomed_def)
next
  assume "named st d"
  then obtain k s where ks: "entries st k = Some s" "cell (slots st ! s) = Full d" by (auto simp: named_def)
  then have s: "s < length (slots st)" "skey (slots st ! s) = k"
    using well_typedD(1) [OF wt ks(1)] by (auto simp: has_slot_def)
  have cell: "cell (slots st' ! s) = Full d" using evolves_act [OF wt it act] s ks by (auto simp: evolves_def)
  show ?thesis
  proof (cases "entries st' k = Some s")
    case True
    with cell show ?thesis by (auto simp: named_def)
  next
    case False
    then have "ev = Evict k"
      using ks act ev by (cases ev) (auto simp: evict_def pool_helpers pool_sweep_def
        split: if_splits option.splits prod.splits dest!: evictable_state)
    then show ?thesis
      using act ks s cell by (auto simp: evict_def pool_helpers doomed_def closed_by_def out_def)
  qed
qed

lemma closers_act:
  assumes wt: "well_typed st" and inv: "closers_inv st" and it: "iterates ev st" and act: "act ev st = Some st'"
  shows "closers_inv st'"
proof (cases "\<exists>i ok order. ev = Step i ok order")
  case True
  then obtain i ok order where run: "run_process i ok order st = Some st'" using act by auto
  note evo = evolves_act [OF wt it act]
  have "dead st' r" if "r < length (slots st')" "sclosed (slots st' ! r) = CDone" for r
    using run
  proof (rule run_processE)
    fix p' ps u
    assume *: "i < length (procs st)" "pool_seg i ok order (procs st ! i) st = Some (p', ps, u)"
      "st' = u\<lparr>procs := (procs st)[i := p'] @ ps\<rparr>"
    with inv that have "dead st r"
      using seg_done [OF *(2) well_typedD(4) [OF wt *(1)], of r] by (auto simp: closers_inv_def)
    with evo show ?thesis by (auto simp: evolves_def)
  qed
  then show ?thesis using run_off [OF wt run _ evo] inv by (auto simp: closers_inv_def)
next
  case False
  note grow = act_procs_grow [OF wt it act False] and evo = evolves_act [OF wt it act]
  have "dead st' s" if "s < length (slots st')" "sclosed (slots st' ! s) = CDone" for s
    using inv evo that grow(3) [OF that(1)] by (auto simp: closers_inv_def evolves_def)
  moreover have "off st' q" if "q \<in> set (procs st')" for q
    using grow(2) [OF that] inv off_evolves [OF evo] by (auto simp: closers_inv_def)
  ultimately show ?thesis by (simp add: closers_inv_def)
qed

lemma handles_act:
  assumes wt: "well_typed st" and inv: "handles_inv st" and cl: "clean ev st" and it: "iterates ev st"
    and act: "act ev st = Some st'"
  shows "handles_inv st'"
proof -
  note evo = evolves_act [OF wt it act]
  have "named st' d \<or> doomed st' d" if "d < length (dbs st')" "life (dbs st' ! d) = Live" for d
  proof (cases "\<exists>i ok order. ev = Step i ok order")
    case True
    then show ?thesis using run_live [OF wt inv _ _ _ evo that] cl it act by auto
  next
    case False
    show ?thesis
      by (rule act_live [OF wt it act False])
         (use inv evo that act_procs_grow(4) [OF wt it act False] in \<open>auto simp: handles_inv_def evolves_def\<close>)
  qed
  then show ?thesis using closers_act [OF wt _ it act] inv by (auto simp: handles_inv_def)
qed

interpretation losing: discipline clean handles_inv
  by unfold_locales (simp add: fresh_pool_def handles_inv_def closers_inv_def, rule handles_act)

lemma live_named:
  assumes "pool_reach clean st" "d < length (dbs st)" "life (dbs st ! d) = Live"
  shows "(\<exists>s. entries st (dkey (dbs st ! d)) = Some s \<and> cell (slots st ! s) = Full d) \<or> doomed st d"
proof -
  from losing.always [OF assms(1)] assms(2,3) have "named st d \<or> doomed st d" by (simp add: handles_inv_def)
  then show ?thesis
    using filled_entry [OF well_typed_reach [OF assms(1)]] by (auto simp: named_def filled_def has_db_def)
qed

text \<open>
  C10. No handle is lost. In every interleaving that follows the discipline \<open>clean\<close>, a database
  that is open is the one the map names for its repository, or a process holds its slot and is about
  to close it: an evict that lands in the middle of an open, an open that finishes after its slot
  is gone and two closers of one slot included. So of two open databases of one repository at least
  one is about to be closed.
\<close>

theorem no_handle_lost:
  assumes "pool_reach clean st" "d < length (dbs st)" "life (dbs st ! d) = Live"
  shows "((\<exists>s. entries st (dkey (dbs st ! d)) = Some s \<and> cell (slots st ! s) = Full d) \<or> doomed st d)
    \<and> (\<forall>e < length (dbs st). e \<noteq> d \<and> life (dbs st ! e) = Live \<and> dkey (dbs st ! e) = dkey (dbs st ! d)
         \<longrightarrow> doomed st d \<or> doomed st e)"
  using live_named [OF assms] live_named [OF assms(1)] by fastforce

definition evict_mid_open :: "event list" where
  "evict_mid_open = [Get ''a/b'' False, Step 0 True [], Step 0 True []]
     @ map (\<lambda>i. Step i True [''a/b'']) [0, 0, 0] @ [Evict ''a/b'', Step 1 True [], Step 0 True []]"

theorem no_handle_lost_witness:
  "\<exists>st. performs clean evict_mid_open (empty_pool 64) = Some st \<and> length (dbs st) = 1
     \<and> life (dbs st ! 0) = Live \<and> entries st = Map.empty \<and> doomed st 0"
proof -
  let ?st = "the (performs clean evict_mid_open (empty_pool 64))"
  have *: "performs clean evict_mid_open (empty_pool 64) \<noteq> None" "dbs ?st = [new_db ''a/b'']" "entries ?st = Map.empty"
    by (simp_all add: evict_mid_open_def pool_eval)
  then obtain st where st: "performs clean evict_mid_open (empty_pool 64) = Some st" by auto
  with * no_handle_lost [OF performs_reach [OF empty_pool_reach st], of 0] show ?thesis
    by (auto simp: new_db_def)
qed

subsection \<open>Runs that lose a handle\<close>

text \<open>
  The discipline is not kept by the code alone. \<open>close_all\<close> removes a key, not the slot it picked,
  so a sweep whose pick was evicted and reopened during the drain drops the successor's slot and
  gives its lease back; \<open>close\<close> clears the map although an open that was in flight when it collected
  the handles may have finished since; and a failed open removes a slot that a waiter may have
  filled in between.
\<close>

definition lost :: "pool \<Rightarrow> nat \<Rightarrow> bool" where
  "lost st d \<longleftrightarrow> life (dbs st ! d) = Live \<and> \<not> named st d \<and> \<not> doomed st d"

definition serve :: "nat \<Rightarrow> event list" where
  "serve i = [Get ''a/b'' False, Step i True [], Step i True []]
     @ map (\<lambda>i. Step i True [''a/b'']) [i, i, i, i, i, i, i, i]"

definition stale_retire :: "event list" where
  "stale_retire = serve 0 @ [Step 0 True [''a/b''], Pass 300, Sweep [''a/b''], Evict ''a/b'']
     @ [Step 2 True [], Step 2 True [], Finish 0, Step 2 True [], Step 2 True []]
     @ serve 3 @ [Step 1 True [''a/b''], Step 1 True [''a/b''], Step 1 True [], Step 1 True [], Step 1 True []]"

lemma stale_retire_loses_handle:
  "\<exists>st. performs anything stale_retire (empty_pool 64) = Some st
     \<and> procs st ! 3 = GHold ''a/b'' 1 \<and> lost st 1 \<and> released st = [''a/b'']"
  by (simp add: stale_retire_def serve_def pool_eval lost_def named_def doomed_def closed_by_def)

definition shutdown_mid_open :: "event list" where
  "shutdown_mid_open = [Get ''a/b'' False, Step 0 True [], Step 0 True []]
     @ map (\<lambda>i. Step i True [''a/b'']) [0, 0, 0] @ [Shutdown]
     @ map (\<lambda>i. Step i True [''a/b'']) [1, 0, 0, 0, 0, 0, 1, 1, 1]"

lemma shutdown_mid_open_loses_handle:
  "\<exists>st. performs anything shutdown_mid_open (empty_pool 64) = Some st
     \<and> procs st = [GHold ''a/b'' 0, PDone] \<and> lost st 0"
  by (simp add: shutdown_mid_open_def pool_eval lost_def named_def doomed_def closed_by_def)

definition failed_open :: "event list" where
  "failed_open = [Get ''a/b'' False, Get ''a/b'' False, Step 0 True [], Step 0 True []]
     @ map (\<lambda>(i, ok). Step i ok [''a/b'']) [(1, True), (1, True), (0, True), (0, True), (0, True), (0, False),
        (1, True), (1, True), (1, True), (1, True), (1, True), (1, True), (1, True), (1, True), (0, True)]"

lemma failed_open_loses_handle:
  "\<exists>st. performs anything failed_open (empty_pool 64) = Some st
     \<and> procs st = [GErr ''a/b'' OpenFailed, GHold ''a/b'' 0] \<and> lost st 0"
  by (simp add: failed_open_def pool_eval lost_def named_def doomed_def closed_by_def)

end
