(* ===== verification/Sparing.thy ===== *)
theory Sparing
  imports Handles
begin

text \<open>
  A sweep closes only what nobody uses. A request that has taken its handle raises the handle's
  count of references, and a sweep looks at that count again after the drain, under the lock of the
  map; a request that comes later finds the slot gone and opens a new one.
\<close>

section \<open>The discipline\<close>

text \<open>No lease is lost, nothing is deleted or shut down, no handle dies by itself, and no waiter
  fills a slot between a failed open and the removal of its slot.\<close>

fun calm :: "event \<Rightarrow> pool \<Rightarrow> bool" where
  "calm (Evict k) st = False"
| "calm (Delete k) st = False"
| "calm Shutdown st = False"
| "calm (Die d r) st = False"
| "calm (Step i ok order) st = (i < length (procs st) \<longrightarrow> (case procs st ! i of
     GFail k s e \<Rightarrow> entries st k = Some s \<longrightarrow> (case cell (slots st ! s) of Full d \<Rightarrow> False | _ \<Rightarrow> True)
   | _ \<Rightarrow> True))"
| "calm ev st = True"

fun calm_proc :: "process \<Rightarrow> bool" where
  "calm_proc (GSame k d e) = False"
| "calm_proc (Closer s c) = False"
| "calm_proc (DInsert k) = False"
| "calm_proc (DRemove k) = False"
| "calm_proc (DWait k j) = False"
| "calm_proc (DWalk k) = False"
| "calm_proc (DUnmark k r) = False"
| "calm_proc (RClose sd keys todo skipped) = (\<not> sd)"
| "calm_proc (RClosing sd keys d todo skipped b) = (\<not> sd)"
| "calm_proc (RForce keys skipped b) = False"
| "calm_proc (RRelease sd keys skipped) = (\<not> sd)"
| "calm_proc SCollect = False"
| "calm_proc p = True"

text \<open>The handle a request has been given, and the picks a sweep has not yet come to.\<close>

fun held :: "process \<Rightarrow> (string \<times> nat) option" where
  "held (GBound k s d) = Some (k, d)"
| "held (GStatus k d) = Some (k, d)"
| "held (GHold k d) = Some (k, d)"
| "held p = None"

fun pending :: "process \<Rightarrow> picks" where
  "pending (RDrain picked) = picked"
| "pending (RClose sd keys todo skipped) = todo"
| "pending (RClosing sd keys d todo skipped b) = todo"
| "pending p = []"

definition serves :: "pool \<Rightarrow> string \<Rightarrow> nat \<Rightarrow> bool" where
  "serves st k d \<longleftrightarrow> (\<exists>s. entries st k = Some s \<and> cell (slots st ! s) = Full d)"

definition picked_ok :: "pool \<Rightarrow> string \<Rightarrow> nat \<Rightarrow> bool" where
  "picked_ok st k d \<longleftrightarrow> (\<exists>s. entries st k = Some s \<and> cell (slots st ! s) = Full d \<and> releasing (slots st ! s))"

definition gone :: "pool \<Rightarrow> nat \<Rightarrow> bool" where
  "gone st d \<longleftrightarrow> (\<exists>s. out st s \<and> cell (slots st ! s) = Full d)"

definition spared :: "pool \<Rightarrow> process \<Rightarrow> bool" where
  "spared st p \<longleftrightarrow> calm_proc p \<and> off st p
   \<and> (\<forall>k d. held p = Some (k, d) \<longrightarrow> serves st k d)
   \<and> (\<forall>k d. (k, d) \<in> set (pending p) \<longrightarrow> picked_ok st k d) \<and> distinct (map fst (pending p))
   \<and> (\<forall>sd keys d todo skipped b. p = RClosing sd keys d todo skipped b \<longrightarrow> gone st d)"

definition sparing_inv :: "pool \<Rightarrow> bool" where
  "sparing_inv st \<longleftrightarrow>
     (\<forall>k d. serves st k d \<longrightarrow> life (dbs st ! d) = Live \<and> reason (dbs st ! d) = None)
   \<and> (\<forall>p \<in> set (procs st). spared st p)
   \<and> (\<forall>i j k d e. i < length (procs st) \<longrightarrow> j < length (procs st) \<longrightarrow> i \<noteq> j \<longrightarrow>
        (k, d) \<in> set (pending (procs st ! i)) \<longrightarrow> (k, e) \<notin> set (pending (procs st ! j)))"

section \<open>References\<close>

lemma two_procs_count:
  fixes f :: "'a \<Rightarrow> nat"
  assumes "i < length xs" "j < length xs" "i \<noteq> j"
  shows "f (xs ! i) + f (xs ! j) \<le> sum_list (map f xs)"
proof -
  have "sum f' {i, j} \<le> sum f' {0..<length xs}" for f' :: "nat \<Rightarrow> nat"
    using assms by (intro sum_mono2) auto
  from this [of "\<lambda>n. f (xs ! n)"] assms show ?thesis
    by (simp add: sum_list_sum_nth)
qed

lemma strong_count_three:
  assumes wt: "well_typed st" and ks: "entries st k = Some s" "cell (slots st ! s) = Full d"
    and ij: "i < length (procs st)" "j < length (procs st)" "i \<noteq> j"
    and d: "d \<in> set (handles (procs st ! i))" "d \<in> set (handles (procs st ! j))"
  shows "2 < strong_count st d"
proof -
  have s: "s < length (slots st)" "skey (slots st ! s) = k"
    using well_typedD(1) [OF wt ks(1)] by (auto simp: has_slot_def)
  then have "s \<in> set (filter (\<lambda>s. cell (slots st ! s) = Full d \<and> slot_alive st s) [0..<length (slots st)])"
    using ks by (simp add: slot_alive_def)
  then have "0 < length (filter (\<lambda>s. cell (slots st ! s) = Full d \<and> slot_alive st s) [0..<length (slots st)])"
    by (rule length_pos_if_in_set)
  moreover have "0 < count_list (handles (procs st ! i)) d" "0 < count_list (handles (procs st ! j)) d"
    using d by (meson count_list_0_iff gr0I)+
  ultimately show ?thesis
    using two_procs_count [OF ij, of "\<lambda>p. count_list (handles p) d"] unfolding strong_count_def by linarith
qed

lemma held_handles: "held p = Some (k, d) \<Longrightarrow> d \<in> set (handles p)"
  by (cases p) auto

section \<open>What a step changes\<close>

lemma calm_removes:
  assumes pool_seg: "pool_seg i ok order p st = Some (p', ps, u)" and ent: "entries st k = Some s" "entries u k \<noteq> Some s"
    and cell: "cell (slots st ! s) = Full d" and sp: "spared st p"
    and calm: "calm (Step i ok order) st" "i < length (procs st)" "procs st ! i = p"
  shows "\<exists>keys todo skipped. p = RClose False keys ((k, d) # todo) skipped \<and> strong_count st d \<le> 2"
proof (cases p)
  case (RClose sd keys todo skipped)
  with assms show ?thesis
    by (cases todo) (auto simp: drop_key_def spared_def picked_ok_def split: if_splits)
next
  case (GRefuse k s c)
  with assms show ?thesis
    by (cases c) (auto simp: pool_helpers split: option.splits closed_cell.splits cell.splits if_splits)
next
  case (GBound k s d)
  with assms show ?thesis by (auto split: if_splits prod.splits dest!: evictable_state)
next
  case (RRelease sd keys skipped)
  with assms show ?thesis by (cases keys) (auto simp: spared_def)
next
  case (FFlush todo)
  with assms show ?thesis by (cases todo) (auto simp: pool_helpers split: if_splits option.splits)
next
  case (GFail k s e)
  with assms show ?thesis by (auto simp: drop_key_def split: if_splits)
qed (use assms in \<open>auto simp: Let_def pool_helpers spared_def split: option.splits cell.splits if_splits\<close>)

lemma flag_releasing:
  assumes "s < length (slots st)" "releasing (slots st ! s) \<or> entries st k = Some s"
  shows "releasing (slots (flag True k st) ! s)"
  using assms by (auto simp: flag_def upd_slot_def nth_upd split: option.split)

lemma flags_releasing:
  "releasing (slots st ! s) \<Longrightarrow> s < length (slots st) \<Longrightarrow> releasing (slots (fold (flag True \<circ> fst) ps st) ! s)"
  by (induction ps arbitrary: st) (simp_all add: flag_releasing)

lemma calm_unflags:
  assumes pool_seg: "pool_seg i ok order p st = Some (p', ps, u)" and s: "s < length (slots st)"
    and rel: "releasing (slots st ! s)" "\<not> releasing (slots u ! s)" and sp: "spared st p"
  shows "\<exists>k d keys todo skipped. p = RClose False keys ((k, d) # todo) skipped \<and> entries st k = Some s"
proof -
  note keep = flags_releasing [OF rel(1) s]
  show ?thesis
  proof (cases p)
    case (RClose sd keys todo skipped)
    with assms show ?thesis
      by (cases todo) (auto simp: drop_key_def flag_def upd_slot_def nth_upd spared_def split: if_splits option.splits)
  next
    case (GRefuse k s c)
    with assms show ?thesis
      by (cases c) (auto simp: pool_helpers nth_upd split: option.splits closed_cell.splits cell.splits if_splits)
  next
    case (GBound k s d)
    with assms keep show ?thesis by (auto split: if_splits prod.splits dest!: evictable_state)
  next
    case (RRelease sd keys skipped)
    with assms show ?thesis by (cases keys) (auto simp: spared_def)
  next
    case (FFlush todo)
    with assms show ?thesis by (cases todo) (auto simp: pool_helpers nth_upd split: if_splits option.splits)
  next
    case (GInsert k)
    with assms show ?thesis
      by (auto split: option.splits if_splits simp: pool_helpers nth_upd nth_append Let_def)
  qed (use assms in \<open>auto simp: Let_def pool_helpers nth_upd spared_def split: option.splits cell.splits if_splits\<close>)
qed

lemma calm_closes:
  assumes pool_seg: "pool_seg i ok order p st = Some (p', ps, u)" and ok: "proc_ok st i p" and sp: "spared st p"
    and d: "d < length (dbs st)" "dbs u ! d \<noteq> dbs st ! d"
  shows "gone st d"
proof (cases p)
  case (GRefuse k s c)
  with assms show ?thesis
    by (cases c) (auto simp: pool_helpers nth_upd gone_def spared_def
      split: option.splits closed_cell.splits cell.splits if_splits)
next
  case (GBound k s d)
  with assms show ?thesis by (auto split: if_splits prod.splits dest!: evictable_state)
next
  case (RClose sd keys todo skipped)
  with assms show ?thesis by (cases todo) (auto split: if_splits)
next
  case (RRelease sd keys skipped)
  with assms show ?thesis by (cases keys) (auto split: if_splits)
next
  case (FFlush todo)
  with assms show ?thesis by (cases todo) (auto simp: pool_helpers split: if_splits option.splits)
qed (use assms in \<open>auto simp: Let_def pool_helpers nth_upd nth_append spared_def split: option.splits cell.splits if_splits\<close>)

lemma serves_not_gone: "well_typed st \<Longrightarrow> serves st k d \<Longrightarrow> \<not> gone st d"
  unfolding serves_def gone_def out_def using well_typedD(1,3) has_slot_def by metis

lemma seg_serves:
  assumes wt: "well_typed st" and pool_seg: "pool_seg i ok order p st = Some (p', ps, u)" and p: "proc_ok st i p" "spared st p"
    and live: "\<forall>k d. serves st k d \<longrightarrow> life (dbs st ! d) = Live \<and> reason (dbs st ! d) = None"
    and wt': "well_typed (u\<lparr>procs := qs\<rparr>)" and sv: "serves u k d"
  shows "life (dbs u ! d) = Live \<and> reason (dbs u ! d) = None"
proof -
  obtain s where s: "entries u k = Some s" "cell (slots u ! s) = Full d" using sv by (auto simp: serves_def)
  have lt: "s < length (slots u)" using well_typedD(1) [OF wt'] s by (simp add: has_slot_def)
  from seg_fills [OF pool_seg p(1) lt s(2)] show ?thesis
  proof
    assume old: "s < length (slots st) \<and> cell (slots st ! s) = Full d"
    then have sv: "serves st k d"
      using seg_entries(1) [OF pool_seg p(1) s(1)] by (auto simp: serves_def)
    moreover have "d < length (dbs st)"
      using well_typedD(2) [OF wt] old by (auto simp: slot_ok_def has_db_def)
    ultimately show ?thesis
      using calm_closes [OF pool_seg p] serves_not_gone [OF wt sv] live by metis
  next
    assume "(\<exists>k. p = GOpening k s \<and> p' = GWait k s) \<and> d = length (dbs st) \<and> entries u = entries st"
    then show ?thesis using pool_seg by (auto simp: pool_helpers new_db_def split: if_splits)
  qed
qed

subsection \<open>Picks\<close>

lemma idle_distinct: "distinct order \<Longrightarrow> distinct (map snd (idle_entries st order))"
  by (auto simp: idle_entries_def distinct_map inj_on_def)

lemma pick_loop_keys: "(k, d) \<in> set (pick_loop st ov i idle) \<Longrightarrow> k \<in> snd ` set idle"
  using pick_loop_set by blast

lemma pick_loop_distinct: "distinct (map snd idle) \<Longrightarrow> distinct (map fst (pick_loop st ov i idle))"
  by (induction st ov i idle rule: pick_loop.induct) (auto split: cell.splits dest!: pick_loop_keys, force+)

lemma flags_set:
  "k \<in> fst ` set ps \<Longrightarrow> entries st k = Some s \<Longrightarrow> s < length (slots st) \<Longrightarrow> releasing (slots (fold (flag True \<circ> fst) ps st) ! s)"
proof (induction ps arbitrary: st)
  case (Cons x ps)
  then show ?case
    using flags_releasing [of "flag True (fst x) st" s ps] by (cases "k = fst x") (auto simp: flag_releasing comp_def)
qed simp

lemma evictable_picked:
  assumes wt: "well_typed st" and ev: "evictable order st = (picked, u)" and ord: "distinct order" "set order = dom (entries st)"
  shows "distinct (map fst picked)" "(k, d) \<in> set picked \<Longrightarrow> picked_ok u k d"
    "(k, d) \<in> set picked \<Longrightarrow> \<not> picked_ok st k e"
proof -
  show "distinct (map fst picked)"
    using ev pick_loop_distinct [OF idle_distinct [OF ord(1)]] by (auto simp: evictable_def Let_def)
  assume kd: "(k, d) \<in> set picked"
  with evictable_picks [OF ev ord(2) kd] obtain s where s: "entries st k = Some s" "cell (slots st ! s) = Full d" "\<not> releasing (slots st ! s)"
    by metis
  then have lt: "s < length (slots st)" using well_typedD(1) [OF wt] by (simp add: has_slot_def)
  show "\<not> picked_ok st k e" using s by (simp add: picked_ok_def)
  show "picked_ok u k d"
    using s lt flags_set [of k picked st s] kd by (force simp: picked_ok_def evictable_state [OF ev])
qed

lemma seg_pending:
  assumes "pool_seg i ok order p st = Some (p', ps, u)" "calm_proc p"
  shows "set (pending p') \<subseteq> set (pending p) \<and> (distinct (map fst (pending p)) \<longrightarrow> distinct (map fst (pending p')))"
proof (cases p)
  case (RClose sd keys todo skipped)
  with assms show ?thesis by (cases todo) (auto split: if_splits)
next
  case (RRelease sd keys skipped)
  with assms show ?thesis by (cases keys) (auto split: if_splits)
next
  case (FFlush todo)
  with assms show ?thesis by (cases todo) (auto split: if_splits)
qed (use assms in \<open>auto simp: Let_def split: option.splits cell.splits if_splits prod.splits close_reason.splits\<close>)

lemma seg_calm:
  assumes "pool_seg i ok order p st = Some (p', ps, u)" "calm_proc p" "\<forall>k d. p = GStatus k d \<longrightarrow> reason (dbs st ! d) = None"
  shows "calm_proc p' \<and> (\<forall>q \<in> set ps. \<exists>picked k s d. q = RDrain picked \<and> p = GBound k s d \<and> evictable order st = (picked, u))
     \<and> length ps \<le> 1"
proof (cases p)
  case (RClose sd keys todo skipped)
  with assms show ?thesis by (cases todo) (auto split: if_splits)
next
  case (RRelease sd keys skipped)
  with assms show ?thesis by (cases keys) (auto split: if_splits)
next
  case (FFlush todo)
  with assms show ?thesis by (cases todo) (auto split: if_splits)
qed (use assms in \<open>auto simp: Let_def retire_def split: option.splits cell.splits if_splits prod.splits close_reason.splits\<close>)

lemma seg_held:
  assumes "pool_seg i ok order p st = Some (p', ps, u)" "held p' = Some (k, d)"
  shows "held p = Some (k, d) \<and> entries u = entries st \<and> (\<forall>s < length (slots st). cell (slots u ! s) = cell (slots st ! s))
     \<or> (\<exists>s. p = GAdopt k s d \<and> entries st k = Some s \<and> u = st)"
proof (cases p)
  case (GBound k s d)
  with assms show ?thesis by (auto split: if_splits prod.splits dest!: evictable_state)
next
  case (RClose sd keys todo skipped)
  with assms show ?thesis by (cases todo) (auto split: if_splits)
next
  case (RForce keys skipped b)
  with assms show ?thesis by (cases skipped) (auto split: if_splits)
next
  case (RRelease sd keys skipped)
  with assms show ?thesis by (cases keys) (auto split: if_splits)
next
  case (FFlush todo)
  with assms show ?thesis by (cases todo) (auto split: if_splits)
qed (use assms in \<open>auto simp: Let_def split: option.splits cell.splits if_splits prod.splits close_reason.splits\<close>)

lemma seg_closing:
  assumes wt: "well_typed st" and pool_seg: "pool_seg i ok order p st = Some (RClosing sd keys d todo skipped b, ps, u)" and sp: "spared st p"
    and ok: "proc_ok st i p"
  shows "gone u d"
proof (cases p)
  case (RClose sd' keys' todo' skipped')
  with pool_seg obtain k where todo': "todo' = (k, d) # todo" "u = drop_key k st"
    by (cases todo') (auto split: if_splits)
  with RClose sp have "picked_ok st k d" by (simp add: spared_def)
  then obtain s where "entries st k = Some s" "cell (slots st ! s) = Full d" by (auto simp: picked_ok_def)
  then show ?thesis
    using well_typedD(1) [OF wt, of k s] todo' by (auto simp: gone_def out_def drop_key_def has_slot_def)
next
  case (RClosing sd' keys' d' todo' skipped' b')
  with pool_seg sp show ?thesis by (auto simp: spared_def gone_def out_def pool_helpers split: if_splits)
next
  case (RForce keys skipped b)
  with pool_seg show ?thesis by (cases skipped) (auto split: if_splits)
next
  case (RRelease sd keys skipped)
  with pool_seg show ?thesis by (cases keys) (auto split: if_splits)
next
  case (FFlush todo)
  with pool_seg show ?thesis by (cases todo) (auto split: if_splits)
qed (use pool_seg in \<open>auto simp: Let_def split: option.splits cell.splits if_splits prod.splits close_reason.splits\<close>)

section \<open>The invariant is kept\<close>

lemma picked_stays:
  assumes wt: "well_typed st" and pool_seg: "pool_seg i ok order (procs st ! i) st = Some (p', ps, u)" and i: "i < length (procs st)"
    and sp: "spared st (procs st ! i)" and calm: "calm (Step i ok order) st" and relies: "relies j st u"
    and pk: "picked_ok st k d" and free: "\<And>keys e todo skipped. procs st ! i \<noteq> RClose False keys ((k, e) # todo) skipped"
  shows "picked_ok u k d"
proof -
  obtain s where s: "entries st k = Some s" "cell (slots st ! s) = Full d" "releasing (slots st ! s)"
    using pk by (auto simp: picked_ok_def)
  then have lt: "s < length (slots st)" "skey (slots st ! s) = k"
    using well_typedD(1) [OF wt] by (auto simp: has_slot_def)
  have "entries u k = Some s"
    using calm_removes [OF pool_seg s(1) _ s(2) sp calm i refl] free by blast
  moreover have "releasing (slots u ! s)"
  proof (rule ccontr)
    assume "\<not> releasing (slots u ! s)"
    from calm_unflags [OF pool_seg lt(1) s(3) this sp] obtain k' e keys todo skipped
      where "procs st ! i = RClose False keys ((k', e) # todo) skipped" "entries st k' = Some s" by blast
    with free lt well_typedD(1) [OF wt, of k' s] show False by (auto simp: has_slot_def)
  qed
  moreover have "cell (slots u ! s) = Full d" using relies lt s by (simp add: relies_def)
  ultimately show ?thesis by (auto simp: picked_ok_def)
qed

lemma serves_stays:
  assumes wt: "well_typed st" and pool_seg: "pool_seg i ok order (procs st ! i) st = Some (p', ps, u)"
    and sp: "spared st (procs st ! i)" and calm: "calm (Step i ok order) st" and relies: "relies j st u"
    and ij: "i < length (procs st)" "j < length (procs st)" "i \<noteq> j"
    and sv: "serves st k d" "d \<in> set (handles (procs st ! j))"
  shows "serves u k d"
proof -
  obtain s where s: "entries st k = Some s" "cell (slots st ! s) = Full d" using sv by (auto simp: serves_def)
  then have lt: "s < length (slots st)" using well_typedD(1) [OF wt] by (auto simp: has_slot_def)
  have "entries u k = Some s"
  proof (rule ccontr)
    assume "entries u k \<noteq> Some s"
    from calm_removes [OF pool_seg s(1) this s(2) sp calm ij(1) refl]
    have "d \<in> set (handles (procs st ! i))" "strong_count st d \<le> 2" by auto
    with strong_count_three [OF wt s ij _ sv(2)] show False by simp
  qed
  moreover have "cell (slots u ! s) = Full d" using relies lt s by (simp add: relies_def)
  ultimately show ?thesis by (auto simp: serves_def)
qed

lemma sparing_invD:
  assumes "sparing_inv st"
  shows "serves st k d \<Longrightarrow> life (dbs st ! d) = Live \<and> reason (dbs st ! d) = None"
    "i < length (procs st) \<Longrightarrow> spared st (procs st ! i)"
    "i < length (procs st) \<Longrightarrow> j < length (procs st) \<Longrightarrow> i \<noteq> j \<Longrightarrow> (k, d) \<in> set (pending (procs st ! i)) \<Longrightarrow> (k, e) \<notin> set (pending (procs st ! j))"
  using assms unfolding sparing_inv_def by (blast, simp, blast)

lemma gone_evolves: "evolves st st' \<Longrightarrow> gone st d \<Longrightarrow> gone st' d"
  unfolding gone_def evolves_def by (metis out_def)

lemma spared_procs:
  "serves (u\<lparr>procs := qs\<rparr>) k d = serves u k d" "picked_ok (u\<lparr>procs := qs\<rparr>) k d = picked_ok u k d"
  "gone (u\<lparr>procs := qs\<rparr>) d = gone u d"
  by (simp_all add: serves_def picked_ok_def gone_def)

lemma spared_other:
  assumes wt: "well_typed st" and inv: "sparing_inv st" and pool_seg: "pool_seg i ok order (procs st ! i) st = Some (p', ps, u)"
    and calm: "calm (Step i ok order) st" and ij: "i < length (procs st)" "j < length (procs st)" "i \<noteq> j"
    and evo: "evolves st (u\<lparr>procs := qs\<rparr>)"
  shows "spared (u\<lparr>procs := qs\<rparr>) (procs st ! j)"
proof -
  note sp = sparing_invD(2) [OF inv]
  have relies: "relies j st u" using seg_keeps [OF pool_seg well_typedD(4) [OF wt ij(1)]] ij(3) by simp
  have "serves u k d" if "held (procs st ! j) = Some (k, d)" for k d
    using serves_stays [OF wt pool_seg sp [OF ij(1)] calm relies ij _ held_handles [OF that]] sp [OF ij(2)] that
    by (auto simp: spared_def)
  moreover have "picked_ok u k d" if kd: "(k, d) \<in> set (pending (procs st ! j))" for k d
  proof (rule picked_stays [OF wt pool_seg ij(1) sp [OF ij(1)] calm relies])
    show "picked_ok st k d" using sp [OF ij(2)] kd by (auto simp: spared_def)
    show "procs st ! i \<noteq> RClose False keys ((k, e) # todo) skipped" for keys e todo skipped
      using sparing_invD(3) [OF inv ij(2,1) _ kd, of e] ij(3) by auto
  qed
  ultimately show ?thesis
    using sp [OF ij(2)] off_evolves [OF evo] gone_evolves [OF evo] by (auto simp: spared_def spared_procs)
qed

lemma spared_own:
  assumes wt: "well_typed st" and inv: "sparing_inv st" and pool_seg: "pool_seg i ok order (procs st ! i) st = Some (p', ps, u)"
    and calm: "calm (Step i ok order) st" and i: "i < length (procs st)" and u: "v = u\<lparr>procs := (procs st)[i := p'] @ ps\<rparr>"
  shows "spared v p'"
proof -
  note sp = sparing_invD(2) [OF inv i] and ok = well_typedD(4) [OF wt i]
  have relies: "relies (Suc i) st u" using seg_keeps [OF pool_seg ok] by simp
  have held: "serves u k d" if h: "held p' = Some (k, d)" for k d
    using seg_held [OF pool_seg h]
  proof
    assume "held (procs st ! i) = Some (k, d) \<and> entries u = entries st \<and> (\<forall>s < length (slots st). cell (slots u ! s) = cell (slots st ! s))"
    with sp show ?thesis
      using well_typedD(1) [OF wt] by (auto simp: spared_def serves_def has_slot_def)
  next
    assume "\<exists>s. procs st ! i = GAdopt k s d \<and> entries st k = Some s \<and> u = st"
    with ok show ?thesis by (auto simp: serves_def filled_def)
  qed
  have calm': "calm_proc p'"
    using seg_calm [OF pool_seg] sp sparing_invD(1) [OF inv] by (fastforce simp: spared_def)
  have pend: "picked_ok u k d" if kd: "(k, d) \<in> set (pending p')" for k d
  proof (rule picked_stays [OF wt pool_seg i sp calm relies])
    show "picked_ok st k d" using seg_pending [OF pool_seg] sp kd by (auto simp: spared_def)
    show "procs st ! i \<noteq> RClose False keys ((k, e) # todo) skipped" for keys e todo skipped
      using pool_seg sp kd by (auto simp: spared_def split: if_splits) force+
  qed
  show ?thesis
    using held calm' pend seg_pending [OF pool_seg] seg_off [OF wt pool_seg _ ok] seg_closing [OF wt _ sp ok] pool_seg sp u
    by (auto simp: spared_def spared_procs)
qed

lemma spawned_picks:
  assumes wt: "well_typed st" and ev: "evictable order st = (picked, u)" and ord: "distinct order" "set order = dom (entries st)"
  shows "spared (u\<lparr>procs := qs\<rparr>) (RDrain picked)"
  using evictable_picked [OF wt ev ord] by (auto simp: spared_def spared_procs)

lemma spared_procs_run:
  assumes wt: "well_typed st" and inv: "sparing_inv st" and i: "i < length (procs st)"
    and pool_seg: "pool_seg i ok order (procs st ! i) st = Some (p', ps, u)" and v: "v = u\<lparr>procs := (procs st)[i := p'] @ ps\<rparr>"
    and calm: "calm (Step i ok order) st" and ord: "distinct order" "set order = dom (entries st)" and evo: "evolves st v"
    and j: "j < length (procs v)"
  shows "spared v (procs v ! j) \<and> ((k, d) \<in> set (pending (procs v ! j)) \<longrightarrow>
      j < length (procs st) \<and> (k, d) \<in> set (pending (procs st ! j)) \<or> length (procs st) \<le> j \<and> \<not> (\<exists>e. picked_ok st k e))"
proof -
  note sp = sparing_invD(2) [OF inv i]
  have spawn: "\<exists>picked. q = RDrain picked \<and> evictable order st = (picked, u)" if "q \<in> set ps" for q
    using seg_calm [OF pool_seg] sp sparing_invD(1) [OF inv] that by (fastforce simp: spared_def)
  from j have "j < length ((procs st)[i := p'] @ ps)" using v by simp
  then show ?thesis
  proof (cases rule: proc_cases)
    case 1
    then show ?thesis using v spared_own [OF wt inv pool_seg calm i v] seg_pending [OF pool_seg] sp by (auto simp: spared_def)
  next
    case 2
    then show ?thesis using v spared_other [OF wt inv pool_seg calm i _ _ evo [unfolded v]] by auto
  next
    case 3
    then show ?thesis using v spawn spawned_picks [OF wt _ ord] evictable_picked(3) [OF wt _ ord] by fastforce
  qed
qed

text \<open>Picks stay apart when at most one process that picks is added and what it picks was not picked before.\<close>

lemma pending_apart:
  assumes inv: "sparing_inv st" and n: "length (procs v) \<le> Suc (length (procs st))"
    and procs: "\<And>j k d. j < length (procs v) \<Longrightarrow> (k, d) \<in> set (pending (procs v ! j)) \<Longrightarrow>
      j < length (procs st) \<and> (k, d) \<in> set (pending (procs st ! j)) \<or> length (procs st) \<le> j \<and> \<not> (\<exists>e. picked_ok st k e)"
    and ab: "a < length (procs v)" "b < length (procs v)" "a \<noteq> b" and kd: "(k, d) \<in> set (pending (procs v ! a))"
  shows "(k, e) \<notin> set (pending (procs v ! b))"
proof
  assume ke: "(k, e) \<in> set (pending (procs v ! b))"
  have "picked_ok st k d'" if "j < length (procs st)" "(k, d') \<in> set (pending (procs st ! j))" for j d'
    using sparing_invD(2) [OF inv that(1)] that(2) by (auto simp: spared_def)
  then have "length (procs st) \<le> a \<and> length (procs st) \<le> b"
    using procs [OF ab(1) kd] procs [OF ab(2) ke] sparing_invD(3) [OF inv _ _ ab(3)] by blast
  with ab n show False by simp
qed

lemma sparing_run:
  assumes wt: "well_typed st" and inv: "sparing_inv st" and run: "run_process i ok order st = Some v"
    and calm: "calm (Step i ok order) st" and ord: "distinct order" "set order = dom (entries st)" and evo: "evolves st v"
  shows "sparing_inv v"
proof -
  obtain p' ps u where i: "i < length (procs st)" and pool_seg: "pool_seg i ok order (procs st ! i) st = Some (p', ps, u)"
    and v: "v = u\<lparr>procs := (procs st)[i := p'] @ ps\<rparr>"
    using run by (rule run_processE)
  note sp = sparing_invD(2) [OF inv i] and ok = well_typedD(4) [OF wt i]
  note procs = spared_procs_run [OF wt inv i pool_seg v calm ord evo]
  have "length ps \<le> 1"
    using seg_calm [OF pool_seg] sp sparing_invD(1) [OF inv] by (fastforce simp: spared_def)
  then have n: "length (procs v) \<le> Suc (length (procs st))" by (simp add: v)
  show ?thesis
    unfolding sparing_inv_def
  proof (intro conjI allI impI ballI)
    show "life (dbs v ! d) = Live" "reason (dbs v ! d) = None" if "serves v k d" for k d
      using seg_serves [OF wt pool_seg ok sp _ _, of _ k d] sparing_invD(1) [OF inv] that well_typed_run [OF wt run ord(2)]
      by (auto simp: v spared_procs)
    show "spared v p" if "p \<in> set (procs v)" for p
      using that procs by (metis in_set_conv_nth)
    show "(k, e) \<notin> set (pending (procs v ! b))"
      if "a < length (procs v)" "b < length (procs v)" "a \<noteq> b" "(k, d) \<in> set (pending (procs v ! a))" for a b k d e
      by (rule pending_apart [OF inv n _ that]) (use procs in blast)
  qed
qed

lemma sparing_grow:
  assumes wt: "well_typed st" and inv: "sparing_inv st" and evo: "evolves st v"
    and same: "entries v = entries st" "\<And>s. s < length (slots st) \<Longrightarrow> cell (slots v ! s) = cell (slots st ! s)"
      "\<And>s. s < length (slots st) \<Longrightarrow> releasing (slots st ! s) \<Longrightarrow> releasing (slots v ! s)"
    and dbs: "\<And>d. life (dbs st ! d) = Live \<Longrightarrow> dbs v ! d = dbs st ! d"
    and ps: "procs v = procs st @ ps" "length ps \<le> 1" "\<And>q. q \<in> set ps \<Longrightarrow> spared v q"
      "\<And>q k d e. q \<in> set ps \<Longrightarrow> (k, d) \<in> set (pending q) \<Longrightarrow> \<not> picked_ok st k e"
  shows "sparing_inv v"
proof -
  have lt: "s < length (slots st)" if "entries st k = Some s" for k s
    using well_typedD(1) [OF wt that] by (simp add: has_slot_def)
  then have serves: "serves v k d = serves st k d" and picked: "picked_ok st k d \<Longrightarrow> picked_ok v k d" for k d
    using same by (auto simp: serves_def picked_ok_def)
  have old: "spared v p" if "p \<in> set (procs st)" for p
    using inv that serves picked off_evolves [OF evo] gone_evolves [OF evo] by (auto simp: sparing_inv_def spared_def)
  show ?thesis
    unfolding sparing_inv_def
  proof (intro conjI allI impI ballI)
    show "life (dbs v ! d) = Live" "reason (dbs v ! d) = None" if "serves v k d" for k d
      using sparing_invD(1) [OF inv, of k d] dbs that serves by auto
    show "spared v p" if "p \<in> set (procs v)" for p using that old ps by auto
    show "(k, e) \<notin> set (pending (procs v ! b))"
      if "a < length (procs v)" "b < length (procs v)" "a \<noteq> b" "(k, d) \<in> set (pending (procs v ! a))" for a b k d e
      by (rule pending_apart [OF inv _ _ that]) (use ps in \<open>cases ps; auto simp: nth_append split: if_splits\<close>)+
  qed
qed

lemma sparing_act:
  assumes wt: "well_typed st" and inv: "sparing_inv st" and calm: "calm ev st" and it: "iterates ev st" and act: "act ev st = Some v"
  shows "sparing_inv v"
proof -
  note evo = evolves_act [OF wt it act]
  show ?thesis
  proof (cases ev)
    case (Step i ok order)
    with act calm it show ?thesis using sparing_run [OF wt inv _ _ _ _ evo] by simp
  next
    case (Sweep order)
    obtain picked u where ev: "evictable order st = (picked, u)" by fastforce
    with act Sweep have v: "v = u\<lparr>procs := procs st @ retire picked\<rparr>"
      by (simp add: pool_sweep_def spawn_def evictable_keeps(3))
    have ord: "distinct order" "set order = dom (entries st)" using it Sweep by auto
    show ?thesis
      by (rule sparing_grow [OF wt inv evo, of "retire picked"])
         (use v evictable_state [OF ev] spawned_picks [OF wt ev ord] evictable_picked(3) [OF wt ev ord]
           in \<open>auto simp: retire_def flags_releasing split: if_splits\<close>)
  next
    case (Get k unowned)
    with act show ?thesis
      by (intro sparing_grow [OF wt inv evo, of "[GStart k unowned]"]) (auto simp: spawn_def spared_def)
  next
    case (FlushStale order)
    with act show ?thesis
      by (intro sparing_grow [OF wt inv evo, of "[FFlush (flush_due order st)]"]) (auto simp: spawn_def spared_def)
  next
    case (Pass t)
    with act show ?thesis by (intro sparing_grow [OF wt inv evo, of "[]"]) auto
  next
    case (Finish d)
    with act show ?thesis
      by (intro sparing_grow [OF wt inv evo, of "[]"]) (auto simp: pool_helpers nth_list_update split: if_splits)
  next
    case (Write d)
    with act show ?thesis
      by (intro sparing_grow [OF wt inv evo, of "[]"]) (auto simp: wrote_def split: if_splits)
  qed (use calm in auto)
qed

interpretation spare: discipline calm sparing_inv
  by unfold_locales (simp add: fresh_pool_def sparing_inv_def serves_def, rule sparing_act)


definition request_in_drain :: "event list" where
  "request_in_drain = serve 0 @ [Step 0 True [''a/b''], Pass 300, Sweep [''a/b''], Get ''a/b'' False]
     @ map (\<lambda>i. Step i True [''a/b'']) [2, 2, 2, 2, 2, 2, 1, 1, 1, 1]"


end
