(* ===== verification/Deleting.thy ===== *)
theory Deleting
  imports Sparing
begin

text \<open>
  Deleting a repository's database: the delete marks the key, takes the slot out of the map, waits
  until its handle is shut and removes the files. Nothing writes under the prefix afterwards until
  the mark is lifted, as long as no handle of the repository is open or being closed outside the map
  when the slot is taken out.
\<close>

section \<open>The discipline\<close>

fun deletes :: "process \<Rightarrow> string option" where
  "deletes (DInsert k) = Some k"
| "deletes (DRemove k) = Some k"
| "deletes (DWait k j) = Some k"
| "deletes (DWalk k) = Some k"
| "deletes (DUnmark k r) = Some k"
| "deletes p = None"

text \<open>The handles a sweep or shutdown may still close by itself.\<close>

fun sweeps :: "process \<Rightarrow> nat list" where
  "sweeps (RDrain picked) = map snd picked"
| "sweeps (RClose sd keys todo skipped) = map snd todo @ map snd skipped"
| "sweeps (RClosing sd keys d todo skipped b) = d # map snd todo @ map snd skipped"
| "sweeps (RForce keys skipped b) = map snd skipped"
| "sweeps p = []"

fun opens :: "process \<Rightarrow> nat option" where
  "opens (GOpening k s) = Some s"
| "opens p = None"

lemma opens_iff: "opens p = Some s \<longleftrightarrow> (\<exists>k. p = GOpening k s)"
  by (cases p) auto

definition settled :: "pool \<Rightarrow> nat \<Rightarrow> bool" where
  "settled st s \<longleftrightarrow> (case cell (slots st ! s) of
     Full d \<Rightarrow> life (dbs st ! d) = Shut
   | Opening i \<Rightarrow> opens (procs st ! i) \<noteq> Some s
   | Empty \<Rightarrow> True)"

definition unswept :: "pool \<Rightarrow> string \<Rightarrow> process \<Rightarrow> bool" where
  "unswept st k p \<longleftrightarrow> (\<forall>d \<in> set (sweeps p). dkey (dbs st ! d) = k \<longrightarrow> life (dbs st ! d) = Shut)"

definition not_closing :: "pool \<Rightarrow> nat \<Rightarrow> bool" where
  "not_closing st s \<longleftrightarrow> (case cell (slots st ! s) of Full d \<Rightarrow> life (dbs st ! d) \<noteq> Closing | _ \<Rightarrow> True)"

definition quiet :: "pool \<Rightarrow> string \<Rightarrow> bool" where
  "quiet st k \<longleftrightarrow> list_all (\<lambda>s. skey (slots st ! s) = k \<longrightarrow>
       (if entries st k = Some s then not_closing st s else settled st s)) [0..<length (slots st)]
   \<and> list_all (unswept st k) (procs st)"

text \<open>One delete of a key at a time; a slot is taken out while nothing else of its repository is
  open or being closed; and the close ends before its deadline.\<close>

fun orderly :: "event \<Rightarrow> pool \<Rightarrow> bool" where
  "orderly (Delete k) st = list_all (\<lambda>p. deletes p \<noteq> Some k) (procs st)"
| "orderly (Step i ok order) st = (i < length (procs st) \<longrightarrow> (case procs st ! i of
     DRemove k \<Rightarrow> quiet st k
   | DWait k j \<Rightarrow> ok
   | _ \<Rightarrow> True))"
| "orderly ev st = True"

subsection \<open>A run outside the discipline\<close>

text \<open>
  A delete that arrives while a sweep is closing the handle finds no slot in the map, waits for
  nothing and removes the files; the sweep's close then writes its last manifest. \<open>close_all\<close> calls
  \<open>Db::close\<close> on the handle it picked and not the shared \<open>Entry::close\<close> that the delete waits for.
\<close>

definition delete_in_sweep :: "event list" where
  "delete_in_sweep = serve 0 @ [Step 0 True [''a/b''], Pass 300, Sweep [''a/b''], Step 1 True [''a/b''],
     Step 1 True [''a/b''], Step 1 True [], Delete ''a/b'', Step 2 True [], Step 2 True [], Step 2 True [],
     Finish 0, Step 2 True []]"

lemma delete_in_sweep_leaves_files:
  "\<exists>st. performs anything delete_in_sweep (empty_pool 64) = Some st
     \<and> procs st ! 2 = DEnd ''a/b'' True \<and> ''a/b'' \<in> ondisk st \<and> entries st = Map.empty"
  by (simp add: delete_in_sweep_def serve_def pool_eval)

section \<open>What a step changes\<close>

lemma seg_life_change:
  assumes "pool_seg i ok order p st = Some (p', ps, u)" "d < length (dbs st)" "dbs u ! d \<noteq> dbs st ! d"
  shows "life (dbs st ! d) = Live \<and> life (dbs u ! d) = Closing
    \<and> (d \<in> set (sweeps p) \<or> (\<exists>s. (p = Closer s C1 \<or> (\<exists>k. p = GRefuse k s C1)) \<and> cell (slots st ! s) = Full d))"
proof (cases p)
  case (GRefuse k s c)
  with assms show ?thesis
    by (cases c) (auto simp: pool_helpers nth_upd split: option.splits closed_cell.splits cell.splits if_splits)
next
  case (Closer s c)
  with assms show ?thesis
    by (cases c) (auto simp: pool_helpers nth_upd split: option.splits closed_cell.splits cell.splits if_splits)
next
  case (GBound k s d)
  with assms show ?thesis by (auto split: if_splits prod.splits dest!: evictable_state)
next
  case (RClose sd keys todo skipped)
  with assms show ?thesis by (cases todo) (auto split: if_splits)
next
  case (RForce keys skipped b)
  with assms show ?thesis by (cases skipped) (auto simp: pool_helpers nth_upd split: if_splits)
next
  case (RRelease sd keys skipped)
  with assms show ?thesis by (cases keys) (auto split: if_splits)
next
  case (FFlush todo)
  with assms show ?thesis by (cases todo) (auto simp: pool_helpers split: if_splits option.splits)
qed (use assms in \<open>auto simp: Let_def pool_helpers nth_upd nth_append split: option.splits cell.splits if_splits\<close>)

lemma seg_sweeps:
  assumes "pool_seg i ok order p st = Some (p', ps, u)" "set order = dom (entries st)" "q \<in> insert p' (set ps)" "d \<in> set (sweeps q)"
  shows "d \<in> set (sweeps p) \<or> named st d"
proof (cases p)
  case (GBound k s e)
  with assms show ?thesis
    using evictable_picks [OF _ assms(2)]
    by (auto simp: retire_def named_def split: if_splits prod.splits) metis
next
  case (RClose sd keys todo skipped)
  with assms show ?thesis by (cases todo) (auto split: if_splits)
next
  case (RForce keys skipped b)
  with assms show ?thesis by (cases skipped) (auto split: if_splits)
next
  case (RRelease sd keys skipped)
  with assms show ?thesis by (cases keys) (auto split: if_splits)
next
  case (FFlush todo)
  with assms show ?thesis by (cases todo) (auto split: if_splits)
next
  case SCollect
  with assms show ?thesis
    using with_handle_set [of _ d st order] by (auto simp: Let_def named_def) metis
qed (use assms in \<open>auto simp: Let_def split: option.splits cell.splits if_splits prod.splits close_reason.splits\<close>)

lemma seg_wrote:
  assumes "pool_seg i ok order p st = Some (p', ps, u)" "k \<in> ondisk u"
  shows "k \<in> ondisk st \<or> (\<exists>s. p = GOpening k s)"
proof (cases p)
  case (GRefuse k s c)
  with assms show ?thesis
    by (cases c) (auto simp: pool_helpers split: option.splits closed_cell.splits cell.splits if_splits)
next
  case (Closer s c)
  with assms show ?thesis
    by (cases c) (auto simp: pool_helpers split: option.splits closed_cell.splits cell.splits if_splits)
next
  case (GBound k s d)
  with assms show ?thesis by (auto split: if_splits prod.splits dest!: evictable_state)
next
  case (RClose sd keys todo skipped)
  with assms show ?thesis by (cases todo) (auto simp: drop_key_def split: if_splits)
next
  case (RForce keys skipped b)
  with assms show ?thesis by (cases skipped) (auto simp: pool_helpers split: if_splits)
next
  case (RRelease sd keys skipped)
  with assms show ?thesis by (cases keys) (auto split: if_splits)
next
  case (FFlush todo)
  with assms show ?thesis by (cases todo) (auto simp: pool_helpers split: if_splits option.splits)
qed (use assms in \<open>auto simp: Let_def pool_helpers split: option.splits cell.splits if_splits\<close>)

section \<open>A repository that is being erased\<close>

fun closer_pc :: "process \<Rightarrow> closer option" where
  "closer_pc (GRefuse k s c) = Some c"
| "closer_pc (Closer s c) = Some c"
| "closer_pc p = None"

text \<open>The slot the delete waits for: only the process that runs its one close can be closing its handle.\<close>

definition guarded :: "pool \<Rightarrow> nat \<Rightarrow> bool" where
  "guarded st s \<longleftrightarrow> out st s \<and> (case sclosed (slots st ! s) of
     CNone \<Rightarrow> not_closing st s
   | CRun m \<Rightarrow> (closer_pc (procs st ! m) = Some C1 \<longrightarrow> not_closing st s)
             \<and> (closer_pc (procs st ! m) = Some C3 \<longrightarrow> settled st s)
   | CDone \<Rightarrow> settled st s)"

definition erased_but :: "pool \<Rightarrow> string \<Rightarrow> nat set \<Rightarrow> bool" where
  "erased_but st k X \<longleftrightarrow>
     (\<forall>s < length (slots st). skey (slots st ! s) = k \<longrightarrow> s \<notin> X \<longrightarrow> settled st s)
   \<and> (\<forall>s \<in> X. guarded st s \<and> skey (slots st ! s) = k)
   \<and> (\<forall>p \<in> set (procs st). unswept st k p)
   \<and> (\<forall>s. GOurs k s \<in> set (procs st) \<longrightarrow> out st s)"

lemma seg_shut:
  assumes "pool_seg i ok order p st = Some (p', ps, u)" "d < length (dbs st)" "life (dbs st ! d) = Shut"
  shows "life (dbs u ! d) = Shut"
  using seg_life_change [OF assms(1,2)] assms(3) by fastforce

lemma full_lt: "well_typed st \<Longrightarrow> s < length (slots st) \<Longrightarrow> cell (slots st ! s) = Full d \<Longrightarrow> has_db st (skey (slots st ! s)) d"
  using well_typedD(2) by (fastforce simp: slot_ok_def)

lemma settled_run:
  assumes wt: "well_typed st" and run: "run_process i ok order st = Some v" and s: "s < length (slots st)"
    and set: "settled st s" and ours: "\<And>k. procs st ! i = GOurs k s \<Longrightarrow> out st s"
  shows "settled v s"
proof -
  obtain p' ps u where i: "i < length (procs st)" and pool_seg: "pool_seg i ok order (procs st ! i) st = Some (p', ps, u)"
    and v: "v = u\<lparr>procs := (procs st)[i := p'] @ ps\<rparr>"
    using run by (rule run_processE)
  note ok = well_typedD(4) [OF wt i]
  have lt: "s < length (slots u)" using seg_keeps [OF pool_seg ok, of "Suc i"] s by (simp add: relies_def)
  have no: "procs st ! i \<noteq> GOpening k s" for k
    using set ok by (auto simp: settled_def permit_def)
  show ?thesis
  proof (cases "cell (slots u ! s)")
    case Empty
    then show ?thesis using v by (simp add: settled_def)
  next
    case (Full d)
    with seg_fills [OF pool_seg ok lt] no have "cell (slots st ! s) = Full d" by auto
    with set Full seg_shut [OF pool_seg] full_lt [OF wt s] v show ?thesis
      by (auto simp: settled_def has_db_def)
  next
    case (Opening m)
    then have m: "m = i \<and> opener p' = Some s \<or> m \<noteq> i \<and> cell (slots st ! s) = Opening m"
      using seg_slots [OF pool_seg ok lt] well_typedD(2) [OF wt s] by (auto simp: slot_change_def slot_ok_def)
    have "p' \<noteq> GOpening k s" for k
      using seg_opens [of i ok order "procs st ! i" st k s ps u] pool_seg ok ours
      by (auto simp: out_def permit_def has_slot_def)
    with m Opening set well_typedD(2) [OF wt s] i v show ?thesis
      by (auto simp: settled_def slot_ok_def nth_append opens_iff)
  qed
qed

lemma not_closing_run:
  assumes wt: "well_typed st" and run: "run_process i ok order st = Some v" and s: "s < length (slots st)"
    and set: "not_closing st s" and un: "unswept st (skey (slots st ! s)) (procs st ! i)"
    and other: "procs st ! i \<noteq> Closer s C1" "\<And>k. procs st ! i \<noteq> GRefuse k s C1"
  shows "not_closing v s"
proof -
  obtain p' ps u where i: "i < length (procs st)" and pool_seg: "pool_seg i ok order (procs st ! i) st = Some (p', ps, u)"
    and v: "v = u\<lparr>procs := (procs st)[i := p'] @ ps\<rparr>"
    using run by (rule run_processE)
  note ok = well_typedD(4) [OF wt i]
  have lt: "s < length (slots u)" using seg_keeps [OF pool_seg ok, of "Suc i"] s by (simp add: relies_def)
  have "life (dbs u ! d) \<noteq> Closing" if d: "cell (slots u ! s) = Full d" for d
    using seg_fills [OF pool_seg ok lt d]
  proof
    assume old: "s < length (slots st) \<and> cell (slots st ! s) = Full d"
    then have db: "d < length (dbs st)" "dkey (dbs st ! d) = skey (slots st ! s)"
      using full_lt [OF wt s] by (auto simp: has_db_def)
    have "s' = s" if "procs st ! i = Closer s' C1 \<or> (\<exists>k. procs st ! i = GRefuse k s' C1)" "cell (slots st ! s') = Full d" for s'
      using that old ok by (auto simp: has_slot_def intro: well_typedD(3) [OF wt])
    then have "dbs u ! d = dbs st ! d"
      using seg_life_change [OF pool_seg db(1)] un db(2) other by (fastforce simp: unswept_def)
    with set old show ?thesis by (simp add: not_closing_def)
  next
    assume "(\<exists>k. procs st ! i = GOpening k s \<and> p' = GWait k s) \<and> d = length (dbs st) \<and> entries u = entries st"
    then show ?thesis using pool_seg by (auto simp: pool_helpers new_db_def split: if_splits)
  qed
  then show ?thesis using v by (auto simp: not_closing_def split: cell.split)
qed

lemma life_shut: "l \<noteq> Live \<Longrightarrow> l \<noteq> Closing \<Longrightarrow> l = Shut"
  by (cases l) auto

lemma close_guarded:
  assumes wt: "well_typed st" and seg: "close_seg i s c st = Some (c', u)" and ok: "closer_ok st i s c" and g: "guarded st s"
    and pc: "closer_pc (procs st ! i) = Some c" "closer_pc p' = Some c' \<or> c' = CEnd" and i: "i < length (procs st)"
  shows "guarded (u\<lparr>procs := (procs st)[i := p'] @ ps\<rparr>) s"
proof -
  have s: "s < length (slots st)" using g by (simp add: guarded_def out_def)
  have d: "d < length (dbs st)" if "cell (slots st ! s) = Full d" for d
    using full_lt [OF wt s that] by (simp add: has_db_def)
  have "m < length (procs st) \<and> m \<noteq> i" if "cell (slots st ! s) = Opening m" for m
    using well_typedD(2) [OF wt s] that pc(1) by (cases "procs st ! i") (auto simp: slot_ok_def)
  with d s assms show ?thesis
    by (cases c; cases "cell (slots st ! s)"; cases "sclosed (slots st ! s)")
       (auto simp: guarded_def not_closing_def settled_def out_def pool_helpers nth_append
         split: if_splits intro: life_shut)
qed

lemma seg_sclosed:
  assumes "pool_seg i ok order p st = Some (p', ps, u)" "s < length (slots st)"
    "\<And>c. p \<noteq> Closer s c" "\<And>k c. p \<noteq> GRefuse k s c"
  shows "sclosed (slots u ! s) = sclosed (slots st ! s)"
proof (cases p)
  case (GRefuse k s' c)
  then have "s' \<noteq> s" using assms(4) by auto
  with GRefuse assms(1,2) show ?thesis
    by (cases c) (auto simp: pool_helpers nth_upd split: option.splits closed_cell.splits cell.splits if_splits)
next
  case (Closer s' c)
  then have "s' \<noteq> s" using assms(3) by auto
  with Closer assms(1,2) show ?thesis
    by (cases c) (auto simp: pool_helpers nth_upd split: option.splits closed_cell.splits cell.splits if_splits)
next
  case (GBound k s d)
  with assms show ?thesis by (auto split: if_splits prod.splits dest!: evictable_state)
next
  case (RClose sd keys todo skipped)
  with assms show ?thesis by (cases todo) (auto simp: drop_key_def split: if_splits)
next
  case (RForce keys skipped b)
  with assms show ?thesis by (cases skipped) (auto simp: pool_helpers split: if_splits)
next
  case (RRelease sd keys skipped)
  with assms show ?thesis by (cases keys) (auto split: if_splits)
next
  case (FFlush todo)
  with assms show ?thesis by (cases todo) (auto simp: pool_helpers nth_upd split: if_splits option.splits)
next
  case (GInsert k)
  with assms show ?thesis
    by (auto split: option.splits if_splits simp: pool_helpers nth_upd nth_append Let_def)
qed (use assms in \<open>auto simp: Let_def pool_helpers nth_upd split: option.splits cell.splits if_splits\<close>)

lemma guarded_run:
  assumes wt: "well_typed st" and run: "run_process i ok order st = Some v" and g: "guarded st s"
    and un: "unswept st (skey (slots st ! s)) (procs st ! i)"
  shows "guarded v s"
proof -
  obtain p' ps u where i: "i < length (procs st)" and pool_seg: "pool_seg i ok order (procs st ! i) st = Some (p', ps, u)"
    and v: "v = u\<lparr>procs := (procs st)[i := p'] @ ps\<rparr>"
    using run by (rule run_processE)
  note ok = well_typedD(4) [OF wt i]
  have s: "s < length (slots st)" "out st s" using g by (auto simp: guarded_def out_def)
  show ?thesis
  proof (cases "\<exists>c. procs st ! i = Closer s c \<or> (\<exists>k. procs st ! i = GRefuse k s c)")
    case True
    then obtain c k where "procs st ! i = Closer s c \<or> procs st ! i = GRefuse k s c" by blast
    then obtain c' where "close_seg i s c st = Some (c', u)" "closer_ok st i s c" "closer_pc p' = Some c' \<or> c' = CEnd"
        "closer_pc (procs st ! i) = Some c"
      using pool_seg ok by (auto split: option.splits if_splits)
    then show ?thesis using close_guarded [OF wt _ _ g _ _ i] v by blast
  next
    case False
    have set: "settled v s" if "settled st s" by (rule settled_run [OF wt run s(1) that]) (use s in auto)
    have nc: "not_closing v s" if "not_closing st s"
      by (rule not_closing_run [OF wt run s(1) that un]) (use False in auto)
    have same: "sclosed (slots v ! s) = sclosed (slots st ! s)"
      using seg_sclosed [OF pool_seg s(1)] False v by auto
    have "m < length (procs st) \<and> m \<noteq> i" if "sclosed (slots st ! s) = CRun m" for m
      using well_typedD(2) [OF wt s(1)] that False by (cases "procs st ! i") (auto simp: slot_ok_def split: if_splits)
    then have "procs v ! m = procs st ! m" if "sclosed (slots st ! s) = CRun m" for m
      using that v by (simp add: nth_append)
    with set nc same g run_out [OF wt run s(2)] show ?thesis
      by (auto simp: guarded_def split: closed_cell.splits)
  qed
qed

lemma seg_ours:
  assumes "pool_seg i ok order p st = Some (p', ps, u)" "GOurs k s \<in> insert p' (set ps)"
  shows "p = GCheck k s \<and> k \<notin> deleting st"
proof (cases p)
  case (GBound k s d)
  with assms show ?thesis by (auto simp: retire_def split: if_splits prod.splits)
next
  case (RClose sd keys todo skipped)
  with assms show ?thesis by (cases todo) (auto split: if_splits)
next
  case (RForce keys skipped b)
  with assms show ?thesis by (cases skipped) (auto split: if_splits)
next
  case (RRelease sd keys skipped)
  with assms show ?thesis by (cases keys) (auto split: if_splits)
next
  case (FFlush todo)
  with assms show ?thesis by (cases todo) (auto split: if_splits)
qed (use assms in \<open>auto simp: Let_def split: option.splits cell.splits if_splits close_reason.splits\<close>)

lemma erased_named:
  assumes wt: "well_typed st" and er: "erased_but st k X" and d: "named st d" "dkey (dbs st ! d) = k"
  shows "life (dbs st ! d) = Shut"
proof -
  obtain k' s where s: "entries st k' = Some s" "cell (slots st ! s) = Full d" using d by (auto simp: named_def)
  then have *: "s < length (slots st)" "skey (slots st ! s) = k'" "dkey (dbs st ! d) = k'"
    using filled_entry [OF wt s] by (auto simp: filled_def has_slot_def has_db_def)
  then have "\<not> out st s" using s by (simp add: out_def)
  then have "s \<notin> X" using er by (auto simp: erased_but_def guarded_def)
  with er * s d(2) have "settled st s" by (simp add: erased_but_def)
  with s show ?thesis by (simp add: settled_def)
qed

lemma sweeps_lt: "proc_ok st i p \<Longrightarrow> d \<in> set (sweeps p) \<Longrightarrow> d < length (dbs st)"
  by (cases p) (auto simp: picks_ok_def has_db_def)

lemma settled_new:
  assumes wt: "well_typed st" and i: "i < length (procs st)" and seg: "pool_seg i ok order (procs st ! i) st = Some (p', ps, u)"
    and s: "s < length (slots u)" "\<not> s < length (slots st)"
  shows "settled (u\<lparr>procs := (procs st)[i := p'] @ ps\<rparr>) s"
proof -
  note ok = well_typedD(4) [OF wt i]
  have "cell (slots u ! s) \<noteq> Full d" for d
    using seg_fills [OF seg ok s(1), of d] s(2) ok by (auto simp: permit_def has_slot_def)
  moreover have "opens p' \<noteq> Some s"
    using seg_opens [of i ok order "procs st ! i" st _ s ps u] seg ok s(2) by (auto simp: opens_iff permit_def has_slot_def)
  ultimately show ?thesis
    using seg_slots [OF seg ok s(1)] s(2) i
    by (auto simp: settled_def slot_change_def nth_append split: cell.split)
qed

lemma unswept_run:
  assumes wt: "well_typed st" and er: "erased_but st k X" and run: "run_process i ok order st = Some v"
    and ord: "set order = dom (entries st)" and q: "q \<in> set (procs v)"
  shows "unswept v k q"
proof -
  obtain p' ps u where i: "i < length (procs st)" and pool_seg: "pool_seg i ok order (procs st ! i) st = Some (p', ps, u)"
    and v: "v = u\<lparr>procs := (procs st)[i := p'] @ ps\<rparr>"
    using run by (rule run_processE)
  note ok = well_typedD(4) [OF wt i]
  have "life (dbs u ! d) = Shut" if d: "d \<in> set (sweeps q)" "dkey (dbs u ! d) = k" for d
  proof -
    have "q \<in> set (procs st) \<or> q \<in> insert p' (set ps)" using q v by (auto dest: in_procs_update)
    then have src: "(\<exists>p \<in> set (procs st). d \<in> set (sweeps p)) \<or> named st d"
      using seg_sweeps [OF pool_seg ord _ d(1)] d(1) nth_mem [OF i] by blast
    then have lt: "d < length (dbs st)"
      using filled_entry [OF wt] by (auto simp: named_def filled_def has_db_def elim: well_typed_proc [OF wt] dest: sweeps_lt)
    then have "dkey (dbs st ! d) = k"
      using seg_keeps [OF pool_seg ok, of "Suc i"] d(2) by (simp add: relies_def)
    then have "life (dbs st ! d) = Shut"
      using src er erased_named [OF wt er] by (auto simp: erased_but_def unswept_def)
    then show ?thesis by (rule seg_shut [OF pool_seg lt])
  qed
  then show ?thesis using v by (simp add: unswept_def)
qed

lemma erased_run:
  assumes wt: "well_typed st" and er: "erased_but st k X" and run: "run_process i ok order st = Some v"
    and ord: "set order = dom (entries st)" and del: "k \<in> deleting st"
  shows "erased_but v k X"
proof -
  obtain p' ps u where i: "i < length (procs st)" and pool_seg: "pool_seg i ok order (procs st ! i) st = Some (p', ps, u)"
    and v: "v = u\<lparr>procs := (procs st)[i := p'] @ ps\<rparr>"
    using run by (rule run_processE)
  note ok = well_typedD(4) [OF wt i]
  have old: "skey (slots v ! s) = skey (slots st ! s)" if "s < length (slots st)" for s
    using seg_keeps [OF pool_seg ok, of "Suc i"] that v by (simp add: relies_def)
  have procs: "q \<in> set (procs st) \<or> q \<in> insert p' (set ps)" if "q \<in> set (procs v)" for q
    using that v by (auto dest: in_procs_update)
  have ours: "out st s" if "GOurs k s \<in> set (procs st)" for s using er that by (simp add: erased_but_def)
  have ours_i: "out st s" if "procs st ! i = GOurs k' s" "skey (slots st ! s) = k" for k' s
    using ours [of s] ok that i nth_mem [OF i] by (auto simp: permit_def has_slot_def)
  have "settled v s" if s: "s < length (slots v)" "skey (slots v ! s) = k" "s \<notin> X" for s
  proof (cases "s < length (slots st)")
    case True
    with er s old have "settled st s" by (simp add: erased_but_def)
    then show ?thesis by (rule settled_run [OF wt run True]) (use ours_i s old True in auto)
  next
    case False
    then show ?thesis using settled_new [OF wt i pool_seg] s v by simp
  qed
  moreover have "guarded v s \<and> skey (slots v ! s) = k" if "s \<in> X" for s
  proof -
    from er that have s: "guarded st s" "skey (slots st ! s) = k" by (auto simp: erased_but_def)
    then have "s < length (slots st)" by (simp add: guarded_def out_def)
    moreover have "unswept st (skey (slots st ! s)) (procs st ! i)" using er s nth_mem [OF i] by (simp add: erased_but_def)
    ultimately show ?thesis using guarded_run [OF wt run s(1)] old s by simp
  qed
  moreover have "unswept v k q" if q: "q \<in> set (procs v)" for q
    by (rule unswept_run [OF wt er run ord q])
  moreover have "out v s" if "GOurs k s \<in> set (procs v)" for s
    using procs [OF that] ours seg_ours [OF pool_seg] del run_out [OF wt run] by blast
  ultimately show ?thesis by (simp add: erased_but_def)
qed

lemma guarded_lt: "guarded st s \<Longrightarrow> s < length (slots st)"
  by (simp add: guarded_def out_def)

lemma act_sweeps:
  assumes it: "iterates ev st" and act: "act ev st = Some v" and ev: "\<nexists>i ok order. ev = Step i ok order"
    and q: "q \<in> set (procs v)" "d \<in> set (sweeps q)"
  shows "q \<in> set (procs st) \<or> named st d"
proof (cases ev)
  case (Sweep order)
  obtain picked u where pick: "evictable order st = (picked, u)" by fastforce
  with act Sweep q have "q \<in> set (procs st) \<or> q = RDrain picked"
    by (auto simp: pool_sweep_def spawn_def retire_def evictable_keeps(3) split: if_splits)
  then show ?thesis
  proof
    assume "q = RDrain picked"
    with q obtain k where "(k, d) \<in> set picked" by auto
    then show ?thesis
      using evictable_picks [OF pick _, of k d] Sweep it unfolding named_def by (metis iterates.simps(1))
  qed simp
qed (use act ev q in \<open>auto simp: evict_def pool_helpers split: if_splits option.splits\<close>)

lemma erased_grow:
  assumes wt: "well_typed st" and er: "erased_but st k X" and it: "iterates ev st" and act: "act ev st = Some v"
    and ev: "\<nexists>i ok order. ev = Step i ok order"
  shows "erased_but v k X"
proof -
  note evo = evolves_act [OF wt it act]
  from act_grow [OF wt it act ev] obtain ps where same: "same_slots st v" and procs: "procs v = procs st @ ps"
      and ps: "\<And>q. q \<in> set ps \<Longrightarrow> opener q = None" by blast
  have life: "life (dbs v ! d) = life (dbs st ! d) \<or> life (dbs st ! d) = Closing \<and> life (dbs v ! d) = Shut" for d
  proof (cases ev)
    case (Sweep order)
    with act show ?thesis
      by (auto simp: pool_sweep_def spawn_def split: prod.splits dest!: evictable_state)
  qed (use act ev in \<open>auto simp: evict_def pool_helpers nth_list_update split: if_splits option.splits\<close>)
  then have shut: "life (dbs st ! d) = Shut \<Longrightarrow> life (dbs v ! d) = Shut"
    and cl: "life (dbs v ! d) = Closing \<Longrightarrow> life (dbs st ! d) = Closing" for d
    by (metis life.distinct(5))+
  have key: "skey (slots v ! s) = skey (slots st ! s)" "cell (slots v ! s) = cell (slots st ! s)" "sclosed (slots v ! s) = sclosed (slots st ! s)"
    if "s < length (slots st)" for s using same that by (auto simp: same_slots_def)
  have old: "procs v ! m = procs st ! m" if "m < length (procs st)" for m using procs that by (simp add: nth_append)
  have set: "settled v s" if "s < length (slots st)" "settled st s" for s
    using that key [OF that(1)] shut old well_typedD(2) [OF wt that(1)]
    by (cases "cell (slots st ! s)") (auto simp: settled_def slot_ok_def)
  have nc: "not_closing v s" if "s < length (slots st)" "not_closing st s" for s
    using that key [OF that(1)] cl by (cases "cell (slots st ! s)") (auto simp: not_closing_def)
  have guard: "guarded v s" if "guarded st s" for s
  proof -
    have s: "s < length (slots st)" "out v s" using that evo by (auto simp: guarded_def out_def evolves_def)
    with that key [OF s(1)] set nc old well_typedD(2) [OF wt s(1)] show ?thesis
      by (auto simp: guarded_def slot_ok_def split: closed_cell.splits)
  qed
  have un: "life (dbs v ! d) = Shut" if "q \<in> set (procs v)" "d \<in> set (sweeps q)" "dkey (dbs v ! d) = k" for q d
  proof -
    have src: "(\<exists>p \<in> set (procs st). d \<in> set (sweeps p)) \<or> named st d"
      using act_sweeps [OF it act ev that(1,2)] that(2) by blast
    then have "d < length (dbs st)"
      using filled_entry [OF wt] by (auto simp: named_def filled_def has_db_def elim: well_typed_proc [OF wt] dest: sweeps_lt)
    then have "dkey (dbs st ! d) = k" using same that(3) by (simp add: same_slots_def)
    with src er erased_named [OF wt er] have "life (dbs st ! d) = Shut" by (auto simp: erased_but_def unswept_def)
    then show ?thesis by (rule shut)
  qed
  have ours: "out v s" if "GOurs k s \<in> set (procs v)" for s
    using that procs ps er evo by (auto simp: erased_but_def evolves_def dest: ps)
  show ?thesis
    using er set guard un ours key same guarded_lt [of st]
    by (auto simp: erased_but_def unswept_def same_slots_def)
qed

section \<open>The invariant\<close>

fun deletion_ok :: "pool \<Rightarrow> process \<Rightarrow> bool" where
  "deletion_ok st (DRemove k) = (k \<in> deleting st)"
| "deletion_ok st (DWait k j) = (k \<in> deleting st \<and> j < length (procs st)
     \<and> (\<exists>s c. procs st ! j = Closer s c \<and> erased_but st k {s}))"
| "deletion_ok st (DWalk k) = (k \<in> deleting st \<and> erased_but st k {})"
| "deletion_ok st (DUnmark k r) = (k \<in> deleting st \<and> erased_but st k {} \<and> (r \<longrightarrow> k \<notin> ondisk st))"
| "deletion_ok st p = True"

definition homes :: "pool \<Rightarrow> bool" where
  "homes st \<longleftrightarrow> (\<forall>d < length (dbs st). \<exists>s < length (slots st). cell (slots st ! s) = Full d)"

definition ended :: "pool \<Rightarrow> bool" where
  "ended st \<longleftrightarrow> (\<forall>s. Closer s CEnd \<in> set (procs st) \<longrightarrow> sclosed (slots st ! s) = CDone)"

definition deleting_inv :: "pool \<Rightarrow> bool" where
  "deleting_inv st \<longleftrightarrow> closers_inv st \<and> homes st \<and> ended st
   \<and> (\<forall>p \<in> set (procs st). deletion_ok st p)
   \<and> (\<forall>i j k. i < length (procs st) \<longrightarrow> j < length (procs st) \<longrightarrow> i \<noteq> j \<longrightarrow>
        deletes (procs st ! i) = Some k \<longrightarrow> deletes (procs st ! j) \<noteq> Some k)"

lemma seg_spawns:
  assumes "pool_seg i ok order p st = Some (p', ps, u)" "q \<in> set ps"
  shows "(\<exists>s. q = Closer s C0) \<or> (\<exists>picked. q = RDrain picked)"
proof (cases p)
  case (RClose sd keys todo skipped)
  with assms show ?thesis by (cases todo) (auto split: if_splits)
next
  case (RForce keys skipped b)
  with assms show ?thesis by (cases skipped) (auto split: if_splits)
next
  case (RRelease sd keys skipped)
  with assms show ?thesis by (cases keys) (auto split: if_splits)
next
  case (FFlush todo)
  with assms show ?thesis by (cases todo) (auto split: if_splits)
qed (use assms in \<open>auto simp: Let_def retire_def split: option.splits cell.splits if_splits prod.splits\<close>)

lemma seg_next:
  assumes "pool_seg i ok order p st = Some (p', ps, u)"
  shows "p' = Closer s c' \<Longrightarrow> \<exists>c. p = Closer s c \<and> close_seg i s c st = Some (c', u)"
    and "deletes p' = Some k \<Longrightarrow> deletes p = Some k"
proof -
  have "(p' = Closer s c' \<longrightarrow> (\<exists>c. p = Closer s c \<and> close_seg i s c st = Some (c', u))) \<and> (deletes p' = Some k \<longrightarrow> deletes p = Some k)"
  proof (cases p)
    case (RClose sd keys todo skipped)
    with assms show ?thesis by (cases todo) (auto split: if_splits)
  next
    case (RForce keys skipped b)
    with assms show ?thesis by (cases skipped) (auto split: if_splits)
  next
    case (RRelease sd keys skipped)
    with assms show ?thesis by (cases keys) (auto split: if_splits)
  next
    case (FFlush todo)
    with assms show ?thesis by (cases todo) (auto split: if_splits)
  qed (use assms in \<open>auto simp: Let_def split: option.splits cell.splits if_splits prod.splits close_reason.splits\<close>)
  then show "p' = Closer s c' \<Longrightarrow> \<exists>c. p = Closer s c \<and> close_seg i s c st = Some (c', u)"
    "deletes p' = Some k \<Longrightarrow> deletes p = Some k" by auto
qed

lemma act_spawns:
  assumes "act ev st = Some v" "\<nexists>i ok order. ev = Step i ok order" "q \<in> set (procs v)"
  shows "q \<in> set (procs st) \<or> q \<noteq> Closer s CEnd \<and> (deletes q = Some k \<longrightarrow> ev = Delete k \<and> q = DInsert k) \<and> deletion_ok v q"
proof (cases ev)
  case (Sweep order)
  with assms show ?thesis
    by (auto simp: pool_sweep_def spawn_def retire_def split: prod.splits if_splits dest!: evictable_state)
qed (use assms in \<open>auto simp: evict_def pool_helpers split: if_splits option.splits\<close>)

lemma homes_act:
  assumes wt: "well_typed st" and "homes st" and it: "iterates ev st" and act: "act ev st = Some v"
  shows "homes v"
  unfolding homes_def
proof (intro allI impI)
  fix d assume d: "d < length (dbs v)"
  note evo = evolves_act [OF wt it act]
  have old: "\<exists>s < length (slots v). cell (slots v ! s) = Full d" if "d < length (dbs st)"
    using assms(2) that evo unfolding homes_def evolves_def by (metis order_less_le_trans)
  show "\<exists>s < length (slots v). cell (slots v ! s) = Full d"
  proof (cases "\<exists>i ok order. ev = Step i ok order")
    case True
    then obtain i ok order where "run_process i ok order st = Some v" using act by auto
    then show ?thesis
    proof (rule run_processE)
      fix p' ps u
      assume *: "i < length (procs st)" "pool_seg i ok order (procs st ! i) st = Some (p', ps, u)"
        "v = u\<lparr>procs := (procs st)[i := p'] @ ps\<rparr>"
      show ?thesis
      proof (cases "d < length (dbs st)")
        case False
        with * d obtain k s where ks: "procs st ! i = GOpening k s" "slots u = (slots st)[s := (slots st ! s)\<lparr>cell := Full d\<rparr>]"
          using seg_dbs [OF *(2), of d] by auto
        with well_typedD(4) [OF wt *(1)] have "s < length (slots st)" by (simp add: permit_def has_slot_def)
        with ks * show ?thesis by (auto intro!: exI [of _ s])
      qed (rule old)
    qed
  next
    case False
    then show ?thesis using old d act_procs_grow(4) [OF wt it act False] by simp
  qed
qed

lemma close_seg_end:
  assumes "close_seg i s c st = Some (c', u)" "s < length (slots st)"
  shows "c' = CEnd \<Longrightarrow> sclosed (slots u ! s) = CDone"
    and "closer_ok st i s c \<Longrightarrow> r < length (slots st) \<Longrightarrow> sclosed (slots st ! r) = CDone \<Longrightarrow> sclosed (slots u ! r) = CDone"
  using assms by (cases c; auto simp: pool_helpers nth_upd split: closed_cell.splits cell.splits if_splits option.splits)+

lemma seg_done_stays:
  assumes seg: "pool_seg i ok order p st = Some (p', ps, u)" and ok: "proc_ok st i p"
    and r: "r < length (slots st)" "sclosed (slots st ! r) = CDone"
  shows "sclosed (slots u ! r) = CDone"
proof (cases "\<exists>c. p = Closer r c \<or> (\<exists>k. p = GRefuse k r c)")
  case True
  then obtain c c' where "close_seg i r c st = Some (c', u)" "closer_ok st i r c"
    using seg ok by (auto split: option.splits)
  then show ?thesis using close_seg_end(2) r by blast
next
  case False
  then show ?thesis using seg_sclosed [OF seg r(1)] r(2) by auto
qed

lemma ended_act:
  assumes wt: "well_typed st" and inv: "ended st" and it: "iterates ev st" and act: "act ev st = Some v"
  shows "ended v"
proof (cases "\<exists>i ok order. ev = Step i ok order")
  case True
  then obtain i ok order where "run_process i ok order st = Some v" using act by auto
  then show ?thesis
  proof (rule run_processE)
    fix p' ps u
    assume *: "i < length (procs st)" "pool_seg i ok order (procs st ! i) st = Some (p', ps, u)"
      "v = u\<lparr>procs := (procs st)[i := p'] @ ps\<rparr>"
    note ok = well_typedD(4) [OF wt *(1)]
    have "sclosed (slots u ! s) = CDone" if s: "Closer s CEnd \<in> set (procs v)" for s
    proof -
      have "Closer s CEnd \<in> set (procs st) \<or> p' = Closer s CEnd"
        using s * seg_spawns [OF *(2)] by (auto dest: in_procs_update)
      then show ?thesis
      proof
        assume old: "Closer s CEnd \<in> set (procs st)"
        then have "s < length (slots st)" by (auto elim: well_typed_proc [OF wt])
        then show ?thesis using seg_done_stays [OF *(2) ok] inv old by (simp add: ended_def)
      next
        assume "p' = Closer s CEnd"
        then obtain c where "procs st ! i = Closer s c" "close_seg i s c st = Some (CEnd, u)"
          using seg_next(1) [OF *(2)] by blast
        then show ?thesis using close_seg_end(1) [of i s c st CEnd u] ok by simp
      qed
    qed
    then show ?thesis using * by (simp add: ended_def)
  qed
next
  case False
  have "sclosed (slots v ! s) = CDone" if "Closer s CEnd \<in> set (procs v)" for s
  proof -
    have old: "Closer s CEnd \<in> set (procs st)" using act_spawns [OF act False that, of s] by blast
    then have "s < length (slots st)" by (auto elim: well_typed_proc [OF wt])
    then have "s < length (slots v)" using evolves_act [OF wt it act] by (simp add: evolves_def)
    then show ?thesis using act_procs_grow(3) [OF wt it act False] inv old by (simp add: ended_def)
  qed
  then show ?thesis by (simp add: ended_def)
qed

lemma seg_deleting:
  assumes "pool_seg i ok order p st = Some (p', ps, u)" "k \<in> deleting st" "deletes p \<noteq> Some k"
  shows "k \<in> deleting u"
proof (cases p)
  case (GRefuse k s c)
  with assms show ?thesis
    by (cases c) (auto simp: pool_helpers split: option.splits closed_cell.splits cell.splits if_splits)
next
  case (Closer s c)
  with assms show ?thesis
    by (cases c) (auto simp: pool_helpers split: option.splits closed_cell.splits cell.splits if_splits)
next
  case (GBound k s d)
  with assms show ?thesis by (auto split: if_splits prod.splits dest!: evictable_state)
next
  case (RClose sd keys todo skipped)
  with assms show ?thesis by (cases todo) (auto simp: drop_key_def split: if_splits)
next
  case (RForce keys skipped b)
  with assms show ?thesis by (cases skipped) (auto simp: pool_helpers split: if_splits)
next
  case (RRelease sd keys skipped)
  with assms show ?thesis by (cases keys) (auto split: if_splits)
next
  case (FFlush todo)
  with assms show ?thesis by (cases todo) (auto simp: pool_helpers split: if_splits option.splits)
qed (use assms in \<open>auto simp: Let_def pool_helpers split: option.splits cell.splits if_splits\<close>)

lemma erased_not_opening:
  assumes "erased_but st k {}" "proc_ok st i (procs st ! i)"
  shows "procs st ! i \<noteq> GOpening k s"
proof
  assume p: "procs st ! i = GOpening k s"
  with assms(2) have s: "s < length (slots st)" "skey (slots st ! s) = k" "cell (slots st ! s) = Opening i"
    by (auto simp: permit_def has_slot_def)
  with assms(1) have "settled st s" by (simp add: erased_but_def)
  with p s show False by (simp add: settled_def)
qed

lemma deletion_other:
  assumes wt: "well_typed st" and run: "run_process i ok order st = Some v" and ord: "set order = dom (entries st)"
    and q: "deletion_ok st q" "\<And>k. deletes q = Some k \<Longrightarrow> deletes (procs st ! i) \<noteq> Some k"
  shows "deletion_ok v q"
proof -
  obtain p' ps u where i: "i < length (procs st)" and pool_seg: "pool_seg i ok order (procs st ! i) st = Some (p', ps, u)"
    and v: "v = u\<lparr>procs := (procs st)[i := p'] @ ps\<rparr>"
    using run by (rule run_processE)
  note ok = well_typedD(4) [OF wt i]
  have del: "k \<in> deleting v" if "k \<in> deleting st" "deletes q = Some k" for k
    using seg_deleting [OF pool_seg that(1)] q(2) [OF that(2)] v by simp
  have er: "erased_but v k X" if "erased_but st k X" "k \<in> deleting st" for k X
    by (rule erased_run [OF wt that(1) run ord that(2)])
  have disk: "k \<notin> ondisk v" if "k \<notin> ondisk st" "erased_but st k {}" for k
    using seg_wrote [OF pool_seg, of k] that erased_not_opening [OF that(2) ok] v by auto
  have closer: "\<exists>c. procs v ! j = Closer s c" if "j < length (procs st)" "procs st ! j = Closer s c" for j s c
  proof (cases "j = i")
    case True
    with that pool_seg show ?thesis using v by (auto simp: nth_append split: option.splits)
  next
    case False
    with that v show ?thesis by (simp add: nth_append)
  qed
  show ?thesis
  proof (cases q)
    case (DWait k j)
    with q obtain s c where "k \<in> deleting st" "j < length (procs st)" "procs st ! j = Closer s c" "erased_but st k {s}" by auto
    with DWait del er closer v show ?thesis by fastforce
  qed (use q del er disk in auto)
qed

lemma closers_unclosed:
  assumes wt: "well_typed st" and inv: "closers_inv st" and s: "entries st k = Some s"
  shows "sclosed (slots st ! s) = CNone"
proof (cases "sclosed (slots st ! s)")
  case (CRun m)
  have lt: "s < length (slots st)" "\<not> out st s" using well_typedD(1) [OF wt s] s by (auto simp: has_slot_def out_def)
  with CRun have "m < length (procs st)" "closing_slot (procs st ! m) = Some s"
    using well_typedD(2) [OF wt lt(1)] by (auto simp: slot_ok_def)
  with inv lt(2) show ?thesis by (cases "procs st ! m") (auto simp: closers_inv_def split: if_splits dest!: nth_mem)
next
  case CDone
  have lt: "s < length (slots st)" "\<not> out st s" using well_typedD(1) [OF wt s] s by (auto simp: has_slot_def out_def)
  with CDone inv show ?thesis by (auto simp: closers_inv_def dead_def)
qed

text \<open>Taking the slot out of the map starts the erasure.\<close>

lemma erased_remove:
  assumes wt: "well_typed st" and inv: "closers_inv st" and quiet: "quiet st k" and i: "i < length (procs st)" "procs st ! i = DRemove k"
  shows "entries st k = None \<Longrightarrow> erased_but (st\<lparr>procs := (procs st)[i := DWalk k] @ []\<rparr>) k {}"
    and "entries st k = Some s0 \<Longrightarrow> erased_but (drop_key k st\<lparr>procs := (procs st)[i := DWait k n] @ [Closer s0 C0]\<rparr>) k {s0}"
proof -
  have slot: "if entries st k = Some s then not_closing st s else settled st s"
    if "s < length (slots st)" "skey (slots st ! s) = k" for s
    using quiet that by (auto simp: quiet_def list_all_iff)
  have un: "unswept st k p" if "p \<in> set (procs st)" for p using quiet that by (auto simp: quiet_def list_all_iff)
  have permit: "m < length (procs st) \<and> (opens (((procs st)[i := x] @ ys) ! m) = Some s \<longrightarrow> opens (procs st ! m) = Some s \<or> opens x = Some s)"
    if "s < length (slots st)" "cell (slots st ! s) = Opening m" for s m x ys
    using well_typedD(2) [OF wt that(1)] that(2) by (auto simp: slot_ok_def nth_append nth_upd)
  have ours: "s < length (slots st) \<and> skey (slots st ! s) = k" if "GOurs k s \<in> set (procs st)" for s
    using that by (auto simp: permit_def has_slot_def elim: well_typed_proc [OF wt])
  show "erased_but (st\<lparr>procs := (procs st)[i := DWalk k] @ []\<rparr>) k {}" if "entries st k = None"
    using slot un ours permit [of _ _ "DWalk k" "[]"] that
    by (fastforce simp: erased_but_def settled_def out_def unswept_def split: cell.splits dest!: in_procs_update)
  show "erased_but (drop_key k st\<lparr>procs := (procs st)[i := DWait k n] @ [Closer s0 C0]\<rparr>) k {s0}" if s0: "entries st k = Some s0"
  proof -
    let ?v = "drop_key k st\<lparr>procs := (procs st)[i := DWait k n] @ [Closer s0 C0]\<rparr>"
    have key: "s0 < length (slots st)" "skey (slots st ! s0) = k" using well_typedD(1) [OF wt s0] by (auto simp: has_slot_def)
    have "settled ?v s" if "s < length (slots st)" "skey (slots st ! s) = k" "s \<noteq> s0" for s
      using slot [OF that(1,2)] that(3) s0 permit [OF that(1), of _ "DWait k n" "[Closer s0 C0]"]
      by (auto simp: settled_def drop_key_def split: cell.splits)
    moreover have "guarded ?v s0"
      using slot [OF key] key s0 closers_unclosed [OF wt inv s0]
      by (auto simp: guarded_def not_closing_def out_def drop_key_def split: cell.splits)
    moreover have "unswept ?v k p" if "p \<in> set (procs ?v)" for p
      using that un by (auto simp: unswept_def dest!: in_procs_update)
    moreover have "out ?v s" if "GOurs k s \<in> set (procs ?v)" for s
      using that ours by (auto simp: out_def drop_key_def dest!: in_procs_update)
    ultimately show ?thesis using key by (auto simp: erased_but_def drop_key_def)
  qed
qed

lemma erased_waited:
  assumes "erased_but st k {s}" "sclosed (slots st ! s) = CDone"
  shows "erased_but st k {}"
  using assms by (auto simp: erased_but_def guarded_def)

lemma deletion_idle: "deletes q = None \<Longrightarrow> deletion_ok st q"
  by (cases q) auto

lemma deletion_own:
  assumes wt: "well_typed st" and inv: "deleting_inv st" and run: "run_process i ok order st = Some v"
    and ord: "set order = dom (entries st)" and orderly: "orderly (Step i ok order) st"
    and i: "i < length (procs st)" and seg: "pool_seg i ok order (procs st ! i) st = Some (p', ps, u)"
    and v: "v = u\<lparr>procs := (procs st)[i := p'] @ ps\<rparr>"
  shows "deletion_ok v p'"
proof -
  have own: "deletion_ok st (procs st ! i)" and cl: "closers_inv st" and ended: "ended st"
    using inv nth_mem [OF i] by (auto simp: deleting_inv_def)
  have idle: "deletion_ok v p'" if "deletes (procs st ! i) = None"
    using seg_next(2) [OF seg] that deletion_idle [of p' v] by (cases "deletes p'") auto
  show ?thesis
  proof (cases "procs st ! i")
    case (DInsert k)
    with seg v show ?thesis by auto
  next
    case (DRemove k)
    note er = erased_remove [OF wt cl _ i DRemove]
    have "quiet st k" using orderly i DRemove by simp
    with seg DRemove own v er i show ?thesis
      by (auto simp: nth_append drop_key_def split: option.splits)
  next
    case (DWait k j)
    with own obtain s c where w: "k \<in> deleting st" "j < length (procs st)" "procs st ! j = Closer s c" "erased_but st k {s}" by auto
    have "ok" using orderly i DWait by simp
    with seg DWait w have p': "p' = DWalk k" "u = st" "c = CEnd" by (auto split: closer.splits if_splits)
    with w ended nth_mem [OF w(2)] have "sclosed (slots st ! s) = CDone" by (simp add: ended_def)
    from erased_run [OF wt erased_waited [OF w(4) this] run ord w(1)] p' w v show ?thesis by simp
  next
    case (DWalk k)
    with own have "k \<in> deleting st" "erased_but st k {}" by auto
    with erased_run [OF wt _ run ord] seg DWalk v show ?thesis by auto
  next
    case (DUnmark k r)
    with seg show ?thesis by auto
  qed (use idle in simp_all)
qed

lemma deleting_run:
  assumes wt: "well_typed st" and inv: "deleting_inv st" and run: "run_process i ok order st = Some v"
    and ord: "set order = dom (entries st)" and orderly: "orderly (Step i ok order) st"
  shows "\<forall>p \<in> set (procs v). deletion_ok v p"
    and "\<forall>a b k. a < length (procs v) \<longrightarrow> b < length (procs v) \<longrightarrow> a \<noteq> b \<longrightarrow>
        deletes (procs v ! a) = Some k \<longrightarrow> deletes (procs v ! b) \<noteq> Some k"
proof -
  obtain p' ps u where i: "i < length (procs st)" and seg: "pool_seg i ok order (procs st ! i) st = Some (p', ps, u)"
    and v: "v = u\<lparr>procs := (procs st)[i := p'] @ ps\<rparr>"
    using run by (rule run_processE)
  have cases: "j < length (procs st) \<and> (j = i \<and> procs v ! j = p' \<or> j \<noteq> i \<and> procs v ! j = procs st ! j) \<or> deletes (procs v ! j) = None"
    if "j < length (procs v)" for j
  proof -
    from that have "j < length ((procs st)[i := p'] @ ps)" using v by simp
    then show ?thesis by (cases rule: proc_cases) (use v seg_spawns [OF seg] in fastforce)+
  qed
  have "deletion_ok v (procs v ! j)" if j: "j < length (procs v)" for j
    using cases [OF j]
  proof (elim disjE conjE)
    assume "j < length (procs st)" "j = i" "procs v ! j = p'"
    then show ?thesis using deletion_own [OF wt inv run ord orderly i seg v] by simp
  next
    assume *: "j < length (procs st)" "j \<noteq> i" "procs v ! j = procs st ! j"
    have ok: "deletion_ok st (procs st ! j)" using inv nth_mem [OF *(1)] by (simp add: deleting_inv_def)
    have "deletes (procs st ! i) \<noteq> Some k" if "deletes (procs st ! j) = Some k" for k
      using inv that *(1,2) i unfolding deleting_inv_def by blast
    with deletion_other [OF wt run ord ok] *(3) show ?thesis by simp
  next
    assume "deletes (procs v ! j) = None"
    then show ?thesis by (rule deletion_idle)
  qed
  then show "\<forall>p \<in> set (procs v). deletion_ok v p" by (auto simp: in_set_conv_nth)
  have src: "j < length (procs st) \<and> deletes (procs st ! j) = Some k" if "j < length (procs v)" "deletes (procs v ! j) = Some k" for j k
    using cases [OF that(1)] that(2) seg_next(2) [OF seg] by auto
  show "\<forall>a b k. a < length (procs v) \<longrightarrow> b < length (procs v) \<longrightarrow> a \<noteq> b \<longrightarrow>
        deletes (procs v ! a) = Some k \<longrightarrow> deletes (procs v ! b) \<noteq> Some k"
    using src inv unfolding deleting_inv_def by blast
qed

lemma act_wrote:
  assumes wt: "well_typed st" and "act ev st = Some v" "\<nexists>i ok order. ev = Step i ok order"
  shows "k \<in> ondisk v \<Longrightarrow> k \<in> ondisk st \<or> (\<exists>d < length (dbs st). dkey (dbs st ! d) = k \<and> life (dbs st ! d) \<noteq> Shut)"
proof (cases ev)
  case (Sweep order)
  with assms(2) show "k \<in> ondisk v \<Longrightarrow> k \<in> ondisk st \<or> (\<exists>d < length (dbs st). dkey (dbs st ! d) = k \<and> life (dbs st ! d) \<noteq> Shut)"
    by (auto simp: pool_sweep_def spawn_def split: prod.splits dest!: evictable_state)
qed (use assms in \<open>auto simp: evict_def pool_helpers split: if_splits option.splits\<close>)

lemma act_spawns_idle:
  assumes "act ev st = Some v" "\<nexists>i ok order. ev = Step i ok order" "\<nexists>k. ev = Delete k"
  shows "\<exists>ps. procs v = procs st @ ps \<and> (\<forall>q \<in> set ps. deletes q = None)"
proof (cases ev)
  case (Sweep order)
  with assms show ?thesis
    by (auto simp: pool_sweep_def spawn_def retire_def split: prod.splits dest!: evictable_state)
qed (use assms in \<open>auto simp: evict_def pool_helpers split: if_splits option.splits\<close>)

lemma erased_shut:
  assumes "well_typed st" "homes st" "erased_but st k {}" "d < length (dbs st)" "dkey (dbs st ! d) = k"
  shows "life (dbs st ! d) = Shut"
proof -
  obtain s where s: "s < length (slots st)" "cell (slots st ! s) = Full d" using assms(2,4) by (auto simp: homes_def)
  with full_lt [OF assms(1) s] assms(5) have "skey (slots st ! s) = k" by (simp add: has_db_def)
  with assms(3) s have "settled st s" by (simp add: erased_but_def)
  with s show ?thesis by (simp add: settled_def)
qed

lemma deleting_grow:
  assumes wt: "well_typed st" and inv: "deleting_inv st" and it: "iterates ev st" and act: "act ev st = Some v"
    and ev: "\<nexists>i ok order. ev = Step i ok order" and orderly: "orderly ev st"
  shows "\<forall>p \<in> set (procs v). deletion_ok v p"
    and "\<forall>a b k. a < length (procs v) \<longrightarrow> b < length (procs v) \<longrightarrow> a \<noteq> b \<longrightarrow>
        deletes (procs v ! a) = Some k \<longrightarrow> deletes (procs v ! b) \<noteq> Some k"
proof -
  obtain ps where ps: "procs v = procs st @ ps" using act_grow [OF wt it act ev] by blast
  have del: "deleting v = deleting st"
  proof (cases ev)
    case (Sweep order)
    with act show ?thesis by (auto simp: pool_sweep_def spawn_def split: prod.splits dest!: evictable_state)
  qed (use act ev in \<open>auto simp: evict_def pool_helpers split: if_splits option.splits\<close>)
  have disk: "k \<notin> ondisk v" if k: "k \<notin> ondisk st" "erased_but st k {}" for k
    using act_wrote [OF wt act ev, of k] erased_shut [OF wt _ k(2)] inv k(1) by (auto simp: deleting_inv_def)
  have er: "erased_but v k X" if "erased_but st k X" for k X by (rule erased_grow [OF wt that it act ev])
  have "deletion_ok v q" if q: "q \<in> set (procs st)" for q
  proof -
    have ok: "deletion_ok st q" using inv q by (simp add: deleting_inv_def)
    show ?thesis
    proof (cases q)
      case (DWait k j)
      with ok er ps del show ?thesis by (auto simp: nth_append)
    qed (use ok er del disk in auto)
  qed
  then show "\<forall>p \<in> set (procs v). deletion_ok v p"
    using act_spawns [OF act ev] by blast
  show "\<forall>a b k. a < length (procs v) \<longrightarrow> b < length (procs v) \<longrightarrow> a \<noteq> b \<longrightarrow>
        deletes (procs v ! a) = Some k \<longrightarrow> deletes (procs v ! b) \<noteq> Some k"
  proof (cases "\<exists>k. ev = Delete k")
    case True
    then obtain k0 where k0: "procs v = procs st @ [DInsert k0]" "\<forall>p \<in> set (procs st). deletes p \<noteq> Some k0"
      using act orderly by (auto simp: spawn_def list_all_iff)
    with inv show ?thesis by (auto simp: deleting_inv_def nth_append less_Suc_eq)
  next
    case False
    with act ev obtain qs where qs: "procs v = procs st @ qs" "\<forall>q \<in> set qs. deletes q = None"
      using act_spawns_idle by blast
    have src: "j < length (procs st) \<and> deletes (procs st ! j) = Some k" if "j < length (procs v)" "deletes (procs v ! j) = Some k" for j k
      using that qs by (cases "j < length (procs st)") (auto simp: nth_append dest!: nth_mem)
    then show ?thesis using inv unfolding deleting_inv_def by blast
  qed
qed

lemma deleting_act:
  assumes wt: "well_typed st" and inv: "deleting_inv st" and orderly: "orderly ev st" and it: "iterates ev st" and act: "act ev st = Some v"
  shows "deleting_inv v"
proof -
  have base: "closers_inv v" "homes v" "ended v"
    using inv closers_act [OF wt _ it act] homes_act [OF wt _ it act] ended_act [OF wt _ it act]
    by (auto simp: deleting_inv_def)
  show ?thesis
  proof (cases "\<exists>i ok order. ev = Step i ok order")
    case True
    then obtain i ok order where ev: "ev = Step i ok order" by blast
    with act it have "run_process i ok order st = Some v" "set order = dom (entries st)" by auto
    with deleting_run [OF wt inv] orderly ev base show ?thesis by (simp add: deleting_inv_def)
  next
    case False
    with deleting_grow [OF wt inv it act False orderly] base show ?thesis by (simp add: deleting_inv_def)
  qed
qed

interpretation erasing: discipline orderly deleting_inv
  by unfold_locales (simp add: fresh_pool_def deleting_inv_def closers_inv_def homes_def ended_def, rule deleting_act)

text \<open>
  C12. A delete that succeeds leaves nothing behind. In every interleaving in which one delete of a
  repository runs at a time, takes the slot out of the map while no other handle of the repository
  is open or being closed, and sees its close end before the deadline, there is no file under the
  prefix from the moment the delete has removed them until it lifts its mark: every database of the
  repository that this process ever opened is shut by then, and no request opens a new one, whether
  it was waiting for the slot, in the middle of an open when the slot was taken out, or comes later.
\<close>

theorem delete_leaves_nothing:
  assumes "pool_reach orderly st" "DUnmark k True \<in> set (procs st)"
  shows "k \<notin> ondisk st \<and> k \<in> deleting st
    \<and> (\<forall>d < length (dbs st). dkey (dbs st ! d) = k \<longrightarrow> life (dbs st ! d) = Shut)
    \<and> (\<forall>s. GOpening k s \<notin> set (procs st))"
proof -
  note wt = well_typed_reach [OF assms(1)] and inv = erasing.always [OF assms(1)]
  have ok: "deletion_ok st (DUnmark k True)" using inv assms(2) by (auto simp: deleting_inv_def)
  then have er: "erased_but st k {}" by simp
  have "GOpening k s \<notin> set (procs st)" for s
    using erased_not_opening [OF er well_typedD(4) [OF wt]] by (auto simp: in_set_conv_nth)
  moreover have "life (dbs st ! d) = Shut" if "d < length (dbs st)" "dkey (dbs st ! d) = k" for d
    using erased_shut [OF wt _ er that] inv by (simp add: deleting_inv_def)
  ultimately show ?thesis using ok by simp
qed

definition delete_mid_open :: "event list" where
  "delete_mid_open = [Get ''a/b'' False, Step 0 True [], Step 0 True []]
     @ map (\<lambda>i. Step i True [''a/b'']) [0, 0, 0] @ [Delete ''a/b'', Step 1 True [''a/b''], Step 1 True [''a/b''],
     Step 2 True [], Step 0 True [], Step 2 True [], Finish 0, Step 2 True [], Step 2 True [], Step 1 True [], Step 1 True []]"

theorem delete_leaves_nothing_witness:
  "\<exists>st. performs orderly delete_mid_open (empty_pool 64) = Some st \<and> procs st ! 1 = DUnmark ''a/b'' True
     \<and> length (dbs st) = 1 \<and> life (dbs st ! 0) = Shut \<and> ''a/b'' \<notin> ondisk st"
proof -
  let ?st = "the (performs orderly delete_mid_open (empty_pool 64))"
  have *: "performs orderly delete_mid_open (empty_pool 64) \<noteq> None" "procs ?st ! 1 = DUnmark ''a/b'' True"
      "length (procs ?st) = 3" "length (dbs ?st) = 1" "dkey (dbs ?st ! 0) = ''a/b''"
    by (simp_all add: delete_mid_open_def pool_eval quiet_def settled_def not_closing_def unswept_def)
  then obtain st where st: "performs orderly delete_mid_open (empty_pool 64) = Some st" by auto
  with * have "DUnmark ''a/b'' True \<in> set (procs st)" by (auto simp: in_set_conv_nth intro!: exI [of _ 1])
  with st * delete_leaves_nothing [OF performs_reach [OF empty_pool_reach st], of "''a/b''"] show ?thesis by auto
qed

end
