(* ===== verification/Connectivity.thy ===== *)
theory Connectivity
  imports Refs
begin

text \<open>
  The connectivity check of a push: \<open>peel_wants\<close> and \<open>commit_range\<close> of
  \<open>crates/git/src/protocol/upload/walk.rs\<close>, \<open>reachable_set\<close> of \<open>upload/mod.rs\<close>, and \<open>Known\<close> with
  the loop over the updates of \<open>apply\<close> in \<open>crates/git/src/protocol/receive.rs\<close>.
  The object database is what gix reads from the packs of the repository, decoded. Two of gix's
  algorithms are parameters: the commit walk with hidden tips, and the expansion of objects into
  what is under their trees. What their documentation says of them are the named hypotheses
  \<open>walk_covers\<close> and \<open>count_under\<close>.
\<close>

section \<open>Objects\<close>

datatype entry_mode = BlobMode | TreeMode | SubmoduleMode

datatype object =
    CommitObj oid "oid list"          \<comment> \<open>its tree and its parents\<close>
  | TagObj oid                        \<comment> \<open>what it points at\<close>
  | TreeObj "(bytes \<times> entry_mode \<times> oid) list"   \<comment> \<open>entries: the file name, the mode, the object\<close>
  | BlobObj

text \<open>Each object with how it reads: decoded, or the error of reading it.\<close>

type_synonym odb = "(oid \<times> (error + object)) list"

definition find_object :: "odb \<Rightarrow> oid \<Rightarrow> error + object" where
  "find_object odb i = (case map_of odb i of None \<Rightarrow> Inl (MissingObject (to_hex i)) | Some r \<Rightarrow> r)"

text \<open>
  gix: the items its commit walk yields, hidden tips given, or the error of setting it up; the
  expansion of objects; the time of a commit; and the size in an object's header.
\<close>

datatype expansion = AsIs | TreeContents | TreeAdditions

record gix =
  giter :: "odb \<Rightarrow> oid list \<Rightarrow> oid list \<Rightarrow> error + (error + (oid \<times> oid list)) list"
  gcount :: "expansion \<Rightarrow> odb \<Rightarrow> oid list \<Rightarrow> error + oid list"
  gtime :: "odb \<Rightarrow> oid \<Rightarrow> int option"
  gheader :: "odb \<Rightarrow> oid \<Rightarrow> nat option"

definition bindR :: "error + 'a \<Rightarrow> ('a \<Rightarrow> error + 'b) \<Rightarrow> error + 'b" where
  "bindR m f = (case m of Inl e \<Rightarrow> Inl e | Inr x \<Rightarrow> f x)"

text \<open>A walk that is read to its end: its items, or its first error.\<close>

definition gwalk :: "gix \<Rightarrow> odb \<Rightarrow> oid list \<Rightarrow> oid list \<Rightarrow> error + (oid \<times> oid list) list" where
  "gwalk g odb tips hide = bindR (giter g odb tips hide) collect_results"

section \<open>Peeling and ranges\<close>

record peeled =
  pcommits :: "oid list"
  ptags :: "oid list"
  pleaves :: "oid list"

text \<open>
  The inner loop follows a chain of tags. A chain visits an object twice only in a cycle, which
  object ids rule out, so one more round than there are objects is enough.
\<close>

fun peel :: "nat \<Rightarrow> odb \<Rightarrow> oid \<Rightarrow> peeled \<Rightarrow> error + peeled" where
  "peel 0 odb i p = Inl (Message ''cycle of tags'')"
| "peel (Suc n) odb i p =
     bindR (find_object odb i) (\<lambda>ob.
       case ob of
         CommitObj _ _ \<Rightarrow> Inr (p\<lparr>pcommits := pcommits p @ [i]\<rparr>)
       | TagObj t \<Rightarrow> peel n odb t (p\<lparr>ptags := ptags p @ [i]\<rparr>)
       | _ \<Rightarrow> Inr (p\<lparr>pleaves := pleaves p @ [i]\<rparr>))"

fun peel_all :: "odb \<Rightarrow> oid list \<Rightarrow> peeled \<Rightarrow> error + peeled" where
  "peel_all odb [] p = Inr p"
| "peel_all odb (w # ws) p = bindR (peel (Suc (length odb)) odb w p) (peel_all odb ws)"

definition peel_wants :: "odb \<Rightarrow> oid list \<Rightarrow> error + peeled" where
  "peel_wants odb wants = peel_all odb wants \<lparr>pcommits = [], ptags = [], pleaves = []\<rparr>"

record commits_range =
  ids :: "oid list"
  leaves :: "oid list"
  merges :: "oid list"
  boundary :: "oid list"

definition commit_range :: "gix \<Rightarrow> odb \<Rightarrow> oid list \<Rightarrow> oid list \<Rightarrow> error + commits_range" where
  "commit_range g odb wants haves =
     bindR (peel_wants odb wants) (\<lambda>p.
     bindR (gwalk g odb (pcommits p) haves) (\<lambda>infos.
     let ids1 = ptags p @ map fst infos;
         parents = concat (map snd infos);
         outside = filter (\<lambda>q. q \<notin> set ids1) parents
     in Inr \<lparr>ids = ids1, leaves = pleaves p, merges = map fst (filter (\<lambda>(_, ps). length ps > 1) infos),
             boundary = remdups_adj (sort outside)\<rparr>))"

definition reachable_set :: "gix \<Rightarrow> odb \<Rightarrow> oid list \<Rightarrow> error + oid set" where
  "reachable_set g odb tips =
     bindR (peel_wants odb tips) (\<lambda>p.
     bindR (gwalk g odb (pcommits p) []) (\<lambda>infos.
     let ids1 = ptags p @ pleaves p @ map fst infos
     in bindR (gcount g TreeContents odb ids1) (\<lambda>counts. Inr (set ids1 \<union> set counts))))"

section \<open>What a push may take as given\<close>

record known =
  pushed :: "oid set"
  kboundary :: "oid set"
  expanded :: "oid set"
  verified :: "oid set"
  ours :: "oid set option"

definition find_commit_tree :: "odb \<Rightarrow> oid \<Rightarrow> error + oid" where
  "find_commit_tree odb c =
     bindR (find_object odb c) (\<lambda>ob.
       case ob of CommitObj t _ \<Rightarrow> Inr t | _ \<Rightarrow> Inl (Message (''expected commit '' @ to_hex c)))"

text \<open>The first loop of \<open>Known::explains\<close>: each commit the new history grows from is expanded once.\<close>

fun expand_boundary :: "gix \<Rightarrow> odb \<Rightarrow> oid list \<Rightarrow> known \<Rightarrow> error + known" where
  "expand_boundary g odb [] k = Inr k"
| "expand_boundary g odb (c # cs) k =
     (if c \<in> expanded k then expand_boundary g odb cs k
      else bindR (find_commit_tree odb c) (\<lambda>tree.
           bindR (gcount g TreeContents odb [tree]) (\<lambda>counts.
           expand_boundary g odb cs
             (k\<lparr>expanded := insert c (expanded k), kboundary := kboundary k \<union> set counts\<rparr>))))"

text \<open>What is pushed on the work list for an object the client sent; the list's end is its top.\<close>

fun points_at :: "object \<Rightarrow> oid list" where
  "points_at (CommitObj t _) = [t]"
| "points_at (TagObj t) = [t]"
| "points_at (TreeObj es) = map (\<lambda>(_, _, i). i) (filter (\<lambda>(_, md, _). md \<noteq> SubmoduleMode) es)"
| "points_at BlobObj = []"

text \<open>\<open>ours\<close> is filled at its first use.\<close>

definition ours_of :: "gix \<Rightarrow> odb \<Rightarrow> oid list \<Rightarrow> known \<Rightarrow> error + oid set" where
  "ours_of g odb old_tips k =
     (case ours k of None \<Rightarrow> reachable_set g odb old_tips | Some S \<Rightarrow> Inr S)"

lemma unverified_left: "i \<notin> S \<Longrightarrow> 0 < card (UNIV - S)" for S :: "oid set"
  by (auto simp: card_gt_0_iff)

text \<open>The work list is kept with its top first.\<close>

function explain :: "gix \<Rightarrow> odb \<Rightarrow> oid list \<Rightarrow> oid list \<Rightarrow> known \<Rightarrow> error + (bool \<times> known)" where
  "explain g odb old_tips [] k = Inr (True, k)"
| "explain g odb old_tips (i # todo) k =
     (if i \<in> verified k then explain g odb old_tips todo k
      else let k1 = k\<lparr>verified := insert i (verified k)\<rparr> in
        if i \<in> pushed k1 then
          (case find_object odb i of
             Inl e \<Rightarrow> Inl e
           | Inr ob \<Rightarrow> explain g odb old_tips (rev (points_at ob) @ todo) k1)
        else if i \<notin> kboundary k1 then
          (case ours_of g odb old_tips k1 of
             Inl e \<Rightarrow> Inl e
           | Inr S \<Rightarrow> let k2 = k1\<lparr>ours := Some S\<rparr> in
               if i \<notin> S then Inr (False, k2) else explain g odb old_tips todo k2)
        else explain g odb old_tips todo k1)"
  by pat_completeness auto
termination
  by (relation "measures [\<lambda>(_, _, _, _, k). card (UNIV - verified k), \<lambda>(_, _, _, todo, _). length todo]")
    (auto simp: unverified_left)

definition explains :: "gix \<Rightarrow> odb \<Rightarrow> commits_range \<Rightarrow> oid list \<Rightarrow> known \<Rightarrow> error + (bool \<times> known)" where
  "explains g odb rng old_tips k =
     bindR (expand_boundary g odb (boundary rng) k) (\<lambda>k.
     explain g odb old_tips (rev (ids rng @ leaves rng)) k)"

definition is_missing_object :: "error \<Rightarrow> bool" where
  "is_missing_object e = (case e of MissingObject _ \<Rightarrow> True | _ \<Rightarrow> False)"

definition missing_msg :: string where
  "missing_msg = ''missing necessary objects''"

text \<open>The loop of \<open>apply\<close> over the updates, with what is known and what is hidden so far.\<close>

fun check_updates ::
    "gix \<Rightarrow> odb \<Rightarrow> oid list \<Rightarrow> ref_update list \<Rightarrow> known \<Rightarrow> oid list \<Rightarrow> error + string option list" where
  "check_updates g odb old_tips [] k hide = Inr []"
| "check_updates g odb old_tips (u # us) k hide =
     (case unew u of
        None \<Rightarrow> bindR (check_updates g odb old_tips us k hide) (\<lambda>rs. Inr (None # rs))
      | Some n \<Rightarrow>
          (case commit_range g odb [n] hide of
             Inl e \<Rightarrow>
               if is_missing_object e
               then bindR (check_updates g odb old_tips us k hide) (\<lambda>rs. Inr (Some missing_msg # rs))
               else Inl e
           | Inr rng \<Rightarrow>
               bindR (explains g odb rng old_tips k) (\<lambda>(ok, k).
               if ok then bindR (check_updates g odb old_tips us k (hide @ [n])) (\<lambda>rs. Inr (None # rs))
               else bindR (check_updates g odb old_tips us k hide) (\<lambda>rs. Inr (Some missing_msg # rs)))))"

definition new_known :: "oid set \<Rightarrow> known" where
  "new_known P = \<lparr>pushed = P, kboundary = {}, expanded = {}, verified = {}, ours = None\<rparr>"

section \<open>Reachability\<close>

text \<open>
  The reference notions: a history follows parents and tags; what an object holds is its tree, the
  entries of trees except submodules, and what a tag points at.
\<close>

inductive history :: "odb \<Rightarrow> oid \<Rightarrow> oid \<Rightarrow> bool" for odb i where
  history_here: "history odb i i"
| history_parent: "history odb i c \<Longrightarrow> find_object odb c = Inr (CommitObj t ps) \<Longrightarrow> p \<in> set ps \<Longrightarrow> history odb i p"
| history_target: "history odb i c \<Longrightarrow> find_object odb c = Inr (TagObj t) \<Longrightarrow> history odb i t"

inductive content :: "odb \<Rightarrow> oid \<Rightarrow> oid \<Rightarrow> bool" for odb i where
  content_here: "content odb i i"
| content_tree: "content odb i c \<Longrightarrow> find_object odb c = Inr (CommitObj t ps) \<Longrightarrow> content odb i t"
| content_target: "content odb i c \<Longrightarrow> find_object odb c = Inr (TagObj t) \<Longrightarrow> content odb i t"
| content_entry: "content odb i c \<Longrightarrow> find_object odb c = Inr (TreeObj es) \<Longrightarrow> (f, md, e) \<in> set es \<Longrightarrow> md \<noteq> SubmoduleMode \<Longrightarrow> content odb i e"

definition reached :: "odb \<Rightarrow> oid set \<Rightarrow> oid set" where
  "reached odb S = {x. \<exists>i\<in>S. \<exists>h. history odb i h \<and> content odb h x}"

text \<open>
  What gix documents: a walk yields commits of the history of its tips, with their parents, and
  leaves out only what is in the history of the hidden ones; an expansion yields what is under the
  objects it is given.
\<close>

definition walk_covers :: "gix \<Rightarrow> bool" where
  "walk_covers g \<longleftrightarrow> (\<forall>odb tips hide infos. gwalk g odb tips hide = Inr infos \<longrightarrow>
     (\<forall>c ps. (c, ps) \<in> set infos \<longrightarrow>
        (\<exists>t. find_object odb c = Inr (CommitObj t ps)) \<and> (\<exists>i\<in>set tips. history odb i c)
        \<and> (\<forall>p\<in>set ps. p \<in> fst ` set infos \<or> (\<exists>h\<in>set hide. history odb h p)))
     \<and> (\<forall>c\<in>set tips. c \<in> fst ` set infos \<or> (\<exists>h\<in>set hide. history odb h c)))"

definition count_under :: "gix \<Rightarrow> bool" where
  "count_under g \<longleftrightarrow> (\<forall>ex odb is cs. gcount g ex odb is = Inr cs \<longrightarrow> (\<forall>c\<in>set cs. \<exists>i\<in>set is. content odb i c))"

section \<open>The check is sound\<close>

lemma bindR_InrE:
  assumes "bindR m f = Inr y"
  obtains x where "m = Inr x" and "f x = Inr y"
  using assms by (auto simp: bindR_def split: sum.splits)

lemma history_trans: "history odb b c \<Longrightarrow> history odb a b \<Longrightarrow> history odb a c"
  by (induction rule: history.induct) (blast intro: history.intros)+

lemma content_trans: "content odb b c \<Longrightarrow> content odb a b \<Longrightarrow> content odb a c"
  by (induction rule: content.induct) (blast intro: content.intros)+

lemma points_at_content: "find_object odb i = Inr ob \<Longrightarrow> c \<in> set (points_at ob) \<Longrightarrow> content odb i c"
  by (cases ob) (auto dest: content_tree [OF content_here] content_target [OF content_here] content_entry [OF content_here])

lemma content_step:
  assumes "content odb i c" and "find_object odb c = Inr ob" and "x \<in> set (points_at ob)"
  shows "content odb i x"
  using content_trans [OF points_at_content [OF assms(2,3)] assms(1)] .

text \<open>Read from the front: an object's content is itself and the content of what it points at.\<close>

lemma content_first:
  assumes "content odb i x"
  shows "x = i \<or> (\<exists>ob c. find_object odb i = Inr ob \<and> c \<in> set (points_at ob) \<and> content odb c x)"
    (is "?P x")
proof -
  have step: "?P y" if p: "?P c" and c: "find_object odb c = Inr ob" "y \<in> set (points_at ob)" for c ob y
  proof (cases "c = i")
    case True
    with c content_here show ?thesis by blast
  next
    case False
    with p obtain o1 d where "find_object odb i = Inr o1" "d \<in> set (points_at o1)" "content odb d c" by blast
    with content_step [OF _ c] show ?thesis by blast
  qed
  from assms show ?thesis
  proof (induction rule: content.induct)
    case (content_entry c es f md e)
    then have "e \<in> set (points_at (TreeObj es))" by force
    from step [OF content_entry.IH content_entry.hyps(2) this] show ?case .
  next
    case (content_tree c t ps)
    from step [OF content_tree.IH content_tree.hyps(2)] show ?case by simp
  next
    case (content_target c t)
    from step [OF content_target.IH content_target.hyps(2)] show ?case by simp
  qed simp
qed

text \<open>The peeling of one object: every tag on the way is kept, and each end is of its kind.\<close>

definition peels :: "odb \<Rightarrow> peeled \<Rightarrow> oid set" where
  "peels odb p = set (pcommits p) \<union> set (ptags p) \<union> set (pleaves p)"

definition peel_ok :: "odb \<Rightarrow> oid set \<Rightarrow> peeled \<Rightarrow> bool" where
  "peel_ok odb W p \<longleftrightarrow>
     (\<forall>c\<in>set (pcommits p). \<exists>t ps. find_object odb c = Inr (CommitObj t ps))
     \<and> (\<forall>c\<in>set (ptags p). \<exists>t. find_object odb c = Inr (TagObj t))
     \<and> (\<forall>c\<in>set (pleaves p). (\<exists>es. find_object odb c = Inr (TreeObj es)) \<or> find_object odb c = Inr BlobObj)
     \<and> (\<forall>c\<in>peels odb p. \<exists>w\<in>W. history odb w c)"

lemma peel_result:
  assumes "peel n odb i p = Inr q" and "peel_ok odb W p" and "\<exists>w\<in>W. history odb w i"
  shows "peel_ok odb W q \<and> i \<in> peels odb q \<and> peels odb p \<subseteq> peels odb q
    \<and> (\<forall>c\<in>set (ptags q) - set (ptags p). \<forall>t. find_object odb c = Inr (TagObj t) \<longrightarrow> t \<in> peels odb q)
    \<and> set (ptags p) \<subseteq> set (ptags q)"
  using assms
proof (induction n odb i p rule: peel.induct)
  case (2 n odb i p)
  from 2(2) obtain ob where ob: "find_object odb i = Inr ob" by (auto elim: bindR_InrE)
  show ?case
  proof (cases ob)
    case (TagObj t)
    let ?p = "p\<lparr>ptags := ptags p @ [i]\<rparr>"
    have "peel_ok odb W ?p" using 2(3,4) ob TagObj by (auto simp: peel_ok_def peels_def)
    moreover have "\<exists>w\<in>W. history odb w t" using 2(4) ob TagObj by (auto intro: history.intros)
    moreover have "peel n odb t ?p = Inr q" using 2(2) ob TagObj by (simp add: bindR_def)
    ultimately have "peel_ok odb W q \<and> t \<in> peels odb q \<and> peels odb ?p \<subseteq> peels odb q
      \<and> (\<forall>c\<in>set (ptags q) - set (ptags ?p). \<forall>t. find_object odb c = Inr (TagObj t) \<longrightarrow> t \<in> peels odb q)
      \<and> set (ptags ?p) \<subseteq> set (ptags q)"
      by (intro 2(1)) (simp_all add: TagObj)
    then show ?thesis using ob TagObj by (auto simp: peels_def)
  qed (use 2 ob in \<open>auto simp: bindR_def peel_ok_def peels_def\<close>)
qed simp

text \<open>All tags are followed: what a kept tag points at is kept.\<close>

definition tags_followed :: "odb \<Rightarrow> peeled \<Rightarrow> bool" where
  "tags_followed odb p \<longleftrightarrow> (\<forall>c\<in>set (ptags p). \<forall>t. find_object odb c = Inr (TagObj t) \<longrightarrow> t \<in> peels odb p)"

lemma peel_all_result:
  assumes "peel_all odb ws p = Inr q" and "peel_ok odb W p" and "tags_followed odb p" and "set ws \<subseteq> W"
  shows "peel_ok odb W q \<and> tags_followed odb q \<and> set ws \<subseteq> peels odb q \<and> peels odb p \<subseteq> peels odb q"
  using assms
proof (induction odb ws p rule: peel_all.induct)
  case (2 odb w ws p)
  from 2(2) obtain q1 where q1: "peel (Suc (length odb)) odb w p = Inr q1" "peel_all odb ws q1 = Inr q"
    unfolding peel_all.simps by (auto simp only: elim: bindR_InrE)
  from 2(5) have "\<exists>v\<in>W. history odb v w" by (auto intro: history_here)
  note r = peel_result [OF q1(1) 2(3) this]
  with 2(4) have "tags_followed odb q1" unfolding tags_followed_def by blast
  with 2(1) [OF q1(2)] r 2(5) show ?case by auto
qed simp

lemma peel_wants_result:
  assumes "peel_wants odb ws = Inr p"
  shows "peel_ok odb (set ws) p" and "tags_followed odb p" and "set ws \<subseteq> peels odb p"
  using peel_all_result [OF assms [unfolded peel_wants_def], of "set ws"]
  by (auto simp: peel_ok_def peels_def tags_followed_def)

lemma reachedI: "i \<in> S \<Longrightarrow> history odb i h \<Longrightarrow> content odb h x \<Longrightarrow> x \<in> reached odb S"
  by (auto simp: reached_def)

lemma reached_content: "x \<in> reached odb S \<Longrightarrow> content odb x y \<Longrightarrow> y \<in> reached odb S"
  using content_trans by (fastforce simp: reached_def)

lemma reachable_set_sound:
  assumes "walk_covers g" and "count_under g" and "reachable_set g odb tips = Inr S"
  shows "S \<subseteq> reached odb (set tips)"
proof
  fix x assume x: "x \<in> S"
  from assms(3) obtain p infos counts where p: "peel_wants odb tips = Inr p"
    and w: "gwalk g odb (pcommits p) [] = Inr infos"
    and c: "gcount g TreeContents odb (ptags p @ pleaves p @ map fst infos) = Inr counts"
    and S: "S = set (ptags p @ pleaves p @ map fst infos) \<union> set counts"
    unfolding reachable_set_def Let_def by (auto elim!: bindR_InrE)
  have hist: "\<exists>t\<in>set tips. history odb t i" if i: "i \<in> set (ptags p @ pleaves p @ map fst infos)" for i
  proof -
    from i consider "i \<in> peels odb p" | ps where "(i, ps) \<in> set infos" by (auto simp: peels_def)
    then show ?thesis
    proof cases
      case 2
      with assms(1) w obtain j where "j \<in> set (pcommits p)" "history odb j i"
        unfolding walk_covers_def by blast
      moreover from this(1) peel_wants_result(1) [OF p] have "\<exists>t\<in>set tips. history odb t j"
        by (auto simp: peel_ok_def peels_def)
      ultimately show ?thesis by (blast intro: history_trans)
    qed (use peel_wants_result(1) [OF p] in \<open>auto simp: peel_ok_def\<close>)
  qed
  from x S c assms(2) obtain i where "i \<in> set (ptags p @ pleaves p @ map fst infos)" "content odb i x"
    unfolding count_under_def by (metis Un_iff content_here)
  with hist show "x \<in> reached odb (set tips)" by (blast intro: reachedI)
qed

lemma reached_insert: "reached odb (insert i S) = reached odb {i} \<union> reached odb S"
  by (auto simp: reached_def)

lemma commit_rangeE:
  assumes "commit_range g odb wants hide = Inr rng"
  obtains p infos where "peel_wants odb wants = Inr p" and "gwalk g odb (pcommits p) hide = Inr infos"
    and "ids rng = ptags p @ map fst infos" and "leaves rng = pleaves p"
    and "set (boundary rng) = {q. \<exists>c ps. (c, ps) \<in> set infos \<and> q \<in> set ps \<and> q \<notin> set (ids rng)}"
  using assms unfolding commit_range_def Let_def by (elim bindR_InrE) (force intro: that)

text \<open>
  Peeling and walking cover the history of the objects they start from: whatever that history
  visits is kept or walked, or in the history of a hidden tip.
\<close>

lemma walk_peeled_covers:
  assumes "walk_covers g" and p: "peel_wants odb wants = Inr p"
    and w: "gwalk g odb (pcommits p) hide = Inr infos" and "n \<in> set wants" and "history odb n h"
  shows "h \<in> set (ptags p) \<union> set (pleaves p) \<union> fst ` set infos \<or> (\<exists>t\<in>set hide. history odb t h)"
    (is "h \<in> ?K \<or> ?hid h")
proof -
  note W = assms(1) [unfolded walk_covers_def, rule_format, OF w]
  note P = peel_wants_result [OF p]
  have kept: "c \<in> ?K \<or> ?hid c" if "c \<in> peels odb p" for c
    using that W by (auto simp: peels_def)
  from assms(5) show ?thesis
  proof (induction rule: history.induct)
    case history_here
    from P(3) assms(4) kept show ?case by blast
  next
    case (history_parent c t ps q)
    show ?case
    proof (cases "?hid c")
      case True
      with history_parent show ?thesis by (blast intro: history.history_parent)
    next
      case False
      with history_parent.IH P(1) history_parent.hyps(2) have "c \<in> fst ` set infos"
        by (fastforce simp: peel_ok_def)
      with W history_parent.hyps(2,3) show ?thesis by fastforce
    qed
  next
    case (history_target c t)
    show ?case
    proof (cases "?hid c")
      case True
      with history_target show ?thesis by (blast intro: history.history_target)
    next
      case False
      with history_target.IH P(1) W history_target.hyps(2) have "c \<in> set (ptags p)"
        by (fastforce simp: peel_ok_def)
      with P(2) history_target.hyps(2) kept show ?thesis by (auto simp: tags_followed_def)
    qed
  qed
qed

lemma commit_range_covers:
  assumes "walk_covers g" and "commit_range g odb [n] hide = Inr rng" and "history odb n h"
  shows "h \<in> set (ids rng @ leaves rng) \<or> (\<exists>t\<in>set hide. history odb t h)"
proof -
  from assms(2) obtain p infos where "peel_wants odb [n] = Inr p" "gwalk g odb (pcommits p) hide = Inr infos"
    and "ids rng = ptags p @ map fst infos" "leaves rng = pleaves p"
    by (rule commit_rangeE)
  with walk_peeled_covers [OF assms(1) this(1,2) _ assms(3)] show ?thesis by auto
qed

text \<open>
  \<open>covered\<close>: everything an object holds is good. The state of the check while the work list \<open>todo\<close>
  is open: a verified object that is not covered was sent, and what it points at is verified or on
  the list. When the list is empty all verified objects are covered.
\<close>

definition covered :: "odb \<Rightarrow> oid set \<Rightarrow> oid \<Rightarrow> bool" where
  "covered odb G x \<longleftrightarrow> (\<forall>y. content odb x y \<longrightarrow> y \<in> G)"

definition known_ok :: "odb \<Rightarrow> oid set \<Rightarrow> oid list \<Rightarrow> known \<Rightarrow> bool" where
  "known_ok odb P old k \<longleftrightarrow> pushed k = P
     \<and> (\<forall>x\<in>kboundary k. covered odb (P \<union> reached odb (set old)) x)
     \<and> (\<forall>S. ours k = Some S \<longrightarrow> S \<subseteq> reached odb (set old))"

definition pending_ok :: "odb \<Rightarrow> oid set \<Rightarrow> oid set \<Rightarrow> oid set \<Rightarrow> oid list \<Rightarrow> bool" where
  "pending_ok odb P G V todo \<longleftrightarrow> (\<forall>x\<in>V. covered odb G x
     \<or> x \<in> P \<and> (\<exists>ob. find_object odb x = Inr ob \<and> set (points_at ob) \<subseteq> V \<union> set todo))"

lemma reached_covered: "x \<in> reached odb S \<Longrightarrow> reached odb S \<subseteq> G \<Longrightarrow> covered odb G x"
  using reached_content by (auto simp: covered_def)

lemma pending_done:
  assumes "pending_ok odb P G V []" and "P \<subseteq> G" and "x \<in> V"
  shows "covered odb G x"
proof -
  have "y \<in> G \<and> (y \<in> V \<or> covered odb G y)" if "content odb x y" for y
  proof -
    have step: "d \<in> G \<and> (d \<in> V \<or> covered odb G d)"
      if "c \<in> G \<and> (c \<in> V \<or> covered odb G c)" "find_object odb c = Inr ob" "d \<in> set (points_at ob)" for c d ob
    proof (cases "covered odb G c")
      case True
      from content_step [OF _ that(2,3)] True show ?thesis
        unfolding covered_def by (metis content_here content_trans)
    next
      case False
      with that(1) assms(1) that(2,3) have "d \<in> V" by (fastforce simp: pending_ok_def)
      with assms(1,2) show ?thesis by (auto simp: pending_ok_def covered_def intro: content_here)
    qed
    have start: "x \<in> G \<and> (x \<in> V \<or> covered odb G x)"
      using assms by (auto simp: pending_ok_def covered_def intro: content_here)
    from that show ?thesis
    proof (induction rule: content.induct)
      case (content_entry c es f md e)
      then have "e \<in> set (points_at (TreeObj es))" by force
      from step [OF content_entry.IH content_entry.hyps(2) this] show ?case .
    next
      case (content_tree c t ps)
      from step [OF content_tree.IH content_tree.hyps(2)] show ?case by simp
    next
      case (content_target c t)
      from step [OF content_target.IH content_target.hyps(2)] show ?case by simp
    qed (rule start)
  qed
  then show ?thesis by (simp add: covered_def)
qed

lemma expand_boundary_result:
  assumes "expand_boundary g odb cs k = Inr k'" and "count_under g"
    and "known_ok odb P old k" and "\<And>c. c \<in> set cs \<Longrightarrow> covered odb (P \<union> reached odb (set old)) c"
  shows "known_ok odb P old k' \<and> verified k' = verified k"
  using assms
proof (induction g odb cs k rule: expand_boundary.induct)
  case (2 g odb c cs k)
  show ?case
  proof (cases "c \<in> expanded k")
    case True
    with 2 show ?thesis by simp
  next
    case False
    with 2(3) obtain tree counts where t: "find_commit_tree odb c = Inr tree" and n: "gcount g TreeContents odb [tree] = Inr counts"
      and e: "expand_boundary g odb cs (k\<lparr>expanded := insert c (expanded k), kboundary := kboundary k \<union> set counts\<rparr>) = Inr k'"
      by (auto elim!: bindR_InrE)
    from t obtain ps where "find_object odb c = Inr (CommitObj tree ps)"
      by (auto simp: find_commit_tree_def elim!: bindR_InrE split: object.splits)
    then have tree: "content odb c tree" by (rule content_tree [OF content_here])
    have "covered odb (P \<union> reached odb (set old)) x" if "x \<in> set counts" for x
    proof -
      from that 2(4) [unfolded count_under_def, rule_format, OF n] have "content odb tree x" by auto
      with tree 2(6) [of c] show ?thesis by (auto simp: covered_def intro: content_trans)
    qed
    with 2(5) have "known_ok odb P old (k\<lparr>expanded := insert c (expanded k), kboundary := kboundary k \<union> set counts\<rparr>)"
      by (auto simp: known_ok_def)
    from 2(2) [OF False e 2(4) this] 2(6) show ?thesis by simp
  qed
qed simp

text \<open>The loop of \<open>explains\<close>, when it ends well.\<close>

lemma explain_result:
  assumes "explain g odb old todo k = Inr (True, k')" and "walk_covers g" and "count_under g"
    and "known_ok odb P old k" and "pending_ok odb P (P \<union> reached odb (set old)) (verified k) todo"
  shows "known_ok odb P old k' \<and> pending_ok odb P (P \<union> reached odb (set old)) (verified k') []
    \<and> set todo \<subseteq> verified k' \<and> verified k \<subseteq> verified k'"
  using assms
proof (induction g odb old todo k rule: explain.induct)
  case (2 g odb old i todo k)
  let ?G = "P \<union> reached odb (set old)"
  let ?k = "k\<lparr>verified := insert i (verified k)\<rparr>"
  note prems = 2(5-9)
  consider (seen) "i \<in> verified k" | (sent) ob where "i \<notin> verified k" "i \<in> pushed k" "find_object odb i = Inr ob"
      "explain g odb old (rev (points_at ob) @ todo) ?k = Inr (True, k')"
    | (bound) "i \<notin> verified k" "i \<notin> pushed k" "i \<in> kboundary k" "explain g odb old todo ?k = Inr (True, k')"
    | (old) S where "i \<notin> verified k" "i \<notin> pushed k" "i \<notin> kboundary k" "ours_of g odb old ?k = Inr S" "i \<in> S"
      "explain g odb old todo (?k\<lparr>ours := Some S\<rparr>) = Inr (True, k')"
    using prems(1) by (auto simp: Let_def split: if_splits sum.splits)
  then show ?case
  proof cases
    case seen
    with prems(5) have "pending_ok odb P ?G (verified k) todo" by (auto simp: pending_ok_def insert_absorb)
    with seen 2(1) [OF seen] prems show ?thesis by auto
  next
    case sent
    from prems(4) have "i \<in> P" using sent(2) by (simp add: known_ok_def)
    with sent(3) prems(5) have "pending_ok odb P ?G (verified ?k) (rev (points_at ob) @ todo)"
      unfolding pending_ok_def by fastforce
    moreover have "known_ok odb P old ?k" using prems(4) by (simp add: known_ok_def)
    ultimately show ?thesis
      using 2(2) [OF sent(1) refl _ sent(3) sent(4) prems(2,3)] sent(2) by auto
  next
    case bound
    from prems(4) bound(3) have "covered odb ?G i" by (simp add: known_ok_def)
    with prems(5) have "pending_ok odb P ?G (verified ?k) todo" unfolding pending_ok_def by fastforce
    moreover have "known_ok odb P old ?k" using prems(4) by (simp add: known_ok_def)
    ultimately show ?thesis
      using 2(4) [OF bound(1) refl _ _ bound(4) prems(2,3)] bound(2,3) by auto
  next
    case old
    from old(4) prems(4) reachable_set_sound [OF prems(2,3)] have S: "S \<subseteq> reached odb (set old)"
      by (auto simp: ours_of_def known_ok_def split: option.splits)
    with old(5) have "covered odb ?G i" by (blast intro: reached_covered)
    with prems(5) have "pending_ok odb P ?G (verified (?k\<lparr>ours := Some S\<rparr>)) todo" unfolding pending_ok_def by fastforce
    moreover have "known_ok odb P old (?k\<lparr>ours := Some S\<rparr>)" using prems(4) S by (simp add: known_ok_def)
    ultimately show ?thesis
      using 2(3) [OF old(1) refl _ _ old(4) refl _ old(6) prems(2,3)] old(2,3,5) by auto
  qed
qed simp

text \<open>One accepted reference: everything its new tip reaches is good, and what is known stays sound.\<close>

lemma accepted_tip:
  assumes "walk_covers g" and "count_under g" and rng: "commit_range g odb [n] hide = Inr rng"
    and ex: "explains g odb rng old k = Inr (True, k')" and "known_ok odb P old k"
    and V: "pending_ok odb P (P \<union> reached odb (set old)) (verified k) []"
    and hide: "reached odb (set hide) \<subseteq> P \<union> reached odb (set old)"
  shows "known_ok odb P old k'" and "pending_ok odb P (P \<union> reached odb (set old)) (verified k') []"
    and "reached odb {n} \<subseteq> P \<union> reached odb (set old)"
proof -
  let ?G = "P \<union> reached odb (set old)"
  have hid: "covered odb ?G c" if "t \<in> set hide" "history odb t c" for t c
    using that hide by (auto simp: covered_def intro: reachedI)
  have bound: "covered odb ?G c" if c: "c \<in> set (boundary rng)" for c
  proof -
    from rng obtain p infos where "peel_wants odb [n] = Inr p" and w: "gwalk g odb (pcommits p) hide = Inr infos"
      and "ids rng = ptags p @ map fst infos" and "leaves rng = pleaves p"
      and "set (boundary rng) = {q. \<exists>c ps. (c, ps) \<in> set infos \<and> q \<in> set ps \<and> q \<notin> set (ids rng)}"
      by (rule commit_rangeE)
    with c obtain d ps where "(d, ps) \<in> set infos" "c \<in> set ps" "c \<notin> fst ` set infos" by auto
    with assms(1) [unfolded walk_covers_def, rule_format, OF w] have "\<exists>t\<in>set hide. history odb t c" by blast
    with hid show ?thesis by blast
  qed
  from ex obtain k1 where k1: "expand_boundary g odb (boundary rng) k = Inr k1"
    and e: "explain g odb old (rev (ids rng @ leaves rng)) k1 = Inr (True, k')"
    unfolding explains_def by (auto elim!: bindR_InrE)
  note B = expand_boundary_result [OF k1 assms(2,5) bound]
  from V B have "pending_ok odb P ?G (verified k1) (rev (ids rng @ leaves rng))"
    unfolding pending_ok_def by fastforce
  note E = explain_result [OF e assms(1,2) B [THEN conjunct1] this]
  from E show "known_ok odb P old k'" and done1: "pending_ok odb P ?G (verified k') []" by auto
  have "covered odb ?G h" if "history odb n h" for h
    using commit_range_covers [OF assms(1) rng that] hid E pending_done [OF done1, of h] by auto
  then show "reached odb {n} \<subseteq> ?G" by (auto simp: reached_def covered_def)
qed

lemma check_updates_sound:
  assumes "check_updates g odb old us k hide = Inr rs" and "list_all (\<lambda>r. r = None) rs"
    and "walk_covers g" and "count_under g" and "known_ok odb P old k"
    and "pending_ok odb P (P \<union> reached odb (set old)) (verified k) []"
    and "reached odb (set hide) \<subseteq> P \<union> reached odb (set old)"
    and "u \<in> set us" and "unew u = Some n"
  shows "reached odb {n} \<subseteq> P \<union> reached odb (set old)"
  using assms
proof (induction g odb old us k hide arbitrary: rs rule: check_updates.induct)
  case (2 g odb old v us k hide)
  note prems = 2(5-)
  show ?case
  proof (cases "unew v")
    case None
    with prems(1,2) obtain rs' where "check_updates g odb old us k hide = Inr rs'" "list_all (\<lambda>r. r = None) rs'"
      by (auto elim!: bindR_InrE)
    with 2(1) [OF None] prems None show ?thesis by auto
  next
    case (Some m)
    from prems(1,2) Some obtain rng where rng: "commit_range g odb [m] hide = Inr rng"
      by (auto split: sum.splits if_splits elim!: bindR_InrE)
    with prems(1,2) Some obtain k' rs' where k': "explains g odb rng old k = Inr (True, k')"
      and r: "check_updates g odb old us k' (hide @ [m]) = Inr rs'" "list_all (\<lambda>r. r = None) rs'"
      by (auto elim!: bindR_InrE split: if_splits)
    note A = accepted_tip [OF prems(3,4) rng k' prems(5-7)]
    from A(3) prems(7) have hide: "reached odb (set (hide @ [m])) \<subseteq> P \<union> reached odb (set old)"
      by (simp add: reached_insert [of odb m "set hide"])
    show ?thesis
    proof (cases "u = v")
      case True
      with A(3) Some prems(9) show ?thesis by simp
    next
      case False
      with prems(8) have "u \<in> set us" by simp
      from 2(3) [OF Some rng TrueI r prems(3,4) A(1,2) hide this prems(9)] show ?thesis by simp
    qed
  qed
qed simp

text \<open>
  C6. A push whose connectivity check refuses no reference is closed: everything reachable from
  every new tip, through its history and through the trees of that history, was sent in this push
  or is reachable from the references the repository had. Neither the memory of what is verified
  nor the hiding of tips accepted earlier in the same push lets a hole through, and an object that
  only happens to lie in the local cache explains nothing. This rests on what gix documents of its
  commit walk and its tree expansion.
\<close>

theorem push_is_closed:
  assumes "walk_covers g" and "count_under g"
    and "check_updates g odb old_tips updates (new_known P) old_tips = Inr results"
    and "list_all (\<lambda>r. r = None) results"
    and "u \<in> set updates" and "unew u = Some n"
  shows "reached odb {n} \<subseteq> P \<union> reached odb (set old_tips)"
  by (rule check_updates_sound [OF assms(3,4,1,2) _ _ _ assms(5,6)])
    (auto simp: known_ok_def pending_ok_def new_known_def)

text \<open>
  A walk and an expansion that keep their contract, to run the check on: both take closures by
  rounds, and the walk reports an object it could not follow.
\<close>

definition history_next :: "odb \<Rightarrow> oid \<Rightarrow> oid list" where
  "history_next odb i = (case find_object odb i of Inr (CommitObj _ ps) \<Rightarrow> ps | Inr (TagObj t) \<Rightarrow> [t] | _ \<Rightarrow> [])"

definition content_next :: "odb \<Rightarrow> oid \<Rightarrow> oid list" where
  "content_next odb i = (case find_object odb i of Inr ob \<Rightarrow> points_at ob | Inl _ \<Rightarrow> [])"

fun close_under :: "nat \<Rightarrow> (oid \<Rightarrow> oid list) \<Rightarrow> oid list \<Rightarrow> oid list" where
  "close_under 0 f is = is"
| "close_under (Suc n) f is = close_under n f (remdups (is @ concat (map f is)))"

definition commit_info :: "odb \<Rightarrow> oid \<Rightarrow> (oid \<times> oid list) option" where
  "commit_info odb c = (case find_object odb c of Inr (CommitObj _ ps) \<Rightarrow> Some (c, ps) | _ \<Rightarrow> None)"

definition round_walk :: "odb \<Rightarrow> oid list \<Rightarrow> oid list \<Rightarrow> error + (oid \<times> oid list) list" where
  "round_walk odb tips hide =
     (let hidden = close_under (length odb) (history_next odb) hide;
          infos = List.map_filter (commit_info odb)
            (filter (\<lambda>c. c \<notin> set hidden) (close_under (length odb) (history_next odb) tips));
          lost = filter (\<lambda>p. p \<notin> set (map fst infos) \<and> p \<notin> set hidden) (tips @ concat (map snd infos))
      in case lost of
           [] \<Rightarrow> Inr infos
         | p # _ \<Rightarrow> (case find_object odb p of Inl e \<Rightarrow> Inl e | Inr _ \<Rightarrow> Inl (Message ''not a commit'')))"

definition round_count :: "odb \<Rightarrow> oid list \<Rightarrow> error + oid list" where
  "round_count odb is =
     (let cs = remdups (close_under (length odb) (content_next odb) is)
      in if list_all (\<lambda>i. i \<in> set cs) is \<and> list_all (\<lambda>c. list_all (\<lambda>d. d \<in> set cs) (content_next odb c)) cs
         then Inr cs else Inl (Message ''not closed''))"

definition round_gix :: gix where
  "round_gix = \<lparr>giter = (\<lambda>odb tips hide. bindR (round_walk odb tips hide) (\<lambda>infos. Inr (map Inr infos))),
     gcount = (\<lambda>_. round_count), gtime = (\<lambda>_ _. None), gheader = (\<lambda>_ _. None)\<rparr>"

lemma collect_Inr: "collect_results (map Inr xs) = Inr xs"
  by (induction xs) auto

lemma round_gix_gwalk: "gwalk round_gix odb tips hide = round_walk odb tips hide"
  by (simp add: gwalk_def round_gix_def bindR_def collect_Inr split: sum.splits)

lemma round_gix_gcount: "gcount round_gix ex = round_count"
  by (simp add: round_gix_def)

lemma close_under_inv:
  assumes "\<And>i c. R i \<Longrightarrow> c \<in> set (f i) \<Longrightarrow> R c" and "\<forall>i\<in>set is. R i"
  shows "\<forall>i\<in>set (close_under n f is). R i"
  using assms(2)
proof (induction n arbitrary: "is")
  case (Suc n)
  then show ?case unfolding close_under.simps by (intro Suc.IH) (auto intro: assms(1))
qed simp

lemma history_nextD: "c \<in> set (history_next odb i) \<Longrightarrow> history odb j i \<Longrightarrow> history odb j c"
  unfolding history_next_def
  by (cases "find_object odb i"; cases "projr (find_object odb i)")
    (auto intro: history_parent history_target)

lemma content_nextD: "c \<in> set (content_next odb i) \<Longrightarrow> content odb j i \<Longrightarrow> content odb j c"
  unfolding content_next_def by (cases "find_object odb i") (auto intro: content_step)

lemma close_under_from:
  assumes "\<And>i c j. c \<in> set (f i) \<Longrightarrow> R j i \<Longrightarrow> R j c" and "\<And>i. R i i"
  shows "c \<in> set (close_under n f is) \<Longrightarrow> \<exists>i\<in>set is. R i c"
  using close_under_inv [of "\<lambda>c. \<exists>i\<in>set is. R i c" f "is" n] assms by blast

lemma close_under_history:
  "c \<in> set (close_under n (history_next odb) is) \<Longrightarrow> \<exists>i\<in>set is. history odb i c"
  by (rule close_under_from [of "history_next odb" "history odb"]) (auto intro: history_nextD history_here)

lemma close_under_content:
  "c \<in> set (close_under n (content_next odb) is) \<Longrightarrow> \<exists>i\<in>set is. content odb i c"
  by (rule close_under_from [of "content_next odb" "content odb"]) (auto intro: content_nextD content_here)

lemma commit_info_SomeD:
  "commit_info odb c = Some (d, ps) \<Longrightarrow> d = c \<and> (\<exists>t. find_object odb c = Inr (CommitObj t ps))"
  unfolding commit_info_def by (cases "find_object odb c"; cases "projr (find_object odb c)") auto

lemma round_gix_walk: "walk_covers round_gix"
proof -
  have "(\<forall>c ps. (c, ps) \<in> set infos \<longrightarrow>
        (\<exists>t. find_object odb c = Inr (CommitObj t ps)) \<and> (\<exists>i\<in>set tips. history odb i c)
        \<and> (\<forall>p\<in>set ps. p \<in> fst ` set infos \<or> (\<exists>h\<in>set hide. history odb h p)))
     \<and> (\<forall>c\<in>set tips. c \<in> fst ` set infos \<or> (\<exists>h\<in>set hide. history odb h c))"
    if "round_walk odb tips hide = Inr infos" for odb tips hide infos
  proof -
    let ?H = "close_under (length odb) (history_next odb) hide"
    let ?T = "close_under (length odb) (history_next odb) tips"
    from that have i: "infos = List.map_filter (commit_info odb) (filter (\<lambda>c. c \<notin> set ?H) ?T)"
      and l: "filter (\<lambda>p. p \<notin> set (map fst infos) \<and> p \<notin> set ?H) (tips @ concat (map snd infos)) = []"
      by (auto simp: round_walk_def Let_def split: list.splits sum.splits)
    have all: "p \<in> fst ` set infos \<or> p \<in> set ?H" if "p \<in> set tips \<or> (\<exists>c ps. (c, ps) \<in> set infos \<and> p \<in> set ps)" for p
      using l that by (fastforce simp: filter_empty_conv)
    have info: "c \<in> set ?T \<and> (\<exists>t. find_object odb c = Inr (CommitObj t ps))" if "(c, ps) \<in> set infos" for c ps
      using that unfolding i List.map_filter_def by (force dest: commit_info_SomeD)
    from info close_under_history all show ?thesis by meson
  qed
  then show ?thesis by (simp add: walk_covers_def round_gix_gwalk)
qed

lemma round_gix_count: "count_under round_gix"
  using close_under_content by (auto simp: count_under_def round_gix_def round_count_def Let_def split: if_splits)

text \<open>
  Commit 1 is the repository's; the push brings commit 4 on it, whose tree 5 keeps the blob 3 and
  adds 6, and the tag 7 at it.
\<close>

definition sample_odb :: odb where
  "sample_odb = [(1, Inr (CommitObj 2 [])), (2, Inr (TreeObj [(''a'', BlobMode, 3)])), (3, Inr BlobObj),
     (4, Inr (CommitObj 5 [1])), (5, Inr (TreeObj [(''a'', BlobMode, 3), (''b'', BlobMode, 6), (''c'', SubmoduleMode, 9)])), (6, Inr BlobObj),
     (7, Inr (TagObj 4))]"

definition sample_updates :: "ref_update list" where
  "sample_updates = [\<lparr>uname = ''refs/heads/main'', uold = Some 1, unew = Some 4\<rparr>,
     \<lparr>uname = ''refs/tags/v1'', uold = None, unew = Some 7\<rparr>]"

lemma sample_find:
  "find_object sample_odb 1 = Inr (CommitObj 2 [])"
  "find_object sample_odb 2 = Inr (TreeObj [(''a'', BlobMode, 3)])"
  "find_object sample_odb 3 = Inr BlobObj"
  "find_object sample_odb 4 = Inr (CommitObj 5 [1])"
  "find_object sample_odb 5 = Inr (TreeObj [(''a'', BlobMode, 3), (''b'', BlobMode, 6), (''c'', SubmoduleMode, 9)])"
  "find_object sample_odb 6 = Inr BlobObj"
  "find_object sample_odb 7 = Inr (TagObj 4)"
  "length sample_odb = Suc (Suc (Suc (Suc (Suc (Suc (Suc 0))))))"
  by (simp_all add: find_object_def sample_odb_def)

lemma sample_walks:
  "gwalk round_gix sample_odb [4] [1] = Inr [(4, [1])]"
  "gwalk round_gix sample_odb [4] [1, 4] = Inr []"
  "gcount round_gix TreeContents sample_odb [2] = Inr [2, 3]"
  by (simp_all add: round_gix_gwalk round_gix_gcount round_walk_def round_count_def sample_find history_next_def content_next_def commit_info_def List.map_filter_def)

lemma sample_check:
  "check_updates round_gix sample_odb [1] sample_updates (new_known {4, 5, 6, 7}) [1] = Inr [None, None]"
  by (simp add: sample_updates_def sample_walks sample_find commit_range_def peel_wants_def bindR_def
      explains_def new_known_def find_commit_tree_def)

theorem push_is_closed_witness:
  "reached sample_odb {7} \<subseteq> {4, 5, 6, 7} \<union> reached sample_odb {1}"
  using push_is_closed [OF round_gix_walk round_gix_count sample_check, of "sample_updates ! 1" 7]
  by (simp add: sample_updates_def)

section \<open>The check refuses nothing that is closed\<close>

text \<open>
  What more gix documents: a walk misses an object only if the history it follows names one that is
  not there, and an expansion leaves out nothing.
\<close>

definition walk_finds :: "gix \<Rightarrow> bool" where
  "walk_finds g \<longleftrightarrow> (\<forall>odb tips hide e. gwalk g odb tips hide = Inl e \<and> is_missing_object e \<longrightarrow>
     (\<exists>i\<in>set tips \<union> set hide. \<exists>c m. history odb i c \<and> find_object odb c = Inl m))"

definition count_all :: "gix \<Rightarrow> bool" where
  "count_all g \<longleftrightarrow> (\<forall>odb is cs. gcount g TreeContents odb is = Inr cs \<longrightarrow> (\<forall>i\<in>set is. \<forall>c. content odb i c \<longrightarrow> c \<in> set cs))"

lemma reachable_set_complete:
  assumes "walk_covers g" and "count_all g" and "reachable_set g odb tips = Inr S"
  shows "reached odb (set tips) \<subseteq> S"
proof
  fix x assume "x \<in> reached odb (set tips)"
  then obtain i h where x: "i \<in> set tips" "history odb i h" "content odb h x" by (auto simp: reached_def)
  from assms(3) obtain p infos counts where p: "peel_wants odb tips = Inr p"
    and w: "gwalk g odb (pcommits p) [] = Inr infos"
    and c: "gcount g TreeContents odb (ptags p @ pleaves p @ map fst infos) = Inr counts"
    and S: "S = set (ptags p @ pleaves p @ map fst infos) \<union> set counts"
    unfolding reachable_set_def Let_def by (auto elim!: bindR_InrE)
  from walk_peeled_covers [OF assms(1) p w x(1,2)] have "h \<in> set (ptags p @ pleaves p @ map fst infos)" by auto
  with assms(2) [unfolded count_all_def, rule_format, OF c] x(3) S show "x \<in> S" by blast
qed

lemma covered_points_at:
  "covered odb G i \<Longrightarrow> find_object odb i = Inr ob \<Longrightarrow> c \<in> set (points_at ob) \<Longrightarrow> covered odb G c"
  unfolding covered_def by (blast intro: content_trans points_at_content)

definition known_full :: "odb \<Rightarrow> oid set \<Rightarrow> oid list \<Rightarrow> known \<Rightarrow> bool" where
  "known_full odb P old k \<longleftrightarrow> pushed k = P \<and> (\<forall>S. ours k = Some S \<longrightarrow> reached odb (set old) \<subseteq> S)"

lemma explain_complete:
  assumes "explain g odb old todo k = Inr (ok, k')" and "walk_covers g" and "count_all g"
    and "known_full odb P old k" and "\<forall>i\<in>set todo. covered odb (P \<union> reached odb (set old)) i"
  shows "ok \<and> known_full odb P old k'"
  using assms
proof (induction g odb old todo k rule: explain.induct)
  case (2 g odb old i todo k)
  let ?G = "P \<union> reached odb (set old)"
  let ?k = "k\<lparr>verified := insert i (verified k)\<rparr>"
  note prems = 2(5-9)
  have k: "known_full odb P old ?k" "pushed k = P" using prems(4) by (simp_all add: known_full_def)
  have iG: "covered odb ?G i" "i \<in> ?G" using prems(5) by (auto simp: covered_def intro: content_here)
  show ?case
  proof (cases "i \<in> verified k")
    case True
    with 2(1) [OF True] prems show ?thesis by simp
  next
    case new: False
    show ?thesis
    proof (cases "i \<in> pushed k")
      case True
      with new prems(1) obtain ob where ob: "find_object odb i = Inr ob"
        and e: "explain g odb old (rev (points_at ob) @ todo) ?k = Inr (ok, k')"
        by (auto simp: Let_def split: sum.splits)
      from prems(5) covered_points_at [OF iG(1) ob] have "\<forall>j\<in>set (rev (points_at ob) @ todo). covered odb ?G j" by auto
      with 2(2) [OF new refl _ ob e prems(2,3) k(1)] True show ?thesis by simp
    next
      case unsent: False
      show ?thesis
      proof (cases "i \<in> kboundary k")
        case True
        with new unsent prems(1) have "explain g odb old todo ?k = Inr (ok, k')" by (simp add: Let_def)
        with 2(4) [OF new refl _ _ this prems(2,3) k(1)] unsent True prems(5) show ?thesis by simp
      next
        case False
        with new unsent prems(1) obtain S where S: "ours_of g odb old ?k = Inr S"
          and e: "(if i \<notin> S then Inr (False, ?k\<lparr>ours := Some S\<rparr>) else explain g odb old todo (?k\<lparr>ours := Some S\<rparr>))
              = Inr (ok, k')"
          by (auto simp: Let_def split: sum.splits)
        from S prems(4) reachable_set_complete [OF prems(2,3)] have full: "reached odb (set old) \<subseteq> S"
          by (auto simp: ours_of_def known_full_def split: option.splits)
        with iG(2) unsent k(2) have "i \<in> S" by auto
        moreover from this e have "explain g odb old todo (?k\<lparr>ours := Some S\<rparr>) = Inr (ok, k')" by simp
        moreover have "known_full odb P old (?k\<lparr>ours := Some S\<rparr>)" using k(2) full by (simp add: known_full_def)
        ultimately show ?thesis
          using 2(3) [OF new refl _ _ S refl _ _ prems(2,3)] unsent False prems(5) by simp
      qed
    qed
  qed
qed simp

lemma expand_boundary_keeps: "expand_boundary g odb cs k = Inr k' \<Longrightarrow> pushed k' = pushed k \<and> ours k' = ours k"
proof (induction g odb cs k rule: expand_boundary.induct)
  case (2 g odb c cs k)
  then show ?case by (cases "c \<in> expanded k") (auto elim!: bindR_InrE)
qed simp

text \<open>A range keeps to the history of what it starts from, and misses something only if that does.\<close>

lemma commit_range_history:
  assumes "walk_covers g" and "commit_range g odb [n] hide = Inr rng" and "c \<in> set (ids rng @ leaves rng)"
  shows "history odb n c"
proof -
  from assms(2) obtain p infos where p: "peel_wants odb [n] = Inr p" and w: "gwalk g odb (pcommits p) hide = Inr infos"
    and "ids rng = ptags p @ map fst infos" "leaves rng = pleaves p"
    by (rule commit_rangeE)
  with assms(3) consider "c \<in> peels odb p" | ps where "(c, ps) \<in> set infos" by (auto simp: peels_def)
  then show ?thesis
  proof cases
    case 2
    with assms(1) w obtain j where "j \<in> set (pcommits p)" "history odb j c" unfolding walk_covers_def by blast
    moreover from this(1) peel_wants_result(1) [OF p] have "history odb n j" by (auto simp: peel_ok_def peels_def)
    ultimately show ?thesis by (blast intro: history_trans)
  qed (use peel_wants_result(1) [OF p] in \<open>auto simp: peel_ok_def\<close>)
qed

lemma peel_missing:
  assumes "peel f odb i p = Inl e" and "is_missing_object e"
  shows "\<exists>c m. history odb i c \<and> find_object odb c = Inl m"
  using assms
proof (induction f odb i p rule: peel.induct)
  case (2 f odb i p)
  show ?case
  proof (cases "find_object odb i")
    case (Inl m)
    then show ?thesis by (blast intro: history_here)
  next
    case (Inr ob)
    with 2(2) obtain t where t: "ob = TagObj t" "peel f odb t (p\<lparr>ptags := ptags p @ [i]\<rparr>) = Inl e"
      by (auto simp: bindR_def split: object.splits)
    with 2(1) [OF t(2)] 2(3) obtain c m where "history odb t c" "find_object odb c = Inl m" by blast
    with Inr t(1) show ?thesis by (blast intro: history_trans history_target history_here)
  qed
qed (auto simp: is_missing_object_def)

lemma commit_range_missing:
  assumes "walk_finds g" and "commit_range g odb [n] hide = Inl e" and "is_missing_object e"
  shows "\<exists>i\<in>insert n (set hide). \<exists>c m. history odb i c \<and> find_object odb c = Inl m"
proof (cases "peel_wants odb [n]")
  case (Inl e')
  with assms(2) have "peel (Suc (length odb)) odb n \<lparr>pcommits = [], ptags = [], pleaves = []\<rparr> = Inl e"
    by (auto simp: commit_range_def peel_wants_def bindR_def split: sum.splits)
  from peel_missing [OF this assms(3)] show ?thesis by blast
next
  case (Inr p)
  with assms(2) have "gwalk g odb (pcommits p) hide = Inl e"
    by (auto simp: commit_range_def bindR_def Let_def split: sum.splits)
  with assms(1,3) obtain i c m where "i \<in> set (pcommits p) \<union> set hide" "history odb i c" "find_object odb c = Inl m"
    unfolding walk_finds_def by blast
  moreover have "history odb n i" if "i \<in> set (pcommits p)"
    using peel_wants_result(1) [OF Inr] that by (auto simp: peel_ok_def peels_def)
  ultimately show ?thesis by (blast intro: history_trans)
qed

lemma check_updates_complete:
  assumes "check_updates g odb old us k hide = Inr rs" and "walk_covers g" and "walk_finds g" and "count_all g"
    and "\<And>x. x \<in> P \<union> reached odb (set old) \<Longrightarrow> \<exists>ob. find_object odb x = Inr ob"
    and "known_full odb P old k" and "reached odb (set hide) \<subseteq> P \<union> reached odb (set old)"
    and "\<And>u n. u \<in> set us \<Longrightarrow> unew u = Some n \<Longrightarrow> reached odb {n} \<subseteq> P \<union> reached odb (set old)"
  shows "rs = map (\<lambda>_. None) us"
  using assms
proof (induction g odb old us k hide arbitrary: rs rule: check_updates.induct)
  case (2 g odb old u us k hide)
  let ?G = "P \<union> reached odb (set old)"
  note prems = 2(5-)
  show ?case
  proof (cases "unew u")
    case None
    with prems(1) obtain rs' where r: "check_updates g odb old us k hide = Inr rs'" "rs = None # rs'"
      by (auto elim!: bindR_InrE)
    have "rs' = map (\<lambda>_. None) us" by (rule 2(1) [OF None r(1) prems(2-7)]) (use prems(8) in auto)
    with r(2) show ?thesis by simp
  next
    case (Some n)
    have n: "reached odb {n} \<subseteq> ?G" by (rule prems(8) [OF _ Some]) simp
    with prems(7) have hide: "reached odb (insert n (set hide)) \<subseteq> ?G" by (simp add: reached_insert [of odb n "set hide"])
    show ?thesis
    proof (cases "commit_range g odb [n] hide")
      case (Inl e)
      with prems(1) Some have "is_missing_object e" by (auto split: if_splits)
      from commit_range_missing [OF prems(3) Inl this] obtain i c m
        where "i \<in> insert n (set hide)" "history odb i c" "find_object odb c = Inl m" by blast
      with hide prems(5) [of c] show ?thesis by (auto intro: reachedI content_here)
    next
      case (Inr rng)
      with prems(1) Some obtain ok k' where ex: "explains g odb rng old k = Inr (ok, k')"
        by (auto elim!: bindR_InrE)
      then obtain k1 where k1: "expand_boundary g odb (boundary rng) k = Inr k1"
        and e: "explain g odb old (rev (ids rng @ leaves rng)) k1 = Inr (ok, k')"
        unfolding explains_def by (auto elim!: bindR_InrE)
      from expand_boundary_keeps [OF k1] prems(6) have "known_full odb P old k1" by (simp add: known_full_def)
      moreover have "\<forall>c\<in>set (rev (ids rng @ leaves rng)). covered odb ?G c"
        using commit_range_history [OF prems(2) Inr] n by (auto simp: covered_def intro: reachedI)
      ultimately have ok: "ok" "known_full odb P old k'" using explain_complete [OF e prems(2,4)] by auto
      with prems(1) Some Inr ex obtain rs' where r: "check_updates g odb old us k' (hide @ [n]) = Inr rs'"
        "rs = None # rs'"
        by (auto simp: bindR_def split: sum.splits)
      have "rs' = map (\<lambda>_. None) us"
        by (rule 2(3) [OF Some Inr ok(1) r(1) prems(2-5) ok(2)]) (use hide prems(8) in auto)
      with r(2) show ?thesis by simp
    qed
  qed
qed simp

text \<open>
  C19. The connectivity check never turns a whole push away: if everything reachable from the new
  tips is in the pack or reachable from the repository's references, and those objects can be read,
  no reference is refused. An unchanged subtree, a blob revived from older history, a tag at a commit
  of the same push are all explained. With the soundness of the check this makes it exact.
\<close>

theorem closed_push_is_accepted:
  assumes "walk_covers g" and "walk_finds g" and "count_all g"
    and "\<And>x. x \<in> P \<union> reached odb (set old_tips) \<Longrightarrow> \<exists>ob. find_object odb x = Inr ob"
    and "\<And>u n. u \<in> set updates \<Longrightarrow> unew u = Some n \<Longrightarrow> reached odb {n} \<subseteq> P \<union> reached odb (set old_tips)"
    and "check_updates g odb old_tips updates (new_known P) old_tips = Inr results"
  shows "results = map (\<lambda>_. None) updates"
  by (rule check_updates_complete [OF assms(6,1-4)]) (use assms(5) in \<open>auto simp: known_full_def new_known_def\<close>)

lemma round_gix_count_all: "count_all round_gix"
proof -
  have "c \<in> set cs" if "round_count odb is = Inr cs" "i \<in> set is" "content odb i c" for odb "is" cs i c
  proof -
    from that(1,2) have i: "i \<in> set cs" and cl: "\<And>a b. a \<in> set cs \<Longrightarrow> b \<in> set (content_next odb a) \<Longrightarrow> b \<in> set cs"
      by (auto simp: round_count_def Let_def list_all_iff split: if_splits)
    from that(3) i show ?thesis
      by (induction rule: content.induct) (force intro: cl simp: content_next_def)+
  qed
  then show ?thesis by (simp add: count_all_def round_gix_def)
qed

lemma filter_ConsD: "filter P xs = y # ys \<Longrightarrow> y \<in> set xs"
  by (induction xs) (auto split: if_splits)

lemma round_gix_finds: "walk_finds round_gix"
proof -
  have "\<exists>i\<in>set tips. \<exists>c m. history odb i c \<and> find_object odb c = Inl m"
    if run: "round_walk odb tips hide = Inl e" and e: "is_missing_object e" for odb tips hide e
  proof -
    let ?H = "close_under (length odb) (history_next odb) hide"
    let ?T = "close_under (length odb) (history_next odb) tips"
    define infos where "infos = List.map_filter (commit_info odb) (filter (\<lambda>c. c \<notin> set ?H) ?T)"
    from run e obtain p rest1 where l: "filter (\<lambda>p. p \<notin> set (map fst infos) \<and> p \<notin> set ?H) (tips @ concat (map snd infos)) = p # rest1"
      and m: "find_object odb p = Inl e"
      by (auto simp: round_walk_def Let_def infos_def [symmetric] is_missing_object_def split: list.splits sum.splits)
    from filter_ConsD [OF l] have "p \<in> set (tips @ concat (map snd infos))" .
    then consider "p \<in> set tips" | c ps where "(c, ps) \<in> set infos" "p \<in> set ps" by fastforce
    then have "\<exists>i\<in>set tips. history odb i p"
    proof cases
      case 2
      from 2(1) have "c \<in> set ?T \<and> (\<exists>t. find_object odb c = Inr (CommitObj t ps))"
        unfolding infos_def List.map_filter_def by (force dest: commit_info_SomeD)
      with close_under_history [of c "length odb" odb tips] 2(2) show ?thesis by (blast intro: history_parent)
    qed (blast intro: history_here)
    with m show ?thesis by blast
  qed
  then show ?thesis unfolding walk_finds_def round_gix_gwalk by fastforce
qed

lemma sample_ours: "reached sample_odb {1} \<subseteq> {1, 2, 3}"
proof -
  have "h = 1" if "history sample_odb 1 h" for h
    using that by (induction rule: history.induct) (auto simp: sample_find)
  moreover have "x \<in> {1, 2, 3}" if "content sample_odb 1 x" for x
    using that by (induction rule: content.induct) (auto simp: sample_find)
  ultimately show ?thesis by (auto simp: reached_def)
qed

lemma sample_closed:
  "u \<in> set sample_updates \<Longrightarrow> unew u = Some n \<Longrightarrow> reached sample_odb {n} \<subseteq> {4, 5, 6, 7} \<union> reached sample_odb (set [1])"
  by (rule check_updates_sound [OF sample_check _ round_gix_walk round_gix_count])
    (auto simp: known_ok_def pending_ok_def new_known_def)

theorem closed_push_is_accepted_witness:
  "check_updates round_gix sample_odb [1] sample_updates (new_known {4, 5, 6, 7}) [1] = Inr (map (\<lambda>_. None) sample_updates)"
proof -
  have "\<exists>ob. find_object sample_odb x = Inr ob" if "x \<in> {4, 5, 6, 7} \<union> reached sample_odb (set [1])" for x
    using that sample_ours by (auto simp: sample_find)
  from closed_push_is_accepted [OF round_gix_walk round_gix_finds round_gix_count_all this sample_closed sample_check]
  show ?thesis by (simp only: sample_check)
qed

text \<open>The tags of an object database form chains, so the rounds of \<open>peel\<close> are enough.\<close>

lemma peel_fuel:
  assumes "acyclic {(i, t). find_object odb i = Inr (TagObj t)}" (is "acyclic ?E")
  shows "peel (Suc (length odb) + m) odb i p = peel (Suc (length odb)) odb i p"
proof -
  have "peel (n + m) odb i p = peel n odb i p"
    if "V \<subseteq> fst ` set odb" "\<forall>v\<in>V. (v, i) \<in> ?E\<^sup>+" "Suc (length odb) \<le> card V + n" for n i p V
    using that
  proof (induction n arbitrary: i p V)
    case 0
    then have "card V \<le> card (fst ` set odb)" by (intro card_mono) auto
    also have "\<dots> \<le> length odb" using card_length [of "map fst odb"] by simp
    finally show ?case using 0 by simp
  next
    case (Suc n)
    show ?case
    proof (cases "\<exists>t. find_object odb i = Inr (TagObj t)")
      case True
      then obtain t where t: "find_object odb i = Inr (TagObj t)" by blast
      have iV: "i \<notin> V" using assms Suc.prems(2) by (auto simp: acyclic_def)
      have fin: "finite V" using Suc.prems(1) finite_subset by fastforce
      from t have "i \<in> fst ` set odb"
        by (auto simp: find_object_def split: option.splits dest!: map_of_SomeD intro: rev_image_eqI)
      moreover have "\<forall>v\<in>insert i V. (v, t) \<in> ?E\<^sup>+" using Suc.prems(2) t by (auto intro: trancl_into_trancl)
      ultimately have "peel (n + m) odb t q = peel n odb t q" for q
        using Suc.prems iV fin by (intro Suc.IH [of "insert i V"]) auto
      with t show ?thesis by (simp add: bindR_def)
    next
      case False
      then show ?thesis by (auto simp: bindR_def split: sum.splits object.splits)
    qed
  qed
  from this [of "{}" i "Suc (length odb)" p] show ?thesis by simp
qed

end
