(* ===== verification/Receive.thy ===== *)
theory Receive
  imports Connectivity
begin

text \<open>
  The push: \<open>crates/git/src/protocol/receive.rs\<close>. The commands are read from the stream, the pack
  that follows is indexed through a reader with a cap, the connectivity of every new tip is checked,
  the pack is uploaded, the references are moved in one transaction, and the outcome is reported.
  gix is a parameter: how it opens the object database over the local files, how it indexes a pack
  (a program that may ask the reader for bytes in any way it likes) and which objects an index file
  lists.
\<close>

section \<open>The reader with a cap\<close>

record capped =
  inner :: reader
  left :: nat
  hit_cap :: bool

text \<open>
  \<open>BufRead::fill_buf\<close> of the transport: what it has buffered, at most \<open>bs\<close> bytes and at least one
  unless the stream is at its end.
\<close>

definition fill_buf :: "nat \<Rightarrow> reader \<Rightarrow> error + bytes" where
  "fill_buf bs r =
     (if rbuf r = [] then (case rend r of None \<Rightarrow> Inr [] | Some e \<Rightarrow> Inl (Io e)) else Inr (take (Suc bs) (rbuf r)))"

definition over_cap :: string where
  "over_cap = ''pack exceeds the size limit''"

definition capped_fill_buf :: "nat \<Rightarrow> (capped, bytes) io" where
  "capped_fill_buf bs c =
     (case fill_buf bs (inner c) of
        Inl e \<Rightarrow> (Inl e, c)
      | Inr b \<Rightarrow>
          if left c = 0 \<and> b \<noteq> [] then (Inl (Io (io_other over_cap)), c\<lparr>hit_cap := True\<rparr>)
          else (Inr (take (min (length b) (left c)) b), c))"

definition capped_consume :: "nat \<Rightarrow> capped \<Rightarrow> capped" where
  "capped_consume n c = c\<lparr>left := left c - n, inner := (inner c)\<lparr>rbuf := drop n (rbuf (inner c))\<rparr>\<rparr>"

definition capped_read :: "nat \<Rightarrow> nat \<Rightarrow> (capped, bytes) io" where
  "capped_read bs m =
     bindE (capped_fill_buf bs) (\<lambda>src.
     let n = min (length src) m
     in bindE (putE (capped_consume n)) (\<lambda>_. returnE (take n src)))"

text \<open>What a client of the reader may do: look at the buffer, consume, read, and end with a result.\<close>

datatype 'r pull =
    Done 'r
  | Fill "error + bytes \<Rightarrow> 'r pull"
  | Consume nat "'r pull"
  | Read nat "error + bytes \<Rightarrow> 'r pull"

primrec run_pull :: "nat \<Rightarrow> 'r pull \<Rightarrow> capped \<Rightarrow> 'r \<times> capped" where
  "run_pull bs (Done x) = (\<lambda>c. (x, c))"
| "run_pull bs (Fill f) = (\<lambda>c. run_pull bs (f (fst (capped_fill_buf bs c))) (snd (capped_fill_buf bs c)))"
| "run_pull bs (Consume n p) = (\<lambda>c. run_pull bs p (capped_consume n c))"
| "run_pull bs (Read m f) = (\<lambda>c. run_pull bs (f (fst (capped_read bs m c))) (snd (capped_read bs m c)))"

section \<open>The parts of gix\<close>

text \<open>The files an indexed pack leaves in the directory, each with its path.\<close>

record pack_out =
  keep_file :: "(string \<times> bytes) option"
  data_file :: "(string \<times> bytes) option"
  index_file :: "(string \<times> bytes) option"

record gitlib =
  algos :: gix
  open_odb :: "(string \<times> bytes) list \<Rightarrow> error + odb"
  index_pack :: "odb \<Rightarrow> (error + pack_out) pull"
  index_ids :: "bytes \<Rightarrow> error + oid list"
  ancestry :: "walk option"
  max_body :: nat
  buf_size :: nat

definition repo_odb :: "gitlib \<Rightarrow> repo \<Rightarrow> ('z world_scheme, odb) io" where
  "repo_odb L r =
     (\<lambda>s. (open_odb L (filter (\<lambda>(p, _). prefix (objects_dir r @ ''/'') p) (disk s)), s))"

definition put_file :: "(string \<times> bytes) option \<Rightarrow> 'z world_scheme \<Rightarrow> 'z world_scheme" where
  "put_file f s = (case f of None \<Rightarrow> s | Some (p, b) \<Rightarrow> s\<lparr>disk := AList.update p b (disk s)\<rparr>)"

definition remove_file :: "string \<Rightarrow> ('z world_scheme, unit) io" where
  "remove_file p = io_write (\<lambda>s. s\<lparr>disk := AList.delete p (disk s)\<rparr>)"

definition write_pack :: "gitlib \<Rightarrow> repo \<Rightarrow> reader \<Rightarrow> ('z world_scheme, (string \<times> string) option) io" where
  "write_pack L r rd =
     bindE (repo_odb L r) (\<lambda>odb.
     case run_pull (buf_size L) (index_pack L odb) \<lparr>inner = rd, left = max_body L, hit_cap = False\<rparr> of
       (Inl e, c) \<Rightarrow> failE (ClientPack (if hit_cap c then over_cap else err_text e))
     | (Inr out, c) \<Rightarrow>
         bindE (putE (\<lambda>s. put_file (index_file out) (put_file (data_file out) (put_file (keep_file out) s)))) (\<lambda>_.
         bindE (case keep_file out of None \<Rightarrow> returnE () | Some (k, _) \<Rightarrow> ignoreE (remove_file k)) (\<lambda>_.
         returnE (case (data_file out, index_file out) of
            (Some (p, _), Some (i, _)) \<Rightarrow> Some (p, i)
          | _ \<Rightarrow> None))))"

definition pack_object_ids :: "gitlib \<Rightarrow> string \<Rightarrow> ('z world_scheme, oid list) io" where
  "pack_object_ids L idx =
     bindE (io_read (\<lambda>s. map_of (disk s) idx)) (\<lambda>f.
     case f of
       None \<Rightarrow> failE (Io (io_other ''No such file or directory''))
     | Some b \<Rightarrow> liftE (index_ids L b))"

section \<open>Applying a push\<close>

text \<open>\<open>PackGuard\<close>: dropped while it still holds the pair, it removes both files, each on its own.\<close>

definition drop_pack :: "(string \<times> string) option \<Rightarrow> ('z world_scheme, unit) io" where
  "drop_pack g =
     (case g of
        None \<Rightarrow> returnE ()
      | Some (pack, idx) \<Rightarrow> forE [pack, idx] (\<lambda>p. ignoreE (remove_file p)))"

definition guarded :: "(string \<times> string) option \<Rightarrow> ('z world_scheme, 'a) io \<Rightarrow> ('z world_scheme, 'a) io" where
  "guarded g m = handleE m (\<lambda>e. bindE (drop_pack g) (\<lambda>_. failE e))"

definition atomic_msg :: string where
  "atomic_msg = ''atomic push failed''"

text \<open>From the start to the pack: indexed only if some update creates or moves a reference.\<close>

definition take_pack ::
    "gitlib \<Rightarrow> repo \<Rightarrow> reader \<Rightarrow> ref_update list \<Rightarrow> ('z world_scheme, (string \<times> string) option) io" where
  "take_pack L r rd updates =
     (if list_ex (\<lambda>u. unew u \<noteq> None) updates
      then bindE (liftE (fill_buf (buf_size L) rd)) (\<lambda>b. if b \<noteq> [] then write_pack L r rd else returnE None)
      else returnE None)"

text \<open>
  While the guard holds the pack: \<open>Some\<close> results when the connectivity check refused the batch,
  \<open>None\<close> when the pack is uploaded.
\<close>

definition check_and_upload ::
    "gitlib \<Rightarrow> repo \<Rightarrow> ref_update list \<Rightarrow> (string \<times> string) option \<Rightarrow> ('z world_scheme, string option list option) io" where
  "check_and_upload L r updates g =
     bindE (case g of None \<Rightarrow> returnE [] | Some (_, idx) \<Rightarrow> pack_object_ids L idx) (\<lambda>sent.
     bindE (repo_odb L r) (\<lambda>odb.
     bindE (list_refs r) (\<lambda>refs.
     let old_tips = map snd refs in
     bindE (liftE (check_updates (algos L) odb old_tips updates (new_known (set sent)) old_tips)) (\<lambda>results.
     if list_ex (\<lambda>x. x \<noteq> None) results
     then bindE (drop_pack g) (\<lambda>_.
          returnE (Some (map (\<lambda>x. if x = None then Some atomic_msg else x) results)))
     else bindE (case g of None \<Rightarrow> returnE () | Some (pack, idx) \<Rightarrow> upload_pack_files r pack idx) (\<lambda>_.
          returnE None)))))"

definition move_refs ::
    "(kv \<Rightarrow> kv) \<Rightarrow> conflict_check \<Rightarrow> (string \<Rightarrow> string) \<Rightarrow> gitlib \<Rightarrow> repo \<Rightarrow> ref_update list \<Rightarrow>
     (string \<times> string) option \<Rightarrow> ('z world_scheme, string option list) io" where
  "move_refs env ssi quoted L r updates g =
     bindE (update_refs env ssi quoted (ancestry L) r updates) (\<lambda>rs.
     let atomic_fail = list_ex (\<lambda>x. x \<noteq> None) rs in
     bindE (if atomic_fail
            then (case g of None \<Rightarrow> returnE () | Some (pack, idx) \<Rightarrow> ignoreE (delete_pack_files r pack idx))
            else returnE ()) (\<lambda>_.
     returnE (map (\<lambda>v. case v of Some m \<Rightarrow> Some m | None \<Rightarrow> if atomic_fail then Some atomic_msg else None) rs)))"

definition apply_push ::
    "(kv \<Rightarrow> kv) \<Rightarrow> conflict_check \<Rightarrow> (string \<Rightarrow> string) \<Rightarrow> gitlib \<Rightarrow> repo \<Rightarrow> reader \<Rightarrow> ref_update list \<Rightarrow>
     ('z world_scheme, string option list) io" where
  "apply_push env ssi quoted L r rd updates =
     bindE (take_pack L r rd updates) (\<lambda>g.
     bindE (guarded g (check_and_upload L r updates g)) (\<lambda>early.
     case early of
       Some results \<Rightarrow> returnE results
     | None \<Rightarrow> move_refs env ssi quoted L r updates g))"

section \<open>What the steps of a push leave alone\<close>

abbreviation repo_db :: "repo \<Rightarrow> 'z world_scheme \<Rightarrow> kv" where
  "repo_db r s \<equiv> the_db s (repo_id (owner r) (name r))"

definition refs_are :: "repo \<Rightarrow> (string \<rightharpoonup> oid) \<Rightarrow> 'z world_scheme \<Rightarrow> bool" where
  "refs_are r m s \<longleftrightarrow> kv_ok (repo_db r s) \<and> refs_map r (repo_db r s) = m"

lemma triple_with:
  assumes "triple P m Q E" and "keeps I m"
  shows "triple (\<lambda>s. P s \<and> I s) m (\<lambda>x s. Q x s \<and> I s) (\<lambda>s. E s \<and> I s)"
  using assms by (fastforce simp: triple_def keeps_def split: prod.splits sum.splits)

lemma refs_are_frames [simp]:
  "refs_are r m (s\<lparr>clock := c\<rparr>) = refs_are r m s" "refs_are r m (s\<lparr>os := ob\<rparr>) = refs_are r m s"
  "refs_are r m (s\<lparr>disk := d\<rparr>) = refs_are r m s" "refs_are r m (s\<lparr>synced := y\<rparr>) = refs_are r m s"
  "refs_are r m (upd_db h id s) = refs_are r m s"
  by (simp_all add: refs_are_def)

lemma refs_are_clock_free [simp]: "clock_free (refs_are r m)"
  by (simp add: clock_free_def)

lemma ref_key_not_pack [simp]: "ref_key r n \<noteq> pack_index_prefix o2 n2 @ f"
  by (simp add: ref_key_def pack_index_prefix_def)

lemma refs_are_pack_row:
  assumes "refs_are r m s"
  shows "refs_are r m (upd_db h (kv_put (pack_index_prefix o2 n2 @ f) v) s)"
    and "refs_are r m (upd_db h (kv_del (pack_index_prefix o2 n2 @ f)) s)"
  using assms by (auto simp: refs_are_def refs_map_def fun_eq_iff)

lemma keeps_refs_record: "keeps (refs_are r m) (record_pack o2 n2 f sz)"
  and keeps_refs_forget: "keeps (refs_are r m) (forget_pack o2 n2 f)"
  unfolding record_pack_def forget_pack_def forget_cached_packs_def db_put_def db_delete_def
  by (intro keeps_intros keeps_putE keeps_db_for keeps_io_write; simp add: refs_are_pack_row)+

lemma keeps_refs_upload: "keeps (refs_are r m) (upload_pack_files r2 pack idx)"
proof -
  have "keeps (refs_are r m) (upload_pack_file r2 p)" for p
    unfolding upload_pack_file_def os_put_def
    by (intro keeps_intros keeps_io_read keeps_io_step keeps_io_write keeps_refs_record) auto
  then show ?thesis unfolding upload_pack_files_def by (intro keeps_forE)
qed

lemma keeps_refs_delete: "keeps (refs_are r m) (delete_pack_files r2 pack idx)"
proof -
  have "keeps (refs_are r m) (delete_pack_file r2 p)" for p
    unfolding delete_pack_file_def os_delete_def
    by (intro keeps_intros keeps_io_write keeps_refs_forget) auto
  then show ?thesis unfolding delete_pack_files_def by (intro keeps_forE)
qed

text \<open>An invariant that looks at neither the local files nor the clock survives the local steps.\<close>

definition local_free :: "('z world_scheme \<Rightarrow> bool) \<Rightarrow> bool" where
  "local_free I \<longleftrightarrow> clock_free I \<and> (\<forall>s d. I (s\<lparr>disk := d\<rparr>) = I s)"

lemma local_freeD: "local_free I \<Longrightarrow> clock_free I" "local_free I \<Longrightarrow> I (s\<lparr>disk := d\<rparr>) = I s"
  by (simp_all add: local_free_def)

lemma keeps_remove_file: "local_free I \<Longrightarrow> keeps I (remove_file p)"
  unfolding remove_file_def by (intro keeps_io_write) (simp_all add: local_freeD)

lemma keeps_drop_pack: "local_free I \<Longrightarrow> keeps I (drop_pack g)"
  unfolding drop_pack_def by (intro keeps_intros keeps_remove_file)

lemma keeps_repo_odb: "keeps I (repo_odb L r)"
  by (simp add: keeps_def repo_odb_def)

lemma put_file_local: "local_free I \<Longrightarrow> I (put_file f s) = I s"
  by (simp add: put_file_def local_freeD split: option.splits)

lemma keeps_write_pack: "local_free I \<Longrightarrow> keeps I (write_pack L r rd)"
  unfolding write_pack_def
  by (intro keeps_intros keeps_repo_odb keeps_putE keeps_remove_file) (simp_all add: put_file_local)

lemma keeps_take_pack: "local_free I \<Longrightarrow> keeps I (take_pack L r rd updates)"
  unfolding take_pack_def by (intro keeps_intros keeps_write_pack)

lemma local_free_push [simp]: "local_free (\<lambda>s. pack_safe r s \<and> refs_are r m s)"
  by (simp add: local_free_def clock_free_def)

text \<open>The pair a push holds is named as gix names a pack and its index.\<close>

definition index_names :: "gitlib \<Rightarrow> bool" where
  "index_names L \<longleftrightarrow> (\<forall>odb c out c' p b i b'. run_pull (buf_size L) (index_pack L odb) c = (Inr out, c') \<longrightarrow>
     data_file out = Some (p, b) \<longrightarrow> index_file out = Some (i, b') \<longrightarrow>
     (\<exists>st. file_name p = Some (st @ ''.pack'') \<and> file_name i = Some (st @ ''.idx'')))"

lemma take_pack_named:
  assumes "index_names L" and "take_pack L r rd updates s = (Inr (Some (pack, idx)), t)"
  obtains st where "file_name pack = Some (st @ ''.pack'')" and "file_name idx = Some (st @ ''.idx'')"
proof -
  from assms(2) obtain s1 where "write_pack L r rd s1 = (Inr (Some (pack, idx)), t)"
    unfolding take_pack_def by (auto split: if_splits elim!: bindE_InrE)
  then obtain odb c out c' b b' where "run_pull (buf_size L) (index_pack L odb) c = (Inr out, c')"
    "data_file out = Some (pack, b)" "index_file out = Some (idx, b')"
    unfolding write_pack_def by (auto split: prod.splits sum.splits option.splits elim!: bindE_InrE)
  with assms(1) that show ?thesis unfolding index_names_def by metis
qed

section \<open>A batch is checked and uploaded before it is applied\<close>

lemma ref_rows_tips:
  "ref_rows plen rows = Inr out \<Longrightarrow> snd ` set out = {i. \<exists>k v. (k, v) \<in> set rows \<and> from_hex v = Some i}"
proof (induction plen rows arbitrary: out rule: ref_rows.induct)
  case (2 plen k v rows)
  then obtain i out' where "from_hex v = Some i" "ref_rows plen rows = Inr out'"
    "out = (from_utf8_lossy (drop plen k), i) # out'"
    by (auto simp: parse_oid_def split: sum.splits option.splits)
  with 2(1) show ?case by (auto simp: parse_oid_def)
qed simp

lemma listed_tips:
  assumes "kv_ok db" and "ref_rows (length (ref_prefix r)) (scan_prefix (ref_prefix r) db) = Inr rows"
  shows "snd ` set rows = ran (refs_map r db)"
proof -
  have key: "prefix (ref_prefix r) k \<longleftrightarrow> (\<exists>n. k = ref_key r n)" for k
    by (auto simp: prefix_def ref_prefix_def ref_key_def)
  show ?thesis
    unfolding ref_rows_tips [OF assms(2)] using assms(1)
    by (auto simp: kvs.scan_set key ran_def refs_map_def bind_eq_Some_conv)
qed

text \<open>
  What stands behind the references of a push when they are moved: the files it sent are in the
  object store with the content they have on disk, recorded in the pack index, and everything its
  new tips reach was in that pack or is reached by the references the repository had.
\<close>

definition pack_holds :: "gitlib \<Rightarrow> repo \<Rightarrow> (string \<times> string) option \<Rightarrow> oid set \<Rightarrow> 'z world_scheme \<Rightarrow> bool" where
  "pack_holds L r g P s \<longleftrightarrow>
     (case g of
        None \<Rightarrow> P = {}
      | Some (pack, idx) \<Rightarrow> uploaded r (disk s) pack s \<and> uploaded r (disk s) idx s
          \<and> (\<exists>b is. map_of (disk s) idx = Some b \<and> index_ids L b = Inr is \<and> P = set is))"

definition local_objects :: "repo \<Rightarrow> 'z world_scheme \<Rightarrow> (string \<times> bytes) list" where
  "local_objects r s = filter (\<lambda>(p, _). prefix (objects_dir r @ ''/'') p) (disk s)"

definition vouched :: "gitlib \<Rightarrow> repo \<Rightarrow> ref_update list \<Rightarrow> (string \<rightharpoonup> oid) \<Rightarrow> 'z world_scheme \<Rightarrow> bool" where
  "vouched L r updates m s \<longleftrightarrow>
     (\<exists>odb P g. open_odb L (local_objects r s) = Inr odb \<and> pack_holds L r g P s
        \<and> (\<forall>u n. u \<in> set updates \<and> unew u = Some n \<longrightarrow> reached odb {n} \<subseteq> P \<union> reached odb (ran m)))"

lemma check_updates_length: "check_updates g odb old us k hide = Inr rs \<Longrightarrow> length rs = length us"
proof (induction g odb old us k hide arbitrary: rs rule: check_updates.induct)
  case (2 g odb old u us k hide)
  then show ?case
    by (auto elim!: bindR_InrE split: option.splits sum.splits if_splits)
qed simp

definition ids_sent :: "gitlib \<Rightarrow> (string \<times> bytes) list \<Rightarrow> (string \<times> string) option \<Rightarrow> oid list \<Rightarrow> bool" where
  "ids_sent L D g sent \<longleftrightarrow>
     (case g of None \<Rightarrow> sent = [] | Some (_, idx) \<Rightarrow> \<exists>b. map_of D idx = Some b \<and> index_ids L b = Inr sent)"

lemma triple_pack_ids:
  assumes "clock_free P" and "\<And>s. P s \<Longrightarrow> disk s = D"
  shows "triple P (case g of None \<Rightarrow> returnE [] | Some (_, idx) \<Rightarrow> pack_object_ids L idx)
    (\<lambda>sent s. P s \<and> ids_sent L D g sent) P"
proof (cases g)
  case (Some p)
  then obtain pack idx where g: "g = Some (pack, idx)" by (cases p) auto
  show ?thesis
    unfolding g option.simps prod.simps pack_object_ids_def
  proof (rule triple_bindE [where R = "\<lambda>f s. P s \<and> f = map_of D idx"])
    show "triple P (io_read (\<lambda>s. map_of (disk s) idx)) (\<lambda>f s. P s \<and> f = map_of D idx) P"
      using assms by (intro triple_io_read) auto
    show "triple (\<lambda>s. P s \<and> f = map_of D idx) (case f of None \<Rightarrow> failE (Io (io_other ''No such file or directory''))
      | Some b \<Rightarrow> liftE (index_ids L b)) (\<lambda>sent s. P s \<and> ids_sent L D (Some (pack, idx)) sent) P" for f
      by (auto simp: triple_def ids_sent_def split: option.splits sum.splits)
  qed
qed (simp add: triple_def ids_sent_def)

lemma check_vouches:
  assumes gix: "walk_covers (algos L)" "count_under (algos L)" and db: "kv_ok db" "refs_map r db = m"
    and check: "check_updates (algos L) odb (map snd rs) updates (new_known (set sent)) (map snd rs) = Inr results"
    and none: "list_all (\<lambda>x. x = None) results"
    and rs: "\<exists>rows. ref_rows (length (ref_prefix r)) (scan_prefix (ref_prefix r) db) = Inr rows \<and> rs = sort rows"
    and D: "disk s = D" "open_odb L (filter (\<lambda>(p, _). prefix (objects_dir r @ ''/'') p) D) = Inr odb" "ids_sent L D g sent"
    and up: "\<forall>pack idx. g = Some (pack, idx) \<longrightarrow> uploaded r D pack s \<and> uploaded r D idx s"
  shows "vouched L r updates m s"
  unfolding vouched_def
proof (intro exI conjI)
  show "open_odb L (local_objects r s) = Inr odb" using D by (simp add: local_objects_def)
  show "pack_holds L r g (set sent) s" using D up by (auto simp: pack_holds_def ids_sent_def split: option.splits)
  from rs listed_tips [OF db(1), of r] db(2) have "set (map snd rs) = ran m" by (metis list.set_map set_sort)
  with check_updates_sound [OF check none gix, where P = "set sent"]
  show "\<forall>u n. u \<in> set updates \<and> unew u = Some n \<longrightarrow> reached odb {n} \<subseteq> set sent \<union> reached odb (ran m)"
    by (simp add: known_ok_def pending_ok_def new_known_def) blast
qed

lemma triple_check_and_upload:
  assumes gix: "walk_covers (algos L)" "count_under (algos L)" and db: "kv_ok db" "refs_map r db = m"
    and g: "\<And>pack idx. g = Some (pack, idx) \<Longrightarrow>
      \<exists>st. file_name pack = Some (st @ ''.pack'') \<and> file_name idx = Some (st @ ''.idx'')"
  shows "triple (\<lambda>s. pack_safe r s \<and> disk s = D \<and> repo_db r s = db) (check_and_upload L r updates g)
    (\<lambda>early s. refs_are r m s \<and> (case early of
        Some results \<Rightarrow> length results = length updates \<and> None \<notin> set results
      | None \<Rightarrow> vouched L r updates m s)) (refs_are r m)"
    (is "triple ?I _ ?Q ?E")
proof -
  have cf: "clock_free ?I" by (simp add: clock_free_def)
  have refs: "refs_are r m s" if "?I s" for s using that db by (simp add: refs_are_def)
  let ?F = "filter (\<lambda>(p, _). prefix (objects_dir r @ ''/'') p) D"
  let ?rows = "\<lambda>rs. \<exists>rows. ref_rows (length (ref_prefix r)) (scan_prefix (ref_prefix r) db) = Inr rows \<and> rs = sort rows"
  have ids: "triple ?I (case g of None \<Rightarrow> returnE [] | Some (_, idx) \<Rightarrow> pack_object_ids L idx)
      (\<lambda>sent s. ?I s \<and> ids_sent L D g sent) ?E"
    by (rule triple_weaken [OF triple_pack_ids [OF cf]]) (use refs in auto)
  have odb: "triple (\<lambda>s. ?I s \<and> ids_sent L D g sent) (repo_odb L r)
      (\<lambda>odb s. (?I s \<and> ids_sent L D g sent) \<and> open_odb L ?F = Inr odb) ?E" for sent
    using refs by (auto simp: triple_def repo_odb_def split: sum.splits)
  have list: "triple (\<lambda>s. (?I s \<and> ids_sent L D g sent) \<and> open_odb L ?F = Inr odb) (list_refs r)
      (\<lambda>rs s. ((?I s \<and> ids_sent L D g sent) \<and> open_odb L ?F = Inr odb) \<and> ?rows rs) ?E" for sent odb
    by (rule triple_weaken [OF triple_list_refs [where P = "\<lambda>s. (?I s \<and> ids_sent L D g sent) \<and> open_odb L ?F = Inr odb" and db = db]])
      (use refs in \<open>auto simp: clock_free_def\<close>)
  have drop: "triple ?I (drop_pack g) (\<lambda>_. refs_are r m) ?E"
    using keeps_drop_pack [of "refs_are r m" g] refs
    by (intro triple_weaken [OF triple_keeps [THEN iffD1]]) (auto simp: local_free_def)
  have up: "triple ?I (case g of None \<Rightarrow> returnE () | Some (pack, idx) \<Rightarrow> upload_pack_files r pack idx)
      (\<lambda>_ s. refs_are r m s \<and> disk s = D \<and> (\<forall>pack idx. g = Some (pack, idx) \<longrightarrow>
         uploaded r D pack s \<and> uploaded r D idx s)) ?E"
  proof (cases g)
    case (Some p)
    then obtain pack idx where p: "g = Some (pack, idx)" by (cases p) auto
    with g obtain st where "file_name pack = Some (st @ ''.pack'')" "file_name idx = Some (st @ ''.idx'')" by blast
    from triple_with [OF triple_upload_pack_files [OF this, of r D] keeps_refs_upload [of r m r pack idx]]
    show ?thesis unfolding p option.simps prod.simps by (rule triple_weaken) (use refs in auto)
  qed (use refs in \<open>auto simp: triple_def\<close>)
  show ?thesis
    unfolding check_and_upload_def Let_def
  proof (rule triple_bindE [OF ids], rule triple_bindE [OF odb], rule triple_bindE [OF list])
    fix sent odb and rs :: "(string \<times> oid) list"
    let ?old = "map snd rs"
    let ?P = "\<lambda>s. ((?I s \<and> ids_sent L D g sent) \<and> open_odb L ?F = Inr odb) \<and> ?rows rs"
    let ?check = "check_updates (algos L) odb ?old updates (new_known (set sent)) ?old"
    show "triple ?P (bindE (liftE ?check) (\<lambda>results.
       if list_ex (\<lambda>x. x \<noteq> None) results
       then bindE (drop_pack g) (\<lambda>_. returnE (Some (map (\<lambda>x. if x = None then Some atomic_msg else x) results)))
       else bindE (case g of None \<Rightarrow> returnE () | Some (pack, idx) \<Rightarrow> upload_pack_files r pack idx) (\<lambda>_. returnE None)))
      ?Q ?E" (is "triple _ (bindE _ ?then) _ _")
    proof (cases ?check)
      case (Inl e)
      then show ?thesis using refs by (auto simp: triple_def bindE_def)
    next
      case (Inr results)
      have "bindE (liftE ?check) ?then = ?then results" by (simp add: Inr bindE_def fun_eq_iff)
      moreover have "triple ?P (?then results) ?Q ?E"
      proof (rule triple_if)
        assume "list_ex (\<lambda>x. x \<noteq> None) results"
        show "triple ?P (bindE (drop_pack g) (\<lambda>_. returnE (Some (map (\<lambda>x. if x = None then Some atomic_msg else x) results)))) ?Q ?E"
          by (rule triple_bindE [where R = "\<lambda>_. refs_are r m"], rule triple_weaken [OF drop])
            (auto simp: triple_def check_updates_length [OF Inr] split: if_splits)
      next
        assume "\<not> list_ex (\<lambda>x. x \<noteq> None) results"
        then have none: "list_all (\<lambda>x. x = None) results" by (auto simp: list_ex_iff list_all_iff)
        let ?R = "\<lambda>s. (refs_are r m s \<and> disk s = D \<and> (\<forall>pack idx. g = Some (pack, idx) \<longrightarrow> uploaded r D pack s \<and> uploaded r D idx s))
          \<and> ids_sent L D g sent \<and> open_odb L ?F = Inr odb \<and> ?rows rs"
        have "triple ?R (returnE None) ?Q ?E"
          by (rule triple_returnE) (auto intro: check_vouches [OF gix db Inr none])
        then show "triple ?P (bindE (case g of None \<Rightarrow> returnE () | Some (pack, idx) \<Rightarrow> upload_pack_files r pack idx)
            (\<lambda>_. returnE None)) ?Q ?E"
          by (intro triple_bindE [where R = "\<lambda>_. ?R"])
            (rule triple_weaken [OF triple_with [OF up, where I = "\<lambda>_. ids_sent L D g sent \<and> open_odb L ?F = Inr odb \<and> ?rows rs"]],
             auto simp: keeps_def)
      qed
      ultimately show ?thesis by simp
    qed
  qed
qed

section \<open>A push is all or nothing\<close>

lemma drop_refs_world [simp]: "os (drop_refs k s) = os s" "disk (drop_refs k s) = disk s"
  by (auto simp: drop_refs_def generation_def redis_read_def io_read_def io_step_def getE_def bindE_def mem_get_def
      cdel_def io_write_def Let_def split: cache_mode.splits option.splits prod.splits sum.splits)

lemma update_refs_outcome:
  assumes "ssi_sound ssi" and "\<And>db. kv_ok db \<Longrightarrow> kv_ok (env db)" and "kv_ok (repo_db r s)"
    and "update_refs env ssi quoted odb r updates s = (res, t)"
  shows "\<exists>vs. txn_outcome r updates vs (repo_db r s) (env (repo_db r s)) (repo_db r t) res"
proof -
  let ?P = "\<lambda>t. repo_db r t = repo_db r s"
  let ?out = "\<lambda>res t. \<exists>vs. txn_outcome r updates vs (repo_db r s) (env (repo_db r s)) (repo_db r t) res"
  have cf: "clock_free ?P" by (simp add: clock_free_def)
  have rules: "triple ?P (protections (owner r) (name r)) (\<lambda>_. ?P) ?P"
    unfolding protections_def db_scan_def triple_keeps [symmetric]
    by (intro keeps_intros keeps_db_for keeps_io_read cf) simp
  have "triple ?P (update_refs env ssi quoted odb r updates) (\<lambda>x. ?out (Inr x)) (\<lambda>t. \<forall>e. ?out (Inl e) t)"
    unfolding update_refs_def Let_def
  proof (rule triple_bindE [where R = "\<lambda>_. ?P"])
    show "triple ?P (protections (owner r) (name r)) (\<lambda>_. ?P) (\<lambda>t. \<forall>e. ?out (Inl e) t)"
      by (rule triple_weaken [OF rules]) auto
    show "triple ?P (update_refs_txn env ssi r updates (map (\<lambda>(v, u). if \<not> valid_ref_name (uname u)
        then Some (quoted (uname u) @ '' is not a valid ref name'') else v)
        (zip (if x = [] then map (\<lambda>_. None) updates else map (protection_verdict x odb) updates) updates)))
      (\<lambda>x. ?out (Inr x)) (\<lambda>t. \<forall>e. ?out (Inl e) t)" for x
      by (rule triple_weaken [OF triple_update_refs_txn [where env = env, OF assms(1-3)]]) auto
  qed
  from tripleD [OF this refl assms(4)] show ?thesis by (cases res) auto
qed

lemma keeps_update_refs: "keeps (\<lambda>s. os s = O1 \<and> disk s = D) (update_refs env ssi quoted odb r updates)"
proof -
  let ?I = "\<lambda>s. os s = O1 \<and> disk s = D"
  have cf: "clock_free ?I" by (simp add: clock_free_def)
  have db: "keeps ?I (db_for o1 n)" for o1 n by (rule keeps_db_for [OF cf]) simp
  have commit: "keeps ?I (txn_commit env ssi h x)" for h x
    by (auto simp: keeps_def txn_commit_def Let_def split: option.splits error.splits)
  have "keeps ?I (update_refs_txn env ssi r updates vs)" for vs
    unfolding update_refs_txn_def txn_begin_def
    by (intro keeps_intros db keeps_io_read keeps_txn_loop cf commit keeps_putE)
      (auto split: error.splits intro!: keeps_intros keeps_putE)
  moreover have "keeps ?I (protections (owner r) (name r))"
    unfolding protections_def db_scan_def by (intro keeps_intros db keeps_io_read cf)
  ultimately show ?thesis unfolding update_refs_def Let_def by (intro keeps_bindE)
qed

text \<open>The two ways a push can end, by what it leaves of the references.\<close>

definition refused :: "ref_update list \<Rightarrow> error + string option list \<Rightarrow> bool" where
  "refused updates res \<longleftrightarrow> (\<forall>results. res = Inr results \<longrightarrow> length results = length updates \<and> None \<notin> set results)"

definition accepted :: "ref_update list \<Rightarrow> error + string option list \<Rightarrow> bool" where
  "accepted updates res \<longleftrightarrow> (\<forall>results. res = Inr results \<longrightarrow> results = map (\<lambda>_. None) updates)"

lemma move_refs_result:
  assumes "ssi_sound ssi" and env: "\<And>db. kv_ok db \<Longrightarrow> kv_ok (env db)" and refs: "refs_are r m s"
    and run: "move_refs env ssi quoted L r updates g s = (res, t)"
  shows "refs_map r (repo_db r t) \<in> {m, refs_map r (env (repo_db r s))} \<and> refused updates res
    \<or> os t = os s \<and> disk t = disk s \<and> accepted updates res
      \<and> cas_all updates (refs_map r (env (repo_db r s))) = Some (refs_map r (repo_db r t))"
    (is "?no \<or> ?yes")
proof -
  let ?db = "repo_db r s"
  from refs have db: "kv_ok ?db" "refs_map r ?db = m" by (simp_all add: refs_are_def)
  obtain ur s1 where ur: "update_refs env ssi quoted (ancestry L) r updates s = (ur, s1)" by fastforce
  from update_refs_outcome [OF assms(1) env db(1) ur]
  obtain vs where out: "txn_outcome r updates vs ?db (env ?db) (repo_db r s1) ur" by blast
  from keepsD [OF keeps_update_refs [of "os s" "disk s" env ssi quoted "ancestry L" r updates], of s]
  have same: "os s1 = os s" "disk s1 = disk s" by (simp_all add: ur)
  show ?thesis
  proof (cases ur)
    case (Inl e)
    then have "res = Inl e" "t = s1" using run ur by (simp_all add: move_refs_def bindE_def)
    with out Inl same db show ?thesis by (auto simp: txn_outcome_def refused_def accepted_def Let_def)
  next
    case (Inr rs)
    from out Inr have len: "length rs = length updates" by (simp add: txn_outcome_def Let_def)
    show ?thesis
    proof (cases "list_all (\<lambda>v. v = None) rs")
      case True
      then have "\<not> list_ex (\<lambda>x. x \<noteq> None) rs" by (auto simp: list_ex_iff list_all_iff)
      with run ur Inr have t: "t = s1" "res = Inr (map (\<lambda>v. case v of Some m \<Rightarrow> Some m | None \<Rightarrow> None) rs)"
        by (auto simp: move_refs_def bindE_def)
      have "map (\<lambda>v. case v of Some m \<Rightarrow> Some m | None \<Rightarrow> None) rs = map (\<lambda>_. None) updates"
        using True len by (intro nth_equalityI) (auto simp: list_all_length)
      with t out Inr True same show ?thesis by (auto simp: txn_outcome_def accepted_def Let_def)
    next
      case False
      then have ex: "list_ex (\<lambda>x. x \<noteq> None) rs" by (auto simp: list_ex_iff list_all_iff)
      from out Inr False have after: "repo_db r s1 \<in> {?db, env ?db}" by (auto simp: txn_outcome_def Let_def)
      then have "refs_are r (refs_map r (repo_db r s1)) s1" using db(1) env by (auto simp: refs_are_def)
      then have "refs_are r (refs_map r (repo_db r s1)) t"
        using run ur Inr ex keepsD [OF keeps_refs_delete]
        by (auto simp: move_refs_def bindE_def ignoreE_def split: option.splits)
      then have "refs_map r (repo_db r t) \<in> {m, refs_map r (env ?db)}" using after db(2) by (auto simp: refs_are_def)
      moreover have "refused updates res"
        using run ur Inr ex len
        by (auto simp: move_refs_def bindE_def refused_def split: option.splits prod.splits sum.splits)
      ultimately show ?thesis by blast
    qed
  qed
qed

text \<open>The stages before the transaction: they refuse the push, or vouch for it.\<close>

lemma apply_push_stages:
  assumes "walk_covers (algos L)" and "count_under (algos L)" and "index_names L"
    and "pack_safe r s" and db: "kv_ok (repo_db r s)"
    and run: "apply_push env ssi quoted L r rd updates s = (res, t)"
  shows "refs_are r (refs_map r (repo_db r s)) t \<and> refused updates res
    \<or> (\<exists>g u. vouched L r updates (refs_map r (repo_db r s)) u \<and> refs_are r (refs_map r (repo_db r s)) u
         \<and> move_refs env ssi quoted L r updates g u = (res, t))"
proof -
  let ?m = "refs_map r (repo_db r s)"
  have refs: "refs_are r ?m s" using db by (simp add: refs_are_def)
  obtain g0 s1 where g0: "take_pack L r rd updates s = (g0, s1)" by fastforce
  from keepsD [OF keeps_take_pack [OF local_free_push], of r s ?m L r rd updates] g0 assms(4) refs
  have s1: "pack_safe r s1" "refs_are r ?m s1" by simp_all
  show ?thesis
  proof (cases g0)
    case (Inl e)
    with run g0 have "t = s1" "res = Inl e" by (simp_all add: apply_push_def)
    with s1(2) show ?thesis by (simp add: refused_def)
  next
    case (Inr g)
    have named: "\<exists>st. file_name pack = Some (st @ ''.pack'') \<and> file_name idx = Some (st @ ''.idx'')"
      if "g = Some (pack, idx)" for pack idx
      using take_pack_named [OF assms(3)] g0 Inr that by metis
    obtain e0 s2 where e0: "check_and_upload L r updates g s1 = (e0, s2)" by fastforce
    have tri: "case e0 of Inl e \<Rightarrow> refs_are r ?m s2 | Inr early \<Rightarrow> refs_are r ?m s2 \<and> (case early of
        Some results \<Rightarrow> length results = length updates \<and> None \<notin> set results
      | None \<Rightarrow> vouched L r updates ?m s2)"
      by (rule tripleD [OF triple_check_and_upload [where db = "repo_db r s1" and D = "disk s1", OF assms(1,2) _ _ named] _ e0])
        (use s1 in \<open>auto simp: refs_are_def\<close>)
    show ?thesis
    proof (cases e0)
      case e: (Inl e)
      obtain s3 where "drop_pack g s2 = (Inr (), s3)"
        by (cases g) (auto simp: drop_pack_def bindE_def ignoreE_def split: prod.splits)
      moreover have "refs_are r ?m (snd (drop_pack g s2))"
        using tri e keepsD [OF keeps_drop_pack [of "refs_are r ?m" g]] by (simp add: local_free_def)
      ultimately have "refs_are r ?m t" "res = Inl e"
        using run g0 Inr e e0 by (auto simp: apply_push_def guarded_def bindE_def handleE_def)
      then show ?thesis by (simp add: refused_def)
    next
      case early: (Inr early)
      from run g0 Inr early e0 have go: "(case early of Some results \<Rightarrow> returnE results
          | None \<Rightarrow> move_refs env ssi quoted L r updates g) s2 = (res, t)"
        by (simp add: apply_push_def guarded_def bindE_def handleE_def)
      show ?thesis
      proof (cases early)
        case (Some results)
        with go tri early have "refs_are r ?m t" "res = Inr results" "length results = length updates" "None \<notin> set results"
          by auto
        then show ?thesis by (simp add: refused_def)
      next
        case None
        with tri early have s2: "refs_are r ?m s2" "vouched L r updates ?m s2" by auto
        with go None show ?thesis by auto
      qed
    qed
  qed
qed

text \<open>The references as the push found them, or as others left them; and moved, with what stands behind them.\<close>

definition unmoved :: "(kv \<Rightarrow> kv) \<Rightarrow> repo \<Rightarrow> 'z world_scheme \<Rightarrow> 'z world_scheme \<Rightarrow> bool" where
  "unmoved env r s t \<longleftrightarrow> (\<exists>d. refs_map r d = refs_map r (repo_db r s)
     \<and> refs_map r (repo_db r t) \<in> {refs_map r d, refs_map r (env d)})"

definition published ::
    "(kv \<Rightarrow> kv) \<Rightarrow> gitlib \<Rightarrow> repo \<Rightarrow> ref_update list \<Rightarrow> 'z world_scheme \<Rightarrow> 'z world_scheme \<Rightarrow> bool" where
  "published env L r updates s t \<longleftrightarrow> (\<exists>u :: 'z world_scheme.
     vouched L r updates (refs_map r (repo_db r s)) u \<and> refs_map r (repo_db r u) = refs_map r (repo_db r s)
     \<and> os t = os u \<and> disk t = disk u
     \<and> cas_all updates (refs_map r (env (repo_db r u))) = Some (refs_map r (repo_db r t)))"

lemma apply_push_outcome:
  assumes "walk_covers (algos L)" and "count_under (algos L)" and "index_names L"
    and "ssi_sound ssi" and env: "\<And>db. kv_ok db \<Longrightarrow> kv_ok (env db)"
    and "pack_safe r s" and db: "kv_ok (repo_db r s)"
    and run: "apply_push env ssi quoted L r rd updates s = (res, t)"
  shows "unmoved env r s t \<and> refused updates res \<or> published env L r updates s t \<and> accepted updates res"
proof -
  let ?m = "refs_map r (repo_db r s)"
  from apply_push_stages [OF assms(1-3,6) db run] show ?thesis
  proof (elim disjE exE conjE)
    assume "refs_are r ?m t" "refused updates res"
    moreover from this(1) have "unmoved env r s t"
      unfolding unmoved_def by (intro exI [of _ "repo_db r t"]) (simp add: refs_are_def)
    ultimately show ?thesis by simp
  next
    fix g u assume u: "vouched L r updates ?m u" "refs_are r ?m u" "move_refs env ssi quoted L r updates g u = (res, t)"
    then have same: "refs_map r (repo_db r u) = ?m" by (simp add: refs_are_def)
    with u(1) move_refs_result [OF assms(4) env u(2,3)] show ?thesis
      unfolding unmoved_def published_def by auto
  qed
qed

text \<open>
  C5. A push is all or nothing, and what it publishes is whole. Whatever fails on the way, either
  every reference is as the push found it or as others have left it, and every update is reported as
  refused, or all updates are applied in one compare-and-swap and none is refused. In the second case,
  at the moment the references moved, the pack the client sent and its index were in the object
  store, recorded, and everything reachable from the new tips was in that pack or reachable from the
  references the repository had.
\<close>

theorem push_all_or_nothing:
  assumes "walk_covers (algos L)" and "count_under (algos L)" and "index_names L"
    and "ssi_sound ssi" and "\<And>db. kv_ok db \<Longrightarrow> kv_ok (env db)"
    and "pack_safe r s" and "kv_ok (repo_db r s)"
    and "apply_push env ssi quoted L r rd updates s = (res, t)"
  shows "unmoved env r s t \<and> refused updates res \<or> published env L r updates s t \<and> accepted updates res"
  by (rule apply_push_outcome [OF assms])

text \<open>A first push to an empty repository: a commit, its tree and its blob in one pack.\<close>

definition first_odb :: odb where
  "first_odb = [(1, Inr (CommitObj 2 [])), (2, Inr (TreeObj [(''a'', BlobMode, 3)])), (3, Inr BlobObj)]"

definition first_lib :: gitlib where
  "first_lib = \<lparr>algos = round_gix, open_odb = (\<lambda>_. Inr first_odb),
     index_pack = (\<lambda>_. Fill (\<lambda>b. Consume 4 (Done (case b of Inl e \<Rightarrow> Inl e
       | Inr d \<Rightarrow> Inr \<lparr>keep_file = Some (''/c/pack/pack-1.keep'', []), data_file = Some (''/c/pack/pack-1.pack'', d),
                    index_file = Some (''/c/pack/pack-1.idx'', ''I'')\<rparr>)))),
     index_ids = (\<lambda>_. Inr [1, 2, 3]), ancestry = None, max_body = 100, buf_size = 8\<rparr>"

definition first_updates :: "ref_update list" where
  "first_updates = [\<lparr>uname = ''refs/heads/main'', uold = None, unew = Some 1\<rparr>]"

lemma first_check:
  "check_updates round_gix first_odb [] first_updates (new_known {1, 2, 3}) [] = Inr [None]"
proof -
  have f: "find_object first_odb 1 = Inr (CommitObj 2 [])" "find_object first_odb 2 = Inr (TreeObj [(''a'', BlobMode, 3)])"
    "find_object first_odb 3 = Inr BlobObj" "length first_odb = Suc (Suc (Suc 0))"
    by (simp_all add: find_object_def first_odb_def)
  have "gwalk round_gix first_odb [1] [] = Inr [(1, [])]"
    by (simp add: round_gix_gwalk round_walk_def f history_next_def commit_info_def List.map_filter_def)
  with f show ?thesis
    by (simp add: first_updates_def commit_range_def peel_wants_def bindR_def explains_def new_known_def)
qed

lemma first_names: "index_names first_lib"
  by (auto simp: index_names_def first_lib_def capped_fill_buf_def file_name_def filename_def
      split: sum.splits if_splits)

definition first_world :: world where
  "first_world = fresh_world [] [] (\<lambda>_. None)"

definition first_stream :: reader where
  "first_stream = \<lparr>rbuf = ''PACK'', rend = None\<rparr>"

lemma first_take:
  "take_pack first_lib web_repo first_stream first_updates first_world =
     (Inr (Some (''/c/pack/pack-1.pack'', ''/c/pack/pack-1.idx'')),
      first_world\<lparr>disk := [(''/c/pack/pack-1.pack'', ''PACK''), (''/c/pack/pack-1.idx'', ''I'')], clock := 1\<rparr>)"
  by (simp add: take_pack_def first_updates_def fill_buf_def first_lib_def first_stream_def write_pack_def repo_odb_def
      capped_fill_buf_def putE_def put_file_def remove_file_def io_write_def ignoreE_def bindE_def first_world_def
      fresh_world_def Let_def numeral_eq_Suc)

lemma chunks_short: "xs \<noteq> [] \<Longrightarrow> length xs \<le> n \<Longrightarrow> chunks n xs = [xs]"
  by (subst chunks.simps) (cases xs; auto simp: chunks.simps [of n "[]"])

lemma first_upload:
  "\<exists>u. check_and_upload first_lib web_repo first_updates (Some (''/c/pack/pack-1.pack'', ''/c/pack/pack-1.idx''))
      (first_world\<lparr>disk := [(''/c/pack/pack-1.pack'', ''PACK''), (''/c/pack/pack-1.idx'', ''I'')], clock := 1\<rparr>) = (Inr None, u)
     \<and> faults u = (\<lambda>_. None) \<and> unowned u = None \<and> cmode u = Redis
     \<and> repo_db web_repo u = [(''pack/alice/web/pack-1.pack'', to_decimal (length ''PACK'')), (''pack/alice/web/pack-1.idx'', to_decimal (length ''I''))]"
proof -
  have names: "file_name ''/c/pack/pack-1.pack'' = Some ''pack-1.pack''" "file_name ''/c/pack/pack-1.idx'' = Some ''pack-1.idx''"
    by (simp_all add: file_name_def filename_def)
  have parts: "chunks PART_SIZE ''PACK'' = [''PACK'']" "chunks PART_SIZE ''I'' = [''I'']"
    by (rule chunks_short; simp add: PART_SIZE_def)+
  have lib: "algos first_lib = round_gix" "open_odb first_lib x = Inr first_odb" "index_ids first_lib b = Inr [1, 2, 3]" for x b
    by (simp_all add: first_lib_def)
  have repo: "owner web_repo = ''alice''" "name web_repo = ''web''" "repo_id ''alice'' ''web'' = ''alice/web''"
    by (simp_all add: web_repo_def repo_id_def)
  show ?thesis
    by (simp add: check_and_upload_def pack_object_ids_def repo_odb_def list_refs_def lib first_check drop_pack_def
        upload_pack_files_def upload_pack_file_def names parts record_pack_def forget_cached_packs_def putE_def db_for_def
        db_put_def os_put_def db_scan_def io_read_def io_step_def io_write_def getE_def bindE_def first_world_def fresh_world_def
        repo scan_prefix_def the_db_def upd_db_def Let_def pack_index_prefix_def kv_put_def digit_char_def)
qed

lemma first_push:
  "\<exists>t. apply_push id exact_ssi id first_lib web_repo first_stream first_updates first_world = (Inr [None], t)"
proof -
  let ?g = "Some (''/c/pack/pack-1.pack'', ''/c/pack/pack-1.idx'')"
  let ?db = "[(''pack/alice/web/pack-1.pack'', to_decimal (length ''PACK'')), (''pack/alice/web/pack-1.idx'', to_decimal (length ''I''))]"
  obtain u :: world where up: "check_and_upload first_lib web_repo first_updates ?g
      (first_world\<lparr>disk := [(''/c/pack/pack-1.pack'', ''PACK''), (''/c/pack/pack-1.idx'', ''I'')], clock := 1\<rparr>) = (Inr None, u)"
    and u: "faults u = (\<lambda>_. None)" "unowned u = None" "cmode u = Redis" "repo_db web_repo u = ?db"
    using first_upload by blast
  have repo: "owner web_repo = ''alice''" "name web_repo = ''web''" "repo_id ''alice'' ''web'' = ''alice/web''"
    "ref_key web_repo ''refs/heads/main'' = ''ref/alice/web/refs/heads/main''"
    by (simp_all add: web_repo_def repo_id_def ref_key_def)
  have v: "valid_ref_name ''refs/heads/main''"
    by (simp add: valid_ref_name_def starts_with_def ends_with_def suffix_to_prefix str_contains_def sublist_code byte_of_def)
  define rows where "rows = ?db"
  have rows: "scan_prefix (protect_scan ''alice'' ''web'') rows = []" "kv_get rows ''ref/alice/web/refs/heads/main'' = None"
    by (simp_all add: rows_def scan_prefix_def protect_scan_def PROTECT_PREFIX_def kv_get_def)
  have now: "the_db u ''alice/web'' = rows" using u(4) by (simp add: rows_def repo)
  obtain t where "move_refs id exact_ssi id first_lib web_repo first_updates ?g u = (Inr [None], t)"
    by (simp add: u(1-3) now move_refs_def update_refs_def protections_def db_for_def io_write_def db_scan_def bindE_def io_read_def io_step_def
        getE_def repo rows List.map_filter_def v first_updates_def update_refs_txn_def txn_begin_def txn_get_def tryE_def
        txn_commit_def exact_ssi_def Let_def putE_def apply_batch_def)
  with first_take up show ?thesis
    by (simp add: apply_push_def guarded_def handleE_def)
qed

theorem push_all_or_nothing_witness:
  "\<exists>t. apply_push id exact_ssi id first_lib web_repo first_stream first_updates first_world = (Inr [None], t)
     \<and> published id first_lib web_repo first_updates first_world t"
proof -
  obtain t where run: "apply_push id exact_ssi id first_lib web_repo first_stream first_updates first_world = (Inr [None], t)"
    using first_push by blast
  have db: "repo_db web_repo first_world = []" by (simp add: first_world_def fresh_world_def the_db_def)
  have lib: "walk_covers (algos first_lib)" "count_under (algos first_lib)"
    using round_gix_walk round_gix_count by (simp_all add: first_lib_def)
  have safe: "pack_safe web_repo first_world" unfolding first_world_def by (rule fresh_world_safe)
  from push_all_or_nothing [OF lib first_names exact_ssi_sound _ safe _ run] db run show ?thesis
    by (auto simp: refused_def)
qed

section \<open>A rejected push can take an accepted one with it\<close>

text \<open>
  A pack is named by its content. A push that sends a pack the repository already has, and is then
  refused by the reference transaction, deletes that pack: the reference it was pushed for stays and
  its objects are gone from the object store.
\<close>

definition again_world :: world where
  "again_world = (fresh_world
     [(''objects/alice/web/pack/pack-1.pack'', ''PACK''), (''objects/alice/web/pack/pack-1.idx'', ''I'')] [] (\<lambda>_. None))
     \<lparr>dbs := [(''alice/web'', [(''ref/alice/web/refs/heads/main'', to_hex 1),
        (''pack/alice/web/pack-1.pack'', to_decimal (length ''PACK'')), (''pack/alice/web/pack-1.idx'', to_decimal (length ''I''))])]\<rparr>"

lemma again_take:
  "take_pack first_lib web_repo first_stream first_updates again_world =
     (Inr (Some (''/c/pack/pack-1.pack'', ''/c/pack/pack-1.idx'')),
      again_world\<lparr>disk := [(''/c/pack/pack-1.pack'', ''PACK''), (''/c/pack/pack-1.idx'', ''I'')], clock := 1\<rparr>)"
  by (simp add: take_pack_def first_updates_def fill_buf_def first_lib_def first_stream_def write_pack_def repo_odb_def
      capped_fill_buf_def putE_def put_file_def remove_file_def io_write_def ignoreE_def bindE_def again_world_def
      fresh_world_def Let_def numeral_eq_Suc)

lemma again_check:
  "check_updates round_gix first_odb [1] first_updates (new_known {1, 2, 3}) [1] = Inr [None]"
proof -
  have f: "find_object first_odb 1 = Inr (CommitObj 2 [])" "length first_odb = Suc (Suc (Suc 0))"
    by (simp_all add: find_object_def first_odb_def)
  have "gwalk round_gix first_odb [1] [1] = Inr []"
    by (simp add: round_gix_gwalk round_walk_def f history_next_def commit_info_def List.map_filter_def)
  with f show ?thesis
    by (simp add: first_updates_def commit_range_def peel_wants_def bindR_def explains_def new_known_def)
qed

lemma again_upload:
  "\<exists>u. check_and_upload first_lib web_repo first_updates (Some (''/c/pack/pack-1.pack'', ''/c/pack/pack-1.idx''))
      (again_world\<lparr>disk := [(''/c/pack/pack-1.pack'', ''PACK''), (''/c/pack/pack-1.idx'', ''I'')], clock := 1\<rparr>) = (Inr None, u)
     \<and> faults u = (\<lambda>_. None) \<and> unowned u = None \<and> repo_db web_repo u = repo_db web_repo again_world"
proof -
  have names: "file_name ''/c/pack/pack-1.pack'' = Some ''pack-1.pack''" "file_name ''/c/pack/pack-1.idx'' = Some ''pack-1.idx''"
    by (simp_all add: file_name_def filename_def)
  have parts: "chunks PART_SIZE ''PACK'' = [''PACK'']" "chunks PART_SIZE ''I'' = [''I'']"
    by (rule chunks_short; simp add: PART_SIZE_def)+
  have lib: "algos first_lib = round_gix" "open_odb first_lib x = Inr first_odb" "index_ids first_lib b = Inr [1, 2, 3]" for x b
    by (simp_all add: first_lib_def)
  have repo: "owner web_repo = ''alice''" "name web_repo = ''web''" "repo_id ''alice'' ''web'' = ''alice/web''"
    "ref_prefix web_repo = ''ref/alice/web/''"
    by (simp_all add: web_repo_def repo_id_def ref_prefix_def)
  have tips: "map snd (sort [(a, 1 :: oid)]) = [1]" for a :: string by simp
  show ?thesis
    by (simp add: check_and_upload_def pack_object_ids_def repo_odb_def list_refs_def lib again_check [simplified] drop_pack_def
        upload_pack_files_def upload_pack_file_def names parts record_pack_def forget_cached_packs_def putE_def db_for_def
        db_put_def os_put_def db_scan_def io_read_def io_step_def io_write_def getE_def bindE_def again_world_def fresh_world_def
        repo scan_prefix_def the_db_def upd_db_def Let_def pack_index_prefix_def kv_put_def parse_oid_def)
qed

lemma rejected_push_deletes_published_pack:
  "\<exists>t. apply_push id exact_ssi id first_lib web_repo first_stream first_updates again_world = (Inr [Some ''fetch first''], t)
     \<and> refs_map web_repo (repo_db web_repo t) ''refs/heads/main'' = Some 1
     \<and> present ''objects/alice/web/pack/pack-1.pack'' again_world \<and> \<not> present ''objects/alice/web/pack/pack-1.pack'' t"
proof -
  let ?pack = "''/c/pack/pack-1.pack''" and ?idx = "''/c/pack/pack-1.idx''"
  let ?m = "refs_map web_repo (repo_db web_repo again_world)"
  obtain u :: world where up: "check_and_upload first_lib web_repo first_updates (Some (?pack, ?idx))
      (again_world\<lparr>disk := [(?pack, ''PACK''), (?idx, ''I'')], clock := 1\<rparr>) = (Inr None, u)"
    and u: "faults u = (\<lambda>_. None)" "unowned u = None" "repo_db web_repo u = repo_db web_repo again_world"
    using again_upload by blast
  have names: "file_name ?pack = Some ''pack-1.pack''" "file_name ?idx = Some ''pack-1.idx''"
    by (simp_all add: file_name_def filename_def)
  have repo: "owner web_repo = ''alice''" "name web_repo = ''web''" "repo_id ''alice'' ''web'' = ''alice/web''"
    "ref_key web_repo ''refs/heads/main'' = ''ref/alice/web/refs/heads/main''" "s3_prefix web_repo = ''objects/alice/web/pack''"
    by (simp_all add: web_repo_def repo_id_def ref_key_def s3_prefix_def)
  have v: "valid_ref_name ''refs/heads/main''"
    by (simp add: valid_ref_name_def starts_with_def ends_with_def suffix_to_prefix str_contains_def sublist_code byte_of_def)
  define rows where "rows = repo_db web_repo again_world"
  have rows: "scan_prefix (protect_scan ''alice'' ''web'') rows = []"
    "kv_get rows ''ref/alice/web/refs/heads/main'' = Some (to_hex 1)" "kv_ok rows"
    by (simp_all add: rows_def again_world_def the_db_def repo scan_prefix_def protect_scan_def PROTECT_PREFIX_def kv_get_def kv_ok_def)
  have now: "the_db u ''alice/web'' = rows" using u(3) by (simp add: rows_def repo)
  obtain t1 where t1: "update_refs id exact_ssi id (ancestry first_lib) web_repo first_updates u = (Inr [Some ''fetch first''], t1)"
    and same: "faults t1 = (\<lambda>_. None)" "unowned t1 = None" "repo_db web_repo t1 = rows"
    by (simp add: u(1,2) now update_refs_def protections_def db_for_def io_write_def db_scan_def bindE_def io_read_def io_step_def
        getE_def repo rows List.map_filter_def v first_updates_def update_refs_txn_def txn_begin_def txn_get_def Let_def
        apply_batch_def parse_oid_def)
  obtain t2 where t2: "delete_pack_file web_repo ?idx t1 = (Inr (), t2)" "without_file web_repo ?idx ''pack-1.idx'' t1 t2"
    using delete_pack_file_fine [OF same(1) _ names(2), of web_repo] same(2) by auto
  then have "faults t2 = (\<lambda>_. None)" "unowned t2 = None" using same by (simp_all add: without_file_def)
  then obtain t where t: "delete_pack_file web_repo ?pack t2 = (Inr (), t)" "without_file web_repo ?pack ''pack-1.pack'' t2 t"
    using delete_pack_file_fine [OF _ _ names(1), of t2 web_repo] by auto
  have del: "delete_pack_files web_repo ?pack ?idx t1 = (Inr (), t)" using t2(1) t(1) by (simp add: delete_pack_files_def)
  have "apply_push id exact_ssi id first_lib web_repo first_stream first_updates again_world = (Inr [Some ''fetch first''], t)"
    using again_take up t1 del by (simp add: apply_push_def guarded_def handleE_def move_refs_def ignoreE_def bindE_def)
  moreover have "refs_are web_repo (refs_map web_repo rows) t"
    using keepsD [OF keeps_refs_delete [of web_repo "refs_map web_repo rows" web_repo ?pack ?idx], of t1] same rows(3) del
    by (simp add: refs_are_def)
  moreover have "refs_map web_repo rows ''refs/heads/main'' = Some 1" by (simp add: refs_map_def repo rows)
  moreover have "present ''objects/alice/web/pack/pack-1.pack'' again_world"
    by (simp add: present_def again_world_def fresh_world_def)
  moreover have "\<not> present ''objects/alice/web/pack/pack-1.pack'' t" using t(2) by (simp add: without_file_def repo)
  ultimately show ?thesis by (auto simp: refs_are_def)
qed

section \<open>The cap on the pack\<close>

text \<open>What a client of the capped reader is told, in order.\<close>

primrec answers :: "nat \<Rightarrow> 'r pull \<Rightarrow> capped \<Rightarrow> (error + bytes) list" where
  "answers bs (Done x) = (\<lambda>c. [])"
| "answers bs (Fill f) = (\<lambda>c. fst (capped_fill_buf bs c) # answers bs (f (fst (capped_fill_buf bs c))) (snd (capped_fill_buf bs c)))"
| "answers bs (Consume n p) = (\<lambda>c. answers bs p (capped_consume n c))"
| "answers bs (Read m f) = (\<lambda>c. fst (capped_read bs m c) # answers bs (f (fst (capped_read bs m c))) (snd (capped_read bs m c)))"

text \<open>The reader is \<open>k\<close> bytes into the stream and has at most what is left of the cap.\<close>

definition cap_inv :: "nat \<Rightarrow> bytes \<Rightarrow> capped \<Rightarrow> bool" where
  "cap_inv cap xs c \<longleftrightarrow> (\<exists>k. rbuf (inner c) = drop k xs \<and> left c \<le> cap - k)"

definition within_cap :: "nat \<Rightarrow> bytes \<Rightarrow> bytes \<Rightarrow> bool" where
  "within_cap cap xs b \<longleftrightarrow> (\<exists>k. prefix b (drop k xs) \<and> (b = [] \<or> k + length b \<le> cap))"

lemma within_capI: "n \<le> cap - k \<Longrightarrow> within_cap cap xs (take n (drop k xs))"
  unfolding within_cap_def by (intro exI [of _ k]) (auto intro: take_is_prefix)

lemma within_cap_take: "within_cap cap xs b \<Longrightarrow> within_cap cap xs (take n b)"
  unfolding within_cap_def by (meson le_trans add_le_mono le_refl length_take min.cobounded1 prefix_order.trans
      prefix_length_le take_is_prefix prefix_Nil take_eq_Nil)

lemma capped_consume_inv: "cap_inv cap xs c \<Longrightarrow> cap_inv cap xs (capped_consume n c)"
  unfolding cap_inv_def capped_consume_def
proof (elim exE conjE)
  fix k assume "rbuf (inner c) = drop k xs" "left c \<le> cap - k"
  then show "\<exists>k. rbuf (inner (c\<lparr>left := left c - n, inner := (inner c)\<lparr>rbuf := drop n (rbuf (inner c))\<rparr>\<rparr>)) = drop k xs
    \<and> left (c\<lparr>left := left c - n, inner := (inner c)\<lparr>rbuf := drop n (rbuf (inner c))\<rparr>\<rparr>) \<le> cap - k"
    by (intro exI [of _ "n + k"]) auto
qed

lemma capped_fill_buf_result:
  assumes "capped_fill_buf bs c = (res, c')" and "cap_inv cap xs c"
  shows "cap_inv cap xs c' \<and> (\<forall>b. res = Inr b \<longrightarrow> within_cap cap xs b)"
proof -
  from assms(2) obtain k where k: "rbuf (inner c) = drop k xs" "left c \<le> cap - k" by (auto simp: cap_inv_def)
  have "within_cap cap xs []" by (auto simp: within_cap_def)
  moreover have "within_cap cap xs (take (min (min a b) (left c)) (drop k xs))" for a b
    using k(2) by (intro within_capI) simp
  moreover have "cap_inv cap xs (c\<lparr>hit_cap := True\<rparr>)" using assms(2) by (simp add: cap_inv_def)
  ultimately show ?thesis
    using assms k by (auto simp: capped_fill_buf_def fill_buf_def min.commute split: if_splits option.splits)
qed

lemma capped_read_result:
  assumes "capped_read bs m c = (res, c')" and "cap_inv cap xs c"
  shows "cap_inv cap xs c' \<and> (\<forall>b. res = Inr b \<longrightarrow> within_cap cap xs b)"
proof -
  obtain r1 c1 where f: "capped_fill_buf bs c = (r1, c1)" by fastforce
  note F = capped_fill_buf_result [OF f assms(2)]
  show ?thesis
  proof (cases r1)
    case (Inl e)
    with f F assms(1) show ?thesis by (auto simp: capped_read_def bindE_def)
  next
    case (Inr b)
    then have "res = Inr (take (min (length b) m) b)" "c' = capped_consume (min (length b) m) c1"
      using f assms(1) by (auto simp: capped_read_def bindE_def putE_def Let_def)
    moreover have "within_cap cap xs (take n b)" for n using F Inr by (auto intro: within_cap_take)
    ultimately show ?thesis using F capped_consume_inv by auto
  qed
qed

lemma answers_within:
  "cap_inv cap xs c \<Longrightarrow> Inr b \<in> set (answers bs p c) \<Longrightarrow> within_cap cap xs b"
proof (induction p arbitrary: c)
  case (Fill f)
  obtain res c' where "capped_fill_buf bs c = (res, c')" by fastforce
  with Fill capped_fill_buf_result [of bs c res c' cap xs] show ?case by auto
next
  case (Read m f)
  obtain res c' where "capped_read bs m c = (res, c')" by fastforce
  with Read capped_read_result [of bs m c res c' cap xs] show ?case by auto
qed (auto intro: capped_consume_inv)

text \<open>A stream that fits is never refused for its size.\<close>

definition fits_cap :: "capped \<Rightarrow> bool" where
  "fits_cap c \<longleftrightarrow> length (rbuf (inner c)) \<le> left c \<and> \<not> hit_cap c"

lemma fits_cap_steps:
  assumes "fits_cap c"
  shows "fits_cap (capped_consume n c)" and "fits_cap (snd (capped_fill_buf bs c))" and "fits_cap (snd (capped_read bs m c))"
proof -
  show con: "fits_cap (capped_consume n c)" for n using assms by (auto simp: fits_cap_def capped_consume_def diff_le_mono)
  have "snd (capped_fill_buf bs c) = c"
    using assms by (auto simp: fits_cap_def capped_fill_buf_def fill_buf_def split: if_splits option.splits)
  with assms show "fits_cap (snd (capped_fill_buf bs c))" by simp
  with \<open>snd _ = c\<close> con assms show "fits_cap (snd (capped_read bs m c))"
    by (cases rule: bindE_cases [of "capped_fill_buf bs" c]) (auto simp: capped_read_def putE_def Let_def bindE_def)
qed

lemma fits_cap_run: "fits_cap c \<Longrightarrow> fits_cap (snd (run_pull bs p c))"
  by (induction p arbitrary: c) (auto simp: fits_cap_steps)

text \<open>
  C38. However the indexer of a push uses its reader, even if it consumes more than it was shown, every
  byte it ever sees lies within the first \<open>cap\<close> bytes of the stream; and a stream that is not longer
  than the cap is never refused for its size.
\<close>

theorem pack_reader_capped:
  "(\<forall>b. Inr b \<in> set (answers bs p \<lparr>inner = rd, left = cap, hit_cap = False\<rparr>) \<longrightarrow>
      (\<exists>k. prefix b (drop k (rbuf rd)) \<and> (b = [] \<or> k + length b \<le> cap)))
   \<and> (length (rbuf rd) \<le> cap \<longrightarrow> \<not> hit_cap (snd (run_pull bs p \<lparr>inner = rd, left = cap, hit_cap = False\<rparr>)))"
proof -
  let ?c = "\<lparr>inner = rd, left = cap, hit_cap = False\<rparr>"
  have "cap_inv cap (rbuf rd) ?c" by (auto simp: cap_inv_def intro: exI [of _ 0])
  from answers_within [OF this] have "\<forall>b. Inr b \<in> set (answers bs p ?c) \<longrightarrow> within_cap cap (rbuf rd) b" by blast
  moreover have "fits_cap ?c" if "length (rbuf rd) \<le> cap" using that by (simp add: fits_cap_def)
  ultimately show ?thesis using fits_cap_run by (fastforce simp: within_cap_def fits_cap_def)
qed

theorem pack_reader_capped_witness:
  "answers 8 (Read 4 (\<lambda>_. Fill Done)) \<lparr>inner = \<lparr>rbuf = ''PACKED'', rend = None\<rparr>, left = 5, hit_cap = False\<rparr>
     = [Inr ''PACK'', Inr ''E'']
   \<and> (\<exists>k. prefix ''E'' (drop k ''PACKED'') \<and> k + 1 \<le> (5 :: nat))"
proof -
  have run: "answers 8 (Read 4 (\<lambda>_. Fill Done)) \<lparr>inner = \<lparr>rbuf = ''PACKED'', rend = None\<rparr>, left = 5, hit_cap = False\<rparr>
     = [Inr ''PACK'', Inr ''E'']"
    by (simp add: capped_read_def capped_fill_buf_def capped_consume_def fill_buf_def bindE_def putE_def numeral_eq_Suc)
  with pack_reader_capped [of 8 "Read 4 (\<lambda>_. Fill Done)" "\<lparr>rbuf = ''PACKED'', rend = None\<rparr>" 5] show ?thesis
    by auto
qed

end
