(* ===== verification/Serve.thy ===== *)
theory Serve
  imports Receive
begin

text \<open>
  receive-pack as the client sees it: \<open>advertise\<close> and \<open>serve\<close> of \<open>crates/git/src/protocol/receive.rs\<close>.
  The state is the storage world and the bytes written to the client so far.
  The lemmas read the report back: what it says of each reference is what happened to it.
\<close>

section \<open>The two halves of a connection\<close>

definition on_world :: "('s, 'a) io \<Rightarrow> ('s \<times> bytes, 'a) io" where
  "on_world m = (\<lambda>(s, w). (fst (m s), (snd (m s), w)))"

definition on_out :: "(bytes, 'a) io \<Rightarrow> ('s \<times> bytes, 'a) io" where
  "on_out m = (\<lambda>(s, w). (fst (m w), (s, snd (m w))))"

definition AGENT :: string where
  "AGENT = ''agent=kloudlite/0.1''"

definition CAPS :: string where
  "CAPS = ''report-status report-status-v2 delete-refs side-band-64k ofs-delta atomic push-options quiet''"

definition zero_id :: string where
  "zero_id = replicate 40 (CHR ''0'')"

fun ref_lines :: "string \<Rightarrow> (string \<times> oid) list \<Rightarrow> (bytes, unit) io" where
  "ref_lines caps [] = write_pkt (zero_id @ '' capabilities^'' @ [CHR 0x7B, CHR 0x7D, CHR 0x00] @ caps @ [CHR 0x0A])"
| "ref_lines caps ((n, i) # refs) =
     bindE (write_pkt (to_hex i @ '' '' @ n @ [CHR 0x00] @ caps @ [CHR 0x0A])) (\<lambda>_.
     forE refs (\<lambda>(n, i). write_text (to_hex i @ '' '' @ n)))"

definition advertise :: "repo \<Rightarrow> ('z world_scheme \<times> bytes, unit) io" where
  "advertise r =
     bindE (on_world (list_refs r)) (\<lambda>refs.
     bindE (on_out (ref_lines (CAPS @ '' '' @ AGENT) refs)) (\<lambda>_.
     on_out write_flush))"

section \<open>The commands\<close>

definition parse_id :: "string \<Rightarrow> error + oid option" where
  "parse_id h = (if h = zero_id then Inr None else bindR (parse_oid h) (\<lambda>i. Inr (Some i)))"

definition parse_command :: "bytes \<Rightarrow> error + ref_update" where
  "parse_command cmd =
     (if \<not> utf8_valid cmd then Inl (Message ''bad ref name'')
      else case split_on (CHR '' '') cmd of
             old # new # refname # _ \<Rightarrow>
               if \<not> valid_ref_name refname then Inl (Message ''bad ref name'')
               else bindR (parse_id old) (\<lambda>o1. bindR (parse_id new) (\<lambda>n.
                    Inr \<lparr>uname = refname, uold = o1, unew = n\<rparr>))
           | _ \<Rightarrow> Inl (Message ''bad cmd''))"

text \<open>The capabilities are those of the last line that carries any.\<close>

fun parse_commands :: "bytes list \<Rightarrow> string \<Rightarrow> error + (ref_update list \<times> string)" where
  "parse_commands [] caps = Inr ([], caps)"
| "parse_commands (line # lines) caps =
     (case (case split_once (CHR 0x00) line of Some (a, c) \<Rightarrow> (a, from_utf8_lossy c) | None \<Rightarrow> (line, caps)) of
        (cmd, caps) \<Rightarrow>
          bindR (parse_command cmd) (\<lambda>u.
          bindR (parse_commands lines caps) (\<lambda>(us, caps). Inr (u # us, caps))))"

definition has_cap :: "string \<Rightarrow> string \<Rightarrow> bool" where
  "has_cap caps c \<longleftrightarrow> c \<in> set (split_on (CHR '' '') caps)"

text \<open>The push options are between the commands and the pack; what reads them next starts after them.\<close>

definition skip_options :: "string \<Rightarrow> reader \<Rightarrow> error + reader" where
  "skip_options caps rd =
     (if has_cap caps ''push-options''
      then (case read_lines_until_flush rd of (Inl e, _) \<Rightarrow> Inl e | (Inr _, rd1) \<Rightarrow> Inr rd1)
      else Inr rd)"

section \<open>The report\<close>

definition ref_report :: "bool \<Rightarrow> ref_update \<Rightarrow> string option \<Rightarrow> (bytes, unit) io" where
  "ref_report v2 u res =
     (case res of
        None \<Rightarrow>
          bindE (write_text (''ok '' @ uname u)) (\<lambda>_.
          if v2 then (case unew u of None \<Rightarrow> returnE () | Some n \<Rightarrow> write_text (''option new-oid '' @ to_hex n))
          else returnE ())
      | Some m \<Rightarrow> write_text (''ng '' @ uname u @ '' '' @ m))"

definition report_body :: "bool \<Rightarrow> string \<Rightarrow> (ref_update \<times> string option) list \<Rightarrow> (bytes, unit) io" where
  "report_body v2 status urs =
     bindE (write_text (''unpack '' @ status)) (\<lambda>_.
     bindE (forE urs (\<lambda>(u, res). ref_report v2 u res)) (\<lambda>_.
     write_flush))"

definition write_report ::
    "string \<Rightarrow> string \<Rightarrow> string option \<Rightarrow> (ref_update \<times> string option) list \<Rightarrow> (bytes, unit) io" where
  "write_report caps status fatal urs =
     (let sideband = has_cap caps ''side-band-64k'';
          v2 = has_cap caps ''report-status-v2'';
          report = v2 \<or> has_cap caps ''report-status'' in
     bindE (case fatal of
              None \<Rightarrow> returnE ()
            | Some m \<Rightarrow> if sideband then write_band (CHR 0x03) m else returnE ()) (\<lambda>_.
     if report
     then (case report_body v2 status urs [] of
             (Inl e, _) \<Rightarrow> failE e
           | (Inr _, out) \<Rightarrow>
               if sideband then bindE (band_writer_write (CHR 0x01) out) (\<lambda>_. write_flush) else write_all out)
     else returnE ()))"

definition client_message :: "error \<Rightarrow> string" where
  "client_message e =
     (case e of
        ClientPack m \<Rightarrow> map (\<lambda>c. if c = CHR 0x0A then CHR '' '' else c) m
      | _ \<Rightarrow> ''internal error'')"

text \<open>After the push: a fence is the caller's to handle; any other failure is reported for every reference.\<close>

definition report_outcome :: "string \<Rightarrow> ref_update list \<Rightarrow> error + string option list \<Rightarrow> (bytes, unit) io" where
  "report_outcome caps updates res =
     (case res of
        Inl e \<Rightarrow>
          if is_fenced e then failE e
          else (let m = client_message e
                in write_report caps (''error '' @ m) (Some (''unpack failed: '' @ m)) (map (\<lambda>u. (u, Some m)) updates))
      | Inr results \<Rightarrow> write_report caps ''ok'' None (zip updates results))"

definition serve ::
    "(kv \<Rightarrow> kv) \<Rightarrow> conflict_check \<Rightarrow> (string \<Rightarrow> string) \<Rightarrow> gitlib \<Rightarrow> repo \<Rightarrow> reader \<Rightarrow> ('z world_scheme \<times> bytes, unit) io" where
  "serve env ssi quoted L r rd =
     (case read_lines_until_flush rd of
        (Inl e, _) \<Rightarrow> failE e
      | (Inr lines, rd1) \<Rightarrow>
          bindE (liftE (parse_commands lines [])) (\<lambda>(updates, caps).
          if updates = [] then returnE ()
          else bindE (liftE (skip_options caps rd1)) (\<lambda>rd2.
               bindE (on_world (tryE (apply_push env ssi quoted L r rd2 updates))) (\<lambda>res.
               on_out (report_outcome caps updates res)))))"

section \<open>Reading the report\<close>

text \<open>The lines of a report, and the bytes that carry them: plain, or in the first side band.\<close>

definition report_lines :: "bool \<Rightarrow> string \<Rightarrow> (ref_update \<times> string option) list \<Rightarrow> string list" where
  "report_lines v2 status urs = (''unpack '' @ status) # concat (map (\<lambda>(u, res).
     case res of
       None \<Rightarrow> (''ok '' @ uname u) # (if v2 then (case unew u of None \<Rightarrow> [] | Some n \<Rightarrow> [''option new-oid '' @ to_hex n]) else [])
     | Some m \<Rightarrow> [''ng '' @ uname u @ '' '' @ m]) urs)"

definition band_bytes :: "char \<Rightarrow> bytes \<Rightarrow> bytes" where
  "band_bytes b d = concat (map (\<lambda>c. enc_pkt (Data (b # c))) (chunks MAX_BAND d))"

definition report_bytes :: "string \<Rightarrow> string option \<Rightarrow> string list \<Rightarrow> bytes" where
  "report_bytes caps fatal lines =
     (let plain = concat (map text_line lines) @ ''0000''
      in if has_cap caps ''side-band-64k''
         then (case fatal of None \<Rightarrow> [] | Some m \<Rightarrow> band_bytes (CHR 0x03) m) @ band_bytes (CHR 0x01) plain @ ''0000''
         else plain)"

lemma write_band_out: "write_band b d w = (Inr (), w @ band_bytes b d)"
  by (simp add: write_band_bytes band_bytes_def comp_def del: enc_pkt.simps)

lemma forE_append: "forE (xs @ ys) f = bindE (forE xs f) (\<lambda>_. forE ys f)"
proof (induction xs)
  case Nil
  show ?case by (simp add: bindE_def fun_eq_iff)
next
  case (Cons x xs)
  then show ?case by (simp add: bindE_assoc)
qed

lemma report_body_lines:
  assumes "report_body v2 status urs w = (Inr (), w')"
  shows "w' = w @ concat (map text_line (report_lines v2 status urs)) @ ''0000''
    \<and> list_all (\<lambda>l. length l + 5 \<le> 0xffff) (report_lines v2 status urs)"
proof -
  have one: "ref_report v2 u res = forE (case res of
      None \<Rightarrow> (''ok '' @ uname u) # (if v2 then (case unew u of None \<Rightarrow> [] | Some n \<Rightarrow> [''option new-oid '' @ to_hex n]) else [])
    | Some m \<Rightarrow> [''ng '' @ uname u @ '' '' @ m]) write_text" for u res
    by (auto simp: ref_report_def bindE_def fun_eq_iff split: option.splits prod.splits sum.splits)
  have all: "forE xs (\<lambda>(u, res). ref_report v2 u res) = forE (concat (map (\<lambda>(u, res). case res of
      None \<Rightarrow> (''ok '' @ uname u) # (if v2 then (case unew u of None \<Rightarrow> [] | Some n \<Rightarrow> [''option new-oid '' @ to_hex n]) else [])
    | Some m \<Rightarrow> [''ng '' @ uname u @ '' '' @ m]) xs)) write_text" for xs
    by (induction xs) (auto simp: one forE_append)
  have "report_body v2 status urs = bindE (forE (report_lines v2 status urs) write_text) (\<lambda>_. write_flush)"
    unfolding report_body_def report_lines_def forE.simps all by (simp add: bindE_assoc)
  with assms show ?thesis
    by (auto simp: write_flush_def list_all_iff elim!: bindE_InrE dest!: write_texts)
qed

lemma write_report_bytes:
  assumes "write_report caps status fatal urs w = (Inr (), w')"
    and "has_cap caps ''report-status'' \<or> has_cap caps ''report-status-v2''"
  shows "w' = w @ report_bytes caps fatal (report_lines (has_cap caps ''report-status-v2'') status urs)
    \<and> list_all (\<lambda>l. length l + 5 \<le> 0xffff) (report_lines (has_cap caps ''report-status-v2'') status urs)"
proof -
  let ?v2 = "has_cap caps ''report-status-v2''"
  obtain res out where b: "report_body ?v2 status urs [] = (res, out)" by fastforce
  with assms have ok: "res = Inr ()"
    by (cases res) (auto simp: write_report_def Let_def bindE_def write_band_out split: option.splits if_splits)
  from report_body_lines [OF b [unfolded ok]] have out: "out = concat (map text_line (report_lines ?v2 status urs)) @ ''0000''"
    and "list_all (\<lambda>l. length l + 5 \<le> 0xffff) (report_lines ?v2 status urs)"
    by simp_all
  with assms b ok show ?thesis
    unfolding report_bytes_def out [symmetric]
    by (auto simp: write_report_def Let_def bindE_def write_band_out band_writer_write_def write_flush_def
        split: option.splits if_splits)
qed

text \<open>
  C21. The report of a push is honest. A client that asked for one is told of every reference, and
  the answers are all alike: \<open>ok\<close> for each, and then the push was published whole, or \<open>ng\<close> for each;
  and unless the push failed on the way, with the reason on the \<open>unpack\<close> line, an \<open>ng\<close> means that the
  references were not moved. The report arrives in the form the client asked for, side band included,
  and each of its lines fits a packet.
\<close>

theorem push_report_is_honest:
  assumes "walk_covers (algos L)" and "count_under (algos L)" and "index_names L"
    and "ssi_sound ssi" and "\<And>db. kv_ok db \<Longrightarrow> kv_ok (env db)"
    and "pack_safe r s" and "kv_ok (repo_db r s)"
    and "read_lines_until_flush rd = (Inr lines, rd1)" and "parse_commands lines [] = Inr (updates, caps)"
    and "updates \<noteq> []" and "has_cap caps ''report-status'' \<or> has_cap caps ''report-status-v2''"
    and "serve env ssi quoted L r rd (s, w) = (Inr (), (t, w'))"
  shows "\<exists>fatal status results.
     w' = w @ report_bytes caps fatal (report_lines (has_cap caps ''report-status-v2'') status (zip updates results))
     \<and> list_all (\<lambda>l. length l + 5 \<le> 0xffff) (report_lines (has_cap caps ''report-status-v2'') status (zip updates results))
     \<and> length results = length updates
     \<and> (status = ''ok'' \<and> results = map (\<lambda>_. None) updates \<and> published env L r updates s t
        \<or> None \<notin> set results \<and> (status = ''ok'' \<longrightarrow> unmoved env r s t))"
proof -
  let ?v2 = "has_cap caps ''report-status-v2''"
  from assms(8-10,12) obtain rd2 where "skip_options caps rd1 = Inr rd2"
    by (cases "skip_options caps rd1") (auto simp: serve_def bindE_def)
  moreover define res where "res = fst (apply_push env ssi quoted L r rd2 updates s)"
  ultimately have run: "apply_push env ssi quoted L r rd2 updates s = (res, t)"
    and rep: "report_outcome caps updates res w = (Inr (), w')"
    using assms(8-10,12) by (auto simp: serve_def bindE_def on_world_def on_out_def tryE_def intro: prod_eqI)
  note out = apply_push_outcome [OF assms(1-7) run]
  show ?thesis
  proof (cases res)
    case (Inl e)
    let ?m = "client_message e"
    from rep Inl have "write_report caps (''error '' @ ?m) (Some (''unpack failed: '' @ ?m)) (map (\<lambda>u. (u, Some ?m)) updates) w = (Inr (), w')"
      by (auto simp: report_outcome_def Let_def split: if_splits)
    moreover have "map (\<lambda>u. (u, Some ?m)) updates = zip updates (map (\<lambda>_. Some ?m) updates)" by (induction updates) auto
    ultimately show ?thesis
      using write_report_bytes [OF _ assms(11), of "''error '' @ ?m" "Some (''unpack failed: '' @ ?m)"]
      by (intro exI [of _ "Some (''unpack failed: '' @ ?m)"] exI [of _ "''error '' @ ?m"] exI [of _ "map (\<lambda>_. Some ?m) updates"])
        auto
  next
    case (Inr results)
    with rep have "write_report caps ''ok'' None (zip updates results) w = (Inr (), w')" by (simp add: report_outcome_def)
    from write_report_bytes [OF this assms(11)] out Inr show ?thesis
      by (intro exI [of _ None] exI [of _ "''ok''"] exI [of _ results]) (auto simp: refused_def accepted_def)
  qed
qed

text \<open>What a client writes for an update is read back as that update.\<close>

definition show_id :: "oid option \<Rightarrow> string" where
  "show_id i = (case i of None \<Rightarrow> zero_id | Some n \<Rightarrow> to_hex n)"

definition show_command :: "ref_update \<Rightarrow> string" where
  "show_command u = show_id (uold u) @ '' '' @ show_id (unew u) @ '' '' @ uname u"

lemma zero_id_hex: "zero_id = to_hex 0"
  by (simp add: zero_id_def to_hex_def pad_left_def to_radix.simps digit_char_def numeral_eq_Suc)

lemma show_id_hex: "\<exists>n. show_id i = to_hex n"
  using zero_id_hex by (auto simp: show_id_def split: option.splits)

lemma parse_show_id: "i \<noteq> Some 0 \<Longrightarrow> parse_id (show_id i) = Inr i"
  by (auto simp: parse_id_def show_id_def zero_id_hex to_hex_inj parse_oid_def bindR_def split: option.splits)

lemma show_id_clean: "CHR '' '' \<notin> set (show_id i)" "CHR 0x00 \<notin> set (show_id i)"
proof -
  obtain n where n: "show_id i = to_hex n" using show_id_hex by blast
  have "to_digit 16 (CHR '' '') = None" "to_digit 16 (CHR 0x00) = None"
    by (simp_all add: to_digit_def in_range_def byte_of_def)
  then show "CHR '' '' \<notin> set (show_id i)" "CHR 0x00 \<notin> set (show_id i)"
    unfolding n using to_hex_digit [of _ n] by fastforce+
qed

definition writable :: "ref_update \<Rightarrow> bool" where
  "writable u \<longleftrightarrow> valid_ref_name (uname u) \<and> utf8_valid (uname u) \<and> uold u \<noteq> Some 0 \<and> unew u \<noteq> Some 0"

lemma ref_name_clean: "valid_ref_name n \<Longrightarrow> CHR '' '' \<notin> set n \<and> CHR 0x00 \<notin> set n"
proof -
  assume "valid_ref_name n"
  then have "list_all (\<lambda>b. byte_of b > 0x20) n" unfolding valid_ref_name_def list_all_iff by blast
  then show ?thesis by (auto simp: list_all_iff byte_of_def)
qed

lemma show_id_utf8: "utf8_valid (show_id i)"
proof -
  obtain n where "show_id i = to_hex n" using show_id_hex by blast
  then show ?thesis by (auto intro: utf8_valid_ascii to_hex_ascii)
qed

lemma parse_show_command:
  assumes "writable u"
  shows "parse_command (show_command u) = Inr u" and "CHR 0x00 \<notin> set (show_command u)"
proof -
  have u: "valid_ref_name (uname u)" "utf8_valid (uname u)" "uold u \<noteq> Some 0" "unew u \<noteq> Some 0"
    using assms by (simp_all add: writable_def)
  have sp: "utf8_valid '' ''" by (simp add: byte_of_def)
  have "utf8_valid (show_command u)"
    unfolding show_command_def by (intro utf8_valid_append show_id_utf8 u(2) sp)
  moreover have "split_on (CHR '' '') (show_command u) = [show_id (uold u), show_id (unew u), uname u]"
    unfolding show_command_def using ref_name_clean [OF u(1)] show_id_clean by (simp add: split_on_append split_on_id)
  ultimately show "parse_command (show_command u) = Inr u"
    using u by (simp add: parse_command_def parse_show_id bindR_def)
  show "CHR 0x00 \<notin> set (show_command u)"
    using ref_name_clean [OF u(1)] show_id_clean by (simp add: show_command_def)
qed

lemma parse_plain_commands:
  "list_all writable us \<Longrightarrow> parse_commands (map show_command us) caps = Inr (us, caps)"
  by (induction us) (auto simp: parse_show_command bindR_def split_once_None [THEN iffD2])

text \<open>
  C39. The commands of a push mean what the client wrote: a list of updates, each written as its two
  ids and its name, the capabilities after the first, is parsed as exactly those updates and
  capabilities, creations and deletions included.
\<close>

theorem push_commands_roundtrip:
  assumes "list_all writable (u # us)" and "utf8_valid caps"
  shows "parse_commands ((show_command u @ [CHR 0x00] @ caps) # map show_command us) [] = Inr (u # us, caps)"
proof -
  have "split_once (CHR 0x00) (show_command u @ [CHR 0x00] @ caps) = Some (show_command u, caps)"
    using parse_show_command(2) [of u] assms(1) by (simp add: split_once_append)
  with assms show ?thesis
    by (simp add: parse_show_command parse_plain_commands bindR_def from_utf8_lossy_valid)
qed

lemma main_ref: "valid_ref_name ''refs/heads/main''" "utf8_valid ''refs/heads/main''"
  by (simp_all add: valid_ref_name_def starts_with_def ends_with_def suffix_to_prefix str_contains_def sublist_code byte_of_def)

theorem push_commands_roundtrip_witness:
  "parse_commands [show_command \<lparr>uname = ''refs/heads/main'', uold = Some 1, unew = None\<rparr> @ [CHR 0x00] @ ''report-status''] []
     = Inr ([\<lparr>uname = ''refs/heads/main'', uold = Some 1, unew = None\<rparr>], ''report-status'')"
  using push_commands_roundtrip [of "\<lparr>uname = ''refs/heads/main'', uold = Some 1, unew = None\<rparr>" "[]" "''report-status''"]
  by (simp add: writable_def main_ref byte_of_def)

text \<open>The first push of an empty repository, from the bytes of its commands to those of its report.\<close>

definition first_command :: bytes where
  "first_command = show_command \<lparr>uname = ''refs/heads/main'', uold = None, unew = Some 1\<rparr> @ [CHR 0x00] @ ''report-status''"

lemma first_commands:
  "read_lines_until_flush \<lparr>rbuf = text_line first_command @ ''0000PACK'', rend = None\<rparr> = (Inr [first_command], first_stream)"
  "parse_commands [first_command] [] = Inr (first_updates, ''report-status'')"
proof -
  have len: "length first_command = 111" by (simp add: first_command_def show_command_def show_id_def zero_id_def)
  have "read_lines_loop 0 [] \<lparr>rbuf = concat (map text_line [first_command]) @ ''0000'' @ ''PACK'', rend = None\<rparr>
      = (Inr ([] @ [first_command]), \<lparr>rbuf = ''PACK'', rend = None\<rparr>)"
    by (rule read_lines_loop_texts) (simp_all add: len MAX_BYTES_def MAX_LINES_def)
  then show "read_lines_until_flush \<lparr>rbuf = text_line first_command @ ''0000PACK'', rend = None\<rparr> = (Inr [first_command], first_stream)"
    by (simp add: read_lines_until_flush_def first_stream_def)
  let ?u = "\<lparr>uname = ''refs/heads/main'', uold = None, unew = Some 1\<rparr>"
  have w: "writable ?u" by (simp add: writable_def main_ref del: utf8_valid.simps)
  have "split_once (CHR 0x00) first_command = Some (show_command ?u, ''report-status'')"
    using split_once_append [OF parse_show_command(2) [OF w]] by (simp add: first_command_def)
  moreover have "from_utf8_lossy ''report-status'' = ''report-status''"
    by (rule from_utf8_lossy_valid) (simp add: byte_of_def)
  ultimately show "parse_commands [first_command] [] = Inr (first_updates, ''report-status'')"
    using parse_show_command(1) [OF w] by (simp add: bindR_def first_updates_def)
qed

lemma report_unique:
  assumes "list_all (\<lambda>l. length l + 5 \<le> 0xffff) ls" and "list_all (\<lambda>l. length l + 5 \<le> 0xffff) ms"
    and "length ls = length ms" and "concat (map text_line ls) @ a = concat (map text_line ms) @ b"
  shows "ls = ms"
proof -
  let ?f = "\<lambda>l. Data (l @ [CHR 0x0A])"
  have enc: "map text_line ks = map enc_pkt (map ?f ks)" if "list_all (\<lambda>l. length l + 5 \<le> 0xffff) ks" for ks
    using that write_text_ok [of _ "[]"] by (auto simp: list_all_iff write_text_def)
  have "map ?f ls = map ?f ms \<and> a = b"
    by (rule pk.frames_unique) (use assms enc [OF assms(1)] enc [OF assms(2)] in \<open>auto simp: list_all_iff simp del: enc_pkt.simps\<close>)
  then have "map ?f ls = map ?f ms" ..
  then show ?thesis by (rule map_injective) (simp add: inj_def)
qed

theorem push_report_is_honest_witness:
  "\<exists>t. serve id exact_ssi id first_lib web_repo \<lparr>rbuf = text_line first_command @ ''0000PACK'', rend = None\<rparr> (first_world, [])
       = (Inr (), (t, text_line ''unpack ok'' @ text_line ''ok refs/heads/main'' @ ''0000''))
     \<and> published id first_lib web_repo first_updates first_world t"
proof -
  let ?rd = "\<lparr>rbuf = text_line first_command @ ''0000PACK'', rend = None\<rparr>"
  let ?w = "text_line ''unpack ok'' @ text_line ''ok refs/heads/main'' @ ''0000''"
  obtain t where t: "apply_push id exact_ssi id first_lib web_repo first_stream first_updates first_world = (Inr [None], t)"
    using first_push by blast
  have caps: "has_cap ''report-status'' ''report-status''" "\<not> has_cap ''report-status'' ''report-status-v2''"
    "\<not> has_cap ''report-status'' ''side-band-64k''" "\<not> has_cap ''report-status'' ''push-options''"
    by (simp_all add: has_cap_def)
  have ne: "first_updates \<noteq> []" by (simp add: first_updates_def)
  have run: "serve id exact_ssi id first_lib web_repo ?rd (first_world, []) = (Inr (), (t, ?w))"
    by (simp add: serve_def first_commands ne skip_options_def caps on_world_def on_out_def tryE_def t bindE_def report_outcome_def
        write_report_def report_body_def ref_report_def write_text_ok write_flush_def del: parse_commands.simps)
      (simp add: first_updates_def write_text_ok bindE_def)
  have lib: "walk_covers (algos first_lib)" "count_under (algos first_lib)"
    using round_gix_walk round_gix_count by (simp_all add: first_lib_def)
  have safe: "pack_safe web_repo first_world" unfolding first_world_def by (rule fresh_world_safe)
  have db: "kv_ok (repo_db web_repo first_world)" by (simp add: first_world_def fresh_world_def the_db_def)
  from push_report_is_honest [OF lib first_names exact_ssi_sound _ safe db first_commands ne _ run] caps
  obtain fatal status results where w: "?w = report_bytes ''report-status'' fatal
        (report_lines False status (zip first_updates results))" "length results = length first_updates"
    and fit: "list_all (\<lambda>l. length l + 5 \<le> 0xffff) (report_lines False status (zip first_updates results))"
    and or: "status = ''ok'' \<and> results = map (\<lambda>_. None) first_updates \<and> published id first_lib web_repo first_updates first_world t
        \<or> None \<notin> set results \<and> (status = ''ok'' \<longrightarrow> unmoved id web_repo first_world t)"
    by auto
  from w(2) obtain x where x: "results = [x]" by (cases results) (auto simp: first_updates_def)
  have "[''unpack ok'', ''ok refs/heads/main''] = report_lines False status (zip first_updates results)"
    using w(1) fit by (intro report_unique [where a = "''0000''" and b = "''0000''"])
      (simp_all add: report_bytes_def caps x report_lines_def first_updates_def split: option.splits)
  then have "x = None" by (cases x) (simp_all add: x report_lines_def first_updates_def)
  with or x run show ?thesis by auto
qed

end
