(* ===== verification/Fetch.thy ===== *)
theory Fetch
  imports Serve
begin

text \<open>
  The fetch: \<open>crates/git/src/protocol/upload/mod.rs\<close>, \<open>walk.rs\<close>, \<open>refs.rs\<close> and \<open>pack.rs\<close>. What a fetch
  writes is a list of events, rendered afterwards: texts, and the pack by the list of objects it
  carries, which is what the lemmas speak of. The encoding of a pack from that list is gix and a
  parameter. The interrupt flag is not modelled.
  The lemmas show that the objects of the pack are reachable from the references, under conditions
  whose need is shown by examples.
\<close>

section \<open>References by name\<close>

definition DEFAULT_BRANCH :: string where
  "DEFAULT_BRANCH = ''main''"

fun first_some :: "('a \<Rightarrow> 'b option) \<Rightarrow> 'a list \<Rightarrow> 'b option" where
  "first_some f [] = None"
| "first_some f (x # xs) = (case f x of None \<Rightarrow> first_some f xs | Some y \<Rightarrow> Some y)"

definition resolve_shorthand :: "(string \<times> oid) list \<Rightarrow> string \<Rightarrow> oid option" where
  "resolve_shorthand refs r =
     first_some (\<lambda>p. map_of refs (p @ r)) ['''', ''refs/'', ''refs/tags/'', ''refs/heads/'', ''refs/remotes/'']"

definition head_target :: "(string \<times> oid) list \<Rightarrow> string" where
  "head_target refs =
     (let has = (\<lambda>b. list_ex (\<lambda>(n, _). n = ''refs/heads/'' @ b) refs) in
      if has DEFAULT_BRANCH \<or> \<not> list_ex (\<lambda>(n, _). starts_with n ''refs/heads/'') refs
      then ''refs/heads/'' @ DEFAULT_BRANCH
      else if has ''master'' then ''refs/heads/master''
      else (case List.find (\<lambda>n. starts_with n ''refs/heads/'') (map fst refs) of
              Some n \<Rightarrow> n
            | None \<Rightarrow> ''refs/heads/'' @ DEFAULT_BRANCH))"

fun peel_rounds :: "nat \<Rightarrow> odb \<Rightarrow> oid \<Rightarrow> oid option \<Rightarrow> oid option" where
  "peel_rounds 0 odb i p = p"
| "peel_rounds (Suc n) odb i p =
     (case find_object odb i of
        Inl _ \<Rightarrow> None
      | Inr (TagObj t) \<Rightarrow> peel_rounds n odb t (Some t)
      | Inr _ \<Rightarrow> p)"

definition peel_to_object :: "odb \<Rightarrow> oid \<Rightarrow> oid option" where
  "peel_to_object odb i = peel_rounds 16 odb i None"

section \<open>Filters\<close>

datatype blob_filter = NoBlobs | BlobLimit nat | NoTrees

definition parse_size :: "string \<Rightarrow> nat option" where
  "parse_size s0 =
     (let s = trim s0 in
      if s = [] then None
      else let c = ascii_lower (last s);
               (digits, mult) =
                 (if c = CHR ''k'' then (butlast s, 1024)
                  else if c = CHR ''m'' then (butlast s, 1024 * 1024)
                  else if c = CHR ''g'' then (butlast s, 1024 * 1024 * 1024)
                  else (s, 1))
           in Option.bind (parse_u64 (trim digits)) (\<lambda>n. if n * mult < u64_bound then Some (n * mult) else None))"

definition parse_filter :: "string \<Rightarrow> blob_filter option" where
  "parse_filter spec =
     (let s = trim spec in
      if s = ''blob:none'' then Some NoBlobs
      else if s = ''tree:0'' then Some NoTrees
      else map_option BlobLimit (Option.bind (strip_prefix ''blob:limit='' s) parse_size))"

definition keep_blob :: "gix \<Rightarrow> odb \<Rightarrow> oid \<Rightarrow> blob_filter \<Rightarrow> bool" where
  "keep_blob g odb i f =
     (case f of BlobLimit mx \<Rightarrow> (case gheader g odb i of None \<Rightarrow> False | Some sz \<Rightarrow> sz \<le> mx) | _ \<Rightarrow> False)"

definition find_tree :: "odb \<Rightarrow> oid \<Rightarrow> error + (bytes \<times> entry_mode \<times> oid) list" where
  "find_tree odb i =
     bindR (find_object odb i) (\<lambda>ob.
       case ob of TreeObj es \<Rightarrow> Inr es | _ \<Rightarrow> Inl (Message (''expected tree '' @ to_hex i)))"

text \<open>The first loop: the commits, and the trees to walk with the trees to compare them with.\<close>

definition base_tree :: "odb \<Rightarrow> oid set \<Rightarrow> oid list \<Rightarrow> oid option" where
  "base_tree odb known1 parents =
     (case parents of
        [] \<Rightarrow> None
      | p # _ \<Rightarrow>
          if p \<in> known1
          then (case find_object odb p of Inr (CommitObj t _) \<Rightarrow> Some t | _ \<Rightarrow> None)
          else None)"

fun filter_commits ::
    "odb \<Rightarrow> oid set \<Rightarrow> blob_filter \<Rightarrow> oid list \<Rightarrow> oid set \<Rightarrow> oid list \<Rightarrow> (oid \<times> oid option) list \<Rightarrow>
     error + (oid set \<times> oid list \<times> (oid \<times> oid option) list)" where
  "filter_commits odb known1 f [] sn out trees = Inr (sn, out, trees)"
| "filter_commits odb known1 f (c # cs) sn out trees =
     (if c \<in> sn then filter_commits odb known1 f cs sn out trees
      else if f = NoTrees then filter_commits odb known1 f cs (insert c sn) (out @ [c]) trees
      else (case find_object odb c of
              Inl e \<Rightarrow> Inl e
            | Inr (CommitObj t ps) \<Rightarrow>
                filter_commits odb known1 f cs (insert c sn) (out @ [c]) ((t, base_tree odb known1 ps) # trees)
            | Inr _ \<Rightarrow> filter_commits odb known1 f cs (insert c sn) (out @ [c]) trees))"

text \<open>The entries of one tree, in order; the list of trees is kept with its top first.\<close>

fun filter_entries ::
    "gix \<Rightarrow> odb \<Rightarrow> blob_filter \<Rightarrow> (bytes \<times> oid) list \<Rightarrow> (bytes \<times> entry_mode \<times> oid) list \<Rightarrow>
     oid set \<Rightarrow> oid list \<Rightarrow> (oid \<times> oid option) list \<Rightarrow> oid set \<times> oid list \<times> (oid \<times> oid option) list" where
  "filter_entries g odb f base [] sn out trees = (sn, out, trees)"
| "filter_entries g odb f base ((n, md, i) # es) sn out trees =
     (let same = map_of (rev base) n in
      if md = TreeMode then filter_entries g odb f base es sn out ((i, same) # trees)
      else if same \<noteq> Some i \<and> i \<notin> sn
      then filter_entries g odb f base es (insert i sn) (if keep_blob g odb i f then out @ [i] else out) trees
      else filter_entries g odb f base es sn out trees)"

lemma filter_entries_seen: "sn \<subseteq> fst (filter_entries g odb f base es sn out trees)"
  by (induction g odb f base es sn out trees rule: filter_entries.induct) (auto simp: Let_def)

lemma filter_entries_less:
  assumes "(sn1, y) = filter_entries g odb f base es (insert i sn) out trees" and "i \<notin> sn"
  shows "card (UNIV - sn1) < card (UNIV - sn)"
proof -
  have "insert i sn \<subseteq> sn1" using filter_entries_seen assms(1) by (metis fst_conv)
  with assms(2) show ?thesis by (intro psubset_card_mono) auto
qed

function filter_trees ::
    "gix \<Rightarrow> odb \<Rightarrow> blob_filter \<Rightarrow> (oid \<times> oid option) list \<Rightarrow> oid set \<Rightarrow> oid list \<Rightarrow> error + oid list" where
  "filter_trees g odb f [] sn out = Inr out"
| "filter_trees g odb f ((i, base) # trees) sn out =
     (if base = Some i \<or> i \<in> sn then filter_trees g odb f trees sn out
      else (case find_tree odb i of
              Inl e \<Rightarrow> Inl e
            | Inr es \<Rightarrow>
                (case (case base of None \<Rightarrow> Inr [] | Some b \<Rightarrow> find_tree odb b) of
                   Inl e \<Rightarrow> Inl e
                 | Inr bs \<Rightarrow>
                     (case filter_entries g odb f (map (\<lambda>(n, _, j). (n, j)) bs) es (insert i sn) (out @ [i]) trees of
                        (sn1, out1, trees1) \<Rightarrow> filter_trees g odb f trees1 sn1 out1))))"
  by pat_completeness auto
termination
  by (relation "measures [\<lambda>(_, _, _, _, sn, _). card (UNIV - sn), \<lambda>(_, _, _, trees, _, _). length trees]")
    (auto dest: filter_entries_less)

definition filtered_objects ::
    "gix \<Rightarrow> odb \<Rightarrow> oid list \<Rightarrow> oid set \<Rightarrow> blob_filter \<Rightarrow> error + oid list" where
  "filtered_objects g odb commits have1 f =
     bindR (filter_commits odb (have1 \<union> set commits) f commits {} [] []) (\<lambda>(sn, out, trees).
     filter_trees g odb f trees sn out)"

section \<open>Walks\<close>

definition MAX_WALK :: nat where
  "MAX_WALK = 2000000"

definition over_budget :: "nat \<Rightarrow> string \<Rightarrow> error" where
  "over_budget n what = Message (''upload-pack: '' @ what @ '' walked more than '' @ to_decimal n @ '' commits'')"

text \<open>The walk stops when every target is found; an error after that is never seen.\<close>

fun find_targets :: "(error + (oid \<times> oid list)) list \<Rightarrow> oid set \<Rightarrow> oid set \<Rightarrow> nat \<Rightarrow> error + oid set" where
  "find_targets [] want found n = Inr found"
| "find_targets (x # xs) want found n =
     (if want = {} then Inr found
      else (case x of
              Inl e \<Rightarrow> Inl e
            | Inr (c, _) \<Rightarrow>
                if Suc n > MAX_WALK then Inl (over_budget (Suc n) ''want'')
                else if c \<in> want then find_targets xs (want - {c}) (insert c found) (Suc n)
                else find_targets xs want found (Suc n)))"

definition reachable_commits :: "gix \<Rightarrow> odb \<Rightarrow> oid list \<Rightarrow> oid list \<Rightarrow> error + oid set" where
  "reachable_commits g odb tips targets =
     bindR (peel_wants odb tips) (\<lambda>p.
     let want = set targets; hit = set (ptags p) \<inter> want
     in find_targets (case giter g odb (pcommits p) [] of Inl e \<Rightarrow> [Inl e] | Inr items \<Rightarrow> items) (want - hit) hit 0)"

record deepen =
  depth :: "nat option"
  since :: "int option"
  cuts :: "oid list"
  client_shallow :: "oid list"
  relative :: bool

definition asked :: "deepen \<Rightarrow> bool" where
  "asked d \<longleftrightarrow> depth d \<noteq> None \<or> since d \<noteq> None \<or> cuts d \<noteq> []"

record shallow =
  scommits :: "oid list"
  sboundary :: "oid list"
  unshallow :: "oid list"

text \<open>The times of commits are remembered by the source only to read them once.\<close>

definition too_old :: "gix \<Rightarrow> odb \<Rightarrow> deepen \<Rightarrow> oid \<Rightarrow> bool" where
  "too_old g odb d p =
     (case since d of
        None \<Rightarrow> False
      | Some limit \<Rightarrow>
          (case find_object odb p of
             Inr (CommitObj _ _) \<Rightarrow> (case gtime g odb p of None \<Rightarrow> False | Some t \<Rightarrow> t < limit)
           | _ \<Rightarrow> False))"

definition cut_parents :: "gix \<Rightarrow> odb \<Rightarrow> deepen \<Rightarrow> oid list \<Rightarrow> oid list" where
  "cut_parents g odb d ps = filter (\<lambda>p. p \<in> set (cuts d) \<or> too_old g odb d p) ps"

function shallow_loop ::
    "gix \<Rightarrow> odb \<Rightarrow> deepen \<Rightarrow> (oid \<times> nat) list \<Rightarrow> nat \<Rightarrow> (oid \<times> nat) list \<Rightarrow> oid list \<Rightarrow>
     error + ((oid \<times> nat) list \<times> oid list)" where
  "shallow_loop g odb d [] n depths bnd = Inr (depths, bnd)"
| "shallow_loop g odb d ((i, dp) # queue) n depths bnd =
     (if (case map_of depths i of None \<Rightarrow> False | Some prev \<Rightarrow> prev \<le> dp)
      then shallow_loop g odb d queue n depths bnd
      else if Suc n > MAX_WALK then Inl (over_budget (Suc n) ''shallow'')
      else (case find_object odb i of
              Inr (CommitObj _ ps) \<Rightarrow>
                (let depths1 = AList.update i dp depths in
                 if ps = [] then shallow_loop g odb d queue (Suc n) depths1 bnd
                 else if (case depth d of None \<Rightarrow> False | Some mx \<Rightarrow> dp \<ge> mx) \<or> i \<in> set (cuts d)
                 then shallow_loop g odb d queue (Suc n) depths1 (bnd @ [i])
                 else shallow_loop g odb d
                        (queue @ map (\<lambda>p. (p, Suc dp)) (filter (\<lambda>p. p \<notin> set (cut_parents g odb d ps)) ps)) (Suc n) depths1
                        (bnd @ map (\<lambda>_. i) (cut_parents g odb d ps)))
            | _ \<Rightarrow> shallow_loop g odb d queue (Suc n) depths bnd))"
  by pat_completeness auto
termination
  by (relation "measures [\<lambda>(_, _, _, _, n, _, _). MAX_WALK - n, \<lambda>(_, _, _, queue, _, _, _). length queue]") auto

definition shallow_walk :: "gix \<Rightarrow> odb \<Rightarrow> oid list \<Rightarrow> deepen \<Rightarrow> error + shallow" where
  "shallow_walk g odb ws d =
     bindR (shallow_loop g odb d
       ((if relative d then map (\<lambda>c. (c, 0)) (client_shallow d) else []) @ map (\<lambda>w. (w, 1)) ws) 0 [] []) (\<lambda>(depths, bnd).
     Inr \<lparr>scommits = map fst depths, sboundary = remdups_adj (sort bnd),
          unshallow = filter (\<lambda>c. c \<in> set (map fst depths) \<and> c \<notin> set bnd) (client_shallow d)\<rparr>)"

section \<open>The objects of a pack\<close>

fun fresh_only :: "oid set \<Rightarrow> oid list \<Rightarrow> oid list" where
  "fresh_only sn [] = []"
| "fresh_only sn (i # is) = (if i \<in> sn then fresh_only sn is else i # fresh_only (insert i sn) is)"

definition counts_with_leaves ::
    "gix \<Rightarrow> odb \<Rightarrow> oid list \<Rightarrow> expansion \<Rightarrow> oid list \<Rightarrow> error + oid list" where
  "counts_with_leaves g odb is ex ls =
     bindR (gcount g ex odb is) (\<lambda>counts.
     if ls = [] then Inr counts
     else bindR (gcount g TreeContents odb ls) (\<lambda>more. Inr (counts @ fresh_only (set counts) more)))"

definition range_objects :: "gix \<Rightarrow> odb \<Rightarrow> commits_range \<Rightarrow> error + oid list" where
  "range_objects g odb rng = counts_with_leaves g odb (ids rng) TreeAdditions (leaves rng @ merges rng)"

definition explicit_objects :: "gix \<Rightarrow> odb \<Rightarrow> oid list \<Rightarrow> oid list \<Rightarrow> error + oid list" where
  "explicit_objects g odb commits hs = gcount g TreeContents odb (filter (\<lambda>c. c \<notin> set hs) commits)"

text \<open>
  The three ways to build the pack. An error of the filter ends the fetch; any other is told to the
  client in the error band.
\<close>

definition pack_objects ::
    "gix \<Rightarrow> odb \<Rightarrow> blob_filter option \<Rightarrow> shallow option \<Rightarrow> commits_range \<Rightarrow> oid list \<Rightarrow> oid list \<Rightarrow>
     error + (error + oid list)" where
  "pack_objects g odb f sh rng extra_tags common =
     (case f of
        Some f1 \<Rightarrow>
          (case (case sh of Some s \<Rightarrow> (scommits s, []) | None \<Rightarrow> (ids rng, leaves rng)) of
             (commits, ls) \<Rightarrow>
               bindR (filtered_objects g odb commits (set common) f1) (\<lambda>is.
               Inr (counts_with_leaves g odb (filter (\<lambda>i. i \<notin> set common) (is @ extra_tags)) AsIs ls)))
      | None \<Rightarrow>
          (case sh of
             Some s \<Rightarrow> Inr (explicit_objects g odb (scommits s @ extra_tags) common)
           | None \<Rightarrow> Inr (range_objects g odb (rng\<lparr>ids := ids rng @ extra_tags\<rparr>))))"

section \<open>The arguments of a fetch\<close>

record fetch_args =
  wants :: "oid list"
  haves :: "oid list"
  said_done :: bool
  wait_for_done :: bool
  deepening :: deepen
  want_refs :: "string list"
  include_tag :: bool
  blobs :: "blob_filter option"

definition no_deepen :: deepen where
  "no_deepen = \<lparr>depth = None, since = None, cuts = [], client_shallow = [], relative = False\<rparr>"

definition no_args :: fetch_args where
  "no_args = \<lparr>wants = [], haves = [], said_done = False, wait_for_done = False, deepening = no_deepen,
     want_refs = [], include_tag = False, blobs = None\<rparr>"

definition with_deepen :: "(deepen \<Rightarrow> deepen) \<Rightarrow> fetch_args \<Rightarrow> fetch_args" where
  "with_deepen f a = a\<lparr>deepening := f (deepening a)\<rparr>"

definition parse_or :: "string \<Rightarrow> 'a option \<Rightarrow> error + 'a" where
  "parse_or m v = (case v of None \<Rightarrow> Inl (Message m) | Some x \<Rightarrow> Inr x)"

text \<open>One argument: a failure, a line the fetch is answered with at once, or the arguments so far.\<close>

definition parse_arg :: "(string \<times> oid) list \<Rightarrow> string \<Rightarrow> fetch_args \<Rightarrow> error + (string + fetch_args)" where
  "parse_arg refs x a =
     (case strip_prefix ''want '' x of
        Some h \<Rightarrow> bindR (parse_oid h) (\<lambda>i. Inr (Inr (a\<lparr>wants := wants a @ [i]\<rparr>)))
      | None \<Rightarrow>
     (case strip_prefix ''have '' x of
        Some h \<Rightarrow> bindR (parse_oid h) (\<lambda>i. Inr (Inr (a\<lparr>haves := haves a @ [i]\<rparr>)))
      | None \<Rightarrow>
     if x = ''done'' then Inr (Inr (a\<lparr>said_done := True\<rparr>))
     else if x = ''wait-for-done'' then Inr (Inr (a\<lparr>wait_for_done := True\<rparr>))
     else (case strip_prefix ''want-ref '' x of
        Some r \<Rightarrow> Inr (Inr (a\<lparr>want_refs := want_refs a @ [trim r]\<rparr>))
      | None \<Rightarrow>
     if x = ''include-tag'' then Inr (Inr (a\<lparr>include_tag := True\<rparr>))
     else (case strip_prefix ''deepen '' x of
        Some n \<Rightarrow>
          bindR (parse_or ''bad deepen'' (parse_u64 (trim n))) (\<lambda>n.
          Inr (Inr (with_deepen (\<lambda>d. d\<lparr>depth := Some (max n 1)\<rparr>) a)))
      | None \<Rightarrow>
     if x = ''deepen-relative'' then Inr (Inr (with_deepen (\<lambda>d. d\<lparr>relative := True\<rparr>) a))
     else (case strip_prefix ''deepen-since '' x of
        Some t \<Rightarrow>
          bindR (parse_or ''bad deepen-since'' (parse_i64 (trim t))) (\<lambda>t.
          Inr (Inr (with_deepen (\<lambda>d. d\<lparr>since := Some t\<rparr>) a)))
      | None \<Rightarrow>
     (case strip_prefix ''deepen-not '' x of
        Some r \<Rightarrow>
          (let r = trim r in
           case (case from_hex r of Some i \<Rightarrow> Some i | None \<Rightarrow> resolve_shorthand refs r) of
             Some i \<Rightarrow> Inr (Inr (with_deepen (\<lambda>d. d\<lparr>cuts := cuts d @ [i]\<rparr>) a))
           | None \<Rightarrow> Inr (Inl (''ERR deepen-not: no such ref '' @ r)))
      | None \<Rightarrow>
     (case strip_prefix ''shallow '' x of
        Some h \<Rightarrow>
          bindR (parse_oid (trim h)) (\<lambda>i.
          Inr (Inr (with_deepen (\<lambda>d. d\<lparr>client_shallow := client_shallow d @ [i]\<rparr>) a)))
      | None \<Rightarrow>
     (case strip_prefix ''filter '' x of
        Some sp \<Rightarrow>
          (case parse_filter sp of
             Some f \<Rightarrow> Inr (Inr (a\<lparr>blobs := Some f\<rparr>))
           | None \<Rightarrow> Inr (Inl (''ERR filter '' @ sp @ '' not supported'')))
      | None \<Rightarrow> Inr (Inr a)))))))))"

fun parse_args :: "(string \<times> oid) list \<Rightarrow> string list \<Rightarrow> fetch_args \<Rightarrow> error + (string + fetch_args)" where
  "parse_args refs [] a = Inr (Inr a)"
| "parse_args refs (x # xs) a =
     bindR (parse_arg refs x a) (\<lambda>y. case y of Inl m \<Rightarrow> Inr (Inl m) | Inr b \<Rightarrow> parse_args refs xs b)"

section \<open>The answer\<close>

text \<open>What a fetch writes: lines, separators, and the pack, or the error that took its place.\<close>

datatype event = Line string | FlushPkt | DelimPkt | Packed "error + oid list"

definition say :: "event \<Rightarrow> (event list, unit) io" where
  "say e = putE (\<lambda>es. es @ [e])"

fun resolve_wanted :: "(string \<times> oid) list \<Rightarrow> string list \<Rightarrow> string + (string \<times> oid) list" where
  "resolve_wanted refs [] = Inr []"
| "resolve_wanted refs (n # ns) =
     (let n1 = (if n = ''HEAD'' then head_target refs else n) in
      case map_of refs n1 of
        None \<Rightarrow> Inl (''ERR upload-pack: not our ref '' @ n1)
      | Some i \<Rightarrow> (case resolve_wanted refs ns of Inl m \<Rightarrow> Inl m | Inr ws \<Rightarrow> Inr ((n1, i) # ws)))"

definition find_common :: "gix \<Rightarrow> odb \<Rightarrow> oid list \<Rightarrow> oid list \<Rightarrow> error + oid list" where
  "find_common g odb tips hs =
     (if hs = [] then Inr []
      else bindR (reachable_commits g odb tips hs) (\<lambda>S. Inr (filter (\<lambda>h. h \<in> S) hs)))"

text \<open>The negotiation: whether the pack follows.\<close>

definition negotiate :: "fetch_args \<Rightarrow> oid list \<Rightarrow> (event list, bool) io" where
  "negotiate a common =
     (if said_done a then returnE True
      else bindE (say (Line ''acknowledgments'')) (\<lambda>_.
           if common = []
           then bindE (say (Line ''NAK'')) (\<lambda>_. bindE (say FlushPkt) (\<lambda>_. returnE False))
           else bindE (forE common (\<lambda>c. say (Line (''ACK '' @ to_hex c)))) (\<lambda>_.
                if wait_for_done a then bindE (say FlushPkt) (\<lambda>_. returnE False)
                else bindE (say (Line ''ready'')) (\<lambda>_. bindE (say DelimPkt) (\<lambda>_. returnE True)))))"

definition MAX_LOOSE_WANTS :: nat where
  "MAX_LOOSE_WANTS = 64"

text \<open>Whether every want is ours: the line it is refused with, if not.\<close>

definition refuse_wants :: "gix \<Rightarrow> odb \<Rightarrow> oid list \<Rightarrow> oid list \<Rightarrow> error + string option" where
  "refuse_wants g odb tips ws =
     (let unknown = filter (\<lambda>w. w \<notin> set tips) ws in
      if unknown = [] then Inr None
      else bindR (reachable_commits g odb tips unknown) (\<lambda>commits.
           let others = filter (\<lambda>w. w \<notin> commits) unknown in
           if others = [] then Inr None
           else if length others > MAX_LOOSE_WANTS
           then Inr (Some (''ERR upload-pack: too many wants that are not tips ('' @ to_decimal (length others)
                  @ '' > '' @ to_decimal MAX_LOOSE_WANTS @ '')''))
           else bindR (reachable_set g odb tips) (\<lambda>S.
                case List.find (\<lambda>w. w \<notin> S) others of
                  None \<Rightarrow> Inr None
                | Some w \<Rightarrow> Inr (Some (''ERR upload-pack: not our ref '' @ to_hex w)))))"

definition shallow_of :: "gix \<Rightarrow> odb \<Rightarrow> oid list \<Rightarrow> deepen \<Rightarrow> error + shallow option" where
  "shallow_of g odb ws d =
     (if asked d \<or> client_shallow d \<noteq> [] then bindR (shallow_walk g odb ws d) (\<lambda>s. Inr (Some s)) else Inr None)"

definition say_shallow :: "shallow option \<Rightarrow> (event list, unit) io" where
  "say_shallow sh =
     (case sh of
        None \<Rightarrow> returnE ()
      | Some s \<Rightarrow>
          if sboundary s \<noteq> [] \<or> unshallow s \<noteq> []
          then bindE (say (Line ''shallow-info'')) (\<lambda>_.
               bindE (forE (sboundary s) (\<lambda>c. say (Line (''shallow '' @ to_hex c)))) (\<lambda>_.
               bindE (forE (unshallow s) (\<lambda>c. say (Line (''unshallow '' @ to_hex c)))) (\<lambda>_.
               say DelimPkt)))
          else returnE ())"

definition say_wanted :: "(string \<times> oid) list \<Rightarrow> (event list, unit) io" where
  "say_wanted wanted =
     (if wanted = [] then returnE ()
      else bindE (say (Line ''wanted-refs'')) (\<lambda>_.
           bindE (forE wanted (\<lambda>(n, i). say (Line (to_hex i @ '' '' @ n)))) (\<lambda>_.
           say DelimPkt)))"

text \<open>A range is computed only when the fetch is not shallow.\<close>

definition range_of :: "gix \<Rightarrow> odb \<Rightarrow> shallow option \<Rightarrow> oid list \<Rightarrow> oid list \<Rightarrow> error + commits_range" where
  "range_of g odb sh ws common =
     (case sh of
        None \<Rightarrow> commit_range g odb ws common
      | Some _ \<Rightarrow> Inr \<lparr>ids = [], leaves = [], merges = [], boundary = []\<rparr>)"

definition extra_tags :: "odb \<Rightarrow> (string \<times> oid) list \<Rightarrow> oid list \<Rightarrow> oid list \<Rightarrow> oid list" where
  "extra_tags odb refs ws sending =
     map snd (filter (\<lambda>(n, i). starts_with n ''refs/tags/'' \<and> i \<notin> set ws
       \<and> (case peel_to_object odb i of Some t \<Rightarrow> t | None \<Rightarrow> i) \<in> set sending) refs)"

definition tags_of :: "odb \<Rightarrow> (string \<times> oid) list \<Rightarrow> fetch_args \<Rightarrow> oid list \<Rightarrow> shallow option \<Rightarrow> commits_range \<Rightarrow> oid list" where
  "tags_of odb refs a ws sh rng =
     (if include_tag a
      then extra_tags odb refs ws (case sh of Some s \<Rightarrow> scommits s | None \<Rightarrow> ids rng)
      else [])"

text \<open>From the shallow boundary on.\<close>

definition send_pack ::
    "gix \<Rightarrow> odb \<Rightarrow> (string \<times> oid) list \<Rightarrow> fetch_args \<Rightarrow> oid list \<Rightarrow> (string \<times> oid) list \<Rightarrow> oid list \<Rightarrow> (event list, unit) io" where
  "send_pack g odb refs a ws wanted common =
     bindE (liftE (shallow_of g odb ws (deepening a))) (\<lambda>sh.
     bindE (say_shallow sh) (\<lambda>_.
     bindE (say_wanted wanted) (\<lambda>_.
     bindE (liftE (range_of g odb sh ws common)) (\<lambda>rng.
     bindE (say (Line ''packfile'')) (\<lambda>_.
     bindE (liftE (pack_objects g odb (blobs a) sh rng (tags_of odb refs a ws sh rng) common)) (\<lambda>is.
     bindE (say (Packed is)) (\<lambda>_.
     say FlushPkt)))))))"

definition fetch_answer :: "gix \<Rightarrow> odb \<Rightarrow> (string \<times> oid) list \<Rightarrow> fetch_args \<Rightarrow> (event list, unit) io" where
  "fetch_answer g odb refs a =
     (case resolve_wanted refs (want_refs a) of
        Inl m \<Rightarrow> say (Line m)
      | Inr wanted \<Rightarrow>
          (let tips = map snd refs; ws = wants a @ map snd wanted in
           bindE (liftE (find_common g odb tips (haves a))) (\<lambda>common.
           bindE (negotiate a common) (\<lambda>go.
           if \<not> go then returnE ()
           else bindE (liftE (refuse_wants g odb tips ws)) (\<lambda>refused.
                case refused of
                  Some m \<Rightarrow> say (Line m)
                | None \<Rightarrow> send_pack g odb refs a ws wanted common)))))"

section \<open>The bytes\<close>

text \<open>
  The encoding of a pack, a parameter: the pieces gix writes and the error it stops with, if any.
\<close>

type_synonym packer = "odb \<Rightarrow> oid list \<Rightarrow> bytes list \<times> error option"

definition band_error :: "error \<Rightarrow> (bytes, unit) io" where
  "band_error e =
     write_band (CHR 0x03) (''ERR '' @ map (\<lambda>c. if c = CHR 0x0A then CHR '' '' else c) (err_text e) @ [CHR 0x0A])"

definition render :: "packer \<Rightarrow> odb \<Rightarrow> event \<Rightarrow> (bytes, unit) io" where
  "render pk odb e =
     (case e of
        Line l \<Rightarrow> write_text l
      | FlushPkt \<Rightarrow> write_flush
      | DelimPkt \<Rightarrow> write_delim
      | Packed (Inl err) \<Rightarrow> band_error err
      | Packed (Inr is) \<Rightarrow>
          bindE (forE (fst (pk odb is)) (\<lambda>d. bindE (band_writer_write (CHR 0x01) d) (\<lambda>_. returnE ()))) (\<lambda>_.
          case snd (pk odb is) of None \<Rightarrow> returnE () | Some err \<Rightarrow> band_error err))"

definition fetch :: "packer \<Rightarrow> gitlib \<Rightarrow> repo \<Rightarrow> string list \<Rightarrow> ('z world_scheme \<times> bytes, unit) io" where
  "fetch pk L r args =
     bindE (on_world (list_refs r)) (\<lambda>refs.
     bindE (liftE (parse_args refs args no_args)) (\<lambda>p.
     case p of
       Inl m \<Rightarrow> on_out (write_text m)
     | Inr a \<Rightarrow>
         bindE (on_world (repo_odb L r)) (\<lambda>odb.
         case fetch_answer (algos L) odb refs a [] of
           (res, events) \<Rightarrow>
             bindE (on_out (forE events (render pk odb))) (\<lambda>_. liftE res))))"

section \<open>Listing and serving\<close>

definition prefix_args :: "string list \<Rightarrow> string list" where
  "prefix_args args = List.map_filter (strip_prefix ''ref-prefix '') args"

definition wanted_name :: "string list \<Rightarrow> string \<Rightarrow> bool" where
  "wanted_name ps n \<longleftrightarrow> ps = [] \<or> list_ex (starts_with n) ps"

definition head_line :: "string list \<Rightarrow> (string \<times> oid) list \<Rightarrow> string option" where
  "head_line args refs =
     (let target = head_target refs in
      if \<not> wanted_name (prefix_args args) ''HEAD'' then None
      else case map_of refs target of
             Some i \<Rightarrow> Some (to_hex i @ '' HEAD'' @ (if ''symrefs'' \<in> set args then '' symref-target:'' @ target else []))
           | None \<Rightarrow> if ''unborn'' \<in> set args then Some (''unborn HEAD symref-target:'' @ target) else None)"

definition ref_line :: "odb option \<Rightarrow> string \<times> oid \<Rightarrow> string" where
  "ref_line odb = (\<lambda>(n, i).
     to_hex i @ '' '' @ n @
     (case odb of
        None \<Rightarrow> []
      | Some d \<Rightarrow>
          if starts_with n ''refs/tags/''
          then (case peel_to_object d i of None \<Rightarrow> [] | Some t \<Rightarrow> '' peeled:'' @ to_hex t)
          else []))"

text \<open>The object database is opened only to peel, and a failure to open it peels nothing.\<close>

definition peel_odb :: "gitlib \<Rightarrow> repo \<Rightarrow> string list \<Rightarrow> ('z world_scheme, odb option) io" where
  "peel_odb L r args =
     (if ''peel'' \<in> set args
      then bindE (tryE (repo_odb L r)) (\<lambda>d. returnE (case d of Inl _ \<Rightarrow> None | Inr d \<Rightarrow> Some d))
      else returnE None)"

definition ls_refs :: "gitlib \<Rightarrow> repo \<Rightarrow> string list \<Rightarrow> ('z world_scheme \<times> bytes, unit) io" where
  "ls_refs L r args =
     bindE (on_world (list_refs r)) (\<lambda>refs.
     bindE (on_out (case head_line args refs of None \<Rightarrow> returnE () | Some l \<Rightarrow> write_text l)) (\<lambda>_.
     bindE (on_world (peel_odb L r args)) (\<lambda>odb.
     bindE (on_out (forE (filter (\<lambda>(n, _). wanted_name (prefix_args args) n) refs) (\<lambda>x. write_text (ref_line odb x)))) (\<lambda>_.
     on_out write_flush))))"

definition upload_advertise :: "(bytes, unit) io" where
  "upload_advertise =
     bindE (forE [''version 2'', AGENT, ''ls-refs=unborn symrefs peel'',
       ''fetch=shallow filter wait-for-done ref-in-want'', ''object-format=sha1''] write_text) (\<lambda>_. write_flush)"

definition read_args :: "(reader, string list) io" where
  "read_args = bindE read_lines_until_flush (\<lambda>ls. returnE (map from_utf8_lossy ls))"

text \<open>The capabilities are skipped; the arguments follow a delimiter.\<close>

function command_args :: "(reader, string list) io" where
  "command_args rd =
     (case read_pkt rd of
        (Inl e, rd1) \<Rightarrow> (Inl e, rd1)
      | (Inr (Some Delim), rd1) \<Rightarrow> read_args rd1
      | (Inr (Some (Data _)), rd1) \<Rightarrow> command_args rd1
      | (Inr _, rd1) \<Rightarrow> (Inr [], rd1))"
  by pat_completeness auto
termination
  by (relation "measure (\<lambda>rd. length (rbuf rd))") (auto dest!: read_pkt_consumes [OF sym])

declare command_args.simps [simp del]

lemma read_pkt_shorter: "read_pkt rd = (x, rd1) \<Longrightarrow> length (rbuf rd1) \<le> length (rbuf rd)"
  by (auto simp: read_pkt_def bindE_def split: prod.splits sum.splits if_splits option.splits dest!: read_exact_shorter)

lemma read_lines_loop_shorter: "read_lines_loop n out rd = (x, rd1) \<Longrightarrow> length (rbuf rd1) \<le> length (rbuf rd)"
proof (induction n out rd rule: read_lines_loop.induct)
  case (1 n out rd)
  obtain y rd2 where rd2: "read_pkt rd = (y, rd2)" by fastforce
  note step = 1(3) [unfolded read_lines_loop.simps [of n out rd] rd2]
  from step read_pkt_shorter [OF rd2] 1(1,2) [OF rd2 [symmetric]] show ?case
    by (fastforce simp: Let_def split: sum.splits option.splits pkt.splits if_splits)
qed

lemma command_args_shorter: "command_args rd = (x, rd1) \<Longrightarrow> length (rbuf rd1) \<le> length (rbuf rd)"
proof (induction rd rule: command_args.induct)
  case (1 rd)
  obtain y rd2 where rd2: "read_pkt rd = (y, rd2)" by fastforce
  have "length (rbuf rd3) \<le> length (rbuf rd2)" if "read_args rd2 = (z, rd3)" for z rd3
    using that read_lines_loop_shorter
    by (fastforce simp: read_args_def read_lines_until_flush_def bindE_def split: prod.splits sum.splits)
  moreover note step = 1(2) [unfolded command_args.simps [of rd] rd2]
  ultimately show ?case using read_pkt_shorter [OF rd2] 1(1) [OF rd2 [symmetric]]
    by (fastforce split: sum.splits option.splits pkt.splits)
qed

text \<open>The loop over the commands of a connection.\<close>

function upload_serve :: "packer \<Rightarrow> gitlib \<Rightarrow> repo \<Rightarrow> reader \<Rightarrow> ('z world_scheme \<times> bytes, unit) io" where
  "upload_serve pk L r rd =
     (case read_pkt rd of
        (Inl e, _) \<Rightarrow> failE e
      | (Inr (Some Flush), rd1) \<Rightarrow> upload_serve pk L r rd1
      | (Inr (Some (Data d)), rd1) \<Rightarrow>
          (case strip_prefix ''command='' (trim_end (from_utf8_lossy d)) of
             None \<Rightarrow> failE (Message ''expected command='')
           | Some cmd \<Rightarrow>
               (case command_args rd1 of
                  (Inl e, _) \<Rightarrow> failE e
                | (Inr args, rd2) \<Rightarrow>
                    if cmd = ''ls-refs'' then bindE (ls_refs L r args) (\<lambda>_. upload_serve pk L r rd2)
                    else if cmd = ''fetch'' then bindE (fetch pk L r args) (\<lambda>_. upload_serve pk L r rd2)
                    else on_out (bindE (write_text (''ERR unknown command '' @ cmd)) (\<lambda>_. write_flush))))
      | (Inr _, _) \<Rightarrow> returnE ())"
  by pat_completeness auto
termination
  by (relation "measure (\<lambda>(_, _, _, rd). length (rbuf rd))")
    (auto dest!: command_args_shorter [OF sym] read_pkt_consumes [OF sym])

declare upload_serve.simps [simp del]

section \<open>Only what the references lead to\<close>

text \<open>
  What is led to from a set of objects by any pointer: parents, trees, tags, and the entries of
  trees, except submodules, which name objects of another repository.
\<close>

inductive linked :: "odb \<Rightarrow> oid set \<Rightarrow> oid \<Rightarrow> bool" for odb S where
  linked_here: "i \<in> S \<Longrightarrow> linked odb S i"
| linked_parent: "linked odb S c \<Longrightarrow> find_object odb c = Inr (CommitObj t ps) \<Longrightarrow> p \<in> set ps \<Longrightarrow> linked odb S p"
| linked_tree: "linked odb S c \<Longrightarrow> find_object odb c = Inr (CommitObj t ps) \<Longrightarrow> linked odb S t"
| linked_target: "linked odb S c \<Longrightarrow> find_object odb c = Inr (TagObj t) \<Longrightarrow> linked odb S t"
| linked_entry: "linked odb S c \<Longrightarrow> find_object odb c = Inr (TreeObj es) \<Longrightarrow> (f, md, e) \<in> set es \<Longrightarrow> md \<noteq> SubmoduleMode \<Longrightarrow> linked odb S e"

lemma linked_history: "history odb i c \<Longrightarrow> linked odb S i \<Longrightarrow> linked odb S c"
  by (induction rule: history.induct) (blast intro: linked.intros)+

lemma linked_content: "content odb i c \<Longrightarrow> linked odb S i \<Longrightarrow> linked odb S c"
  by (induction rule: content.induct) (blast intro: linked.intros)+

lemma linked_mono: "linked odb T x \<Longrightarrow> (\<And>i. i \<in> T \<Longrightarrow> linked odb S i) \<Longrightarrow> linked odb S x"
  by (induction rule: linked.induct) (blast intro: linked.intros)+

text \<open>Every item a walk of gix yields, even before an error, is in the history of its tips.\<close>

definition iter_within :: "gix \<Rightarrow> bool" where
  "iter_within g \<longleftrightarrow> (\<forall>odb tips hide items c ps. giter g odb tips hide = Inr items \<longrightarrow> Inr (c, ps) \<in> set items \<longrightarrow>
     (\<exists>i\<in>set tips. history odb i c))"

lemma collect_results_set: "collect_results rs = Inr xs \<Longrightarrow> x \<in> set xs \<Longrightarrow> Inr x \<in> set rs"
  by (induction rs arbitrary: xs rule: collect_results.induct) (auto split: sum.splits)

lemma gwalk_linked:
  assumes "iter_within g" and "gwalk g odb tips hide = Inr infos" and "(c, ps) \<in> set infos"
    and "\<And>i. i \<in> set tips \<Longrightarrow> linked odb S i"
  shows "linked odb S c"
proof -
  from assms(2) obtain items where "giter g odb tips hide = Inr items" "collect_results items = Inr infos"
    unfolding gwalk_def by (auto elim: bindR_InrE)
  with assms(1,3) obtain i where "i \<in> set tips" "history odb i c"
    unfolding iter_within_def by (meson collect_results_set)
  with assms(4) show ?thesis by (blast intro: linked_history)
qed

lemma peel_wants_linked:
  assumes "peel_wants odb ws = Inr p" and "\<And>w. w \<in> set ws \<Longrightarrow> linked odb S w" and "c \<in> peels odb p"
  shows "linked odb S c"
  using peel_wants_result(1) [OF assms(1)] assms(2,3) unfolding peel_ok_def by (meson linked_history)

lemma gcount_linked:
  assumes "count_under g" and "gcount g ex odb is = Inr cs" and "c \<in> set cs"
    and "\<And>i. i \<in> set is \<Longrightarrow> linked odb S i"
  shows "linked odb S c"
  using assms unfolding count_under_def by (meson linked_content)

lemma find_targets_from:
  "find_targets xs want found n = Inr T \<Longrightarrow> c \<in> T \<Longrightarrow> c \<in> found \<or> (\<exists>ps. Inr (c, ps) \<in> set xs)"
proof (induction xs arbitrary: want found n)
  case (Cons x xs)
  then show ?case by (auto split: if_splits sum.splits prod.splits)
qed simp

lemma reachable_commits_linked:
  assumes "iter_within g" and "reachable_commits g odb tips targets = Inr T" and "c \<in> T"
  shows "linked odb (set tips) c"
proof -
  from assms(2) obtain p where p: "peel_wants odb tips = Inr p"
    and f: "find_targets (case giter g odb (pcommits p) [] of Inl e \<Rightarrow> [Inl e] | Inr items \<Rightarrow> items)
      (set targets - set (ptags p) \<inter> set targets) (set (ptags p) \<inter> set targets) 0 = Inr T"
    unfolding reachable_commits_def Let_def by (auto elim: bindR_InrE)
  note L = peel_wants_linked [OF p, of "set tips"]
  from find_targets_from [OF f assms(3)]
  consider "c \<in> set (ptags p)" | items ps where "giter g odb (pcommits p) [] = Inr items" "Inr (c, ps) \<in> set items"
    by (auto split: sum.splits)
  then show ?thesis
  proof cases
    case 1
    with L show ?thesis by (auto simp: peels_def intro: linked_here)
  next
    case 2
    with assms(1) obtain i where "i \<in> set (pcommits p)" "history odb i c" unfolding iter_within_def by blast
    with L show ?thesis by (auto simp: peels_def intro: linked_here linked_history)
  qed
qed

lemma reachable_set_linked:
  assumes "iter_within g" and "count_under g" and "reachable_set g odb tips = Inr T" and "c \<in> T"
  shows "linked odb (set tips) c"
proof -
  from assms(3) obtain p infos counts where p: "peel_wants odb tips = Inr p"
    and w: "gwalk g odb (pcommits p) [] = Inr infos"
    and n: "gcount g TreeContents odb (ptags p @ pleaves p @ map fst infos) = Inr counts"
    and T: "T = set (ptags p @ pleaves p @ map fst infos) \<union> set counts"
    unfolding reachable_set_def Let_def by (auto elim!: bindR_InrE)
  have L: "linked odb (set tips) i" if "i \<in> peels odb p" for i
    by (rule peel_wants_linked [OF p _ that]) (rule linked_here)
  have I: "linked odb (set tips) i" if i: "i \<in> set (ptags p @ pleaves p @ map fst infos)" for i
  proof -
    from i consider "i \<in> peels odb p" | ps where "(i, ps) \<in> set infos" by (auto simp: peels_def)
    then show ?thesis
      by cases (use L gwalk_linked [OF assms(1) w] in \<open>auto simp: peels_def\<close>)
  qed
  with T assms(4) gcount_linked [OF assms(2) n] show ?thesis by blast
qed

lemma commit_range_linked:
  assumes "iter_within g" and "commit_range g odb ws hs = Inr rng" and "\<And>w. w \<in> set ws \<Longrightarrow> linked odb S w"
    and "c \<in> set (ids rng) \<union> set (leaves rng) \<union> set (merges rng)"
  shows "linked odb S c"
proof -
  from assms(2) obtain p infos where p: "peel_wants odb ws = Inr p" and w: "gwalk g odb (pcommits p) hs = Inr infos"
    and r: "ids rng = ptags p @ map fst infos" "leaves rng = pleaves p"
      "merges rng = map fst (filter (\<lambda>(_, ps). length ps > 1) infos)"
    unfolding commit_range_def Let_def by (auto elim!: bindR_InrE)
  note L = peel_wants_linked [OF p assms(3)]
  from r assms(4) consider "c \<in> peels odb p" | ps where "(c, ps) \<in> set infos" by (auto simp: peels_def)
  then show ?thesis
    by cases (use L gwalk_linked [OF assms(1) w] in \<open>auto simp: peels_def\<close>)
qed

lemma shallow_loop_linked:
  assumes "shallow_loop g odb d queue n depths bnd = Inr (depths', bnd')"
    and "\<forall>i\<in>fst ` (set queue \<union> set depths). linked odb S i"
  shows "\<forall>i\<in>fst ` set depths'. linked odb S i"
  using assms
proof (induction g odb d queue n depths bnd rule: shallow_loop.induct)
  case (2 g odb d i dp queue n depths bnd)
  note prems = 2(9,10)
  show ?case
  proof (cases "(case map_of depths i of None \<Rightarrow> False | Some prev \<Rightarrow> prev \<le> dp)")
    case True
    with 2(1) prems show ?thesis by simp
  next
    case False
    with prems have n: "\<not> Suc n > MAX_WALK" by (auto split: if_splits)
    show ?thesis
    proof (cases "\<exists>t ps. find_object odb i = Inr (CommitObj t ps)")
      case True
      then obtain t ps where o1: "find_object odb i = Inr (CommitObj t ps)" by blast
      from prems have i: "linked odb S i" by simp
      have dep: "\<forall>j\<in>fst ` set (AList.update i dp depths). linked odb S j"
        using prems(2) i by (auto simp: AList.dom_update)
      from linked_parent [OF i o1] have ps: "\<forall>p\<in>set ps. linked odb S p" by blast
      from prems n False o1 dep ps 2(3-5) [OF False n o1 refl refl] show ?thesis
        by (simp add: Let_def image_Un ball_Un split: if_splits)
    next
      case other: False
      then have "shallow_loop g odb d queue (Suc n) depths bnd = Inr (depths', bnd')"
        using prems(1) False n by (simp split: sum.splits object.splits)
      from this prems(2) show ?thesis
      proof (cases "find_object odb i")
        case (Inl e)
        from 2(2) [OF False n Inl \<open>shallow_loop g odb d queue (Suc n) depths bnd = _\<close>] prems(2) show ?thesis by simp
      next
        case (Inr ob)
        note loop = \<open>shallow_loop g odb d queue (Suc n) depths bnd = _\<close>
        have rest: "\<forall>j\<in>fst ` (set queue \<union> set depths). linked odb S j" using prems(2) by simp
        show ?thesis
          by (cases ob) (use other Inr 2(6-8) [OF False n Inr _ loop rest] in \<open>blast+\<close>)
      qed
    qed
  qed
qed simp

lemma shallow_walk_linked:
  assumes "shallow_walk g odb ws d = Inr s" and "\<forall>w\<in>set ws. linked odb S w"
    and "relative d \<longrightarrow> (\<forall>c\<in>set (client_shallow d). linked odb S c)" and "c \<in> set (scommits s)"
  shows "linked odb S c"
proof -
  let ?q = "(if relative d then map (\<lambda>c. (c, 0)) (client_shallow d) else []) @ map (\<lambda>w. (w, 1)) ws"
  from assms(1) obtain depths bnd where l: "shallow_loop g odb d ?q 0 [] [] = Inr (depths, bnd)"
    and c: "scommits s = map fst depths"
    unfolding shallow_walk_def by (auto elim!: bindR_InrE)
  have "\<forall>i\<in>fst ` (set ?q \<union> set []). linked odb S i" using assms(2,3) by auto
  from shallow_loop_linked [OF l this] c assms(4) show ?thesis unfolding c by (metis list.set_map)
qed

text \<open>
  A filter takes every entry that is not a tree for a blob, a submodule too, so it stays within the
  repository only when the objects of submodules are not in its object database.
\<close>

definition submodules_absent :: "gix \<Rightarrow> odb \<Rightarrow> bool" where
  "submodules_absent g odb \<longleftrightarrow>
     (\<forall>c es f i. find_object odb c = Inr (TreeObj es) \<longrightarrow> (f, SubmoduleMode, i) \<in> set es \<longrightarrow> gheader g odb i = None)"

lemma filter_commits_linked:
  assumes "filter_commits odb K f cs sn out trees = Inr (sn', out', trees')"
    and "\<forall>i\<in>set cs \<union> set out \<union> fst ` set trees. linked odb S i"
  shows "\<forall>i\<in>set out' \<union> fst ` set trees'. linked odb S i"
  using assms
proof (induction cs arbitrary: sn out trees)
  case (Cons c cs)
  then have c: "linked odb S c" by simp
  show ?case
  proof (cases "\<exists>t ps. find_object odb c = Inr (CommitObj t ps)")
    case True
    then obtain t ps where o1: "find_object odb c = Inr (CommitObj t ps)" by blast
    from Cons.prems(1) o1 have "filter_commits odb K f cs sn out trees = Inr (sn', out', trees')
      \<or> filter_commits odb K f cs (insert c sn) (out @ [c]) trees = Inr (sn', out', trees')
      \<or> filter_commits odb K f cs (insert c sn) (out @ [c]) ((t, base_tree odb K ps) # trees) = Inr (sn', out', trees')"
      by (simp split: if_splits)
    with linked_tree [OF c o1] Cons.prems(2) show ?thesis by (elim disjE) (rule Cons.IH, assumption, simp)+
  next
    case False
    then have "filter_commits odb K f cs sn out trees = Inr (sn', out', trees')
      \<or> filter_commits odb K f cs (insert c sn) (out @ [c]) trees = Inr (sn', out', trees')"
      using Cons.prems(1) by (auto split: if_splits sum.splits object.splits)
    with Cons.prems(2) show ?thesis by (elim disjE) (rule Cons.IH, assumption, simp)+
  qed
qed simp

lemma filter_entries_linked:
  assumes "filter_entries g odb f base es sn out trees = (sn', out', trees')"
    and "\<forall>n md i. (n, md, i) \<in> set es \<longrightarrow> linked odb S i \<or> md = SubmoduleMode \<and> \<not> keep_blob g odb i f"
    and "\<forall>i\<in>set out \<union> fst ` set trees. linked odb S i"
  shows "\<forall>i\<in>set out' \<union> fst ` set trees'. linked odb S i"
  using assms
proof (induction es arbitrary: sn out trees)
  case (Cons e es)
  obtain n md i where e: "e = (n, md, i)" by (cases e)
  from Cons.prems(2) e have i: "linked odb S i \<or> md = SubmoduleMode \<and> \<not> keep_blob g odb i f" by auto
  have es: "\<forall>n md i. (n, md, i) \<in> set es \<longrightarrow> linked odb S i \<or> md = SubmoduleMode \<and> \<not> keep_blob g odb i f"
    using Cons.prems(2) by (meson list.set_intros(2))
  from Cons.prems(1) e have "\<exists>sn1 out1 trees1. filter_entries g odb f base es sn1 out1 trees1 = (sn', out', trees')
      \<and> set out1 \<subseteq> set out \<union> (if md \<noteq> TreeMode \<and> keep_blob g odb i f then {i} else {})
      \<and> fst ` set trees1 \<subseteq> fst ` set trees \<union> (if md = TreeMode then {i} else {})"
    by (fastforce simp: Let_def split: if_splits)
  then obtain sn1 out1 trees1 where fe: "filter_entries g odb f base es sn1 out1 trees1 = (sn', out', trees')"
    and sub: "set out1 \<subseteq> set out \<union> (if md \<noteq> TreeMode \<and> keep_blob g odb i f then {i} else {})"
      "fst ` set trees1 \<subseteq> fst ` set trees \<union> (if md = TreeMode then {i} else {})"
    by blast
  from sub i have "set out1 \<union> fst ` set trees1 \<subseteq> set out \<union> fst ` set trees \<union> {j. linked odb S j}"
    by (auto simp only: split: if_splits)
  with Cons.prems(3) have "\<forall>j\<in>set out1 \<union> fst ` set trees1. linked odb S j" by blast
  from Cons.IH [OF fe es this] show ?case .
qed simp

lemma filter_trees_linked:
  assumes "filter_trees g odb f trees sn out = Inr out'"
    and "(\<forall>mx. f \<noteq> BlobLimit mx) \<or> submodules_absent g odb"
    and "\<forall>i\<in>set out \<union> fst ` set trees. linked odb S i"
  shows "\<forall>i\<in>set out'. linked odb S i"
  using assms
proof (induction g odb f trees sn out rule: filter_trees.induct)
  case (2 g odb f i base trees sn out)
  show ?case
  proof (cases "base = Some i \<or> i \<in> sn")
    case True
    with 2(1) 2(3-5) show ?thesis by simp
  next
    case False
    with 2(3) obtain es bs sn1 out1 trees1 where es: "find_tree odb i = Inr es"
      and bs: "(case base of None \<Rightarrow> Inr [] | Some b \<Rightarrow> find_tree odb b) = Inr bs"
      and fe: "filter_entries g odb f (map (\<lambda>(n, _, j). (n, j)) bs) es (insert i sn) (out @ [i]) trees = (sn1, out1, trees1)"
      and ft: "filter_trees g odb f trees1 sn1 out1 = Inr out'"
      by (auto split: sum.splits prod.splits)
    from es have o1: "find_object odb i = Inr (TreeObj es)"
      by (auto simp: find_tree_def elim!: bindR_InrE split: object.splits)
    have "linked odb S j \<or> md = SubmoduleMode \<and> \<not> keep_blob g odb j f" if "(n, md, j) \<in> set es" for n md j
      using that 2(4,5) o1 linked_entry [OF _ o1 that, of S]
      by (cases md) (auto simp: keep_blob_def submodules_absent_def split: blob_filter.splits option.splits)
    with filter_entries_linked [OF fe, of S] 2(5) have "\<forall>j\<in>set out1 \<union> fst ` set trees1. linked odb S j" by auto
    from 2(2) [OF False es bs fe [symmetric] refl ft 2(4) this] show ?thesis .
  qed
qed simp

lemma filtered_objects_linked:
  assumes "filtered_objects g odb cs have1 f = Inr out"
    and "(\<forall>mx. f \<noteq> BlobLimit mx) \<or> submodules_absent g odb"
    and "\<forall>i\<in>set cs. linked odb S i"
  shows "\<forall>i\<in>set out. linked odb S i"
proof -
  from assms(1) obtain sn out1 trees where fc: "filter_commits odb (have1 \<union> set cs) f cs {} [] [] = Inr (sn, out1, trees)"
    and ft: "filter_trees g odb f trees sn out1 = Inr out"
    unfolding filtered_objects_def by (auto elim!: bindR_InrE)
  from filter_commits_linked [OF fc, of S] filter_trees_linked [OF ft assms(2), of S] assms(3) show ?thesis by simp
qed

lemma set_fresh_only: "set (fresh_only sn is) = set is - sn"
  by (induction sn "is" rule: fresh_only.induct) auto

lemma counts_with_leaves_linked:
  assumes "count_under g" and "counts_with_leaves g odb is ex ls = Inr cs"
    and "\<forall>i\<in>set is \<union> set ls. linked odb S i"
  shows "\<forall>c\<in>set cs. linked odb S c"
proof -
  from assms(2) obtain counts where "gcount g ex odb is = Inr counts"
    and "cs = counts \<or> (\<exists>more. gcount g TreeContents odb ls = Inr more \<and> cs = counts @ fresh_only (set counts) more)"
    unfolding counts_with_leaves_def by (auto elim!: bindR_InrE split: if_splits)
  with gcount_linked [OF assms(1)] assms(3) show ?thesis by (auto simp: set_fresh_only)
qed

text \<open>What holds of the objects of a pack, by the steps that decided them.\<close>

definition packs :: "(oid list \<Rightarrow> bool) \<Rightarrow> event list \<Rightarrow> bool" where
  "packs P es \<longleftrightarrow> (\<forall>is. Packed (Inr is) \<in> set es \<longrightarrow> P is)"

lemma keeps_bind_liftE: "(\<And>x. r = Inr x \<Longrightarrow> keeps I (f x)) \<Longrightarrow> keeps I (bindE (liftE r) f)"
  by (cases r) (auto simp: keeps_def)

lemma keeps_say: "(\<And>is. e = Packed (Inr is) \<Longrightarrow> P is) \<Longrightarrow> keeps (packs P) (say e)"
  by (auto simp: say_def packs_def intro!: keeps_putE)

lemma keeps_lines:
  "keeps (packs P) (say (Line l))" "keeps (packs P) (say FlushPkt)" "keeps (packs P) (say DelimPkt)"
  by (rule keeps_say; simp)+

lemma keeps_preamble:
  "keeps (packs P) (negotiate a common)" "keeps (packs P) (say_shallow sh)" "keeps (packs P) (say_wanted ws)"
  unfolding negotiate_def say_shallow_def say_wanted_def
  by (intro keeps_intros keeps_lines)+

lemma keeps_send_pack:
  assumes "\<And>sh rng is. shallow_of g odb ws (deepening a) = Inr sh \<Longrightarrow> range_of g odb sh ws common = Inr rng \<Longrightarrow>
    pack_objects g odb (blobs a) sh rng (tags_of odb refs a ws sh rng) common = Inr (Inr is) \<Longrightarrow> P is"
  shows "keeps (packs P) (send_pack g odb refs a ws wanted common)"
  unfolding send_pack_def
  by (rule keeps_bind_liftE, rule keeps_bindE [OF keeps_preamble(2)], rule keeps_bindE [OF keeps_preamble(3)],
      rule keeps_bind_liftE, rule keeps_bindE [OF keeps_lines(1)], rule keeps_bind_liftE,
      rule keeps_bindE [OF keeps_say keeps_lines(2)]) (auto intro: assms)

lemma keeps_answer:
  assumes "\<And>wanted common sh rng is. resolve_wanted refs (want_refs a) = Inr wanted \<Longrightarrow>
    find_common g odb (map snd refs) (haves a) = Inr common \<Longrightarrow>
    refuse_wants g odb (map snd refs) (wants a @ map snd wanted) = Inr None \<Longrightarrow>
    shallow_of g odb (wants a @ map snd wanted) (deepening a) = Inr sh \<Longrightarrow>
    range_of g odb sh (wants a @ map snd wanted) common = Inr rng \<Longrightarrow>
    pack_objects g odb (blobs a) sh rng (tags_of odb refs a (wants a @ map snd wanted) sh rng) common = Inr (Inr is) \<Longrightarrow> P is"
  shows "keeps (packs P) (fetch_answer g odb refs a)"
  unfolding fetch_answer_def Let_def
  by (rule keeps_case_sum, rule keeps_lines, rule keeps_bind_liftE, rule keeps_bindE [OF keeps_preamble(1)],
      rule keeps_if, rule keeps_returnE, rule keeps_bind_liftE, rule keeps_case_option, rule keeps_send_pack)
    (auto intro: assms keeps_lines)

lemma resolve_wanted_tips: "resolve_wanted refs ns = Inr ws \<Longrightarrow> snd ` set ws \<subseteq> snd ` set refs"
proof (induction ns arbitrary: ws)
  case (Cons n ns)
  then obtain n1 i ws1 where "map_of refs n1 = Some i" "resolve_wanted refs ns = Inr ws1" "ws = (n1, i) # ws1"
    by (auto simp: Let_def split: option.splits sum.splits)
  with Cons.IH show ?case by (force dest!: map_of_SomeD)
qed simp

lemma refuse_wants_linked:
  assumes "iter_within g" and "count_under g" and "refuse_wants g odb tips ws = Inr None" and "w \<in> set ws"
  shows "linked odb (set tips) w"
proof (cases "w \<in> set tips")
  case False
  let ?unknown = "filter (\<lambda>w. w \<notin> set tips) ws"
  from assms(4) False have "?unknown \<noteq> []" by (auto simp: filter_empty_conv)
  with assms(3) obtain C where C: "reachable_commits g odb tips ?unknown = Inr C"
    and "filter (\<lambda>w. w \<notin> C) ?unknown = [] \<or> (\<exists>T. reachable_set g odb tips = Inr T
      \<and> List.find (\<lambda>w. w \<notin> T) (filter (\<lambda>w. w \<notin> C) ?unknown) = None)"
    unfolding refuse_wants_def Let_def by (auto elim!: bindR_InrE split: if_splits option.splits)
  with False assms(4) consider "w \<in> C" | T where "reachable_set g odb tips = Inr T" "w \<in> T"
    by (auto simp: filter_empty_conv find_None_iff)
  then show ?thesis
    by cases (use C assms(1,2) in \<open>blast intro: reachable_commits_linked reachable_set_linked\<close>)+
qed (rule linked_here)

lemma extra_tags_tips: "set (tags_of odb refs a ws sh rng) \<subseteq> snd ` set refs"
  by (auto simp: tags_of_def extra_tags_def)

text \<open>One expansion of gix lists no object twice.\<close>

definition count_distinct :: "gix \<Rightarrow> bool" where
  "count_distinct g \<longleftrightarrow> (\<forall>ex odb is cs. gcount g ex odb is = Inr cs \<longrightarrow> distinct cs)"

lemma distinct_fresh_only: "distinct (fresh_only sn is)"
  by (induction sn "is" rule: fresh_only.induct) (auto simp: set_fresh_only)

lemma counts_with_leaves_distinct:
  "count_distinct g \<Longrightarrow> counts_with_leaves g odb is ex ls = Inr cs \<Longrightarrow> distinct cs"
  unfolding counts_with_leaves_def count_distinct_def
  by (auto simp: set_fresh_only distinct_fresh_only elim!: bindR_InrE split: if_splits)

lemma pack_objects_distinct:
  "count_distinct g \<Longrightarrow> pack_objects g odb f sh rng tags common = Inr (Inr is) \<Longrightarrow> distinct is"
  unfolding pack_objects_def range_objects_def explicit_objects_def
  by (auto simp: count_distinct_def split: option.splits prod.splits elim!: bindR_InrE
      dest: counts_with_leaves_distinct [unfolded count_distinct_def])

lemma pack_objects_linked:
  assumes "count_under g" and "(\<forall>mx. f \<noteq> Some (BlobLimit mx)) \<or> submodules_absent g odb"
    and "\<forall>s. sh = Some s \<longrightarrow> (\<forall>c\<in>set (scommits s). linked odb S c)"
    and "\<forall>c\<in>set (ids rng) \<union> set (leaves rng) \<union> set (merges rng) \<union> set tags. linked odb S c"
    and "pack_objects g odb f sh rng tags common = Inr (Inr is)"
  shows "\<forall>i\<in>set is. linked odb S i"
proof (cases f)
  case None
  show ?thesis
  proof (cases sh)
    case None
    with \<open>f = None\<close> assms(5) have "counts_with_leaves g odb (ids rng @ tags) TreeAdditions (leaves rng @ merges rng) = Inr is"
      by (simp add: pack_objects_def range_objects_def)
    from counts_with_leaves_linked [OF assms(1) this, of S] assms(4) show ?thesis by auto
  next
    case (Some s)
    with \<open>f = None\<close> assms(5) have "gcount g TreeContents odb (filter (\<lambda>c. c \<notin> set common) (scommits s @ tags)) = Inr is"
      by (simp add: pack_objects_def explicit_objects_def)
    with gcount_linked [OF assms(1) this, of _ S] Some assms(3,4) show ?thesis by auto
  qed
next
  case (Some f1)
  obtain cs ls where cs: "(case sh of Some s \<Rightarrow> (scommits s, []) | None \<Rightarrow> (ids rng, leaves rng)) = (cs, ls)" by fastforce
  with assms(3,4) have L: "\<forall>c\<in>set cs \<union> set ls. linked odb S c" by (auto split: option.splits)
  from assms(5) Some cs obtain fs where fs: "filtered_objects g odb cs (set common) f1 = Inr fs"
    and c: "counts_with_leaves g odb (filter (\<lambda>i. i \<notin> set common) (fs @ tags)) AsIs ls = Inr is"
    by (auto simp: pack_objects_def elim!: bindR_InrE)
  from filtered_objects_linked [OF fs, of S] assms(2) Some L have "\<forall>i\<in>set fs. linked odb S i" by auto
  with counts_with_leaves_linked [OF assms(1) c, of S] L assms(4) show ?thesis by auto
qed

lemma answer_linked:
  assumes "iter_within g" and "count_under g" and "count_distinct g"
    and "relative (deepening a) \<longrightarrow> (\<forall>c\<in>set (client_shallow (deepening a)). linked odb (snd ` set refs) c)"
    and "(\<forall>mx. blobs a \<noteq> Some (BlobLimit mx)) \<or> submodules_absent g odb"
  shows "keeps (packs (\<lambda>is. distinct is \<and> (\<forall>i\<in>set is. linked odb (snd ` set refs) i))) (fetch_answer g odb refs a)"
proof (rule keeps_answer)
  fix wanted :: "(string \<times> oid) list" and common sh rng "is"
  let ?ws = "wants a @ map snd wanted" and ?L = "linked odb (snd ` set refs)"
  assume r: "refuse_wants g odb (map snd refs) ?ws = Inr None" and sh: "shallow_of g odb ?ws (deepening a) = Inr sh"
    and rng: "range_of g odb sh ?ws common = Inr rng"
    and p: "pack_objects g odb (blobs a) sh rng (tags_of odb refs a ?ws sh rng) common = Inr (Inr is)"
  from refuse_wants_linked [OF assms(1,2) r] have ws: "\<And>w. w \<in> set ?ws \<Longrightarrow> ?L w" by simp
  have "shallow_walk g odb ?ws (deepening a) = Inr s" if "sh = Some s" for s
    using sh that by (auto simp: shallow_of_def split: if_splits elim!: bindR_InrE)
  then have "\<forall>s. sh = Some s \<longrightarrow> (\<forall>c\<in>set (scommits s). ?L c)"
    using shallow_walk_linked [OF _ _ assms(4)] ws by blast
  moreover have "\<forall>c\<in>set (ids rng) \<union> set (leaves rng) \<union> set (merges rng). ?L c"
  proof (cases sh)
    case None
    with rng have "commit_range g odb ?ws common = Inr rng" by (simp add: range_of_def)
    from commit_range_linked [OF assms(1) this ws] show ?thesis by blast
  qed (use rng in \<open>auto simp: range_of_def\<close>)
  moreover have "\<forall>c\<in>set (tags_of odb refs a ?ws sh rng). ?L c"
    using extra_tags_tips linked_here by blast
  ultimately show "distinct is \<and> (\<forall>i\<in>set is. ?L i)"
    using pack_objects_linked [OF assms(2,5) _ _ p, of "snd ` set refs"] pack_objects_distinct [OF assms(3) p] by blast
qed

lemma fetch_events:
  assumes "list_refs r s = (Inr refs, s1)" and "parse_args refs args no_args = Inr (Inr a)"
    and "open_odb L (local_objects r s1) = Inr odb" and "keeps (packs P) (fetch_answer (algos L) odb refs a)"
  shows "\<exists>events. packs P events \<and> snd (fetch pk L r args (s, w)) = (s1, snd (forE events (render pk odb) w))"
proof -
  obtain res events where a: "fetch_answer (algos L) odb refs a [] = (res, events)" by fastforce
  with keepsD [OF assms(4), of "[]"] have "packs P events" by (simp add: packs_def)
  moreover have "snd (fetch pk L r args (s, w)) = (s1, snd (forE events (render pk odb) w))"
    using assms(1-3) a
    by (auto simp: fetch_def bindE_def on_world_def on_out_def repo_odb_def local_objects_def split: prod.splits sum.splits)
  ultimately show ?thesis by blast
qed


section \<open>Everything the client lacks\<close>

text \<open>
  What gix's expansion by additions promises, with the flaw the source describes: every object it is
  given, and under a commit what its only parent does not have, except what a merge in the same list
  also has; of a merge itself it promises nothing more.
\<close>

definition merge_in :: "odb \<Rightarrow> oid list \<Rightarrow> oid \<Rightarrow> bool" where
  "merge_in odb is x \<longleftrightarrow>
     (\<exists>m\<in>set is. \<exists>t ps. find_object odb m = Inr (CommitObj t ps) \<and> length ps > 1 \<and> content odb m x)"

definition additions_found :: "gix \<Rightarrow> bool" where
  "additions_found g \<longleftrightarrow> (\<forall>odb is cs. gcount g TreeAdditions odb is = Inr cs \<longrightarrow> set is \<subseteq> set cs
     \<and> (\<forall>c t ps x. c \<in> set is \<longrightarrow> find_object odb c = Inr (CommitObj t ps) \<longrightarrow> length ps \<le> 1 \<longrightarrow> content odb c x \<longrightarrow>
          x \<in> set cs \<or> (\<exists>p\<in>set ps. content odb p x) \<or> merge_in odb is x))"

text \<open>Object ids rule out a commit before itself and a tag of itself.\<close>

definition acyclic_odb :: "odb \<Rightarrow> bool" where
  "acyclic_odb odb \<longleftrightarrow> (\<exists>rank :: oid \<Rightarrow> nat. \<forall>c.
     (\<forall>t ps p. find_object odb c = Inr (CommitObj t ps) \<longrightarrow> p \<in> set ps \<longrightarrow> rank p < rank c)
     \<and> (\<forall>t. find_object odb c = Inr (TagObj t) \<longrightarrow> rank t < rank c))"

lemma range_objects_cover:
  assumes "count_all g" and "additions_found g" and "range_objects g odb rng = Inr is"
  shows "set (ids rng) \<subseteq> set is"
    and "\<lbrakk>c \<in> set (ids rng); find_object odb c = Inr (CommitObj t ps); length ps \<le> 1; content odb c x\<rbrakk> \<Longrightarrow>
      x \<in> set is \<or> (\<exists>p\<in>set ps. content odb p x) \<or> merge_in odb (ids rng) x"
    and "\<lbrakk>c \<in> set (leaves rng @ merges rng); content odb c x\<rbrakk> \<Longrightarrow> x \<in> set is"
proof -
  from assms(3) obtain cs where cs: "gcount g TreeAdditions odb (ids rng) = Inr cs" and sub: "set cs \<subseteq> set is"
    and more: "leaves rng @ merges rng = [] \<or> (\<exists>ms. gcount g TreeContents odb (leaves rng @ merges rng) = Inr ms \<and> set ms \<subseteq> set is)"
    unfolding range_objects_def counts_with_leaves_def
    by (auto elim!: bindR_InrE split: if_splits simp: set_fresh_only)
  note A = assms(2) [unfolded additions_found_def, rule_format, OF cs]
  show "set (ids rng) \<subseteq> set is" using A sub by blast
  show "\<lbrakk>c \<in> set (ids rng); find_object odb c = Inr (CommitObj t ps); length ps \<le> 1; content odb c x\<rbrakk> \<Longrightarrow>
      x \<in> set is \<or> (\<exists>p\<in>set ps. content odb p x) \<or> merge_in odb (ids rng) x"
    using A sub by blast
  assume c: "c \<in> set (leaves rng @ merges rng)" "content odb c x"
  then have "leaves rng @ merges rng \<noteq> []" by (metis empty_iff empty_set)
  with more obtain ms where ms: "gcount g TreeContents odb (leaves rng @ merges rng) = Inr ms" "set ms \<subseteq> set is" by blast
  from assms(1) [unfolded count_all_def, rule_format, OF ms(1) c] ms(2) show "x \<in> set is" by blast
qed

text \<open>A merge in the range is sent whole, so what the flaw loses is there.\<close>

lemma range_merges:
  assumes "walk_covers g" and rng: "commit_range g odb ws hs = Inr rng"
    and tags: "\<forall>c\<in>set tags. \<forall>t ps. find_object odb c = Inr (CommitObj t ps) \<longrightarrow> c \<in> set (ids rng)"
    and "merge_in odb (ids rng @ tags) x"
  shows "\<exists>m\<in>set (merges rng). content odb m x"
proof -
  from rng obtain p infos where p: "peel_wants odb ws = Inr p" and i: "gwalk g odb (pcommits p) hs = Inr infos"
    and r: "ids rng = ptags p @ map fst infos" "merges rng = map fst (filter (\<lambda>(_, ps). length ps > 1) infos)"
    unfolding commit_range_def Let_def by (auto elim!: bindR_InrE)
  from assms(4) tags obtain m t ps where m: "m \<in> set (ids rng)" "find_object odb m = Inr (CommitObj t ps)"
    "length ps > 1" "content odb m x"
    unfolding merge_in_def by auto
  with peel_wants_result(1) [OF p] r obtain ps1 where "(m, ps1) \<in> set infos" by (auto simp: peel_ok_def)
  moreover from this assms(1) [unfolded walk_covers_def, rule_format, OF i] m(2) have "ps1 = ps" by force
  ultimately show ?thesis using m r by force
qed

lemma range_complete:
  assumes "walk_covers g" and "count_all g" and "additions_found g" and "acyclic_odb odb"
    and rng: "commit_range g odb ws hs = Inr rng"
    and ro: "range_objects g odb (rng\<lparr>ids := ids rng @ tags\<rparr>) = Inr is"
    and tags: "\<forall>c\<in>set tags. \<forall>t ps. find_object odb c = Inr (CommitObj t ps) \<longrightarrow> c \<in> set (ids rng)"
    and w: "w \<in> set ws" "history odb w h" "content odb h x"
  shows "x \<in> set is \<union> reached odb (set hs)"
proof -
  from assms(4) obtain rank :: "oid \<Rightarrow> nat" where rank:
    "\<And>c t ps p. find_object odb c = Inr (CommitObj t ps) \<Longrightarrow> p \<in> set ps \<Longrightarrow> rank p < rank c"
    "\<And>c t. find_object odb c = Inr (TagObj t) \<Longrightarrow> rank t < rank c"
    unfolding acyclic_odb_def by metis
  from rng obtain p infos where p: "peel_wants odb ws = Inr p" and i: "gwalk g odb (pcommits p) hs = Inr infos"
    and r: "ids rng = ptags p @ map fst infos" "leaves rng = pleaves p"
      "merges rng = map fst (filter (\<lambda>(_, ps). length ps > 1) infos)"
    unfolding commit_range_def Let_def by (auto elim!: bindR_InrE)
  note R = range_objects_cover [OF assms(2,3) ro, simplified]
  from w(2,3) show ?thesis
  proof (induction "rank h" arbitrary: h rule: less_induct)
    case less
    from walk_peeled_covers [OF assms(1) p i w(1) less.prems(1)]
    consider (hidden) t where "t \<in> set hs" "history odb t h" | (leaf) "h \<in> set (pleaves p)"
      | (tag) "h \<in> set (ptags p)" | (commit) ps where "(h, ps) \<in> set infos" by auto
    then show ?case
    proof cases
      case hidden
      with less.prems(2) show ?thesis by (auto intro: reachedI)
    next
      case leaf
      with R(3) [OF _ less.prems(2)] r(2) show ?thesis by simp
    next
      case tag
      with peel_wants_result(1) [OF p] obtain t where t: "find_object odb h = Inr (TagObj t)" by (auto simp: peel_ok_def)
      from content_first [OF less.prems(2)] t have "x = h \<or> content odb t x" by auto
      with tag r R(1) less.hyps [OF rank(2) [OF t] history_target [OF less.prems(1) t]] show ?thesis by auto
    next
      case commit
      then obtain t where t: "find_object odb h = Inr (CommitObj t ps)"
        using assms(1) [unfolded walk_covers_def, rule_format, OF i] by blast
      consider "h \<in> set (merges rng)" | "x \<in> set is" | q where "q \<in> set ps" "content odb q x" | "merge_in odb (ids rng @ tags) x"
        using R(2) [OF _ t _ less.prems(2)] commit r by force
      then show ?thesis
        by cases (use R(3) less.prems range_merges [OF assms(1) rng tags]
          less.hyps [OF rank(1) [OF t] history_parent [OF less.prems(1) t]] in blast)+
    qed
  qed
qed

text \<open>A tag that rides along is a tag object, or a commit that is sent anyway.\<close>

lemma tags_of_commits:
  assumes "c \<in> set (tags_of odb refs a ws None rng)" and "find_object odb c = Inr (CommitObj t ps)"
  shows "c \<in> set (ids rng)"
proof -
  have "peel_to_object odb c = None" using assms(2) by (simp add: peel_to_object_def numeral_eq_Suc)
  with assms(1) show ?thesis by (auto simp: tags_of_def extra_tags_def split: if_splits)
qed

lemma answer_complete:
  assumes "walk_covers g" and "count_all g" and "additions_found g" and "acyclic_odb odb"
    and "blobs a = None" and "\<not> asked (deepening a)" and "client_shallow (deepening a) = []"
  shows "keeps (packs (\<lambda>is. \<exists>wanted. resolve_wanted refs (want_refs a) = Inr wanted
    \<and> reached odb (set (wants a) \<union> snd ` set wanted) \<subseteq> set is \<union> reached odb (set (haves a)))) (fetch_answer g odb refs a)"
proof (rule keeps_answer)
  fix wanted :: "(string \<times> oid) list" and common sh rng "is"
  let ?ws = "wants a @ map snd wanted"
  assume wanted: "resolve_wanted refs (want_refs a) = Inr wanted"
    and common: "find_common g odb (map snd refs) (haves a) = Inr common"
    and sh: "shallow_of g odb ?ws (deepening a) = Inr sh" and rng: "range_of g odb sh ?ws common = Inr rng"
    and p: "pack_objects g odb (blobs a) sh rng (tags_of odb refs a ?ws sh rng) common = Inr (Inr is)"
  from sh assms(6,7) have [simp]: "sh = None" by (simp add: shallow_of_def)
  from rng have rng: "commit_range g odb ?ws common = Inr rng" by (simp add: range_of_def)
  from p assms(5) have p: "range_objects g odb (rng\<lparr>ids := ids rng @ tags_of odb refs a ?ws None rng\<rparr>) = Inr is"
    by (simp add: pack_objects_def)
  from common have "set common \<subseteq> set (haves a)"
    by (auto simp: find_common_def elim!: bindR_InrE split: if_splits)
  then have "reached odb (set common) \<subseteq> reached odb (set (haves a))" by (auto simp: reached_def)
  moreover have "x \<in> set is \<union> reached odb (set common)" if "x \<in> reached odb (set ?ws)" for x
    using that range_complete [OF assms(1-4) rng p] tags_of_commits unfolding reached_def by blast
  ultimately show "\<exists>wanted. resolve_wanted refs (want_refs a) = Inr wanted
    \<and> reached odb (set (wants a) \<union> snd ` set wanted) \<subseteq> set is \<union> reached odb (set (haves a))"
    using wanted by (intro exI [of _ wanted]) auto
qed

text \<open>
  C20. A fetch that is neither cut nor filtered sends everything the client lacks. When it sends a
  pack, whatever the wanted objects reach, by id or by name, through the history and the trees, is in
  the pack or is reached by what the client said it has. The pack is built from what each commit adds
  over its parent, by an expansion of gix that loses additions around merges; sending the merges
  whole makes up for it.
\<close>

theorem fetch_is_complete:
  assumes "walk_covers (algos L)" and "count_all (algos L)" and "additions_found (algos L)" and "acyclic_odb odb"
    and "list_refs r s = (Inr refs, s1)" and "parse_args refs args no_args = Inr (Inr a)"
    and "open_odb L (local_objects r s1) = Inr odb"
    and "blobs a = None" and "\<not> asked (deepening a)" and "client_shallow (deepening a) = []"
  shows "\<exists>events. packs (\<lambda>is. \<exists>wanted. resolve_wanted refs (want_refs a) = Inr wanted
      \<and> reached odb (set (wants a) \<union> snd ` set wanted) \<subseteq> set is \<union> reached odb (set (haves a))) events
    \<and> snd (fetch pk L r args (s, w)) = (s1, snd (forE events (render pk odb) w))"
  by (rule fetch_events [OF assms(5-7) answer_complete [OF assms(1-4,8-10)]])

section \<open>Examples\<close>

text \<open>
  The repository after the push of the sample: the branch at commit 4 and the tag 7. Its packs also
  hold the commit 8 and its tree 9, which nothing leads to; the tree 5 names the id 9 as a submodule.
\<close>

definition kept_odb :: odb where
  "kept_odb = sample_odb @ [(8, Inr (CommitObj 9 [])), (9, Inr (TreeObj []))]"

definition kept_refs :: "(string \<times> oid) list" where
  "kept_refs = [(''refs/heads/main'', 4)]"

definition kept_lib :: gitlib where
  "kept_lib = first_lib\<lparr>open_odb := (\<lambda>_. Inr kept_odb)\<rparr>"

definition kept_world :: world where
  "kept_world = (fresh_world [] [] (\<lambda>_. None))\<lparr>dbs := [(''alice/web'', [(''ref/alice/web/refs/heads/main'', to_hex 4)])]\<rparr>"

lemma kept_find:
  "find_object kept_odb 1 = Inr (CommitObj 2 [])"
  "find_object kept_odb 2 = Inr (TreeObj [(''a'', BlobMode, 3)])"
  "find_object kept_odb 3 = Inr BlobObj"
  "find_object kept_odb 4 = Inr (CommitObj 5 [1])"
  "find_object kept_odb 5 = Inr (TreeObj [(''a'', BlobMode, 3), (''b'', BlobMode, 6), (''c'', SubmoduleMode, 9)])"
  "find_object kept_odb 6 = Inr BlobObj"
  "find_object kept_odb 7 = Inr (TagObj 4)"
  "find_object kept_odb 8 = Inr (CommitObj 9 [])"
  "find_object kept_odb 9 = Inr (TreeObj [])"
  "length kept_odb = Suc (Suc (Suc (Suc (Suc (Suc (Suc (Suc (Suc 0))))))))"
  by (simp_all add: find_object_def kept_odb_def sample_odb_def)

lemma kept_objects: "find_object kept_odb c = Inr ob \<Longrightarrow> c \<in> {1, 2, 3, 4, 5, 6, 7, 8, 9}"
  by (auto simp: find_object_def kept_odb_def sample_odb_def split: if_splits)

lemma kept_lists: "\<exists>s1. list_refs web_repo kept_world = (Inr kept_refs, s1)"
proof -
  have repo: "owner web_repo = ''alice''" "name web_repo = ''web''" "repo_id ''alice'' ''web'' = ''alice/web''"
    "ref_prefix web_repo = ''ref/alice/web/''"
    by (simp_all add: web_repo_def repo_id_def ref_prefix_def)
  have name: "from_utf8_lossy ''refs/heads/main'' = ''refs/heads/main''"
    by (rule from_utf8_lossy_valid) (rule main_ref(2))
  show ?thesis
    by (simp add: list_refs_def kept_world_def fresh_world_def kept_refs_def db_for_def db_scan_def io_read_def io_step_def
        io_write_def getE_def putE_def bindE_def repo scan_prefix_def the_db_def upd_db_def Let_def parse_oid_def name)
qed

definition kept_args :: "string list" where
  "kept_args = [''want '' @ to_hex 4, ''have '' @ to_hex 1, ''done'']"

lemma kept_parse:
  "parse_args kept_refs kept_args no_args = Inr (Inr (no_args\<lparr>wants := [4], haves := [1], said_done := True\<rparr>))"
  by (simp add: kept_args_def parse_arg_def strip_prefix_def bindR_def parse_oid_def no_args_def)

lemma round_gix_within: "iter_within round_gix"
proof -
  have "\<exists>i\<in>set tips. history odb i c" if "round_walk odb tips hide = Inr infos" "(c, ps) \<in> set infos" for odb tips hide infos c ps
    using that round_gix_walk unfolding walk_covers_def round_gix_gwalk by blast
  then show ?thesis by (auto simp: iter_within_def round_gix_def elim!: bindR_InrE)
qed

lemma round_gix_distinct: "count_distinct round_gix"
  by (auto simp: count_distinct_def round_gix_def round_count_def Let_def split: if_splits)

lemma round_gix_additions: "additions_found round_gix"
proof -
  have "content odb c x \<longrightarrow> x \<in> set cs" if "round_count odb is = Inr cs" "c \<in> set is" for odb "is" cs c x
    using that round_gix_count_all unfolding count_all_def round_gix_gcount by blast
  then show ?thesis unfolding additions_found_def round_gix_gcount by (blast intro: content_here)
qed

lemma kept_acyclic: "acyclic_odb kept_odb"
proof -
  have "unat p < unat c" if f: "find_object kept_odb c = Inr (CommitObj t ps)" and "p \<in> set ps" for c t ps p
    using kept_objects [OF f] that by (auto simp: kept_find)
  moreover have "unat t < unat c" if f: "find_object kept_odb c = Inr (TagObj t)" for c t
    using kept_objects [OF f] that by (auto simp: kept_find)
  ultimately show ?thesis unfolding acyclic_odb_def by (intro exI [of _ unat]) blast
qed

lemma kept_closed:
  "close_under (length kept_odb) (history_next kept_odb) [4] = [4, 1]"
  "close_under (length kept_odb) (history_next kept_odb) [1] = [1]"
  "close_under (length kept_odb) (history_next kept_odb) [] = []"
  "close_under (length kept_odb) (content_next kept_odb) [4] = [4, 5, 3, 6]"
  "close_under (length kept_odb) (content_next kept_odb) [8, 4] = [8, 4, 9, 5, 3, 6]"
  "close_under (length kept_odb) (content_next kept_odb) [] = []"
  by (simp_all add: kept_find history_next_def content_next_def)

lemma kept_answer:
  "fetch_answer round_gix kept_odb kept_refs (no_args\<lparr>wants := [4], haves := [1], said_done := True\<rparr>) []
     = (Inr (), [Line ''packfile'', Packed (Inr [4, 5, 3, 6]), FlushPkt])"
proof -
  have info: "commit_info kept_odb 4 = Some (4, [1])" "commit_info kept_odb 1 = Some (1, [])"
    by (simp_all add: commit_info_def kept_find(1-9))
  have walk: "round_walk kept_odb [4] [1] = Inr [(4, [1])]" "round_walk kept_odb [4] [] = Inr [(4, [1]), (1, [])]"
    by (simp_all add: round_walk_def kept_closed info List.map_filter_simps)
  have "gwalk round_gix kept_odb [4] [1] = Inr [(4, [1])]" "giter round_gix kept_odb [4] [] = Inr [Inr (4, [1]), Inr (1, [])]"
    by (simp_all only: round_gix_gwalk walk) (simp add: round_gix_def walk bindR_def)
  moreover have "gcount round_gix ex kept_odb [4] = Inr [4, 5, 3, 6]" for ex
    by (simp add: round_gix_gcount round_count_def kept_closed kept_find(1-9) content_next_def)
  ultimately show ?thesis
    by (simp add: fetch_answer_def kept_refs_def no_args_def no_deepen_def find_common_def reachable_commits_def peel_wants_def
        kept_find bindR_def MAX_WALK_def negotiate_def refuse_wants_def send_pack_def shallow_of_def asked_def
        say_shallow_def say_wanted_def range_of_def commit_range_def tags_of_def pack_objects_def range_objects_def
        counts_with_leaves_def say_def putE_def bindE_def Let_def)
qed

lemma kept_laws:
  "iter_within (algos kept_lib)" "count_under (algos kept_lib)" "count_distinct (algos kept_lib)"
  "walk_covers (algos kept_lib)" "count_all (algos kept_lib)" "additions_found (algos kept_lib)"
  "open_odb kept_lib x = Inr kept_odb"
  by (simp_all add: kept_lib_def first_lib_def round_gix_within round_gix_count round_gix_distinct round_gix_walk
      round_gix_count_all round_gix_additions)

lemma kept_linked: "linked kept_odb {4} x \<Longrightarrow> x \<in> {1, 2, 3, 4, 5, 6}"
  by (induction rule: linked.induct) (auto simp: kept_find)


theorem fetch_is_complete_witness:
  "\<exists>s1 events. packs (\<lambda>is. reached kept_odb {4} \<subseteq> set is \<union> reached kept_odb {1}) events
    \<and> snd (fetch (\<lambda>_ _. ([''PACK''], None)) kept_lib web_repo kept_args (kept_world, []))
      = (s1, snd (forE events (render (\<lambda>_ _. ([''PACK''], None)) kept_odb) []))"
proof -
  obtain s1 where s1: "list_refs web_repo kept_world = (Inr kept_refs, s1)" using kept_lists by blast
  show ?thesis
    using fetch_is_complete [OF kept_laws(4-6) kept_acyclic s1 kept_parse kept_laws(7), of "\<lambda>_ _. ([''PACK''], None)" "[]"]
    by (auto simp: no_args_def no_deepen_def asked_def)
qed

text \<open>
  The two requests that have to be left out. A client that names a commit it should not know as its
  boundary and asks to deepen from there is sent that commit and its tree: the boundary is queued
  without the test every want has to pass.
\<close>

lemma relative_deepen_serves_orphan:
  "fetch_answer round_gix kept_odb kept_refs (no_args\<lparr>wants := [4], said_done := True,
       deepening := no_deepen\<lparr>depth := Some 1, relative := True, client_shallow := [8]\<rparr>\<rparr>) []
     = (Inr (), [Line ''shallow-info'', Line (''shallow '' @ to_hex 4), Line (''unshallow '' @ to_hex 8), DelimPkt,
         Line ''packfile'', Packed (Inr [8, 4, 9, 5, 3, 6]), FlushPkt])"
  "\<not> linked kept_odb (snd ` set kept_refs) 8"
proof -
  have "gcount round_gix TreeContents kept_odb [8, 4] = Inr [8, 4, 9, 5, 3, 6]"
    by (simp add: round_gix_gcount round_count_def kept_closed kept_find(1-9) content_next_def)
  then show "fetch_answer round_gix kept_odb kept_refs (no_args\<lparr>wants := [4], said_done := True,
       deepening := no_deepen\<lparr>depth := Some 1, relative := True, client_shallow := [8]\<rparr>\<rparr>) []
     = (Inr (), [Line ''shallow-info'', Line (''shallow '' @ to_hex 4), Line (''unshallow '' @ to_hex 8), DelimPkt,
         Line ''packfile'', Packed (Inr [8, 4, 9, 5, 3, 6]), FlushPkt])"
    by (simp add: fetch_answer_def kept_refs_def no_args_def no_deepen_def find_common_def negotiate_def refuse_wants_def
        send_pack_def shallow_of_def asked_def shallow_walk_def kept_find MAX_WALK_def bindR_def say_shallow_def say_wanted_def
        range_of_def tags_of_def pack_objects_def explicit_objects_def say_def putE_def bindE_def Let_def)
  show "\<not> linked kept_odb (snd ` set kept_refs) 8" using kept_linked [of 8] by (auto simp: kept_refs_def)
qed

text \<open>
  With a size limit, the entry of a submodule is taken for a blob: a tree that names the id 9 as a
  submodule is enough to be sent the object 9.
\<close>

definition sized_gix :: gix where
  "sized_gix = round_gix\<lparr>gheader := (\<lambda>odb i. map_option (\<lambda>_. 0) (map_of odb i))\<rparr>"

lemma blob_limit_serves_submodule:
  "filtered_objects sized_gix kept_odb [4, 1] {} (BlobLimit 10) = Inr [4, 1, 2, 3, 5, 6, 9]"
  "\<not> linked kept_odb (snd ` set kept_refs) 9"
proof -
  have "keep_blob sized_gix kept_odb i (BlobLimit 10)" if "i \<in> {3, 6, 9}" for i
    using that by (auto simp: keep_blob_def sized_gix_def kept_odb_def sample_odb_def)
  then show "filtered_objects sized_gix kept_odb [4, 1] {} (BlobLimit 10) = Inr [4, 1, 2, 3, 5, 6, 9]"
    by (simp add: filtered_objects_def kept_find bindR_def base_tree_def find_tree_def)
  show "\<not> linked kept_odb (snd ` set kept_refs) 9" using kept_linked [of 9] by (auto simp: kept_refs_def)
qed

text \<open>
  A cut fetch of an annotated tag sends neither the tag nor the commit: the walk passes over a want
  that is not a commit, and a tag that is wanted does not ride along.
\<close>

lemma shallow_tag_fetch_is_empty:
  "fetch_answer round_gix kept_odb [(''refs/heads/main'', 4), (''refs/tags/v1'', 7)] (no_args\<lparr>wants := [7], said_done := True,
       include_tag := True, deepening := no_deepen\<lparr>depth := Some 1\<rparr>\<rparr>) []
     = (Inr (), [Line ''packfile'', Packed (Inr []), FlushPkt])"
proof -
  have "gcount round_gix TreeContents kept_odb [] = Inr []"
    by (simp add: round_gix_gcount round_count_def kept_closed kept_find(1-9) content_next_def)
  then show ?thesis
    by (simp add: fetch_answer_def no_args_def no_deepen_def find_common_def negotiate_def refuse_wants_def
        send_pack_def shallow_of_def asked_def shallow_walk_def kept_find MAX_WALK_def bindR_def say_shallow_def say_wanted_def
        range_of_def tags_of_def extra_tags_def pack_objects_def explicit_objects_def say_def putE_def bindE_def Let_def)
qed

end
