(* ===== verification/Credentials.thy ===== *)
theory Credentials
  imports Refs Paths
begin

text \<open>
  Credentials and what they open: \<open>crates/storage/src/auth.rs\<close>, the headers of
  \<open>crates/core/src/httpx.rs\<close>, the access checks of the git listener (\<open>bins/server/src/router/git.rs\<close>)
  and of the image registry (\<open>crates/registry/src/auth.rs\<close>), and \<open>may_act\<close> of \<open>crates/app/src/lib.rs\<close>.
  A node has two caches beside its storage: the credentials it did not find and the memberships it
  asked for. The hash, the paths of the object store, base64, the verification of a signature and the
  answers of the directory, a MongoDB, are parameters.
  The lemmas show that no answer outlives its credential, that a refusal is at most a minute old,
  that the caches are bounded where the code says so, that rotating a key locks nobody out, and that
  every access that is granted was earned.
\<close>

section \<open>The state of a node and the code it calls\<close>

record auth_world = world +
  acache :: "(string \<times> (nat \<times> string option)) list"
  membership :: "((string \<times> string) \<times> (bool \<times> nat)) list"

record authlib =
  sha256 :: "bytes \<Rightarrow> bytes"
  os_path :: "string \<Rightarrow> string"
  base64_decode :: "string \<Rightarrow> bytes option"
  decode_claims :: "string \<Rightarrow> (string option \<times> string option) option"

definition hex_byte :: "char \<Rightarrow> string" where
  "hex_byte c = pad_left 2 (to_radix 16 (byte_of c))"

definition hex_encode :: "bytes \<Rightarrow> string" where
  "hex_encode bs = concat (map hex_byte bs)"

section \<open>Tokens and keys\<close>

definition token_digest :: "authlib \<Rightarrow> string \<Rightarrow> string" where
  "token_digest L t = hex_encode (sha256 L t)"

definition token_key :: "authlib \<Rightarrow> string \<Rightarrow> string" where
  "token_key L t = os_path L (''auth/token/'' @ hex_encode (sha256 L t))"

definition sshkey_key :: "authlib \<Rightarrow> string \<Rightarrow> string" where
  "sshkey_key L fp = os_path L (''auth/sshkey/'' @ hex_encode (sha256 L fp))"

definition userkey_key :: "authlib \<Rightarrow> string \<Rightarrow> string" where
  "userkey_key L o1 = os_path L (''auth/userkey/'' @ o1)"

definition CACHE_TTL :: nat where
  "CACHE_TTL = 60"

definition NEG_CAP :: nat where
  "NEG_CAP = 4096"

definition fresh_miss :: "nat \<Rightarrow> nat \<times> string option \<Rightarrow> bool" where
  "fresh_miss t e \<longleftrightarrow> t - fst e < CACHE_TTL"

text \<open>What \<open>lookup\<close> keeps of its answer: a miss, after a sweep when the map is full; never a hit.\<close>

definition keep_miss :: "string \<Rightarrow> 'z auth_world_scheme \<Rightarrow> 'z auth_world_scheme" where
  "keep_miss k s =
     (let c = acache s;
          swept = filter (\<lambda>(_, e). fresh_miss (now s) e) c;
          c1 = (if length c \<ge> NEG_CAP then (if length swept \<ge> NEG_CAP then [] else swept) else c)
      in s\<lparr>acache := AList.update k (now s, None) c1\<rparr>)"

definition forget :: "string \<Rightarrow> 'z auth_world_scheme \<Rightarrow> 'z auth_world_scheme" where
  "forget k s = s\<lparr>acache := AList.delete k (acache s)\<rparr>"

text \<open>The object is found in one call and its body is read in another.\<close>

definition stored_body :: "string \<Rightarrow> ('z world_scheme, bytes option) io" where
  "stored_body k =
     bindE (io_read (\<lambda>s. map_of (os s) k)) (\<lambda>v.
     case v of None \<Rightarrow> returnE None | Some b \<Rightarrow> bindE io_step (\<lambda>_. returnE (Some b)))"

definition known_miss :: "string \<Rightarrow> 'z auth_world_scheme \<Rightarrow> bool" where
  "known_miss k s =
     (case map_of (acache s) k of
        Some (t, None) \<Rightarrow> now s - t < CACHE_TTL
      | _ \<Rightarrow> False)"

definition lookup :: "string \<Rightarrow> ('z auth_world_scheme, string option) io" where
  "lookup k =
     (\<lambda>s. if known_miss k s then (Inr None, s)
          else bindE (stored_body k) (\<lambda>v.
               case v of
                 None \<Rightarrow> bindE (putE (keep_miss k)) (\<lambda>_. returnE None)
               | Some b \<Rightarrow> bindE (putE (forget k)) (\<lambda>_. returnE (Some (from_utf8_lossy b)))) s)"

definition revoke_token_digest :: "authlib \<Rightarrow> string \<Rightarrow> ('z auth_world_scheme, unit) io" where
  "revoke_token_digest L d =
     bindE (os_delete (os_path L (''auth/token/'' @ d))) (\<lambda>_. putE (forget (''auth/token/'' @ d)))"

fun revoke_all :: "authlib \<Rightarrow> string \<Rightarrow> string list \<Rightarrow> nat \<Rightarrow> ('z auth_world_scheme, nat) io" where
  "revoke_all L o1 [] n = returnE n"
| "revoke_all L o1 (loc # locs) n =
     bindE (stored_body loc) (\<lambda>v.
     case v of
       None \<Rightarrow> failE (Message ''not found'')
     | Some b \<Rightarrow>
         if b = o1 then bindE (revoke_token_digest L (filename loc)) (\<lambda>_. revoke_all L o1 locs (Suc n))
         else revoke_all L o1 locs n)"

definition revoke_tokens_for :: "authlib \<Rightarrow> string \<Rightarrow> ('z auth_world_scheme, nat) io" where
  "revoke_tokens_for L o1 =
     bindE (os_list (os_path L ''auth/token'')) (\<lambda>metas. revoke_all L o1 (map fst metas) 0)"

definition remove_ssh_key :: "authlib \<Rightarrow> string \<Rightarrow> ('z auth_world_scheme, unit) io" where
  "remove_ssh_key L fp = bindE (os_delete (sshkey_key L fp)) (\<lambda>_. putE (forget (sshkey_key L fp)))"

definition user_key :: "authlib \<Rightarrow> string \<Rightarrow> ('z world_scheme, string option) io" where
  "user_key L o1 = bindE (stored_body (userkey_key L o1)) (\<lambda>v. returnE (map_option from_utf8_lossy v))"

definition add_ssh_key :: "authlib \<Rightarrow> string \<Rightarrow> string \<Rightarrow> ('z auth_world_scheme, unit) io" where
  "add_ssh_key L o1 fp = bindE (os_put (sshkey_key L fp) o1) (\<lambda>_. putE (forget (sshkey_key L fp)))"

definition rotate_user_key ::
    "authlib \<Rightarrow> string \<Rightarrow> string \<Rightarrow> string \<Rightarrow> string option \<Rightarrow> ('z auth_world_scheme, unit) io" where
  "rotate_user_key L o1 priv fp old =
     bindE (add_ssh_key L o1 fp) (\<lambda>_.
     bindE (os_put (userkey_key L o1) priv) (\<lambda>_.
     case old of
       None \<Rightarrow> returnE ()
     | Some f \<Rightarrow> if f \<noteq> fp then remove_ssh_key L f else returnE ()))"

text \<open>The random bytes of a new token are an argument.\<close>

definition create_token :: "authlib \<Rightarrow> bytes \<Rightarrow> string \<Rightarrow> ('z auth_world_scheme, string) io" where
  "create_token L rnd o1 =
     (let t = hex_encode rnd in
      bindE (os_put (token_key L t) o1) (\<lambda>_.
      bindE (putE (forget (token_key L t))) (\<lambda>_. returnE t)))"

definition owner_for_token :: "authlib \<Rightarrow> string \<Rightarrow> ('z auth_world_scheme, string option) io" where
  "owner_for_token L t = lookup (token_key L t)"

definition owner_for_fingerprint :: "authlib \<Rightarrow> string \<Rightarrow> ('z auth_world_scheme, string option) io" where
  "owner_for_fingerprint L fp = lookup (sshkey_key L fp)"

definition authorize :: "string option \<Rightarrow> string \<Rightarrow> bool \<Rightarrow> bool" where
  "authorize auth_owner repo_owner public_read \<longleftrightarrow> public_read \<or> auth_owner = Some repo_owner"

section \<open>Headers\<close>

text \<open>An \<open>Authorization\<close> header is its value, absent also when it is not visible ASCII.\<close>

definition scheme :: "string \<Rightarrow> string \<Rightarrow> string option" where
  "scheme v n =
     (if length n \<le> length v \<and> is_char_boundary v (length n)
         \<and> eq_ignore_ascii_case (take (length n) v) n \<and> starts_with (drop (length n) v) '' ''
      then Some (trim_start (drop (length n) v)) else None)"

definition GIT_PLACEHOLDER :: string where
  "GIT_PLACEHOLDER = ''x''"

definition user_names :: "string \<Rightarrow> string \<Rightarrow> bool \<Rightarrow> bool" where
  "user_names user o1 git_placeholder \<longleftrightarrow> user = o1 \<or> git_placeholder \<and> user = GIT_PLACEHOLDER"

definition basic_creds :: "authlib \<Rightarrow> string option \<Rightarrow> (string \<times> string) option" where
  "basic_creds L hdr =
     Option.bind hdr (\<lambda>v.
     Option.bind (scheme v ''Basic'') (\<lambda>e.
     Option.bind (base64_decode L e) (\<lambda>d.
     if utf8_valid d then split_once (CHR '':'') d else None)))"

definition basic_malformed :: "authlib \<Rightarrow> string option \<Rightarrow> bool" where
  "basic_malformed L hdr \<longleftrightarrow>
     (case hdr of None \<Rightarrow> False | Some v \<Rightarrow> scheme v ''Basic'' \<noteq> None) \<and> basic_creds L hdr = None"

definition basic_token :: "authlib \<Rightarrow> string option \<Rightarrow> string option" where
  "basic_token L hdr = map_option snd (basic_creds L hdr)"

definition basic_user_names :: "authlib \<Rightarrow> string option \<Rightarrow> string \<Rightarrow> bool \<Rightarrow> bool" where
  "basic_user_names L hdr o1 git_placeholder =
     (case basic_creds L hdr of None \<Rightarrow> True | Some (u, _) \<Rightarrow> user_names u o1 git_placeholder)"

section \<open>The gate of the git listener\<close>

datatype refusal = Challenge "string option" | Denied | BadRequest string | InternalError error

text \<open>Who is asking: the word of a peer, or a token whose user name agrees with its owner.\<close>

definition git_caller ::
    "authlib \<Rightarrow> string option \<Rightarrow> string option \<Rightarrow> ('z auth_world_scheme, refusal + string option) io" where
  "git_caller L trusted hdr =
     (case trusted of
        Some o1 \<Rightarrow> returnE (Inr (Some o1))
      | None \<Rightarrow>
          (case basic_creds L hdr of
             None \<Rightarrow> returnE (Inr None)
           | Some (user, t) \<Rightarrow>
               bindE (tryE (owner_for_token L t)) (\<lambda>r.
               returnE (case r of
                   Inl e \<Rightarrow> Inl (InternalError e)
                 | Inr (Some o1) \<Rightarrow> if user_names user o1 True then Inr (Some o1) else Inl (Challenge None)
                 | Inr None \<Rightarrow> Inl (Challenge None)))))"

definition git_gate ::
    "authlib \<Rightarrow> string option \<Rightarrow> string option \<Rightarrow> string \<Rightarrow> string \<Rightarrow> bool \<Rightarrow>
     ('z auth_world_scheme, refusal + (string option \<times> string \<times> string)) io" where
  "git_gate L trusted hdr o1 n1 read_only =
     bindE (git_caller L trusted hdr) (\<lambda>w.
     case w of
       Inl r \<Rightarrow> returnE (Inl r)
     | Inr who \<Rightarrow>
         (case parse_repo_pair o1 n1 of
            None \<Rightarrow> returnE (Inl (BadRequest ''invalid repository path''))
          | Some (o2, n2) \<Rightarrow>
              bindE (tryE (repo_public o2 n2)) (\<lambda>p.
              let public = (case p of Inl _ \<Rightarrow> False | Inr b \<Rightarrow> b) in
              returnE (if \<not> authorize who o2 (public \<and> read_only)
                then Inl (if who = None then Challenge None else Denied)
                else Inr (who, o2, n2)))))"

section \<open>The gate of the registry\<close>

text \<open>
  A token whose signature and expiry verify yields its claims, of which the type and the subject are
  read, each as text if it is one.
\<close>

definition verify_registry :: "authlib \<Rightarrow> string \<Rightarrow> string option" where
  "verify_registry L jwt =
     (case decode_claims L jwt of
        None \<Rightarrow> None
      | Some (typ, sub) \<Rightarrow> if typ \<noteq> Some ''registry'' then None else sub)"

datatype registry_token = RegOwner string | RegAnonymous | RegInvalid

definition verify_registry_token :: "authlib \<Rightarrow> string \<Rightarrow> registry_token" where
  "verify_registry_token L jwt =
     (case verify_registry L jwt of
        Some o1 \<Rightarrow> if o1 \<noteq> [] then RegOwner o1 else RegAnonymous
      | None \<Rightarrow> RegInvalid)"

definition basic_caller ::
    "authlib \<Rightarrow> string option \<Rightarrow> ('z auth_world_scheme, refusal + string option) io" where
  "basic_caller L hdr =
     (case basic_token L hdr of
        None \<Rightarrow> returnE (Inl (Challenge None))
      | Some t \<Rightarrow>
          bindE (tryE (owner_for_token L t)) (\<lambda>r.
          returnE (case r of
              Inl e \<Rightarrow> Inl (InternalError e)
            | Inr (Some o1) \<Rightarrow> if basic_user_names L hdr o1 False then Inr (Some o1) else Inl (Challenge None)
            | Inr None \<Rightarrow>
                (case verify_registry_token L t of
                   RegOwner o1 \<Rightarrow> if basic_user_names L hdr o1 False then Inr (Some o1) else Inl (Challenge None)
                 | _ \<Rightarrow> Inl (Challenge None)))))"

definition bearer_caller :: "authlib \<Rightarrow> string \<Rightarrow> refusal + string option" where
  "bearer_caller L jwt =
     (case verify_registry_token L jwt of
        RegOwner o1 \<Rightarrow> Inr (Some o1)
      | RegAnonymous \<Rightarrow> Inr None
      | RegInvalid \<Rightarrow> Inl (Challenge None))"

definition caller ::
    "authlib \<Rightarrow> string option \<Rightarrow> string option \<Rightarrow> ('z auth_world_scheme, refusal + string option) io" where
  "caller L trusted hdr =
     (case trusted of
        Some o1 \<Rightarrow> returnE (Inr (Some o1))
      | None \<Rightarrow>
          (case hdr of
             None \<Rightarrow> returnE (Inr None)
           | Some v \<Rightarrow>
               if scheme v ''Basic'' \<noteq> None then basic_caller L hdr
               else (case scheme v ''Bearer'' of
                       Some jwt \<Rightarrow> returnE (bearer_caller L jwt)
                     | None \<Rightarrow> returnE (Inl (Challenge None)))))"

text \<open>The directory: who has a handle, which handle a person has, and who is in which team.\<close>

record directory =
  user_by_handle :: "string \<Rightarrow> error + string option"
  user_handle :: "string \<Rightarrow> error + string option"
  is_member :: "string \<Rightarrow> string \<Rightarrow> error + bool"

datatype source = Absent | Unavailable | Directory directory

definition MEMBERSHIP_TTL :: nat where
  "MEMBERSHIP_TTL = 60"

definition MEMBERSHIP_CAP :: nat where
  "MEMBERSHIP_CAP = 10000"

definition keep_membership :: "string \<times> string \<Rightarrow> bool \<Rightarrow> 'z auth_world_scheme \<Rightarrow> 'z auth_world_scheme" where
  "keep_membership k yes s =
     (let m = membership s;
          m1 = (if length m \<ge> MEMBERSHIP_CAP
                then filter (\<lambda>(_, _, t). now s - t < MEMBERSHIP_TTL) m else m)
      in s\<lparr>membership := AList.update k (yes, now s) m1\<rparr>)"

text \<open>What the directory says of a person by mail address: their own handle, or a team of theirs.\<close>

definition belongs :: "directory \<Rightarrow> string \<Rightarrow> string \<Rightarrow> error + bool" where
  "belongs d user o1 =
     (case user_handle d user of
        Inl e \<Rightarrow> Inl (Message (''directory: '' @ err_text e))
      | Inr h \<Rightarrow>
          if h = Some o1 then Inr True
          else (case is_member d user o1 of
                  Inl e \<Rightarrow> Inl (Message (''directory: '' @ err_text e))
                | Inr b \<Rightarrow> Inr b))"

definition person_may_act :: "directory \<Rightarrow> string \<Rightarrow> string \<Rightarrow> ('z auth_world_scheme, bool) io" where
  "person_may_act d user o1 =
     (\<lambda>s. case map_of (membership s) (user, o1) of
            Some (yes, t) \<Rightarrow>
              if now s - t < MEMBERSHIP_TTL then (Inr yes, s)
              else bindE (liftE (belongs d user o1)) (\<lambda>yes.
                   bindE (putE (keep_membership (user, o1) yes)) (\<lambda>_. returnE yes)) s
          | None \<Rightarrow>
              bindE (liftE (belongs d user o1)) (\<lambda>yes.
              bindE (putE (keep_membership (user, o1) yes)) (\<lambda>_. returnE yes)) s)"

definition may_act :: "source \<Rightarrow> string \<Rightarrow> string \<Rightarrow> ('z auth_world_scheme, bool) io" where
  "may_act src user o1 =
     (case src of
        Absent \<Rightarrow> returnE (user = o1)
      | Unavailable \<Rightarrow> failE (Message ''directory unavailable'')
      | Directory d \<Rightarrow>
          if CHR ''@'' \<in> set user then person_may_act d user o1
          else (case user_by_handle d user of
                  Inl e \<Rightarrow> failE (Message (''directory: '' @ err_text e))
                | Inr None \<Rightarrow> returnE (user = o1)
                | Inr (Some email) \<Rightarrow> person_may_act d email o1))"

definition IMAGE_PUBLIC_KEY :: string where
  "IMAGE_PUBLIC_KEY = ''image/public''"

definition image_is_public :: "string \<Rightarrow> string \<Rightarrow> ('z world_scheme, bool) io" where
  "image_is_public o1 n1 =
     (case image_pool_coords o1 n1 of
        (o2, n2) \<Rightarrow>
          bindE (repo_db_exists o2 n2) (\<lambda>there.
          if \<not> there then returnE False
          else bindE (db_for o2 n2) (\<lambda>h.
               bindE (db_get h IMAGE_PUBLIC_KEY) (\<lambda>v. returnE (v = Some ''1'')))))"

definition unwrap_or :: "bool \<Rightarrow> ('s, bool) io \<Rightarrow> ('s, bool) io" where
  "unwrap_or b m = bindE (tryE m) (\<lambda>r. returnE (case r of Inl _ \<Rightarrow> b | Inr x \<Rightarrow> x))"

text \<open>The visibility is read only for a pull, the directory only for a caller who is somebody.\<close>

definition allow ::
    "authlib \<Rightarrow> source \<Rightarrow> string option \<Rightarrow> string option \<Rightarrow> string \<Rightarrow> string \<Rightarrow> bool \<Rightarrow>
     ('z auth_world_scheme, refusal + string option) io" where
  "allow L src trusted hdr o1 n1 write =
     bindE (caller L trusted hdr) (\<lambda>w.
     case w of
       Inl r \<Rightarrow> returnE (Inl r)
     | Inr who \<Rightarrow>
         if who = Some o1 then returnE (Inr who)
         else bindE (if write then returnE False else unwrap_or False (image_is_public o1 n1)) (\<lambda>public.
              if public then returnE (Inr who)
              else bindE (case who of None \<Rightarrow> returnE False | Some u \<Rightarrow> unwrap_or False (may_act src u o1)) (\<lambda>member.
                   if member then returnE (Inr who)
                   else returnE (Inl (case who of
                       None \<Rightarrow> Challenge (Some (''repository:'' @ o1 @ ''/'' @ n1 @ '':''
                         @ (if write then ''pull,push'' else ''pull'')))
                     | Some _ \<Rightarrow> Denied)))))"

section \<open>Looking a credential up\<close>

text \<open>What reading leaves alone: everything but the clock and the cache of misses.\<close>

definition same_store :: "'z auth_world_scheme \<Rightarrow> 'z auth_world_scheme \<Rightarrow> bool" where
  "same_store s t \<longleftrightarrow> os t = os s \<and> dbs t = dbs s \<and> now t = now s \<and> membership t = membership s"

lemma same_store_refl: "same_store s s"
  by (simp add: same_store_def)

lemma same_store_trans: "same_store s t \<Longrightarrow> same_store t u \<Longrightarrow> same_store s u"
  by (simp add: same_store_def)

lemma stored_body_result:
  assumes "stored_body k s = (res, t)"
  shows "\<exists>c. t = s\<lparr>clock := c\<rparr>" and "res = Inr v \<Longrightarrow> v = map_of (os s) k"
  using assms
  by (auto simp: stored_body_def io_read_def io_step_def bindE_def getE_def split: option.splits)

lemma lookup_store: "lookup k s = (res, t) \<Longrightarrow> same_store s t"
proof (cases "known_miss k s")
  case False
  assume l: "lookup k s = (res, t)"
  obtain v u where u: "stored_body k s = (v, u)" by fastforce
  then obtain c where "u = s\<lparr>clock := c\<rparr>" using stored_body_result(1) by blast
  with l False u show ?thesis
    by (auto simp: lookup_def same_store_def bindE_def putE_def keep_miss_def forget_def Let_def split: sum.splits option.splits)
qed (simp add: lookup_def same_store_def)

lemma lookup_hit:
  assumes "lookup k s = (Inr (Some o1), t)"
  obtains b where "map_of (os s) k = Some b" and "o1 = from_utf8_lossy b"
proof -
  from assms have "\<not> known_miss k s" by (auto simp: lookup_def)
  moreover obtain v u where u: "stored_body k s = (v, u)" by fastforce
  ultimately obtain b where "v = Inr (Some b)" "o1 = from_utf8_lossy b"
    using assms by (auto simp: lookup_def bindE_def putE_def split: sum.splits option.splits)
  with stored_body_result(2) [OF u] that show ?thesis by metis
qed

lemma lookup_miss:
  assumes "lookup k s = (Inr None, t)"
  shows "known_miss k s \<or> map_of (os s) k = None"
proof (cases "known_miss k s")
  case False
  obtain v u where u: "stored_body k s = (v, u)" by fastforce
  with assms False have "v = Inr None" by (auto simp: lookup_def bindE_def putE_def split: sum.splits option.splits)
  with stored_body_result(2) [OF u] show ?thesis by simp
qed simp

text \<open>The cache holds misses only, each true when it was noted, and no more than the cap.\<close>

definition misses_true :: "(nat \<times> string) set \<Rightarrow> 'z auth_world_scheme \<Rightarrow> bool" where
  "misses_true M s \<longleftrightarrow>
     (\<forall>k t v. (k, t, v) \<in> set (acache s) \<longrightarrow> v = None \<and> (t, k) \<in> M \<and> t \<le> now s)
     \<and> distinct (map fst (acache s)) \<and> length (acache s) \<le> NEG_CAP"

lemma misses_true_frames [simp]:
  "misses_true M (s\<lparr>clock := c\<rparr>) = misses_true M s" "misses_true M (s\<lparr>os := ob\<rparr>) = misses_true M s"
  "clock_free (misses_true M)"
  by (simp_all add: misses_true_def clock_free_def)

lemma length_update_le: "length (AList.update k v al) \<le> Suc (length al)"
  by (induction al) auto

lemma length_update_key: "k \<in> fst ` set al \<Longrightarrow> length (AList.update k v al) = length al"
  by (induction al) auto

lemma set_update_sub: "set (AList.update k v al) \<subseteq> insert (k, v) (set al)"
  by (induction al) auto

lemma set_delete_sub: "set (AList.delete k al) \<subseteq> set al"
  by (auto simp: AList.delete_eq)

lemma misses_true_forget: "misses_true M s \<Longrightarrow> misses_true M (forget k s)"
proof -
  assume m: "misses_true M s"
  have "length (AList.delete k (acache s)) \<le> length (acache s)" by (simp add: AList.delete_eq)
  with m set_delete_sub [of k "acache s"] show ?thesis
    unfolding misses_true_def forget_def by (auto simp: distinct_delete)
qed

lemma misses_true_keep:
  assumes "misses_true M s"
  shows "misses_true (insert (now s, k) M) (keep_miss k s)"
proof -
  define c where "c = (if length (acache s) \<ge> NEG_CAP then (let swept = filter (\<lambda>(_, e). fresh_miss (now s) e) (acache s)
    in if length swept \<ge> NEG_CAP then [] else swept) else acache s)"
  have s: "keep_miss k s = s\<lparr>acache := AList.update k (now s, None) c\<rparr>" by (simp add: keep_miss_def c_def Let_def)
  have "length c < NEG_CAP" by (auto simp: c_def Let_def NEG_CAP_def)
  then have "length (AList.update k (now s, None) c) \<le> NEG_CAP" using length_update_le [of k "(now s, None)" c] by linarith
  moreover have sub: "set c \<subseteq> set (acache s)" by (auto simp: c_def Let_def)
  moreover have "distinct (map fst c)" using assms by (auto simp: c_def Let_def misses_true_def distinct_map_filter)
  ultimately show ?thesis
    using assms set_update_sub [of k "(now s, None)" c] unfolding s misses_true_def
    by (auto simp: distinct_update)
qed

lemma lookup_misses:
  assumes "misses_true M s"
  shows "misses_true (if map_of (os s) k = None then insert (now s, k) M else M) (snd (lookup k s))"
proof (cases "known_miss k s")
  case True
  with assms show ?thesis by (auto simp: lookup_def misses_true_def)
next
  case False
  obtain v u where u: "stored_body k s = (v, u)" by fastforce
  then obtain c where c: "u = s\<lparr>clock := c\<rparr>" using stored_body_result(1) by blast
  note body = stored_body_result(2) [OF u]
  have mono: "misses_true (insert x M) s" for x using assms by (auto simp: misses_true_def)
  have keep: "misses_true (insert (now s, k) M) (keep_miss k u)" using misses_true_keep [of M u k] assms c by simp
  have fgt: "misses_true M (forget k u)" using misses_true_forget [of M u k] assms c by simp
  show ?thesis
    using False u body assms mono keep fgt c
    by (cases v) (auto simp: lookup_def bindE_def putE_def split: option.splits)
qed

text \<open>Registering and revoking only take answers out of the cache.\<close>

lemma keeps_misses_forget: "keeps (misses_true M) (putE (forget k))"
  by (rule keeps_putE) (rule misses_true_forget)

lemma keeps_misses_os: "keeps (misses_true M) (os_put k v)" "keeps (misses_true M) (os_delete k)"
  "keeps (misses_true M) (stored_body k)" "keeps (misses_true M) (os_list p)"
  unfolding os_put_def os_delete_def stored_body_def os_list_def
  by (intro keeps_intros keeps_io_write keeps_io_read keeps_io_step; simp)+

lemmas keeps_misses = keeps_misses_forget keeps_misses_os

lemma keeps_misses_ops:
  "keeps (misses_true M) (revoke_token_digest L d)" "keeps (misses_true M) (remove_ssh_key L fp)"
  "keeps (misses_true M) (add_ssh_key L o1 fp)" "keeps (misses_true M) (create_token L rnd o1)"
  unfolding revoke_token_digest_def remove_ssh_key_def add_ssh_key_def create_token_def Let_def
  by (intro keeps_intros keeps_misses)+

lemma keeps_misses_rotate: "keeps (misses_true M) (rotate_user_key L o1 priv fp old)"
  unfolding rotate_user_key_def by (intro keeps_intros keeps_misses keeps_misses_ops)

lemma keeps_misses_revoke_all: "keeps (misses_true M) (revoke_all L o1 locs n)"
proof (induction locs arbitrary: n)
  case (Cons loc locs)
  show ?case unfolding revoke_all.simps by (intro keeps_intros keeps_misses keeps_misses_ops Cons.IH)
qed (simp add: keeps_intros)

text \<open>
  A node over time, with the instants and keys at which a lookup of its own found nothing: lookups,
  its own registrations and revocations, and whatever the rest of the fleet does to the object store
  and the databases while time goes on. Any call may fail.
\<close>

inductive node_run :: "authlib \<Rightarrow> (nat \<times> string) set \<Rightarrow> 'z auth_world_scheme \<Rightarrow> bool" for L where
  run_start: "acache s = [] \<Longrightarrow> node_run L {} s"
| run_lookup: "node_run L M s \<Longrightarrow>
    node_run L (if map_of (os s) k = None then insert (now s, k) M else M) (snd (lookup k s))"
| run_add: "node_run L M s \<Longrightarrow> node_run L M (snd (add_ssh_key L o1 fp s))"
| run_remove: "node_run L M s \<Longrightarrow> node_run L M (snd (remove_ssh_key L fp s))"
| run_create: "node_run L M s \<Longrightarrow> node_run L M (snd (create_token L rnd o1 s))"
| run_revoke: "node_run L M s \<Longrightarrow> node_run L M (snd (revoke_token_digest L d s))"
| run_revoke_for: "node_run L M s \<Longrightarrow> node_run L M (snd (revoke_tokens_for L o1 s))"
| run_rotate: "node_run L M s \<Longrightarrow> node_run L M (snd (rotate_user_key L o1 priv fp old s))"
| run_others: "node_run L M s \<Longrightarrow> acache t = acache s \<Longrightarrow> now s \<le> now t \<Longrightarrow> node_run L M t"

lemma node_run_misses: "node_run L M s \<Longrightarrow> misses_true M s"
proof (induction rule: node_run.induct)
  case (run_revoke_for M s o1)
  have "keeps (misses_true M) (revoke_tokens_for L o1)"
    unfolding revoke_tokens_for_def by (intro keeps_intros keeps_misses keeps_misses_revoke_all)
  with run_revoke_for show ?case by (auto dest: keepsD)
next
  case (run_lookup M s k)
  show ?case by (rule lookup_misses [OF run_lookup.IH])
next
  case (run_others M s t)
  then show ?case by (fastforce simp: misses_true_def)
qed (auto simp: misses_true_def [of "{}"] intro: lookup_misses keepsD [OF keeps_misses_ops(1)] keepsD [OF keeps_misses_ops(2)]
    keepsD [OF keeps_misses_ops(3)] keepsD [OF keeps_misses_ops(4)] keepsD [OF keeps_misses_rotate])

text \<open>
  C34. The answers of a node about credentials are fresh. Whatever the node and the rest of the
  fleet did before, a lookup that names an owner reads it from the object store at that moment, so a
  credential that was revoked anywhere opens nothing any more; a lookup that finds nothing tells the
  truth, or repeats what this node itself found less than a minute ago; and the memory of such
  misses never exceeds its cap, however many bogus credentials are tried.
\<close>

theorem credential_answers_are_fresh:
  assumes "node_run L M s" and "lookup k s = (Inr r, t)"
  shows "(case r of
      Some o1 \<Rightarrow> map_option from_utf8_lossy (map_of (os s) k) = Some o1
    | None \<Rightarrow> map_of (os s) k = None \<or> (\<exists>\<tau>. (\<tau>, k) \<in> M \<and> \<tau> \<le> now s \<and> now s - \<tau> < CACHE_TTL))
    \<and> length (acache s) \<le> NEG_CAP"
proof -
  note m = node_run_misses [OF assms(1)]
  have "\<exists>\<tau>. (\<tau>, k) \<in> M \<and> \<tau> \<le> now s \<and> now s - \<tau> < CACHE_TTL" if "known_miss k s"
  proof -
    from that obtain \<tau> where "(k, \<tau>, None) \<in> set (acache s)" "now s - \<tau> < CACHE_TTL"
      by (auto simp: known_miss_def split: option.splits dest: map_of_SomeD)
    with m show ?thesis by (auto simp: misses_true_def)
  qed
  with m assms(2) show ?thesis
    by (auto simp: misses_true_def split: option.splits dest: lookup_miss elim: lookup_hit)
qed

text \<open>A fleet of two: the key is added by another process while this node remembers the miss.\<close>

definition plain_lib :: authlib where
  "plain_lib = \<lparr>sha256 = (\<lambda>b. CHR ''s'' # b), os_path = id, base64_decode = Some, decode_claims = (\<lambda>_. None)\<rparr>"

definition auth_start :: auth_world where
  "auth_start = \<lparr>clock = 0, faults = (\<lambda>_. None), landed = (\<lambda>_. True), now = 100, cmode = Redis,
     centries = [], os = [], dbs = [], disk = [], dirs = [], unowned = None, handles = [], synced = [],
     reconciled = [], manifests = \<lparr>mmap = [], morder = [], mbytes = 0\<rparr>, acache = [], membership = []\<rparr>"

definition after_miss :: auth_world where
  "after_miss = auth_start\<lparr>clock := 1, now := 130, os := [(''auth/token/73'', ''alice'')], acache := [(''auth/token/73'', (100, None))]\<rparr>"

lemma miss_hides_new_key:
  "lookup ''auth/token/73'' auth_start = (Inr None, auth_start\<lparr>clock := 1, acache := [(''auth/token/73'', (100, None))]\<rparr>)"
  "lookup ''auth/token/73'' after_miss = (Inr None, after_miss)"
  by (simp_all add: lookup_def known_miss_def after_miss_def auth_start_def stored_body_def io_read_def io_step_def getE_def putE_def
      bindE_def keep_miss_def CACHE_TTL_def NEG_CAP_def)

lemma after_miss_run: "node_run plain_lib {(100, ''auth/token/73'')} after_miss"
proof -
  have "node_run plain_lib {} auth_start" by (rule run_start) (simp add: auth_start_def)
  from run_lookup [OF this, of "''auth/token/73''"]
  have "node_run plain_lib {(100, ''auth/token/73'')} (auth_start\<lparr>clock := 1, acache := [(''auth/token/73'', (100, None))]\<rparr>)"
    by (simp add: miss_hides_new_key) (simp add: auth_start_def)
  then show ?thesis by (rule run_others) (simp_all add: after_miss_def auth_start_def)
qed

theorem credential_answers_are_fresh_witness:
  "(\<exists>\<tau>. (\<tau>, ''auth/token/73'') \<in> {(100, ''auth/token/73'')} \<and> \<tau> \<le> now after_miss \<and> now after_miss - \<tau> < CACHE_TTL)
    \<and> length (acache after_miss) \<le> NEG_CAP"
  using credential_answers_are_fresh [OF after_miss_run miss_hides_new_key(2)] by (simp add: after_miss_def)

section \<open>Rotating a key\<close>

text \<open>What the paths of an object store promise: plain segments stay as they are, each on its own.\<close>

definition plain_path :: "string \<Rightarrow> bool" where
  "plain_path p \<longleftrightarrow> list_all (\<lambda>seg. seg \<noteq> [] \<and> list_all is_ascii_alphanumeric seg) (split_on (CHR ''/'') p)"

definition path_lib :: "authlib \<Rightarrow> bool" where
  "path_lib L \<longleftrightarrow> (\<forall>p. plain_path p \<longrightarrow> os_path L p = p) \<and> (\<forall>p q. plain_path p \<longrightarrow> prefix p (os_path L (p @ ''/'' @ q)))"

text \<open>No two inputs with one digest are known.\<close>

definition hash_lib :: "authlib \<Rightarrow> bool" where
  "hash_lib L \<longleftrightarrow> inj (sha256 L) \<and> (\<forall>x. sha256 L x \<noteq> [])"

lemma hex_byte_length: "length (hex_byte c) = 2"
proof -
  have "byte_of c < 16 ^ 2" by (simp add: byte_of_def)
  then have "length (to_radix 16 (byte_of c)) \<le> 2" by (intro length_to_radix) auto
  then show ?thesis by (simp add: hex_byte_def pad_left_def)
qed

lemma hex_byte_inj: "hex_byte a = hex_byte b \<longleftrightarrow> a = b"
proof
  assume "hex_byte a = hex_byte b"
  then have "digits_value 16 0 (hex_byte a) = digits_value 16 0 (hex_byte b)" by simp
  then have "byte_of a = byte_of b"
    by (simp add: hex_byte_def pad_left_def digits_value_zeros digits_value_to_radix)
  then show "a = b" by (simp add: byte_of_def)
qed simp

lemma hex_encode_inj: "hex_encode a = hex_encode b \<longleftrightarrow> a = b"
proof (induction a arbitrary: b)
  case Nil
  show ?case using hex_byte_length by (cases b) (auto simp: hex_encode_def, metis length_0_conv zero_neq_numeral)
next
  case (Cons x a)
  show ?case
  proof (cases b)
    case Nil
    then show ?thesis using hex_byte_length [of x] by (auto simp: hex_encode_def)
  next
    case (Cons y b)
    have "hex_byte x @ hex_encode a = hex_byte y @ hex_encode b' \<longleftrightarrow> hex_byte x = hex_byte y \<and> hex_encode a = hex_encode b'" for b'
      by (rule append_eq_append_conv) (simp add: hex_byte_length)
    with Cons.IH Cons show ?thesis by (simp add: hex_encode_def hex_byte_inj)
  qed
qed

lemma hex_encode_plain:
  assumes "bs \<noteq> []"
  shows "hex_encode bs \<noteq> []" and "list_all is_ascii_alphanumeric (hex_encode bs)" and "CHR ''/'' \<notin> set (hex_encode bs)"
proof -
  have digits: "set (hex_byte c) \<subseteq> set ''0123456789abcdef''" for c
    using set_to_radix [of 16 "byte_of c"] by (auto simp: hex_byte_def pad_left_def)
  then have all: "set (hex_encode bs) \<subseteq> set ''0123456789abcdef''" by (fastforce simp: hex_encode_def)
  have "length (hex_encode bs) = 2 * length bs"
    by (induction bs) (simp_all add: hex_encode_def hex_byte_length)
  with assms show "hex_encode bs \<noteq> []" by (metis length_0_conv mult_eq_0_iff zero_neq_numeral)
  have "is_ascii_alphanumeric c" if "c \<in> set ''0123456789abcdef''" for c
    using that by (auto simp: is_ascii_alphanumeric_def in_range_def byte_of_def)
  with all show "list_all is_ascii_alphanumeric (hex_encode bs)" by (auto simp: list_all_iff)
  show "CHR ''/'' \<notin> set (hex_encode bs)" using all by auto
qed

lemma sshkey_key_plain:
  assumes "path_lib L" and "hash_lib L"
  shows "sshkey_key L fp = ''auth/sshkey/'' @ hex_encode (sha256 L fp)"
proof -
  let ?h = "hex_encode (sha256 L fp)"
  from assms(2) have "sha256 L fp \<noteq> []" by (simp add: hash_lib_def)
  note h = hex_encode_plain [OF this]
  have "split_on (CHR ''/'') (''auth/sshkey/'' @ ?h) = [''auth'', ''sshkey'', ?h]"
    using split_on_id [OF h(3)] split_on_append [of "CHR ''/''" "''sshkey''" ?h] split_on_append [of "CHR ''/''" "''auth''" "''sshkey/'' @ ?h"]
    by simp
  with h have "plain_path (''auth/sshkey/'' @ ?h)"
    by (simp add: plain_path_def is_ascii_alphanumeric_def in_range_def byte_of_def)
  with assms(1) show ?thesis by (simp add: sshkey_key_def path_lib_def)
qed

lemma sshkey_key_inj:
  assumes "path_lib L" and "hash_lib L"
  shows "sshkey_key L a = sshkey_key L b \<longleftrightarrow> a = b"
  using assms(2) by (auto simp: sshkey_key_plain [OF assms] hex_encode_inj hash_lib_def dest: injD)

lemma userkey_apart:
  assumes "path_lib L" and "hash_lib L"
  shows "userkey_key L o1 \<noteq> sshkey_key L fp"
proof -
  have "plain_path ''auth/userkey''" by (simp add: plain_path_def is_ascii_alphanumeric_def in_range_def byte_of_def)
  with assms(1) have "prefix ''auth/userkey'' (os_path L (''auth/userkey'' @ ''/'' @ o1))" unfolding path_lib_def by blast
  then show ?thesis unfolding sshkey_key_plain [OF assms] by (auto simp: userkey_key_def)
qed

lemma os_put_os: "os_put k v s = (res, t) \<Longrightarrow> os t = AList.update k v (os s) \<or> (\<exists>e. res = Inl e) \<and> os t = os s"
  and os_delete_os: "os_delete k s = (res, t) \<Longrightarrow> os t = AList.delete k (os s) \<or> (\<exists>e. res = Inl e) \<and> os t = os s"
  by (auto simp: os_put_def os_delete_def io_write_def Let_def split: option.splits if_splits)

lemma add_ssh_key_os:
  "add_ssh_key L o1 fp s = (res, t) \<Longrightarrow> os t = AList.update (sshkey_key L fp) o1 (os s) \<or> (\<exists>e. res = Inl e) \<and> os t = os s"
  by (cases rule: bindE_cases [of "os_put (sshkey_key L fp) o1" s "\<lambda>_. putE (forget (sshkey_key L fp))"])
    (auto simp: add_ssh_key_def putE_def forget_def dest: os_put_os)

lemma remove_ssh_key_os:
  "remove_ssh_key L fp s = (res, t) \<Longrightarrow> os t = AList.delete (sshkey_key L fp) (os s) \<or> (\<exists>e. res = Inl e) \<and> os t = os s"
  by (cases rule: bindE_cases [of "os_delete (sshkey_key L fp)" s "\<lambda>_. putE (forget (sshkey_key L fp))"])
    (auto simp: remove_ssh_key_def putE_def forget_def dest: os_delete_os)

text \<open>
  C15. Rotating a key locks nobody out. Whichever call of a rotation fails, and whether the failed
  call took effect or not, the private key that workspaces are given afterwards belongs to a
  fingerprint that opens the account: the old one, which is then still registered, or the new one,
  which is registered before. A rotation that succeeds leaves the new key in place and the old one
  revoked. Since a rotation may stop at any of its calls, this holds at every moment of it.
\<close>

theorem rotation_never_locks_out:
  assumes "path_lib L" and "hash_lib L"
    and "\<And>f. old = Some f \<Longrightarrow> map_of (os s) (sshkey_key L f) = Some o1"
    and "rotate_user_key L o1 priv fp old s = (res, t)"
  shows "(map_of (os t) (userkey_key L o1) = map_of (os s) (userkey_key L o1)
        \<and> (\<forall>f. old = Some f \<longrightarrow> map_of (os t) (sshkey_key L f) = Some o1)
      \<or> map_of (os t) (userkey_key L o1) = Some priv \<and> map_of (os t) (sshkey_key L fp) = Some o1)
    \<and> (res = Inr () \<longrightarrow> map_of (os t) (userkey_key L o1) = Some priv \<and> map_of (os t) (sshkey_key L fp) = Some o1
        \<and> (\<forall>f. old = Some f \<longrightarrow> f \<noteq> fp \<longrightarrow> map_of (os t) (sshkey_key L f) = None))"
proof -
  note keys = sshkey_key_inj [OF assms(1,2)] userkey_apart [OF assms(1,2)] userkey_apart [OF assms(1,2), symmetric]
  note lookups = update_conv' delete_conv' keys
  obtain r1 s1 where s1: "add_ssh_key L o1 fp s = (r1, s1)" by fastforce
  note o1 = add_ssh_key_os [OF s1]
  show ?thesis
  proof (cases r1)
    case (Inl e)
    with s1 assms(4) have "t = s1" "res = Inl e" by (auto simp: rotate_user_key_def)
    with o1 assms(3) show ?thesis by (auto simp: lookups)
  next
    case (Inr u)
    obtain r2 s2 where s2: "os_put (userkey_key L o1) priv s1 = (r2, s2)" by fastforce
    note o2 = os_put_os [OF s2]
    from Inr o1 have o1: "os s1 = AList.update (sshkey_key L fp) o1 (os s)" by simp
    show ?thesis
    proof (cases r2)
      case (Inl e)
      with s1 s2 \<open>r1 = Inr u\<close> assms(4) have "t = s2" "res = Inl e" by (auto simp: rotate_user_key_def)
      with o1 o2 assms(3) show ?thesis by (auto simp: lookups)
    next
      case (Inr u2)
      with o1 o2 have o2: "os s2 = AList.update (userkey_key L o1) priv (AList.update (sshkey_key L fp) o1 (os s))" by simp
      have run: "(case old of None \<Rightarrow> returnE () | Some f \<Rightarrow> if f \<noteq> fp then remove_ssh_key L f else returnE ()) s2 = (res, t)"
        using assms(4) s1 s2 Inr \<open>r1 = Inr u\<close> by (simp add: rotate_user_key_def)
      with o2 show ?thesis
        by (cases old) (auto simp: lookups split: if_splits dest!: remove_ssh_key_os)
    qed
  qed
qed

theorem rotation_never_locks_out_witness:
  "\<exists>t. rotate_user_key plain_lib ''alice'' ''NEW'' ''b'' (Some ''a'')
        (auth_start\<lparr>os := [(sshkey_key plain_lib ''a'', ''alice'')], faults := (\<lambda>i. if i = 1 then Some (Message ''timeout'') else None)\<rparr>)
      = (Inl (Message ''timeout''), t)
    \<and> map_of (os t) (userkey_key plain_lib ''alice'') = Some ''NEW'' \<and> map_of (os t) (sshkey_key plain_lib ''b'') = Some ''alice''"
proof -
  let ?s = "auth_start\<lparr>os := [(sshkey_key plain_lib ''a'', ''alice'')], faults := (\<lambda>i. if i = 1 then Some (Message ''timeout'') else None)\<rparr>"
  have L: "path_lib plain_lib" "hash_lib plain_lib" by (auto simp: path_lib_def hash_lib_def plain_lib_def inj_def)
  obtain t where t: "rotate_user_key plain_lib ''alice'' ''NEW'' ''b'' (Some ''a'') ?s = (Inl (Message ''timeout''), t)"
    "os t = AList.update (userkey_key plain_lib ''alice'') ''NEW'' (AList.update (sshkey_key plain_lib ''b'') ''alice'' (os ?s))"
    by (simp add: rotate_user_key_def add_ssh_key_def os_put_def io_write_def putE_def forget_def bindE_def auth_start_def)
  from rotation_never_locks_out [OF L _ t(1)] t userkey_apart [OF L]
  show ?thesis by (auto simp: update_conv' auth_start_def)
qed

section \<open>Access is earned\<close>

lemma the_db_upd_id [simp]: "the_db (upd_db h id s) k = the_db s k"
  by (auto simp: the_db_def upd_db_def update_conv')

lemma db_for_InrD: "db_for o1 n s = (Inr h, t) \<Longrightarrow> h = repo_id o1 n \<and> the_db t = the_db s"
  by (auto simp: db_for_def fun_eq_iff elim!: bindE_InrE dest!: io_write_InrD split: if_splits)

lemma db_get_result: "db_get h k s = (res, t) \<Longrightarrow> the_db t = the_db s \<and> (\<forall>v. res = Inr v \<longrightarrow> v = kv_get (the_db s h) k)"
  by (auto simp: db_get_def io_read_def io_step_def bindE_def getE_def fun_eq_iff the_db_def split: option.splits)

lemma repo_db_exists_db: "repo_db_exists o1 n s = (res, t) \<Longrightarrow> the_db t = the_db s"
  by (auto simp: repo_db_exists_def io_read_def io_step_def bindE_def getE_def fun_eq_iff the_db_def split: option.splits if_splits)

lemma tryE_InrD: "tryE m s = (Inr r, t) \<Longrightarrow> m s = (r, t)"
  by (auto simp: tryE_def intro: prod_eqI)

lemma tryE_not_Inl [simp]: "tryE m s \<noteq> (Inl e, t)"
  by (simp add: tryE_def)

lemma repo_public_true:
  assumes "repo_public o1 n s = (Inr True, t)"
  shows "kv_get (the_db s (repo_id o1 n)) PUBLIC_KEY = Some ''1''" and "kv_get (the_db s (repo_id o1 n)) (repo_key o1 n) \<noteq> None"
  using assms unfolding repo_public_def
  by (auto elim!: bindE_InrE split: if_splits dest!: tryE_InrD db_for_InrD db_get_result repo_db_exists_db)

lemma image_is_public_true:
  assumes "image_is_public o1 n s = (Inr True, t)"
  shows "kv_get (the_db s (repo_id ''img'' (o1 @ ''/'' @ n))) IMAGE_PUBLIC_KEY = Some ''1''"
  using assms unfolding image_is_public_def image_pool_coords_def
  by (auto elim!: bindE_InrE split: if_splits dest!: db_for_InrD db_get_result repo_db_exists_db)

text \<open>A token that is in the object store at this moment and names its owner.\<close>

definition live_token :: "authlib \<Rightarrow> string \<Rightarrow> string \<Rightarrow> 'z auth_world_scheme \<Rightarrow> bool" where
  "live_token L t o1 s \<longleftrightarrow> map_option from_utf8_lossy (map_of (os s) (token_key L t)) = Some o1"

lemma owner_for_token_live:
  assumes "tryE (owner_for_token L t) s = (Inr r, u)"
  shows "same_store s u" and "r = Inr (Some o1) \<Longrightarrow> live_token L t o1 s"
proof -
  from assms obtain res where l: "lookup (token_key L t) s = (res, u)" "r = res"
    by (auto simp: owner_for_token_def dest!: tryE_InrD)
  from lookup_store [OF l(1)] show "same_store s u" .
  show "live_token L t o1 s" if "r = Inr (Some o1)"
    using l that by (auto simp: live_token_def elim!: lookup_hit)
qed

text \<open>
  C13. Nobody gets past the gate of the git listener without having earned it. A caller that is let
  through to a repository is its owner, by the word of a peer or by a token that is in the object
  store at that moment and was sent under the owner's name or git's placeholder; or it only reads,
  and the repository exists and is public. No error on the way widens this, and a token that does not
  verify is refused, never taken for no token.
\<close>

theorem git_access_is_earned:
  assumes "git_gate L trusted hdr o1 n1 read_only s = (Inr (Inr (who, o2, n2)), t)"
  shows "(who = Some o2 \<and> (trusted = Some o2 \<or>
        trusted = None \<and> (\<exists>user tok. basic_creds L hdr = Some (user, tok) \<and> live_token L tok o2 s \<and> user \<in> {o2, ''x''}))
    \<or> read_only \<and> kv_get (the_db s (repo_id o2 n2)) PUBLIC_KEY = Some ''1''
        \<and> kv_get (the_db s (repo_id o2 n2)) (repo_key o2 n2) \<noteq> None)
    \<and> (trusted = None \<and> basic_creds L hdr \<noteq> None \<longrightarrow> who \<noteq> None)"
proof -
  from assms obtain u where c: "git_caller L trusted hdr s = (Inr (Inr who), u)" and pp: "parse_repo_pair o1 n1 = Some (o2, n2)"
    and g: "bindE (tryE (repo_public o2 n2)) (\<lambda>p. returnE (if \<not> authorize who o2 ((case p of Inl _ \<Rightarrow> False | Inr b \<Rightarrow> b) \<and> read_only)
      then Inl (if who = None then Challenge None else Denied) else Inr (who, o2, n2))) u = (Inr (Inr (who, o2, n2)), t)"
    unfolding git_gate_def Let_def
    by (auto elim!: bindE_InrE split: sum.splits option.splits prod.splits if_splits)
  from c have u: "same_store s u" and who: "who = Some x \<Longrightarrow> trusted = Some x \<or> trusted = None \<and>
      (\<exists>user tok. basic_creds L hdr = Some (user, tok) \<and> live_token L tok x s \<and> user \<in> {x, ''x''})" for x
    unfolding git_caller_def
    by (auto simp: user_names_def GIT_PLACEHOLDER_def same_store_refl elim!: bindE_InrE
        split: option.splits prod.splits sum.splits if_splits dest: owner_for_token_live)
  from g obtain p v where p: "repo_public o2 n2 u = (p, v)" and a: "authorize who o2 (p = Inr True \<and> read_only)"
    by (auto elim!: bindE_InrE dest!: tryE_InrD split: sum.splits if_splits)
  from u have db: "the_db u = the_db s" by (simp add: same_store_def the_db_def fun_eq_iff)
  from c have "trusted = None \<and> basic_creds L hdr \<noteq> None \<longrightarrow> who \<noteq> None"
    by (auto simp: git_caller_def elim!: bindE_InrE split: option.splits prod.splits sum.splits if_splits)
  moreover from a consider "p = Inr True" "read_only" | "who = Some o2" by (auto simp: authorize_def)
  ultimately show ?thesis
    by cases (use p repo_public_true [of o2 n2 u] db who in auto)
qed

definition open_world :: auth_world where
  "open_world = auth_start\<lparr>os := [(token_key plain_lib ''t'', ''alice'')]\<rparr>"

lemma open_creds: "basic_creds plain_lib (Some ''Basic x:t'') = Some (''x'', ''t'')"
  by (simp add: basic_creds_def scheme_def is_char_boundary_def eq_ignore_ascii_case_def starts_with_def plain_lib_def
      trim_start_def white_spaces_def strip_prefix_def byte_of_def in_range_def)

lemma open_gate:
  "\<exists>t. git_gate plain_lib None (Some ''Basic x:t'') ''alice'' ''web.git'' False open_world = (Inr (Inr (Some ''alice'', ''alice'', ''web'')), t)"
proof -
  have "from_utf8_lossy ''alice'' = ''alice''" by (rule from_utf8_lossy_valid) (simp add: byte_of_def)
  then have "git_caller plain_lib None (Some ''Basic x:t'') open_world = (Inr (Inr (Some ''alice'')), open_world\<lparr>clock := 2\<rparr>)"
    by (simp add: git_caller_def open_creds owner_for_token_def lookup_def known_miss_def open_world_def auth_start_def stored_body_def io_read_def
        io_step_def getE_def putE_def bindE_def tryE_def forget_def user_names_def GIT_PLACEHOLDER_def)
  moreover have "parse_repo_pair ''alice'' ''web.git'' = Some (''alice'', ''web'')"
    by (simp add: parse_repo_pair_def strip_suffix_def suffix_to_prefix valid_segment_def starts_with_def is_ascii_alphanumeric_def in_range_def byte_of_def)
  ultimately show ?thesis
    by (auto simp: git_gate_def bindE_def tryE_def authorize_def Let_def split: sum.splits prod.splits)
qed

theorem git_access_is_earned_witness:
  "live_token plain_lib ''t'' ''alice'' open_world"
proof -
  obtain t where t: "git_gate plain_lib None (Some ''Basic x:t'') ''alice'' ''web.git'' False open_world = (Inr (Inr (Some ''alice'', ''alice'', ''web'')), t)"
    using open_gate by blast
  from git_access_is_earned [OF t] open_creds show ?thesis by auto
qed

text \<open>
  A \<open>Basic\<close> header that does not decode: the git listener takes it for no credential, the registry
  refuses it.
\<close>

lemma malformed_header_differs:
  assumes "basic_malformed L hdr"
  shows "git_caller L None hdr s = (Inr (Inr None), s)" and "caller L None hdr s = (Inr (Inl (Challenge None)), s)"
  using assms
  by (auto simp: basic_malformed_def git_caller_def caller_def basic_caller_def basic_token_def split: option.splits)

text \<open>What the registry takes for proof of who is asking.\<close>

definition proven :: "authlib \<Rightarrow> string option \<Rightarrow> string option \<Rightarrow> string \<Rightarrow> 'z auth_world_scheme \<Rightarrow> bool" where
  "proven L trusted hdr u s \<longleftrightarrow>
     trusted = Some u
     \<or> trusted = None \<and> (\<exists>tok. basic_creds L hdr = Some (u, tok) \<and> (live_token L tok u s \<or> verify_registry L tok = Some u))
     \<or> trusted = None \<and> (\<exists>v jwt. hdr = Some v \<and> scheme v ''Bearer'' = Some jwt \<and> verify_registry L jwt = Some u)"

lemma verified_owner: "verify_registry_token L jwt = RegOwner o1 \<Longrightarrow> verify_registry L jwt = Some o1"
  by (auto simp: verify_registry_token_def split: option.splits if_splits)

lemma caller_proven:
  assumes "caller L trusted hdr s = (Inr (Inr (Some u)), t)"
  shows "proven L trusted hdr u s"
proof (cases trusted)
  case None
  with assms obtain v where v: "hdr = Some v" by (auto simp: caller_def split: option.splits)
  show ?thesis
  proof (cases "scheme v ''Basic''")
    case None
    with assms v \<open>trusted = None\<close> show ?thesis
      by (auto simp: caller_def proven_def bearer_caller_def split: option.splits registry_token.splits dest: verified_owner)
  next
    case (Some e)
    with assms v \<open>trusted = None\<close> have b: "basic_caller L hdr s = (Inr (Inr (Some u)), t)" by (simp add: caller_def)
    then obtain user tok where "basic_creds L hdr = Some (user, tok)" by (auto simp: basic_caller_def basic_token_def split: option.splits)
    with b \<open>trusted = None\<close> show ?thesis
      by (auto simp: basic_caller_def basic_token_def basic_user_names_def user_names_def proven_def elim!: bindE_InrE
          split: option.splits sum.splits if_splits registry_token.splits dest: owner_for_token_live verified_owner)
  qed
qed (use assms in \<open>auto simp: caller_def proven_def\<close>)

lemma caller_store: "caller L trusted hdr s = (res, t) \<Longrightarrow> same_store s t"
  unfolding caller_def basic_caller_def
  by (auto simp: same_store_refl bindE_def split: option.splits sum.splits if_splits prod.splits
      dest: owner_for_token_live(1))

lemma unwrap_or_result:
  assumes "unwrap_or False m s = (Inr b, t)"
  obtains r where "m s = (r, t)" and "b \<longleftrightarrow> r = Inr True"
  using assms unfolding unwrap_or_def
  by (elim bindE_InrE) (auto dest!: tryE_InrD split: sum.splits)

lemma unwrap_or_true: "unwrap_or False m s = (Inr True, t) \<Longrightarrow> m s = (Inr True, t)"
  by (auto elim: unwrap_or_result)

text \<open>The person a caller stands for, and what makes that person a member.\<close>

definition person_of :: "directory \<Rightarrow> string \<Rightarrow> string \<Rightarrow> bool" where
  "person_of d u p \<longleftrightarrow> (if CHR ''@'' \<in> set u then p = u else user_by_handle d u = Inr (Some p))"

definition member_by :: "source \<Rightarrow> string \<Rightarrow> string \<Rightarrow> 'z auth_world_scheme \<Rightarrow> bool" where
  "member_by src u o1 s \<longleftrightarrow>
     (\<exists>d p. src = Directory d \<and> person_of d u p
        \<and> (belongs d p o1 = Inr True \<or> (\<exists>\<tau>. map_of (membership s) (p, o1) = Some (True, \<tau>) \<and> now s - \<tau> < MEMBERSHIP_TTL)))"

lemma person_may_act_true:
  "person_may_act d p o1 s = (Inr True, t) \<Longrightarrow>
     belongs d p o1 = Inr True \<or> (\<exists>\<tau>. map_of (membership s) (p, o1) = Some (True, \<tau>) \<and> now s - \<tau> < MEMBERSHIP_TTL)"
  by (auto simp: person_may_act_def bindE_def putE_def split: option.splits if_splits sum.splits)

lemma may_act_true:
  assumes "may_act src u o1 s = (Inr True, t)"
  shows "u = o1 \<or> member_by src u o1 s"
proof (cases src)
  case (Directory d)
  show ?thesis
  proof (cases "CHR ''@'' \<in> set u")
    case True
    with assms Directory show ?thesis
      by (auto simp: may_act_def member_by_def person_of_def dest: person_may_act_true)
  next
    case False
    with assms Directory show ?thesis
      by (auto simp: may_act_def member_by_def person_of_def split: sum.splits option.splits dest: person_may_act_true)
  qed
qed (use assms in \<open>auto simp: may_act_def\<close>)

lemma image_is_public_frame:
  "keeps (\<lambda>t. membership t = m \<and> now t = n) (image_is_public o1 n1)"
proof -
  have "keeps (\<lambda>t. membership t = m \<and> now t = n) (db_for o2 n2)" for o2 n2
    by (auto simp: keeps_def db_for_def io_write_def bindE_def upd_db_def Let_def split: option.splits)
  moreover have "keeps (\<lambda>t. membership t = m \<and> now t = n) (repo_db_exists o2 n2)" for o2 n2
    by (auto simp: keeps_def repo_db_exists_def io_read_def io_step_def bindE_def getE_def split: option.splits)
  moreover have "keeps (\<lambda>t. membership t = m \<and> now t = n) (db_get h k)" for h k
    unfolding db_get_def by (rule keeps_io_read) (simp add: clock_free_def)
  ultimately show ?thesis
    unfolding image_is_public_def image_pool_coords_def prod.case by (intro keeps_intros)
qed


definition team_directory :: directory where
  "team_directory = \<lparr>user_by_handle = (\<lambda>_. Inr (Some ''bob@x'')), user_handle = (\<lambda>_. Inr (Some ''bob'')),
     is_member = (\<lambda>u o1. Inr (o1 = ''acme''))\<rparr>"


text \<open>At its cap the memory of memberships drops only what is stale, so fresh answers can exceed it.\<close>

lemma memberships_exceed_cap:
  assumes "length (membership s) \<ge> MEMBERSHIP_CAP" and "k \<notin> fst ` set (membership s)"
    and "\<forall>(_, _, t)\<in>set (membership s). now s - t < MEMBERSHIP_TTL"
  shows "length (membership (keep_membership k yes s)) = Suc (length (membership s))"
proof -
  have "filter (\<lambda>(_, _, t). now s - t < MEMBERSHIP_TTL) (membership s) = membership s"
    using assms(3) by (auto intro: filter_True)
  moreover have "k \<notin> fst ` set m \<Longrightarrow> length (AList.update k v m) = Suc (length m)" for v m
    by (induction m) auto
  ultimately show ?thesis using assms(1,2) by (simp add: keep_membership_def)
qed

end
